(* ===== verification/Kwokka_Prelude.thy ===== *)
theory Kwokka_Prelude
  imports Main "HOL-Library.Word"
begin

text \<open>
  Shared vocabulary of the development: the machine integers of the source, the ways a
  Rust function can fail to return (a panic, undefined behaviour), checked arithmetic on
  \<open>usize\<close>, bounds-checked reads of arrays, and the lemmas on lists and words that the
  component theories share.
\<close>

unbundle bit_operations_syntax

type_synonym u8 = "8 word"
type_synonym u16 = "16 word"
type_synonym u32 = "32 word"
type_synonym u64 = "64 word"
type_synonym u128 = "128 word"

named_theorems packs \<open>round trips of bit-packed fields\<close>

section \<open>Execution outcomes\<close>

text \<open>
  A Rust function returns a value, panics (an explicit \<open>panic!\<close>, an index out of range,
  an arithmetic overflow in a checked build) or, in \<open>unsafe\<close> code whose contract is
  broken, has undefined behaviour. \<open>Result\<close> and \<open>Option\<close> values of the source are
  values of the sum and option types inside \<open>Ret\<close>.
\<close>

datatype 'a exec = Ret 'a | Panic | Undefined

fun exec_bind :: "'a exec \<Rightarrow> ('a \<Rightarrow> 'b exec) \<Rightarrow> 'b exec" where
  "exec_bind (Ret x) f = f x"
| "exec_bind Panic f = Panic"
| "exec_bind Undefined f = Undefined"

lemma exec_bind_eq_Ret [simp]:
  "exec_bind m f = Ret y \<longleftrightarrow> (\<exists>x. m = Ret x \<and> f x = Ret y)"
  by (cases m) auto

lemma exec_bind_cong [fundef_cong]:
  "m = m' \<Longrightarrow> (\<And>x. m' = Ret x \<Longrightarrow> f x = f' x) \<Longrightarrow> exec_bind m f = exec_bind m' f'"
  by (cases m') auto

section \<open>Arithmetic on usize\<close>

text \<open>A \<open>usize\<close> of the 64-bit targets the crate supports is a natural number below \<open>2 ^ 64\<close>.\<close>

definition usize_bound :: nat where
  "usize_bound = 2 ^ 64"

definition checked_add :: "nat \<Rightarrow> nat \<Rightarrow> nat option" where
  "checked_add a b = (if a + b < usize_bound then Some (a + b) else None)"

definition checked_mul :: "nat \<Rightarrow> nat \<Rightarrow> nat option" where
  "checked_mul a b = (if a * b < usize_bound then Some (a * b) else None)"

lemma checked_add_eq_Some [simp]:
  "checked_add a b = Some c \<longleftrightarrow> a + b < usize_bound \<and> c = a + b"
  by (auto simp: checked_add_def)

lemma checked_mul_eq_Some [simp]:
  "checked_mul a b = Some c \<longleftrightarrow> a * b < usize_bound \<and> c = a * b"
  by (auto simp: checked_mul_def)

section \<open>Bounds-checked reads\<close>

definition get_at :: "'a list \<Rightarrow> nat \<Rightarrow> 'a option" where
  "get_at xs i = (if i < length xs then Some (xs ! i) else None)"

lemma get_at_eq_Some [simp]: "get_at xs i = Some x \<longleftrightarrow> i < length xs \<and> xs ! i = x"
  by (auto simp: get_at_def)

lemma get_at_eq_None [simp]: "get_at xs i = None \<longleftrightarrow> length xs \<le> i"
  by (auto simp: get_at_def)

section \<open>Counting list positions\<close>

definition count_pos :: "('a \<Rightarrow> bool) \<Rightarrow> 'a list \<Rightarrow> nat" where
  "count_pos P xs = length (filter P xs)"

lemma count_pos_card: "count_pos P xs = card {i. i < length xs \<and> P (xs ! i)}"
  by (simp add: count_pos_def length_filter_conv_card)

lemma count_pos_update_same:
  assumes "i < length xs" and "P x \<longleftrightarrow> P (xs ! i)"
  shows "count_pos P (xs[i := x]) = count_pos P xs"
proof -
  have "{j. j < length (xs[i := x]) \<and> P (xs[i := x] ! j)} = {j. j < length xs \<and> P (xs ! j)}"
    using assms by (auto simp: nth_list_update)
  then show ?thesis by (simp add: count_pos_card)
qed

lemma count_pos_update_add:
  assumes "i < length xs" and "P x" and "\<not> P (xs ! i)"
  shows "count_pos P (xs[i := x]) = Suc (count_pos P xs)"
proof -
  have "{j. j < length (xs[i := x]) \<and> P (xs[i := x] ! j)} = insert i {j. j < length xs \<and> P (xs ! j)}"
    using assms by (auto simp: nth_list_update)
  then show ?thesis using assms by (simp add: count_pos_card)
qed

lemma count_pos_update_del:
  assumes "i < length xs" and "\<not> P x" and "P (xs ! i)"
  shows "Suc (count_pos P (xs[i := x])) = count_pos P xs"
proof -
  have "{j. j < length (xs[i := x]) \<and> P (xs[i := x] ! j)} = {j. j < length xs \<and> P (xs ! j)} - {i}"
    using assms by (auto simp: nth_list_update)
  moreover have "Suc (card ({j. j < length xs \<and> P (xs ! j)} - {i})) = card {j. j < length xs \<and> P (xs ! j)}"
    using assms by (intro card_Suc_Diff1) auto
  ultimately show ?thesis by (simp only: count_pos_card)
qed

lemma count_pos_le: "count_pos P xs \<le> length xs"
  by (simp add: count_pos_def)

lemma count_pos_pos: "i < length xs \<Longrightarrow> P (xs ! i) \<Longrightarrow> 0 < count_pos P xs"
  by (auto simp: count_pos_card card_gt_0_iff)

section \<open>Tables\<close>

lemma map_upt_put:
  assumes "\<forall>j<n. j \<noteq> i \<longrightarrow> f' j = f j"
  shows "map f' [0..<n] = (map f [0..<n])[i := f' i]"
proof (rule nth_equalityI)
  fix j
  assume "j < length (map f' [0..<n])"
  then show "map f' [0..<n] ! j = (map f [0..<n])[i := f' i] ! j"
    using assms by (cases "j = i") simp_all
qed simp

section \<open>Ring positions\<close>

lemma mod_window_inj:
  assumes "(h + i) mod n = (h + j) mod n" "i < n" "j < n"
  shows "i = (j :: nat)"
proof -
  have *: "i = j" if "i \<le> j" "(h + i) mod n = (h + j) mod n" "j < n" for i j
  proof -
    have "n dvd (h + j) - (h + i)" using that mod_eq_dvd_iff_nat [of "h + i" "h + j" n] by simp
    then show ?thesis using that by (metis add_diff_cancel_left diff_is_0_eq dvd_imp_le le_antisym leD less_imp_diff_less neq0_conv)
  qed
  show ?thesis using * [of i j] * [of j i] assms by (cases "i \<le> j") auto
qed

text \<open>The queue of \<open>n\<close> elements from position \<open>h\<close> in a ring of \<open>m\<close> cells.\<close>

definition ring_queue :: "nat \<Rightarrow> (nat \<Rightarrow> 'e) \<Rightarrow> nat \<Rightarrow> nat \<Rightarrow> 'e list" where
  "ring_queue m cell h n = map (\<lambda>k. cell ((h + k) mod m)) [0..<n]"

lemma length_ring_queue [simp]: "length (ring_queue m cell h n) = n"
  by (simp add: ring_queue_def)

lemma ring_queue_0 [simp]: "ring_queue m cell h 0 = []"
  by (simp add: ring_queue_def)

lemma ring_queue_push:
  assumes "n < m" "\<And>p. p < m \<Longrightarrow> cell' p = (if p = (h + n) mod m then e else cell p)"
  shows "ring_queue m cell' h (Suc n) = ring_queue m cell h n @ [e]"
proof -
  have "cell' ((h + k) mod m) = cell ((h + k) mod m)" if "k < n" for k
    using assms that mod_window_inj [of h k m n] by auto
  then show ?thesis using assms by (simp add: ring_queue_def)
qed

lemma ring_queue_pop:
  assumes "0 < n" "h < m"
  shows "ring_queue m cell h n = cell h # ring_queue m cell ((h + 1) mod m) (n - 1)"
proof -
  have "[0..<n] = 0 # map Suc [0..<n - 1]" using assms(1) by (metis Suc_diff_1 map_Suc_upt upt_conv_Cons)
  then show ?thesis using assms(2) by (simp add: ring_queue_def mod_add_left_eq mod_Suc_eq)
qed

lemma ring_queue_cong: "(\<And>p. p < m \<Longrightarrow> cell' p = cell p) \<Longrightarrow> 0 < m \<Longrightarrow> ring_queue m cell' h n = ring_queue m cell h n"
  by (simp add: ring_queue_def)

section \<open>Words\<close>

lemma unat_and_mask_eq: "unat (w AND mask n) = unat (w :: 'a::len word) mod 2 ^ n"
proof -
  have "unat (w AND mask n) = unat (take_bit n w)" by (simp add: take_bit_eq_mask)
  also have "\<dots> = take_bit n (unat w)" by (rule unsigned_take_bit_eq)
  finally show ?thesis by (simp only: take_bit_eq_mod)
qed

lemma odd_unat_iff: "odd (unat w) \<longleftrightarrow> odd (w :: 'a::len word)"
  using bit_unsigned_iff [of w 0] by (simp add: bit_0)

lemma and_one_eq_one_iff: "w AND 1 = 1 \<longleftrightarrow> odd (unat (w :: 'a::len word))"
  by (simp add: and_one_eq odd_unat_iff flip: odd_iff_mod_2_eq_one)

lemma unat_of_nat_u32 [simp]: "n < 2 ^ 32 \<Longrightarrow> unat (of_nat n :: u32) = n"
  by (simp add: unat_of_nat)

lemma unat_of_nat_u64 [simp]: "n < 2 ^ 64 \<Longrightarrow> unat (of_nat n :: u64) = n"
  by (simp add: unat_of_nat)

lemma of_nat_eq_u32_iff: "m < 2 ^ 32 \<Longrightarrow> n < 2 ^ 32 \<Longrightarrow> (of_nat m :: u32) = of_nat n \<longleftrightarrow> m = n"
  by (metis unat_of_nat_u32)

lemma unat_u16_less: "unat (w :: u16) < 2 ^ 16"
  using unsigned_less [of w] by simp

lemma unat_u32_less: "unat (w :: u32) < 2 ^ 32"
  using unsigned_less [of w] by simp

lemma unat_u64_less: "unat (w :: u64) < 2 ^ 64"
  using unsigned_less [of w] by simp

lemma unat_ucast_up:
  assumes "LENGTH('a) \<le> LENGTH('b)"
  shows "unat (ucast (w :: 'a::len word) :: 'b::len word) = unat w"
proof -
  have "unat w < 2 ^ LENGTH('a)" by (rule unsigned_less)
  also have "\<dots> \<le> 2 ^ LENGTH('b)" using assms by (intro power_increasing) simp_all
  finally show ?thesis by (simp add: unsigned_ucast_eq take_bit_nat_eq_self)
qed

lemma unat_ucast_u16_u32 [simp]: "unat (ucast (w :: u16) :: u32) = unat w"
  by (rule unat_ucast_up) simp

lemma of_nat_unat_u16: "of_nat (unat (w :: u16)) = (ucast w :: u32)"
  by (simp add: word_unat_eq_iff unat_u16_less [THEN less_trans])

end
