(* ===== verification/Slab_Key.thy ===== *)
theory Slab_Key
  imports Kwokka_Prelude
begin

text \<open>
  The packed handles of the runtime: the 24-bit generation counter
  (\<open>kwokka-core/src/generation/revision.rs\<close>), the 64-bit slab key
  (\<open>kwokka-core/src/slab/key.rs\<close>) and the 64-bit task reference that overlays a worker id
  and an arena tag on the key's reserved byte
  (\<open>kwokka-runtime/src/task/reference/identity.rs\<close>), with the worker id itself
  (\<open>kwokka-runtime/src/worker/shard/id.rs\<close>).
\<close>

section \<open>Generation\<close>

type_synonym generation = u32

definition GENERATION_MAX :: u32 where
  "GENERATION_MAX = 0xFFFFFF"

definition generation_get :: "generation \<Rightarrow> u32" where
  "generation_get g = g AND GENERATION_MAX"

definition is_occupied :: "generation \<Rightarrow> bool" where
  "is_occupied g \<longleftrightarrow> g AND 1 = 1"

definition generation_next :: "generation \<Rightarrow> generation" where
  "generation_next g = (g + 1) AND GENERATION_MAX"

definition generation_from_raw :: "u32 \<Rightarrow> generation" where
  "generation_from_raw raw = raw"

lemma GENERATION_MAX_mask: "GENERATION_MAX = mask 24"
  by (simp add: GENERATION_MAX_def mask_eq_exp_minus_1)

lemma unat_generation_get: "unat (generation_get g) = unat g mod 2 ^ 24"
  by (simp add: generation_get_def GENERATION_MAX_mask unat_and_mask_eq)

lemma unat_generation_next: "unat (generation_next g) = Suc (unat g) mod 2 ^ 24"
proof -
  have "unat (generation_next g) = unat (g + 1) mod 2 ^ 24"
    by (simp add: generation_next_def GENERATION_MAX_mask unat_and_mask_eq)
  also have "unat (g + 1) = Suc (unat g) mod 2 ^ 32"
    by (simp add: unat_word_ariths)
  also have "\<dots> mod 2 ^ 24 = Suc (unat g) mod 2 ^ 24"
    by (rule mod_mod_cancel) simp
  finally show ?thesis .
qed

lemma is_occupied_odd: "is_occupied g \<longleftrightarrow> odd (unat g)"
  by (simp add: is_occupied_def and_one_eq_one_iff)

lemma is_occupied_next [simp]: "is_occupied (generation_next g) \<longleftrightarrow> \<not> is_occupied g"
  by (simp add: is_occupied_odd unat_generation_next dvd_mod_iff)

lemma not_occupied_zero [simp]: "\<not> is_occupied 0"
  by (simp add: is_occupied_def)

definition gen_wf :: "generation \<Rightarrow> bool" where
  "gen_wf g \<longleftrightarrow> unat g < 2 ^ 24"

lemma gen_wf_zero [simp]: "gen_wf 0"
  by (simp add: gen_wf_def)

lemma gen_wf_next [simp]: "gen_wf (generation_next g)"
  by (simp add: gen_wf_def unat_generation_next)

lemma generation_get_wf: "gen_wf g \<Longrightarrow> generation_get g = g"
  by (simp add: gen_wf_def unat_generation_get word_unat_eq_iff)

lemma generation_next_neq: "gen_wf g \<Longrightarrow> generation_next g \<noteq> g"
  by (metis is_occupied_next)

text \<open>After \<open>n\<close> bumps the counter has advanced by \<open>n\<close> modulo \<open>2 ^ 24\<close>.\<close>

lemma unat_generation_next_pow:
  "gen_wf g \<Longrightarrow> unat ((generation_next ^^ n) g) = (unat g + n) mod 2 ^ 24"
proof (induction n)
  case 0
  then show ?case by (simp add: gen_wf_def)
next
  case (Suc n)
  then show ?case by (simp add: unat_generation_next mod_Suc_eq)
qed

lemma generation_next_pow_neq:
  assumes "gen_wf g" "0 < n" "n < 2 ^ 24"
  shows "(generation_next ^^ n) g \<noteq> g"
proof
  assume "(generation_next ^^ n) g = g"
  with unat_generation_next_pow [OF assms(1), of n] have "unat g = (unat g + n) mod 2 ^ 24" by simp
  moreover have "unat g < 2 ^ 24" using assms(1) by (simp add: gen_wf_def)
  ultimately show False
    using assms(2,3) by (auto simp: mod_if split: if_splits)
qed

section \<open>Slab keys\<close>

type_synonym slab_key = u64

definition slab_key_new :: "u32 \<Rightarrow> generation \<Rightarrow> slab_key" where
  "slab_key_new index gen = push_bit 32 (ucast (generation_get gen)) OR ucast index"

definition key_index :: "slab_key \<Rightarrow> u32" where
  "key_index k = ucast (k AND 0xFFFFFFFF)"

definition key_generation :: "slab_key \<Rightarrow> generation" where
  "key_generation k = ucast (drop_bit 32 k AND 0xFFFFFF)"

definition key_to_bits :: "slab_key \<Rightarrow> u64" where
  "key_to_bits k = k"

lemma mask32_u64: "(0xFFFFFFFF :: u64) = mask 32"
  by (simp add: mask_eq_exp_minus_1)

lemma mask24_u64: "(0xFFFFFF :: u64) = mask 24"
  by (simp add: mask_eq_exp_minus_1)

lemma mask7_u64: "(0x7F :: u64) = mask 7"
  by (simp add: mask_eq_exp_minus_1)

lemma mask7_u8: "(0x7F :: u8) = mask 7"
  by (simp add: mask_eq_exp_minus_1)

lemmas key_masks = mask32_u64 mask24_u64 mask7_u64 mask7_u8 GENERATION_MAX_mask

lemma key_index_new [simp, packs]: "key_index (slab_key_new i g) = i"
  by (rule bit_word_eqI) (auto simp: key_index_def slab_key_new_def key_masks bit_simps)

lemma key_generation_new [simp, packs]: "key_generation (slab_key_new i g) = generation_get g"
  by (rule bit_word_eqI)
     (auto simp: key_generation_def slab_key_new_def generation_get_def key_masks bit_simps
       dest: bit_imp_le_length)

lemma gen_wf_key_generation [simp]: "gen_wf (key_generation k)"
proof -
  have "key_generation k = generation_get (key_generation k)"
    by (rule bit_word_eqI)
       (auto simp: key_generation_def generation_get_def key_masks bit_simps)
  then have "unat (key_generation k) = unat (key_generation k) mod 2 ^ 24"
    by (metis unat_generation_get)
  then show ?thesis
    by (simp add: gen_wf_def)
qed

section \<open>Task references\<close>

type_synonym task_ref = u64

definition WORKER_ID_MAX :: u8 where
  "WORKER_ID_MAX = 0x7F"

definition TAG_ARENA_BIT :: u64 where
  "TAG_ARENA_BIT = push_bit 63 1"

definition task_ref_from_slab :: "u8 \<Rightarrow> slab_key \<Rightarrow> task_ref" where
  "task_ref_from_slab w k = push_bit 56 (ucast (w AND WORKER_ID_MAX)) OR key_to_bits k"

definition task_ref_from_arena :: "u8 \<Rightarrow> u32 \<Rightarrow> generation \<Rightarrow> task_ref" where
  "task_ref_from_arena w offset gen =
     TAG_ARENA_BIT OR push_bit 56 (ucast (w AND WORKER_ID_MAX))
       OR push_bit 32 (ucast (generation_get gen)) OR ucast offset"

definition is_arena :: "task_ref \<Rightarrow> bool" where
  "is_arena t \<longleftrightarrow> drop_bit 63 t = 1"

definition ref_worker_id :: "task_ref \<Rightarrow> u8" where
  "ref_worker_id t = ucast (drop_bit 56 t AND 0x7F)"

definition ref_generation :: "task_ref \<Rightarrow> generation" where
  "ref_generation t = generation_from_raw (ucast (drop_bit 32 t AND 0xFFFFFF))"

definition ref_index :: "task_ref \<Rightarrow> u32" where
  "ref_index t = ucast (t AND 0xFFFFFFFF)"

definition ref_raw :: "task_ref \<Rightarrow> u64" where
  "ref_raw t = t"

definition ref_from_raw :: "u64 \<Rightarrow> task_ref" where
  "ref_from_raw raw = raw"

text \<open>The key a component rebuilds from a task reference before it asks the slab.\<close>

definition task_key :: "task_ref \<Rightarrow> slab_key" where
  "task_key t = slab_key_new (ref_index t) (ref_generation t)"

lemma bit_TAG_ARENA_BIT: "bit TAG_ARENA_BIT n \<longleftrightarrow> n = 63"
  unfolding TAG_ARENA_BIT_def bit_push_bit_iff bit_1_iff by auto

lemmas ref_defs = task_ref_from_slab_def task_ref_from_arena_def is_arena_def ref_worker_id_def
  ref_generation_def ref_index_def generation_from_raw_def WORKER_ID_MAX_def
  key_to_bits_def bit_TAG_ARENA_BIT

lemma ref_index_from_slab [simp, packs]:
  "ref_index (task_ref_from_slab w (slab_key_new i g)) = i"
  by (rule bit_word_eqI) (auto simp: ref_defs slab_key_new_def key_masks bit_simps)

lemma ref_generation_from_slab [simp, packs]:
  "ref_generation (task_ref_from_slab w (slab_key_new i g)) = generation_get g"
  by (rule bit_word_eqI)
     (auto simp: ref_defs slab_key_new_def generation_get_def key_masks bit_simps
       dest: bit_imp_le_length)

lemma ref_worker_id_from_slab [simp, packs]:
  "ref_worker_id (task_ref_from_slab w (slab_key_new i g)) = w AND WORKER_ID_MAX"
  by (rule bit_word_eqI)
     (auto simp: ref_defs slab_key_new_def generation_get_def key_masks bit_simps
       dest: bit_imp_le_length)

lemma is_arena_from_slab [simp, packs]:
  "\<not> is_arena (task_ref_from_slab w (slab_key_new i g))"
proof -
  have "\<not> bit (drop_bit 63 (task_ref_from_slab w (slab_key_new i g))) 0"
    by (auto simp: ref_defs slab_key_new_def generation_get_def key_masks bit_simps
       dest: bit_imp_le_length)
  then show ?thesis by (auto simp: is_arena_def)
qed

lemma ref_index_from_arena [simp, packs]: "ref_index (task_ref_from_arena w off g) = off"
  by (rule bit_word_eqI) (auto simp: ref_defs key_masks bit_simps)

lemma ref_generation_from_arena [simp, packs]:
  "ref_generation (task_ref_from_arena w off g) = generation_get g"
  by (rule bit_word_eqI)
     (auto simp: ref_defs generation_get_def key_masks bit_simps dest: bit_imp_le_length)

lemma ref_worker_id_from_arena [simp, packs]:
  "ref_worker_id (task_ref_from_arena w off g) = w AND WORKER_ID_MAX"
  by (rule bit_word_eqI)
     (auto simp: ref_defs generation_get_def key_masks bit_simps dest: bit_imp_le_length)

lemma is_arena_from_arena [simp, packs]: "is_arena (task_ref_from_arena w off g)"
proof -
  have "drop_bit 63 (task_ref_from_arena w off g) = 1"
    by (rule bit_word_eqI)
       (auto simp: ref_defs generation_get_def key_masks bit_simps bit_1_iff
         dest: bit_imp_le_length)
  then show ?thesis by (simp add: is_arena_def)
qed

lemma task_key_from_slab [simp, packs]:
  "gen_wf g \<Longrightarrow> task_key (task_ref_from_slab w (slab_key_new i g)) = slab_key_new i g"
  by (simp add: task_key_def generation_get_wf)

section \<open>Worker ids\<close>

type_synonym worker_id = u8

datatype worker_error = InvalidId u8 u8

definition worker_id_new :: "u8 \<Rightarrow> worker_error + worker_id" where
  "worker_id_new w = (if w > WORKER_ID_MAX then Inl (InvalidId w WORKER_ID_MAX) else Inr w)"

definition worker_id_raw :: "worker_id \<Rightarrow> u8" where
  "worker_id_raw w = w"

lemma worker_id_fits: "worker_id_new w = Inr x \<Longrightarrow> x AND WORKER_ID_MAX = x"
proof -
  assume "worker_id_new w = Inr x"
  then have "x = w" and "w \<le> 0x7F"
    by (auto simp: worker_id_new_def WORKER_ID_MAX_def split: if_splits)
  then have "unat x < 2 ^ 7" by (simp add: word_le_nat_alt)
  then have "unat (x AND mask 7) = unat x" by (simp add: unat_and_mask_eq)
  then show ?thesis by (simp add: WORKER_ID_MAX_def mask7_u8 word_unat_eq_iff)
qed

end
