(* ===== verification/Slab.thy ===== *)
theory Slab
  imports Slab_Key
begin

text \<open>
  The generational slab of \<open>kwokka-core/src/slab/slab.rs\<close>: fixed-capacity slots with an
  in-band free list, parity-coded occupancy and generation-checked keys. \<open>MaybeUninit\<close>
  payloads are options: reading an uninitialised payload is \<open>Undefined\<close>, a corrupt free
  list or an underflowing length is \<open>Panic\<close>. The theory proves that neither outcome is
  reachable for keys the slab issued, that the slab refines a finite map from
  (index, generation) pairs, and that a removed key stays dead until its slot has been
  recycled \<open>2 ^ 24 - 1\<close> more times.
\<close>

section \<open>Data\<close>

definition FREE_SENTINEL :: u32 where
  "FREE_SENTINEL = 0xFFFFFFFF"

datatype slab_error = Full

record 'a slot =
  generation :: generation
  next_free :: u32
  data :: "'a option"

record 'a slab =
  slots :: "'a slot list"
  free_head :: u32
  slab_len :: nat

section \<open>Operations\<close>

definition slot_data_ref :: "'a slot \<Rightarrow> 'a exec" where
  "slot_data_ref sl = (case data sl of None \<Rightarrow> Undefined | Some v \<Rightarrow> Ret v)"

definition slab_new :: "nat \<Rightarrow> 'a slab exec" where
  "slab_new capacity =
     (if \<not> capacity < 2 ^ 32 then Panic
      else Ret \<lparr>slots = map (\<lambda>idx. \<lparr>generation = 0,
                  next_free = (if idx + 1 < capacity then of_nat (idx + 1) else FREE_SENTINEL),
                  data = None\<rparr>) [0..<capacity],
                free_head = (if capacity = 0 then FREE_SENTINEL else 0),
                slab_len = 0\<rparr>)"

definition slab_insert :: "'a slab \<Rightarrow> 'a \<Rightarrow> ((slab_error + slab_key) \<times> 'a slab) exec" where
  "slab_insert s v =
     (let idx = free_head s in
      if idx = FREE_SENTINEL then Ret (Inl Full, s)
      else case get_at (slots s) (unat idx) of
        None \<Rightarrow> Panic
      | Some sl \<Rightarrow>
          if is_occupied (generation sl) then Panic
          else let next = next_free sl; gen = generation_next (generation sl) in
            Ret (Inr (slab_key_new idx gen),
                 s\<lparr>slots := (slots s)[unat idx :=
                      sl\<lparr>next_free := FREE_SENTINEL, generation := gen, data := Some v\<rparr>],
                   free_head := next, slab_len := slab_len s + 1\<rparr>))"

definition slab_get :: "'a slab \<Rightarrow> slab_key \<Rightarrow> 'a option exec" where
  "slab_get s k =
     (case get_at (slots s) (unat (key_index k)) of
        None \<Rightarrow> Ret None
      | Some sl \<Rightarrow>
          if generation sl \<noteq> key_generation k then Ret None
          else exec_bind (slot_data_ref sl) (\<lambda>v. Ret (Some v)))"

text \<open>
  \<open>get_mut\<close> hands out a mutable reference; the model takes what the caller writes through
  it as a function \<open>f\<close> and returns the slab after the write, or \<open>None\<close> for no reference.
\<close>

definition slab_get_mut :: "'a slab \<Rightarrow> slab_key \<Rightarrow> ('a \<Rightarrow> 'a) \<Rightarrow> 'a slab option exec" where
  "slab_get_mut s k f =
     (case get_at (slots s) (unat (key_index k)) of
        None \<Rightarrow> Ret None
      | Some sl \<Rightarrow>
          if generation sl \<noteq> key_generation k then Ret None
          else exec_bind (slot_data_ref sl) (\<lambda>v.
            Ret (Some (s\<lparr>slots := (slots s)[unat (key_index k) := sl\<lparr>data := Some (f v)\<rparr>]\<rparr>))))"

text \<open>A slot pointer is the position of the slot in the backing array.\<close>

definition slab_slot_ptr :: "'a slab \<Rightarrow> slab_key \<Rightarrow> nat option" where
  "slab_slot_ptr s k =
     (case get_at (slots s) (unat (key_index k)) of
        None \<Rightarrow> None
      | Some sl \<Rightarrow> if generation sl \<noteq> key_generation k then None else Some (unat (key_index k)))"

definition slab_slot_ptr_mut :: "'a slab \<Rightarrow> slab_key \<Rightarrow> nat option" where
  "slab_slot_ptr_mut s k =
     (case get_at (slots s) (unat (key_index k)) of
        None \<Rightarrow> None
      | Some sl \<Rightarrow> if generation sl \<noteq> key_generation k then None else Some (unat (key_index k)))"

text \<open>
  The common tail of \<open>remove\<close>, \<open>retire_slot\<close> and \<open>remove_by_index\<close>: the generation rolls,
  the slot goes to the head of the free list and the length drops. The payload is moved out.
\<close>

definition release_slot :: "'a slab \<Rightarrow> u32 \<Rightarrow> 'a slot \<Rightarrow> 'a slab exec" where
  "release_slot s idx sl =
     (if slab_len s = 0 then Panic
      else Ret (s\<lparr>slots := (slots s)[unat idx :=
                    sl\<lparr>generation := generation_next (generation sl),
                      next_free := free_head s, data := None\<rparr>],
                  free_head := idx, slab_len := slab_len s - 1\<rparr>))"

definition slab_remove :: "'a slab \<Rightarrow> slab_key \<Rightarrow> ('a option \<times> 'a slab) exec" where
  "slab_remove s k =
     (let idx = key_index k in
      case get_at (slots s) (unat idx) of
        None \<Rightarrow> Ret (None, s)
      | Some sl \<Rightarrow>
          if generation sl \<noteq> key_generation k then Ret (None, s)
          else exec_bind (slot_data_ref sl) (\<lambda>value.
            exec_bind (release_slot s idx sl) (\<lambda>s'. Ret (Some value, s'))))"

definition slab_retire_slot :: "'a slab \<Rightarrow> slab_key \<Rightarrow> (bool \<times> 'a slab) exec" where
  "slab_retire_slot s k =
     (let idx = key_index k in
      case get_at (slots s) (unat idx) of
        None \<Rightarrow> Ret (False, s)
      | Some sl \<Rightarrow>
          if generation sl \<noteq> key_generation k then Ret (False, s)
          else exec_bind (release_slot s idx sl) (\<lambda>s'. Ret (True, s')))"

definition slab_reserve :: "'a slab \<Rightarrow> ((slab_error + slab_key) \<times> 'a slab) exec" where
  "slab_reserve s =
     (let idx = free_head s in
      if idx = FREE_SENTINEL then Ret (Inl Full, s)
      else case get_at (slots s) (unat idx) of
        None \<Rightarrow> Panic
      | Some sl \<Rightarrow>
          if is_occupied (generation sl) then Panic
          else Ret (Inr (slab_key_new idx (generation_next (generation sl))),
                    s\<lparr>slots := (slots s)[unat idx := sl\<lparr>next_free := idx\<rparr>],
                      free_head := next_free sl\<rparr>))"

definition slab_install :: "'a slab \<Rightarrow> slab_key \<Rightarrow> 'a \<Rightarrow> (('a + unit) \<times> 'a slab) exec" where
  "slab_install s k v =
     (let idx = key_index k in
      case get_at (slots s) (unat idx) of
        None \<Rightarrow> Ret (Inl v, s)
      | Some sl \<Rightarrow>
          if next_free sl \<noteq> idx \<or> generation_next (generation sl) \<noteq> key_generation k
          then Ret (Inl v, s)
          else Ret (Inr (),
                    s\<lparr>slots := (slots s)[unat idx :=
                        sl\<lparr>next_free := FREE_SENTINEL,
                          generation := generation_next (generation sl), data := Some v\<rparr>],
                      slab_len := slab_len s + 1\<rparr>))"

definition slab_unreserve :: "'a slab \<Rightarrow> slab_key \<Rightarrow> bool \<times> 'a slab" where
  "slab_unreserve s k =
     (let idx = key_index k in
      case get_at (slots s) (unat idx) of
        None \<Rightarrow> (False, s)
      | Some sl \<Rightarrow>
          if next_free sl \<noteq> idx \<or> generation_next (generation sl) \<noteq> key_generation k
          then (False, s)
          else (True, s\<lparr>slots := (slots s)[unat idx := sl\<lparr>next_free := free_head s\<rparr>],
                         free_head := idx\<rparr>))"

definition slab_capacity :: "'a slab \<Rightarrow> nat" where
  "slab_capacity s = length (slots s)"

definition slab_is_empty :: "'a slab \<Rightarrow> bool" where
  "slab_is_empty s \<longleftrightarrow> slab_len s = 0"

definition slab_get_by_index :: "'a slab \<Rightarrow> u32 \<Rightarrow> 'a option exec" where
  "slab_get_by_index s idx =
     (case get_at (slots s) (unat idx) of
        None \<Rightarrow> Ret None
      | Some sl \<Rightarrow>
          if \<not> is_occupied (generation sl) then Ret None
          else exec_bind (slot_data_ref sl) (\<lambda>v. Ret (Some v)))"

definition slab_get_mut_by_index :: "'a slab \<Rightarrow> u32 \<Rightarrow> ('a \<Rightarrow> 'a) \<Rightarrow> 'a slab option exec" where
  "slab_get_mut_by_index s idx f =
     (case get_at (slots s) (unat idx) of
        None \<Rightarrow> Ret None
      | Some sl \<Rightarrow>
          if \<not> is_occupied (generation sl) then Ret None
          else exec_bind (slot_data_ref sl) (\<lambda>v.
            Ret (Some (s\<lparr>slots := (slots s)[unat idx := sl\<lparr>data := Some (f v)\<rparr>]\<rparr>))))"

definition slab_remove_by_index :: "'a slab \<Rightarrow> u32 \<Rightarrow> ('a option \<times> 'a slab) exec" where
  "slab_remove_by_index s idx =
     (case get_at (slots s) (unat idx) of
        None \<Rightarrow> Ret (None, s)
      | Some sl \<Rightarrow>
          if \<not> is_occupied (generation sl) then Ret (None, s)
          else exec_bind (slot_data_ref sl) (\<lambda>value.
            exec_bind (release_slot s idx sl) (\<lambda>s'. Ret (Some value, s'))))"

text \<open>The iterator over occupied slots, run to its end; \<open>n\<close> counts the enumerated index.\<close>

fun slab_iter_from :: "nat \<Rightarrow> 'a slot list \<Rightarrow> (slab_key \<times> 'a) list exec" where
  "slab_iter_from n [] = Ret []"
| "slab_iter_from n (sl # sls) =
     (if \<not> is_occupied (generation sl) then slab_iter_from (Suc n) sls
      else exec_bind (slot_data_ref sl) (\<lambda>v.
        exec_bind (slab_iter_from (Suc n) sls) (\<lambda>rest.
          Ret ((slab_key_new (of_nat n) (generation sl), v) # rest))))"

definition slab_iter :: "'a slab \<Rightarrow> (slab_key \<times> 'a) list exec" where
  "slab_iter s = slab_iter_from 0 (slots s)"

text \<open>\<open>Drop\<close> runs the payload destructors; the model returns the payloads in drop order.\<close>

fun slab_drop_from :: "'a slot list \<Rightarrow> 'a list exec" where
  "slab_drop_from [] = Ret []"
| "slab_drop_from (sl # sls) =
     (if is_occupied (generation sl)
      then exec_bind (slot_data_ref sl) (\<lambda>v. exec_bind (slab_drop_from sls) (\<lambda>vs. Ret (v # vs)))
      else slab_drop_from sls)"

definition slab_drop :: "'a slab \<Rightarrow> 'a list exec" where
  "slab_drop s = slab_drop_from (slots s)"

section \<open>Invariant\<close>

text \<open>
  \<open>free_chain sls h fl\<close>: following \<open>next_free\<close> from \<open>h\<close> visits the empty slots \<open>fl\<close> in order
  and ends in the sentinel. Every empty slot is on the chain or reserved (it points at
  itself); occupied slots hold an initialised payload and the sentinel link.
\<close>

fun free_chain :: "'a slot list \<Rightarrow> u32 \<Rightarrow> nat list \<Rightarrow> bool" where
  "free_chain sls h [] \<longleftrightarrow> h = FREE_SENTINEL"
| "free_chain sls h (i # is) \<longleftrightarrow>
     h = of_nat i \<and> i < length sls \<and> \<not> is_occupied (generation (sls ! i)) \<and>
     free_chain sls (next_free (sls ! i)) is"

definition slot_ok :: "'a slot \<Rightarrow> nat \<Rightarrow> nat list \<Rightarrow> bool" where
  "slot_ok sl i fl \<longleftrightarrow> gen_wf (generation sl) \<and>
     (if is_occupied (generation sl) then data sl \<noteq> None \<and> next_free sl = FREE_SENTINEL
      else data sl = None \<and> (i \<in> set fl \<or> next_free sl = of_nat i))"

definition occupied :: "'a slot \<Rightarrow> bool" where
  "occupied sl \<longleftrightarrow> is_occupied (generation sl)"

definition slab_inv :: "'a slab \<Rightarrow> nat list \<Rightarrow> bool" where
  "slab_inv s fl \<longleftrightarrow> length (slots s) < 2 ^ 32 \<and> distinct fl \<and>
     free_chain (slots s) (free_head s) fl \<and>
     (\<forall>i < length (slots s). slot_ok (slots s ! i) i fl) \<and>
     slab_len s = count_pos occupied (slots s)"

definition slab_wf :: "'a slab \<Rightarrow> bool" where
  "slab_wf s \<longleftrightarrow> (\<exists>fl. slab_inv s fl)"

definition slab_reserved :: "'a slab \<Rightarrow> nat \<Rightarrow> bool" where
  "slab_reserved s i \<longleftrightarrow> i < length (slots s) \<and> \<not> occupied (slots s ! i) \<and>
     next_free (slots s ! i) = of_nat i"

text \<open>The abstract state: a finite map from (index, generation) pairs to payloads.\<close>

definition slab_view :: "'a slab \<Rightarrow> nat \<times> generation \<Rightarrow> 'a option" where
  "slab_view s = (\<lambda>(i, g). if i < length (slots s) \<and> generation (slots s ! i) = g \<and> is_occupied g
     then data (slots s ! i) else None)"

definition key_parts :: "slab_key \<Rightarrow> nat \<times> generation" where
  "key_parts k = (unat (key_index k), key_generation k)"

text \<open>Every key the slab hands out carries an odd (occupied) generation.\<close>

definition issued_key :: "slab_key \<Rightarrow> bool" where
  "issued_key k \<longleftrightarrow> is_occupied (key_generation k)"

lemma of_nat_not_sentinel: "i < n \<Longrightarrow> n < 2 ^ 32 \<Longrightarrow> (of_nat i :: u32) \<noteq> FREE_SENTINEL"
proof
  assume "i < n" "n < 2 ^ 32" "(of_nat i :: u32) = FREE_SENTINEL"
  then have "unat (of_nat i :: u32) = unat FREE_SENTINEL" by simp
  with \<open>i < n\<close> \<open>n < 2 ^ 32\<close> show False by (simp add: FREE_SENTINEL_def)
qed

lemma free_chain_update:
  "i \<notin> set fl \<Longrightarrow> free_chain (sls[i := x]) h fl \<longleftrightarrow> free_chain sls h fl"
  by (induction fl arbitrary: h) auto

lemma free_chain_less: "free_chain sls h fl \<Longrightarrow> i \<in> set fl \<Longrightarrow> i < length sls"
  by (induction fl arbitrary: h) auto

lemma free_chain_empty_slot:
  "free_chain sls h fl \<Longrightarrow> i \<in> set fl \<Longrightarrow> \<not> is_occupied (generation (sls ! i))"
  by (induction fl arbitrary: h) auto

text \<open>A chained slot never points at itself, so the reservation mark is unambiguous.\<close>

lemma free_chain_no_self:
  assumes "free_chain sls h fl" "distinct fl" "length sls < 2 ^ 32" "i \<in> set fl"
  shows "next_free (sls ! i) \<noteq> of_nat i"
  using assms
proof (induction fl arbitrary: h)
  case Nil
  then show ?case by simp
next
  case (Cons j fl)
  show ?case
  proof (cases "i = j")
    case False
    with Cons show ?thesis by auto
  next
    case True
    from Cons.prems have j: "j < length sls" and rest: "free_chain sls (next_free (sls ! j)) fl"
      by auto
    show ?thesis
    proof (cases fl)
      case Nil
      with rest j Cons.prems(3) show ?thesis
        using of_nat_not_sentinel [OF j Cons.prems(3)] True by (metis free_chain.simps(1))
    next
      case (Cons m ms)
      with rest Cons.prems(2) \<open>distinct (j # fl)\<close> have "next_free (sls ! j) = of_nat m" "m < length sls" "m \<noteq> j"
        by auto
      with True j \<open>length sls < 2 ^ 32\<close> show ?thesis
        using of_nat_eq_u32_iff [of m j] by auto
    qed
  qed
qed

lemma slab_invD:
  assumes "slab_inv s fl"
  shows "length (slots s) < 2 ^ 32" "distinct fl" "free_chain (slots s) (free_head s) fl"
    "slab_len s = count_pos occupied (slots s)"
    "\<And>i. i < length (slots s) \<Longrightarrow> slot_ok (slots s ! i) i fl"
  using assms by (auto simp: slab_inv_def)

lemma slab_inv_reserved_notin:
  assumes "slab_inv s fl" "slab_reserved s i"
  shows "i \<notin> set fl"
  using assms free_chain_no_self [of "slots s" "free_head s" fl i]
  by (auto simp: slab_inv_def slab_reserved_def)

lemma slab_inv_occupied_notin:
  assumes "slab_inv s fl" "i < length (slots s)" "occupied (slots s ! i)"
  shows "i \<notin> set fl"
  using assms free_chain_empty_slot by (fastforce simp: slab_inv_def occupied_def)

lemma slab_inv_data:
  assumes "slab_inv s fl" "i < length (slots s)" "is_occupied (generation (slots s ! i))"
  obtains v where "data (slots s ! i) = Some v"
  using slab_invD(5) [OF assms(1,2)] assms(3) by (auto simp: slot_ok_def)

section \<open>Reads\<close>

lemma slab_get_view:
  assumes "slab_inv s fl" "issued_key k"
  shows "slab_get s k = Ret (slab_view s (key_parts k))"
proof (cases "unat (key_index k) < length (slots s) \<and>
    generation (slots s ! unat (key_index k)) = key_generation k")
  case True
  with assms obtain v where "data (slots s ! unat (key_index k)) = Some v"
    by (metis issued_key_def slab_inv_data)
  with True assms(2) show ?thesis
    by (simp add: slab_get_def slab_view_def key_parts_def slot_data_ref_def issued_key_def get_at_def)
next
  case False
  then show ?thesis
    by (auto simp: slab_get_def slab_view_def key_parts_def get_at_def)
qed

section \<open>How one slot update changes the view\<close>

lemma slab_view_slots: "slots s = slots t \<Longrightarrow> slab_view s = slab_view t"
  by (simp add: slab_view_def fun_eq_iff)

lemma slab_view_fill:
  assumes "i < length (slots s)" "\<not> occupied (slots s ! i)" "occupied sl" "data sl = Some v"
    "slots s' = (slots s)[i := sl]"
  shows "slab_view s' = (slab_view s)((i, generation sl) \<mapsto> v)"
    and "slab_view s (i, g) = None"
  using assms by (auto simp: slab_view_def occupied_def fun_eq_iff nth_list_update)

lemma slab_view_clear:
  assumes "i < length (slots s)" "occupied (slots s ! i)" "\<not> occupied sl"
    "slots s' = (slots s)[i := sl]"
  shows "slab_view s' = (slab_view s)((i, generation (slots s ! i)) := None)"
  using assms by (auto simp: slab_view_def occupied_def fun_eq_iff nth_list_update)

lemma slab_view_vacant:
  assumes "i < length (slots s)" "\<not> occupied (slots s ! i)" "\<not> occupied sl"
    "slots s' = (slots s)[i := sl]"
  shows "slab_view s' = slab_view s"
  using assms by (auto simp: slab_view_def occupied_def fun_eq_iff nth_list_update)

lemma slab_view_write:
  assumes "i < length (slots s)" "occupied (slots s ! i)"
    "slots s' = (slots s)[i := (slots s ! i)\<lparr>data := Some v\<rparr>]"
  shows "slab_view s' = (slab_view s)((i, generation (slots s ! i)) \<mapsto> v)"
  using assms by (auto simp: slab_view_def occupied_def fun_eq_iff nth_list_update)

lemma slot_okI_other:
  assumes "slab_inv s fl" "\<And>j. j \<in> set fl \<Longrightarrow> j \<noteq> i \<Longrightarrow> j \<in> set fl'"
    "slot_ok sl i fl'"
  shows "\<forall>j < length (slots s). slot_ok ((slots s)[i := sl] ! j) j fl'"
proof (intro allI impI)
  fix j assume j: "j < length (slots s)"
  show "slot_ok ((slots s)[i := sl] ! j) j fl'"
  proof (cases "j = i")
    case True
    with j assms(3) show ?thesis by simp
  next
    case False
    with slab_invD(5) [OF assms(1) j] assms(2) [of j] show ?thesis
      by (auto simp: slot_ok_def split: if_splits)
  qed
qed

section \<open>Specifications of the operations\<close>

lemma free_chain_upt:
  assumes "\<And>i. i < c \<Longrightarrow> next_free (sls ! i) = (if i + 1 < c then of_nat (i + 1) else FREE_SENTINEL) \<and>
      \<not> is_occupied (generation (sls ! i))"
    and "length sls = c" and "n \<le> c"
  shows "free_chain sls (if n < c then of_nat n else FREE_SENTINEL) [n..<c]"
  using assms(3)
proof (induction rule: inc_induct)
  case base
  then show ?case by simp
next
  case (step n)
  from step.hyps assms(1) [of n] step.IH have "free_chain sls (next_free (sls ! n)) [Suc n..<c]"
    by (simp only: Suc_eq_plus1)
  with step.hyps assms(1) [of n] assms(2) show ?case
    by (simp add: upt_conv_Cons)
qed

lemma slab_new_spec:
  assumes "capacity < 2 ^ 32"
  obtains s where "slab_new capacity = Ret s" "slab_inv s [0..<capacity]"
    "slab_view s = Map.empty" "slab_capacity s = capacity"
proof -
  let ?nf = "\<lambda>idx. if idx + 1 < capacity then of_nat (idx + 1) else FREE_SENTINEL"
  let ?sl = "\<lambda>idx. \<lparr>generation = 0, next_free = ?nf idx, data = None\<rparr> :: 'a slot"
  let ?sls = "map ?sl [0..<capacity]"
  let ?s = "\<lparr>slots = ?sls, free_head = (if capacity = 0 then FREE_SENTINEL else 0), slab_len = 0\<rparr>"
  have "free_chain ?sls (if 0 < capacity then of_nat 0 else FREE_SENTINEL) [0..<capacity]"
    by (rule free_chain_upt) auto
  then have "slab_inv ?s [0..<capacity]"
    using assms by (auto simp: slab_inv_def slot_ok_def count_pos_def occupied_def split: if_splits)
  moreover have "slab_view ?s = Map.empty"
    by (auto simp: slab_view_def fun_eq_iff)
  ultimately show ?thesis
    using assms that [of ?s] by (simp add: slab_new_def slab_capacity_def)
qed

lemma slab_insert_full: "slab_inv s [] \<Longrightarrow> slab_insert s v = Ret (Inl Full, s)"
  by (auto simp: slab_inv_def slab_insert_def)

lemma slab_head_spec:
  assumes inv: "slab_inv s (i # fl)"
  shows "free_head s = of_nat i" "i < length (slots s)" "unat (free_head s) = i"
    "free_head s \<noteq> FREE_SENTINEL" "\<not> occupied (slots s ! i)" "i \<notin> set fl"
    "free_chain (slots s) (next_free (slots s ! i)) fl" "gen_wf (generation (slots s ! i))"
proof -
  note D = slab_invD [OF inv]
  from D(3) show h: "free_head s = of_nat i" and i: "i < length (slots s)"
    and "\<not> occupied (slots s ! i)" and "free_chain (slots s) (next_free (slots s ! i)) fl"
    by (auto simp: occupied_def)
  from i D(1) show "unat (free_head s) = i" by (simp add: h)
  from i D(1) show "free_head s \<noteq> FREE_SENTINEL" by (simp add: h of_nat_not_sentinel)
  from D(2) show "i \<notin> set fl" by simp
  from D(5) [OF i] show "gen_wf (generation (slots s ! i))" by (simp add: slot_ok_def)
qed

lemma slab_insert_ok:
  assumes inv: "slab_inv s (i # fl)"
  defines "g \<equiv> generation_next (generation (slots s ! i))"
  obtains s' where
    "slab_insert s v = Ret (Inr (slab_key_new (of_nat i) g), s')" "slab_inv s' fl"
    "slab_view s' = (slab_view s)((i, g) \<mapsto> v)" "slab_view s (i, g) = None"
    "key_parts (slab_key_new (of_nat i) g) = (i, g)" "is_occupied g"
    "slots s' = (slots s)[i := (slots s ! i)\<lparr>next_free := FREE_SENTINEL, generation := g, data := Some v\<rparr>]"
proof -
  note D = slab_invD [OF inv] and H = slab_head_spec [OF inv]
  let ?sl = "(slots s ! i)\<lparr>next_free := FREE_SENTINEL, generation := g, data := Some v\<rparr>"
  let ?s' = "s\<lparr>slots := (slots s)[i := ?sl], free_head := next_free (slots s ! i),
    slab_len := slab_len s + 1\<rparr>"
  have occ: "is_occupied g" using H(5) by (simp add: g_def occupied_def)
  have eq: "slab_insert s v = Ret (Inr (slab_key_new (of_nat i) g), ?s')"
    using H by (simp add: slab_insert_def get_at_def occupied_def g_def Let_def)
  have "slot_ok ?sl i fl" using occ by (simp add: slot_ok_def g_def)
  then have "\<forall>j < length (slots s). slot_ok ((slots s)[i := ?sl] ! j) j fl"
    using slot_okI_other [OF inv] by auto
  moreover have "count_pos occupied ((slots s)[i := ?sl]) = Suc (count_pos occupied (slots s))"
    using H occ by (intro count_pos_update_add) (auto simp: occupied_def)
  ultimately have inv': "slab_inv ?s' fl"
    using D H by (simp add: slab_inv_def free_chain_update)
  have "slab_view ?s' = (slab_view s)((i, g) \<mapsto> v)" "slab_view s (i, g) = None"
    using slab_view_fill [of i s ?sl v ?s'] H occ by (simp_all add: occupied_def)
  moreover have "key_parts (slab_key_new (of_nat i) g) = (i, g)"
    using H D(1) by (simp add: key_parts_def generation_get_wf g_def)
  ultimately show ?thesis using that [of ?s'] eq inv' occ by simp
qed

lemma release_slot_ok:
  assumes inv: "slab_inv s fl" and i: "unat idx < length (slots s)" "occupied (slots s ! unat idx)"
  defines "i \<equiv> unat idx"
  obtains s' where
    "release_slot s idx (slots s ! i) = Ret s'" "slab_inv s' (i # fl)"
    "slab_view s' = (slab_view s)((i, generation (slots s ! i)) := None)"
    "slots s' = (slots s)[i := (slots s ! i)\<lparr>generation := generation_next (generation (slots s ! i)),
       next_free := free_head s, data := None\<rparr>]"
proof -
  note D = slab_invD [OF inv] and i = i [folded i_def]
  let ?g = "generation_next (generation (slots s ! i))"
  let ?sl = "(slots s ! i)\<lparr>generation := ?g, next_free := free_head s, data := None\<rparr>"
  let ?s' = "s\<lparr>slots := (slots s)[i := ?sl], free_head := idx, slab_len := slab_len s - 1\<rparr>"
  have idx: "idx = of_nat i" by (simp add: i_def)
  have empty: "\<not> is_occupied ?g" using i(2) by (simp add: occupied_def)
  have pos: "count_pos occupied (slots s) \<noteq> 0"
    using count_pos_pos [of i "slots s" occupied] i by simp
  then have eq: "release_slot s idx (slots s ! i) = Ret ?s'"
    using D(4) by (simp add: release_slot_def i_def)
  have "slot_ok ?sl i (i # fl)" using empty by (simp add: slot_ok_def)
  then have "\<forall>j < length (slots s). slot_ok ((slots s)[i := ?sl] ! j) j (i # fl)"
    using slot_okI_other [OF inv] by auto
  moreover have "Suc (count_pos occupied ((slots s)[i := ?sl])) = count_pos occupied (slots s)"
    using i empty by (intro count_pos_update_del) (auto simp: occupied_def)
  moreover have "i \<notin> set fl" using slab_inv_occupied_notin [OF inv i] .
  ultimately have "slab_inv ?s' (i # fl)"
    using D i empty idx by (simp add: slab_inv_def free_chain_update)
  moreover have "slab_view ?s' = (slab_view s)((i, generation (slots s ! i)) := None)"
    using i empty by (intro slab_view_clear [of i s ?sl]) (auto simp: occupied_def)
  ultimately show ?thesis using that [of ?s'] eq by simp
qed

lemma slab_reserve_full: "slab_inv s [] \<Longrightarrow> slab_reserve s = Ret (Inl Full, s)"
  by (auto simp: slab_inv_def slab_reserve_def)

lemma slab_reserve_ok:
  assumes inv: "slab_inv s (i # fl)"
  defines "g \<equiv> generation_next (generation (slots s ! i))"
  obtains s' where
    "slab_reserve s = Ret (Inr (slab_key_new (of_nat i) g), s')" "slab_inv s' fl"
    "slab_view s' = slab_view s" "slab_view s (i, g) = None"
    "key_parts (slab_key_new (of_nat i) g) = (i, g)" "is_occupied g"
    "slots s' = (slots s)[i := (slots s ! i)\<lparr>next_free := of_nat i\<rparr>]"
    "slab_reserved s' i"
proof -
  note D = slab_invD [OF inv] and H = slab_head_spec [OF inv]
  let ?sl = "(slots s ! i)\<lparr>next_free := of_nat i\<rparr>"
  let ?s' = "s\<lparr>slots := (slots s)[i := ?sl], free_head := next_free (slots s ! i)\<rparr>"
  have eq: "slab_reserve s = Ret (Inr (slab_key_new (of_nat i) g), ?s')"
    using H by (simp add: slab_reserve_def get_at_def occupied_def g_def Let_def)
  have "slot_ok ?sl i fl"
    using H D(5) [OF H(2)] by (auto simp: slot_ok_def occupied_def)
  then have "\<forall>j < length (slots s). slot_ok ((slots s)[i := ?sl] ! j) j fl"
    using slot_okI_other [OF inv] by auto
  moreover have "count_pos occupied ((slots s)[i := ?sl]) = count_pos occupied (slots s)"
    using H by (intro count_pos_update_same) (auto simp: occupied_def)
  ultimately have inv': "slab_inv ?s' fl"
    using D H by (simp add: slab_inv_def free_chain_update)
  have "slab_view ?s' = slab_view s"
    using H by (intro slab_view_vacant [of i s ?sl]) (auto simp: occupied_def)
  moreover have "key_parts (slab_key_new (of_nat i) g) = (i, g)"
    using H D(1) by (simp add: key_parts_def generation_get_wf g_def)
  moreover have "is_occupied g" using H(5) by (simp add: occupied_def g_def)
  moreover from this have "slab_view s (i, g) = None"
    using H(5) by (auto simp: slab_view_def occupied_def)
  moreover have "slab_reserved ?s' i"
    using H by (simp add: slab_reserved_def occupied_def)
  ultimately show ?thesis using that [of ?s'] eq inv' by simp
qed

text \<open>A key denotes a live reservation when its slot is reserved and rolls to its generation.\<close>

definition reservation :: "'a slab \<Rightarrow> slab_key \<Rightarrow> bool" where
  "reservation s k \<longleftrightarrow> slab_reserved s (unat (key_index k)) \<and>
     generation_next (generation (slots s ! unat (key_index k))) = key_generation k"

lemma reservation_guard:
  assumes "slab_inv s fl" "issued_key k"
  shows "reservation s k \<longleftrightarrow> unat (key_index k) < length (slots s) \<and>
     \<not> (next_free (slots s ! unat (key_index k)) \<noteq> key_index k \<or>
       generation_next (generation (slots s ! unat (key_index k))) \<noteq> key_generation k)"
  using assms by (auto simp: reservation_def slab_reserved_def occupied_def issued_key_def)
    (metis is_occupied_next)

lemma slab_install_ok:
  assumes inv: "slab_inv s fl" and k: "issued_key k" and res: "reservation s k"
  defines "i \<equiv> unat (key_index k)"
  obtains s' where
    "slab_install s k v = Ret (Inr (), s')" "slab_inv s' fl"
    "slab_view s' = (slab_view s)(key_parts k \<mapsto> v)" "slab_view s (key_parts k) = None"
    "slots s' = (slots s)[i := (slots s ! i)\<lparr>next_free := FREE_SENTINEL,
       generation := key_generation k, data := Some v\<rparr>]"
proof -
  note D = slab_invD [OF inv]
  from res have i: "i < length (slots s)" "\<not> occupied (slots s ! i)"
    and ri: "slab_reserved s i" and nf: "next_free (slots s ! i) = key_index k"
    and g: "generation_next (generation (slots s ! i)) = key_generation k"
    by (auto simp: reservation_def slab_reserved_def i_def)
  from k have occ: "is_occupied (key_generation k)" by (simp add: issued_key_def)
  let ?sl = "(slots s ! i)\<lparr>next_free := FREE_SENTINEL, generation := key_generation k, data := Some v\<rparr>"
  let ?s' = "s\<lparr>slots := (slots s)[i := ?sl], slab_len := slab_len s + 1\<rparr>"
  have eq: "slab_install s k v = Ret (Inr (), ?s')"
    using i nf g by (simp add: slab_install_def get_at_def Let_def i_def)
  have "slot_ok ?sl i fl" using occ g gen_wf_next [of "generation (slots s ! i)"]
    by (simp add: slot_ok_def)
  then have "\<forall>j < length (slots s). slot_ok ((slots s)[i := ?sl] ! j) j fl"
    using slot_okI_other [OF inv] by auto
  moreover have "count_pos occupied ((slots s)[i := ?sl]) = Suc (count_pos occupied (slots s))"
    using i occ by (intro count_pos_update_add) (auto simp: occupied_def)
  ultimately have "slab_inv ?s' fl"
    using D slab_inv_reserved_notin [OF inv ri] by (simp add: slab_inv_def free_chain_update)
  moreover have "slab_view ?s' = (slab_view s)(key_parts k \<mapsto> v)" "slab_view s (key_parts k) = None"
    using slab_view_fill [of i s ?sl v ?s'] i occ
    by (simp_all add: occupied_def key_parts_def i_def)
  ultimately show ?thesis using that [of ?s'] eq by simp
qed

lemma slab_install_refused:
  assumes "slab_inv s fl" "issued_key k" "\<not> reservation s k"
  shows "slab_install s k v = Ret (Inl v, s)"
  using assms(3) reservation_guard [OF assms(1,2)]
  by (auto simp: slab_install_def get_at_def Let_def)

lemma slab_unreserve_ok:
  assumes inv: "slab_inv s fl" and k: "issued_key k" and res: "reservation s k"
  defines "i \<equiv> unat (key_index k)"
  obtains s' where
    "slab_unreserve s k = (True, s')" "slab_inv s' (i # fl)" "slab_view s' = slab_view s"
    "slots s' = (slots s)[i := (slots s ! i)\<lparr>next_free := free_head s\<rparr>]"
proof -
  note D = slab_invD [OF inv]
  from res have i: "i < length (slots s)" "\<not> occupied (slots s ! i)"
    and ri: "slab_reserved s i" and nf: "next_free (slots s ! i) = key_index k"
    and g: "generation_next (generation (slots s ! i)) = key_generation k"
    by (auto simp: reservation_def slab_reserved_def i_def)
  let ?sl = "(slots s ! i)\<lparr>next_free := free_head s\<rparr>"
  let ?s' = "s\<lparr>slots := (slots s)[i := ?sl], free_head := key_index k\<rparr>"
  have eq: "slab_unreserve s k = (True, ?s')"
    using i nf g by (simp add: slab_unreserve_def get_at_def Let_def i_def)
  have "slot_ok ?sl i (i # fl)" using D(5) [OF i(1)] i by (auto simp: slot_ok_def occupied_def)
  then have "\<forall>j < length (slots s). slot_ok ((slots s)[i := ?sl] ! j) j (i # fl)"
    using slot_okI_other [OF inv] by auto
  moreover have "count_pos occupied ((slots s)[i := ?sl]) = count_pos occupied (slots s)"
    using i by (intro count_pos_update_same) (auto simp: occupied_def)
  moreover have "key_index k = of_nat i" by (simp add: i_def)
  ultimately have "slab_inv ?s' (i # fl)"
    using D i slab_inv_reserved_notin [OF inv ri]
    by (simp add: slab_inv_def free_chain_update occupied_def)
  moreover have "slab_view ?s' = slab_view s"
    using i by (intro slab_view_vacant [of i s ?sl]) (auto simp: occupied_def)
  ultimately show ?thesis using that [of ?s'] eq by simp
qed

lemma slab_unreserve_refused:
  assumes "slab_inv s fl" "issued_key k" "\<not> reservation s k"
  shows "slab_unreserve s k = (False, s)"
  using assms(3) reservation_guard [OF assms(1,2)]
  by (auto simp: slab_unreserve_def get_at_def Let_def)

text \<open>Writing through a mutable reference touches only the payload.\<close>

lemma slab_write_inv:
  assumes inv: "slab_inv s fl" and i: "i < length (slots s)" "occupied (slots s ! i)"
  shows "slab_inv (s\<lparr>slots := (slots s)[i := (slots s ! i)\<lparr>data := Some v\<rparr>]\<rparr>) fl"
proof -
  note D = slab_invD [OF inv]
  let ?sl = "(slots s ! i)\<lparr>data := Some v\<rparr>"
  have "slot_ok ?sl i fl" using D(5) [OF i(1)] i by (auto simp: slot_ok_def occupied_def)
  then have "\<forall>j < length (slots s). slot_ok ((slots s)[i := ?sl] ! j) j fl"
    using slot_okI_other [OF inv] by auto
  moreover have "count_pos occupied ((slots s)[i := ?sl]) = count_pos occupied (slots s)"
    using i by (intro count_pos_update_same) (auto simp: occupied_def)
  ultimately show ?thesis
    using D slab_inv_occupied_notin [OF inv i] by (simp add: slab_inv_def free_chain_update)
qed

text \<open>A lookup key either misses, or names an occupied slot with its payload.\<close>

lemma slab_key_cases [consumes 2, case_names Miss Hit]:
  assumes inv: "slab_inv s fl" and k: "issued_key k"
  obtains
    (Miss) "slab_view s (key_parts k) = None"
      "get_at (slots s) (unat (key_index k)) = None \<or>
       generation (slots s ! unat (key_index k)) \<noteq> key_generation k"
  | (Hit) v where "slab_view s (key_parts k) = Some v" "unat (key_index k) < length (slots s)"
      "generation (slots s ! unat (key_index k)) = key_generation k"
      "data (slots s ! unat (key_index k)) = Some v" "occupied (slots s ! unat (key_index k))"
proof (cases "unat (key_index k) < length (slots s) \<and>
    generation (slots s ! unat (key_index k)) = key_generation k")
  case True
  with inv k obtain v where "data (slots s ! unat (key_index k)) = Some v"
    by (metis issued_key_def slab_inv_data)
  with True k show ?thesis
    by (intro Hit) (auto simp: slab_view_def key_parts_def issued_key_def occupied_def)
next
  case False
  then show ?thesis by (intro Miss) (auto simp: slab_view_def key_parts_def)
qed

lemma slab_index_cases [consumes 1, case_names Vacant Live]:
  assumes inv: "slab_inv s fl"
  obtains
    (Vacant) "\<And>g. slab_view s (unat idx, g) = None"
      "get_at (slots s) (unat idx) = None \<or> \<not> is_occupied (generation (slots s ! unat idx))"
  | (Live) v where "slab_view s (unat idx, generation (slots s ! unat idx)) = Some v"
      "unat idx < length (slots s)" "data (slots s ! unat idx) = Some v"
      "is_occupied (generation (slots s ! unat idx))" "occupied (slots s ! unat idx)"
proof (cases "unat idx < length (slots s) \<and> is_occupied (generation (slots s ! unat idx))")
  case True
  with inv obtain v where "data (slots s ! unat idx) = Some v"
    by (metis slab_inv_data)
  with True show ?thesis by (intro Live) (auto simp: slab_view_def occupied_def)
next
  case False
  then show ?thesis by (intro Vacant) (auto simp: slab_view_def)
qed

section \<open>Sequences of operations\<close>

text \<open>
  Every public operation as a constructor, its returned value, and the run of one
  operation. The closures stand for what a caller writes through a mutable reference.
\<close>

datatype 'a slab_op =
    OpInsert 'a | OpGet slab_key | OpGetMut slab_key "'a \<Rightarrow> 'a" | OpRemove slab_key
  | OpRetire slab_key | OpReserve | OpInstall slab_key 'a | OpUnreserve slab_key
  | OpGetAt u32 | OpGetMutAt u32 "'a \<Rightarrow> 'a" | OpRemoveAt u32

datatype 'a slab_ret =
    RetKey "slab_error + slab_key" | RetVal "'a option" | RetBool bool | RetInstall "'a + unit"

fun slab_apply :: "'a slab_op \<Rightarrow> 'a slab \<Rightarrow> ('a slab_ret \<times> 'a slab) exec" where
  "slab_apply (OpInsert v) s = exec_bind (slab_insert s v) (\<lambda>(r, s'). Ret (RetKey r, s'))"
| "slab_apply (OpGet k) s = exec_bind (slab_get s k) (\<lambda>r. Ret (RetVal r, s))"
| "slab_apply (OpGetMut k f) s = exec_bind (slab_get_mut s k f) (\<lambda>r.
     Ret (case r of None \<Rightarrow> (RetBool False, s) | Some s' \<Rightarrow> (RetBool True, s')))"
| "slab_apply (OpRemove k) s = exec_bind (slab_remove s k) (\<lambda>(r, s'). Ret (RetVal r, s'))"
| "slab_apply (OpRetire k) s = exec_bind (slab_retire_slot s k) (\<lambda>(r, s'). Ret (RetBool r, s'))"
| "slab_apply OpReserve s = exec_bind (slab_reserve s) (\<lambda>(r, s'). Ret (RetKey r, s'))"
| "slab_apply (OpInstall k v) s = exec_bind (slab_install s k v) (\<lambda>(r, s'). Ret (RetInstall r, s'))"
| "slab_apply (OpUnreserve k) s = (case slab_unreserve s k of (r, s') \<Rightarrow> Ret (RetBool r, s'))"
| "slab_apply (OpGetAt idx) s = exec_bind (slab_get_by_index s idx) (\<lambda>r. Ret (RetVal r, s))"
| "slab_apply (OpGetMutAt idx f) s = exec_bind (slab_get_mut_by_index s idx f) (\<lambda>r.
     Ret (case r of None \<Rightarrow> (RetBool False, s) | Some s' \<Rightarrow> (RetBool True, s')))"
| "slab_apply (OpRemoveAt idx) s = exec_bind (slab_remove_by_index s idx) (\<lambda>(r, s'). Ret (RetVal r, s'))"

text \<open>The keys an operation is given; the slab's contract is about keys it issued.\<close>

fun op_issued :: "'a slab_op \<Rightarrow> bool" where
  "op_issued (OpGet k) = issued_key k"
| "op_issued (OpGetMut k f) = issued_key k"
| "op_issued (OpRemove k) = issued_key k"
| "op_issued (OpRetire k) = issued_key k"
| "op_issued (OpInstall k v) = issued_key k"
| "op_issued (OpUnreserve k) = issued_key k"
| "op_issued _ = True"

text \<open>The abstract contract: what each operation may return and do to the map.\<close>

fun slab_spec :: "'a slab_op \<Rightarrow> 'a slab_ret \<Rightarrow> (nat \<times> generation \<rightharpoonup> 'a) \<Rightarrow> (nat \<times> generation \<rightharpoonup> 'a) \<Rightarrow> bool" where
  "slab_spec (OpInsert v) r m m' \<longleftrightarrow> (case r of
     RetKey (Inr k) \<Rightarrow> issued_key k \<and> m (key_parts k) = None \<and> m' = m(key_parts k \<mapsto> v)
   | RetKey (Inl e) \<Rightarrow> m' = m | _ \<Rightarrow> False)"
| "slab_spec (OpGet k) r m m' \<longleftrightarrow> r = RetVal (m (key_parts k)) \<and> m' = m"
| "slab_spec (OpGetMut k f) r m m' \<longleftrightarrow>
     r = RetBool (m (key_parts k) \<noteq> None) \<and> m' = m(key_parts k := map_option f (m (key_parts k)))"
| "slab_spec (OpRemove k) r m m' \<longleftrightarrow> r = RetVal (m (key_parts k)) \<and> m' = m(key_parts k := None)"
| "slab_spec (OpRetire k) r m m' \<longleftrightarrow>
     r = RetBool (m (key_parts k) \<noteq> None) \<and> m' = m(key_parts k := None)"
| "slab_spec OpReserve r m m' \<longleftrightarrow> (case r of
     RetKey (Inr k) \<Rightarrow> issued_key k \<and> m (key_parts k) = None \<and> m' = m
   | RetKey (Inl e) \<Rightarrow> m' = m | _ \<Rightarrow> False)"
| "slab_spec (OpInstall k v) r m m' \<longleftrightarrow> (case r of
     RetInstall (Inr u) \<Rightarrow> m (key_parts k) = None \<and> m' = m(key_parts k \<mapsto> v)
   | RetInstall (Inl w) \<Rightarrow> w = v \<and> m' = m | _ \<Rightarrow> False)"
| "slab_spec (OpUnreserve k) r m m' \<longleftrightarrow> (\<exists>b. r = RetBool b) \<and> m' = m"
| "slab_spec (OpGetAt idx) r m m' \<longleftrightarrow> m' = m \<and>
     (r = RetVal None \<and> (\<forall>g. m (unat idx, g) = None) \<or> (\<exists>g v. r = RetVal (Some v) \<and> m (unat idx, g) = Some v))"
| "slab_spec (OpGetMutAt idx f) r m m' \<longleftrightarrow>
     r = RetBool False \<and> (\<forall>g. m (unat idx, g) = None) \<and> m' = m \<or>
     r = RetBool True \<and> (\<exists>g v. m (unat idx, g) = Some v \<and> m' = m((unat idx, g) \<mapsto> f v))"
| "slab_spec (OpRemoveAt idx) r m m' \<longleftrightarrow>
     r = RetVal None \<and> (\<forall>g. m (unat idx, g) = None) \<and> m' = m \<or>
     (\<exists>g v. r = RetVal (Some v) \<and> m (unat idx, g) = Some v \<and> m' = m((unat idx, g) := None))"

text \<open>
  What any operation leaves alone: the number of slots, every generation up to one bump, and
  every reservation it does not itself consume.
\<close>

fun op_consumes :: "'a slab_op \<Rightarrow> slab_key \<Rightarrow> bool" where
  "op_consumes (OpInstall k v) k' \<longleftrightarrow> key_parts k = key_parts k'"
| "op_consumes (OpUnreserve k) k' \<longleftrightarrow> key_parts k = key_parts k'"
| "op_consumes _ _ \<longleftrightarrow> False"

definition slab_frame :: "'a slab_op \<Rightarrow> 'a slab \<Rightarrow> 'a slab \<Rightarrow> bool" where
  "slab_frame op s s' \<longleftrightarrow> length (slots s') = length (slots s) \<and>
     (\<forall>i < length (slots s). generation (slots s' ! i) = generation (slots s ! i) \<or>
        generation (slots s' ! i) = generation_next (generation (slots s ! i))) \<and>
     (\<forall>k. reservation s k \<and> \<not> op_consumes op k \<longrightarrow> reservation s' k)"

lemma slab_frame_refl [simp]: "slab_frame op s s"
  by (simp add: slab_frame_def)

lemma slab_frame_update:
  assumes "slots s' = (slots s)[i := sl]"
    and "generation sl = generation (slots s ! i) \<or> generation sl = generation_next (generation (slots s ! i))"
    and "\<And>k. reservation s k \<Longrightarrow> \<not> op_consumes op k \<Longrightarrow> unat (key_index k) \<noteq> i"
  shows "slab_frame op s s'"
proof -
  have "reservation s' k" if "reservation s k" "\<not> op_consumes op k" for k
  proof -
    from assms(3) [OF that] have "slots s' ! unat (key_index k) = slots s ! unat (key_index k)"
      by (simp add: assms(1))
    with that(1) show ?thesis by (simp add: reservation_def slab_reserved_def assms(1))
  qed
  moreover have "generation (slots s' ! j) = generation (slots s ! j) \<or>
      generation (slots s' ! j) = generation_next (generation (slots s ! j))"
    if "j < length (slots s)" for j
    using that assms(1,2) by (cases "j = i") simp_all
  ultimately show ?thesis using assms(1) by (simp add: slab_frame_def)
qed

lemma reservation_not_free: "slab_inv s fl \<Longrightarrow> reservation s k \<Longrightarrow> unat (key_index k) \<notin> set fl"
  using slab_inv_reserved_notin by (auto simp: reservation_def)

lemma reservation_not_occupied: "reservation s k \<Longrightarrow> \<not> occupied (slots s ! unat (key_index k))"
  by (auto simp: reservation_def slab_reserved_def)

lemma reservation_unique:
  "reservation s k \<Longrightarrow> reservation s k' \<Longrightarrow> key_parts k \<noteq> key_parts k' \<Longrightarrow>
   unat (key_index k') \<noteq> unat (key_index k)"
  by (auto simp: reservation_def key_parts_def)

lemma issued_key_parts: "key_parts k = (i, g) \<Longrightarrow> issued_key k \<longleftrightarrow> is_occupied g"
  by (simp add: key_parts_def issued_key_def)

text \<open>The outcome of one operation on a well-formed slab.\<close>

definition slab_op_ok :: "'a slab_op \<Rightarrow> 'a slab \<Rightarrow> bool" where
  "slab_op_ok op s \<longleftrightarrow> (\<exists>r s' fl'. slab_apply op s = Ret (r, s') \<and> slab_inv s' fl' \<and>
     slab_spec op r (slab_view s) (slab_view s') \<and> slab_frame op s s')"

lemma slab_op_okI:
  "slab_apply op s = Ret (r, s') \<Longrightarrow> slab_inv s' fl' \<Longrightarrow>
   slab_spec op r (slab_view s) (slab_view s') \<Longrightarrow> slab_frame op s s' \<Longrightarrow> slab_op_ok op s"
  unfolding slab_op_ok_def by blast

lemma slab_insert_op_ok:
  assumes inv: "slab_inv s fl"
  shows "slab_op_ok (OpInsert v) s"
proof (cases fl)
  case Nil
  with inv show ?thesis
    by (intro slab_op_okI [where fl' = fl and s' = s and r = "RetKey (Inl Full)"])
      (simp_all add: slab_insert_full)
next
  case (Cons i fl')
  note inv' = inv [unfolded Cons]
  from slab_insert_ok [OF inv', of v] obtain s' g where *:
    "slab_insert s v = Ret (Inr (slab_key_new (of_nat i) g), s')" "slab_inv s' fl'"
    "slab_view s' = (slab_view s)((i, g) \<mapsto> v)" "slab_view s (i, g) = None"
    "key_parts (slab_key_new (of_nat i) g) = (i, g)" "is_occupied g"
    "g = generation_next (generation (slots s ! i))"
    "slots s' = (slots s)[i := (slots s ! i)\<lparr>next_free := FREE_SENTINEL, generation := g, data := Some v\<rparr>]"
    by metis
  have "slab_frame (OpInsert v) s s'"
    by (rule slab_frame_update [OF *(8)]) (use *(7) reservation_not_free [OF inv] Cons in auto)
  with * show ?thesis
    by (intro slab_op_okI [of _ _ _ s' fl']) (auto simp: issued_key_parts)
qed

lemma slab_reserve_op_ok:
  assumes inv: "slab_inv s fl"
  shows "slab_op_ok OpReserve s"
proof (cases fl)
  case Nil
  with inv show ?thesis
    by (intro slab_op_okI [where fl' = fl and s' = s and r = "RetKey (Inl Full)"])
      (simp_all add: slab_reserve_full)
next
  case (Cons i fl')
  note inv' = inv [unfolded Cons]
  from slab_reserve_ok [OF inv'] obtain s' g where *:
    "slab_reserve s = Ret (Inr (slab_key_new (of_nat i) g), s')" "slab_inv s' fl'"
    "slab_view s' = slab_view s" "slab_view s (i, g) = None"
    "key_parts (slab_key_new (of_nat i) g) = (i, g)" "is_occupied g"
    "slots s' = (slots s)[i := (slots s ! i)\<lparr>next_free := of_nat i\<rparr>]"
    by metis
  have "slab_frame OpReserve s s'"
    by (rule slab_frame_update [OF *(7)]) (use reservation_not_free [OF inv] Cons in auto)
  with * show ?thesis
    by (intro slab_op_okI [of _ _ _ s' fl']) (auto simp: issued_key_parts)
qed

lemma slab_install_op_ok:
  assumes inv: "slab_inv s fl" and k: "issued_key k"
  shows "slab_op_ok (OpInstall k v) s"
proof (cases "reservation s k")
  case True
  from slab_install_ok [OF inv k True, of v] obtain s' where *:
    "slab_install s k v = Ret (Inr (), s')" "slab_inv s' fl"
    "slab_view s' = (slab_view s)(key_parts k \<mapsto> v)" "slab_view s (key_parts k) = None"
    "slots s' = (slots s)[unat (key_index k) := (slots s ! unat (key_index k))\<lparr>next_free := FREE_SENTINEL,
       generation := key_generation k, data := Some v\<rparr>]"
    by metis
  have "slab_frame (OpInstall k v) s s'"
    by (rule slab_frame_update [OF *(5)])
      (use reservation_unique [OF True] True [unfolded reservation_def] in simp_all)
  with * show ?thesis by (intro slab_op_okI [of _ _ _ s' fl]) auto
next
  case False
  with inv k show ?thesis
    by (intro slab_op_okI [where fl' = fl and s' = s and r = "RetInstall (Inl v)"])
      (simp_all add: slab_install_refused)
qed

lemma slab_unreserve_op_ok:
  assumes inv: "slab_inv s fl" and k: "issued_key k"
  shows "slab_op_ok (OpUnreserve k) s"
proof (cases "reservation s k")
  case True
  from slab_unreserve_ok [OF inv k True] obtain s' where *:
    "slab_unreserve s k = (True, s')" "slab_inv s' (unat (key_index k) # fl)"
    "slab_view s' = slab_view s"
    "slots s' = (slots s)[unat (key_index k) := (slots s ! unat (key_index k))\<lparr>next_free := free_head s\<rparr>]"
    by metis
  have "slab_frame (OpUnreserve k) s s'"
    by (rule slab_frame_update [OF *(4)]) (simp_all add: reservation_unique [OF True])
  with * show ?thesis by (intro slab_op_okI [of _ _ _ s']) auto
next
  case False
  with inv k show ?thesis
    by (intro slab_op_okI [where fl' = fl and s' = s and r = "RetBool False"])
      (auto simp: slab_unreserve_refused)
qed

lemma slab_get_op_ok:
  assumes "slab_inv s fl" "issued_key k"
  shows "slab_op_ok (OpGet k) s"
  by (rule slab_op_okI [of _ _ "RetVal (slab_view s (key_parts k))" s fl])
    (use assms in \<open>simp_all add: slab_get_view\<close>)

lemma slab_get_at_op_ok:
  assumes inv: "slab_inv s fl"
  shows "slab_op_ok (OpGetAt idx) s"
  using inv
proof (cases rule: slab_index_cases [of s fl idx])
  case Vacant
  then show ?thesis using inv
    by (intro slab_op_okI [of _ _ "RetVal None" s fl])
      (auto simp: slab_get_by_index_def get_at_def)
next
  case (Live v)
  then show ?thesis using inv
    by (intro slab_op_okI [of _ _ "RetVal (Some v)" s fl])
      (auto simp: slab_get_by_index_def get_at_def slot_data_ref_def)
qed

lemma slab_write_frame:
  assumes "occupied (slots s ! i)"
  shows "slab_frame op s (s\<lparr>slots := (slots s)[i := (slots s ! i)\<lparr>data := d\<rparr>]\<rparr>)"
  by (rule slab_frame_update) (use assms in \<open>auto dest: reservation_not_occupied\<close>)

lemma slab_write_view:
  assumes "i < length (slots s)" "occupied (slots s ! i)"
  shows "slab_view (s\<lparr>slots := (slots s)[i := (slots s ! i)\<lparr>data := Some v\<rparr>]\<rparr>) =
    (slab_view s)((i, generation (slots s ! i)) \<mapsto> v)"
  by (rule slab_view_write [OF assms]) simp

lemma slab_get_mut_op_ok:
  assumes inv: "slab_inv s fl" and k: "issued_key k"
  shows "slab_op_ok (OpGetMut k f) s"
  using inv k
proof (cases rule: slab_key_cases)
  case Miss
  then show ?thesis using inv
    by (intro slab_op_okI [of _ _ "RetBool False" s fl])
      (auto simp: slab_get_mut_def get_at_def fun_upd_idem)
next
  case (Hit v)
  let ?i = "unat (key_index k)"
  let ?s' = "s\<lparr>slots := (slots s)[?i := (slots s ! ?i)\<lparr>data := Some (f v)\<rparr>]\<rparr>"
  have "slab_apply (OpGetMut k f) s = Ret (RetBool True, ?s')"
    using Hit by (simp add: slab_get_mut_def get_at_def slot_data_ref_def)
  moreover have "slab_spec (OpGetMut k f) (RetBool True) (slab_view s) (slab_view ?s')"
    using slab_write_view [OF Hit(2,5), of "f v"] Hit(1,3) by (simp add: key_parts_def)
  ultimately show ?thesis
    by (rule slab_op_okI [OF _ slab_write_inv [OF inv Hit(2,5)] _ slab_write_frame [OF Hit(5)]])
qed

lemma slab_get_mut_at_op_ok:
  assumes inv: "slab_inv s fl"
  shows "slab_op_ok (OpGetMutAt idx f) s"
  using inv
proof (cases rule: slab_index_cases [of s fl idx])
  case Vacant
  then show ?thesis using inv
    by (intro slab_op_okI [of _ _ "RetBool False" s fl])
      (auto simp: slab_get_mut_by_index_def get_at_def)
next
  case (Live v)
  let ?i = "unat idx"
  let ?s' = "s\<lparr>slots := (slots s)[?i := (slots s ! ?i)\<lparr>data := Some (f v)\<rparr>]\<rparr>"
  have "slab_apply (OpGetMutAt idx f) s = Ret (RetBool True, ?s')"
    using Live by (simp add: slab_get_mut_by_index_def get_at_def slot_data_ref_def)
  moreover have "slab_spec (OpGetMutAt idx f) (RetBool True) (slab_view s) (slab_view ?s')"
    using slab_write_view [OF Live(2,5), of "f v"] Live(1) by auto
  ultimately show ?thesis
    by (rule slab_op_okI [OF _ slab_write_inv [OF inv Live(2,5)] _ slab_write_frame [OF Live(5)]])
qed

text \<open>The three operations that release an occupied slot.\<close>

lemma slab_release_ok:
  assumes inv: "slab_inv s fl" and i: "unat idx < length (slots s)" "occupied (slots s ! unat idx)"
  obtains s' where
    "release_slot s idx (slots s ! unat idx) = Ret s'" "slab_inv s' (unat idx # fl)"
    "slab_view s' = (slab_view s)((unat idx, generation (slots s ! unat idx)) := None)"
    "slab_frame op s s'"
    "generation (slots s' ! unat idx) = generation_next (generation (slots s ! unat idx))"
proof (rule release_slot_ok [OF inv i])
  fix s' assume s':
    "release_slot s idx (slots s ! unat idx) = Ret s'" "slab_inv s' (unat idx # fl)"
    "slab_view s' = (slab_view s)((unat idx, generation (slots s ! unat idx)) := None)"
    "slots s' = (slots s)[unat idx := (slots s ! unat idx)
       \<lparr>generation := generation_next (generation (slots s ! unat idx)), next_free := free_head s, data := None\<rparr>]"
  have "slab_frame op s s'"
    by (rule slab_frame_update [OF s'(4)]) (use i in \<open>auto dest: reservation_not_occupied\<close>)
  moreover have "generation (slots s' ! unat idx) = generation_next (generation (slots s ! unat idx))"
    using i(1) by (simp add: s'(4))
  ultimately show thesis using s' that by blast
qed

lemma slab_remove_op_ok:
  assumes inv: "slab_inv s fl" and k: "issued_key k"
  shows "slab_op_ok (OpRemove k) s"
  using inv k
proof (cases rule: slab_key_cases)
  case Miss
  then show ?thesis using inv
    by (intro slab_op_okI [of _ _ "RetVal None" s fl])
      (auto simp: slab_remove_def Let_def get_at_def fun_upd_idem)
next
  case (Hit v)
  show ?thesis
    by (rule slab_release_ok [OF inv Hit(2,5), of "OpRemove k"], rule slab_op_okI [of _ _ "RetVal (Some v)"])
      (use Hit in \<open>auto simp: slab_remove_def Let_def get_at_def slot_data_ref_def key_parts_def\<close>)
qed

lemma slab_retire_op_ok:
  assumes inv: "slab_inv s fl" and k: "issued_key k"
  shows "slab_op_ok (OpRetire k) s"
  using inv k
proof (cases rule: slab_key_cases)
  case Miss
  then show ?thesis using inv
    by (intro slab_op_okI [of _ _ "RetBool False" s fl])
      (auto simp: slab_retire_slot_def Let_def get_at_def fun_upd_idem)
next
  case (Hit v)
  show ?thesis
    by (rule slab_release_ok [OF inv Hit(2,5), of "OpRetire k"], rule slab_op_okI [of _ _ "RetBool True"])
      (use Hit in \<open>auto simp: slab_retire_slot_def Let_def get_at_def key_parts_def\<close>)
qed

lemma slab_remove_at_op_ok:
  assumes inv: "slab_inv s fl"
  shows "slab_op_ok (OpRemoveAt idx) s"
  using inv
proof (cases rule: slab_index_cases [of s fl idx])
  case Vacant
  then show ?thesis using inv
    by (intro slab_op_okI [of _ _ "RetVal None" s fl])
      (auto simp: slab_remove_by_index_def get_at_def)
next
  case (Live v)
  show ?thesis
    by (rule slab_release_ok [OF inv Live(2,5), of "OpRemoveAt idx"], rule slab_op_okI [of _ _ "RetVal (Some v)"])
      (use Live in \<open>auto simp: slab_remove_by_index_def get_at_def slot_data_ref_def\<close>)
qed

lemmas slab_ops_ok = slab_insert_op_ok slab_get_op_ok slab_get_mut_op_ok slab_remove_op_ok
  slab_retire_op_ok slab_reserve_op_ok slab_install_op_ok slab_unreserve_op_ok
  slab_get_at_op_ok slab_get_mut_at_op_ok slab_remove_at_op_ok

lemma slab_apply_ok: "slab_inv s fl \<Longrightarrow> op_issued op \<Longrightarrow> slab_op_ok op s"
  by (cases op) (simp_all add: slab_ops_ok)

text \<open>A run of operations, collecting what each returned.\<close>

fun slab_run :: "'a slab_op list \<Rightarrow> 'a slab \<Rightarrow> ('a slab_ret list \<times> 'a slab) exec" where
  "slab_run [] s = Ret ([], s)"
| "slab_run (op # ops) s =
     exec_bind (slab_apply op s) (\<lambda>(r, s'). exec_bind (slab_run ops s') (\<lambda>(rs, s''). Ret (r # rs, s'')))"

fun slab_trace_ok :: "'a slab_op list \<Rightarrow> 'a slab_ret list \<Rightarrow> (nat \<times> generation \<rightharpoonup> 'a) \<Rightarrow> (nat \<times> generation \<rightharpoonup> 'a) \<Rightarrow> bool" where
  "slab_trace_ok [] [] m m' \<longleftrightarrow> m' = m"
| "slab_trace_ok (op # ops) (r # rs) m m' \<longleftrightarrow> (\<exists>m1. slab_spec op r m m1 \<and> slab_trace_ok ops rs m1 m')"
| "slab_trace_ok _ _ _ _ \<longleftrightarrow> False"

text \<open>How far a run may have moved a slot: at most one generation bump per operation.\<close>

definition slab_drift :: "nat \<Rightarrow> 'a slab \<Rightarrow> 'a slab \<Rightarrow> bool" where
  "slab_drift n s s' \<longleftrightarrow> length (slots s') = length (slots s) \<and>
     (\<forall>i < length (slots s). \<exists>j \<le> n. generation (slots s' ! i) = (generation_next ^^ j) (generation (slots s ! i)))"

lemma slab_drift_refl: "slab_drift 0 s s"
  by (simp add: slab_drift_def)

lemma slab_drift_step:
  assumes "slab_frame op s s1" "slab_drift n s1 s2"
  shows "slab_drift (Suc n) s s2"
proof -
  have "\<exists>j \<le> Suc n. generation (slots s2 ! i) = (generation_next ^^ j) (generation (slots s ! i))"
    if i: "i < length (slots s)" for i
  proof -
    from assms(1) i have "i < length (slots s1)" by (simp add: slab_frame_def)
    with assms(2) obtain j where j: "j \<le> n"
      "generation (slots s2 ! i) = (generation_next ^^ j) (generation (slots s1 ! i))"
      unfolding slab_drift_def by blast
    from assms(1) i have "generation (slots s1 ! i) = generation (slots s ! i) \<or>
      generation (slots s1 ! i) = generation_next (generation (slots s ! i))"
      by (simp add: slab_frame_def)
    then show ?thesis
    proof
      assume "generation (slots s1 ! i) = generation (slots s ! i)"
      with j show ?thesis by (intro exI [of _ j]) simp
    next
      assume "generation (slots s1 ! i) = generation_next (generation (slots s ! i))"
      with j show ?thesis by (intro exI [of _ "Suc j"]) (simp add: funpow_swap1)
    qed
  qed
  with assms show ?thesis by (simp add: slab_drift_def slab_frame_def)
qed

lemma slab_run_ok:
  assumes "slab_inv s fl" "\<forall>op \<in> set ops. op_issued op"
  obtains rs s' fl' where "slab_run ops s = Ret (rs, s')" "slab_inv s' fl'"
    "slab_trace_ok ops rs (slab_view s) (slab_view s')" "slab_drift (length ops) s s'"
    "\<And>k. reservation s k \<Longrightarrow> \<forall>op \<in> set ops. \<not> op_consumes op k \<Longrightarrow> reservation s' k"
  using assms
proof (induction ops arbitrary: s fl thesis)
  case Nil
  then show ?case by (auto simp: slab_drift_refl)
next
  case (Cons op ops)
  from Cons.prems slab_apply_ok [of s fl op] obtain r s1 fl1 where 1:
    "slab_apply op s = Ret (r, s1)" "slab_inv s1 fl1"
    "slab_spec op r (slab_view s) (slab_view s1)" "slab_frame op s s1"
    by (auto simp: slab_op_ok_def)
  from Cons.IH [OF _ 1(2)] Cons.prems(3) obtain rs s2 fl2 where 2:
    "slab_run ops s1 = Ret (rs, s2)" "slab_inv s2 fl2"
    "slab_trace_ok ops rs (slab_view s1) (slab_view s2)" "slab_drift (length ops) s1 s2"
    "\<And>k. reservation s1 k \<Longrightarrow> \<forall>op \<in> set ops. \<not> op_consumes op k \<Longrightarrow> reservation s2 k"
    by auto
  show ?case
  proof (rule Cons.prems(1) [of "r # rs" s2 fl2])
    show "slab_run (op # ops) s = Ret (r # rs, s2)" using 1(1) 2(1) by simp
    show "slab_trace_ok (op # ops) (r # rs) (slab_view s) (slab_view s2)" using 1(3) 2(3) by auto
    show "slab_drift (length (op # ops)) s s2" using slab_drift_step [OF 1(4) 2(4)] by simp
    show "reservation s2 k" if "reservation s k" "\<forall>op' \<in> set (op # ops). \<not> op_consumes op' k" for k
      using that 1(4) by (intro 2(5)) (auto simp: slab_frame_def)
  qed (rule 2(2))
qed

section \<open>Iteration and drop\<close>

definition live_entries :: "nat \<Rightarrow> 'a slot list \<Rightarrow> (slab_key \<times> 'a) list" where
  "live_entries n sls = map (\<lambda>(j, sl). (slab_key_new (of_nat j) (generation sl), the (data sl)))
     (filter (occupied \<circ> snd) (enumerate n sls))"

lemma slab_iter_from_live:
  assumes "\<forall>sl \<in> set sls. occupied sl \<longrightarrow> data sl \<noteq> None"
  shows "slab_iter_from n sls = Ret (live_entries n sls)"
  using assms
  by (induction sls arbitrary: n) (auto simp: live_entries_def occupied_def slot_data_ref_def)

lemma slab_drop_from_live:
  assumes "\<forall>sl \<in> set sls. occupied sl \<longrightarrow> data sl \<noteq> None"
  shows "slab_drop_from sls = Ret (map snd (live_entries n sls))"
  using assms
  by (induction sls arbitrary: n) (auto simp: live_entries_def occupied_def slot_data_ref_def)

lemma length_live_entries: "length (live_entries n sls) = count_pos occupied sls"
  by (induction sls arbitrary: n) (simp_all add: live_entries_def count_pos_def)

lemma slab_inv_live:
  assumes "slab_inv s fl"
  shows "\<forall>sl \<in> set (slots s). occupied sl \<longrightarrow> data sl \<noteq> None"
  by (metis assms in_set_conv_nth occupied_def option.distinct(1) slab_inv_data)

lemma live_key_parts:
  assumes "slab_inv s fl" "j < length (slots s)"
  shows "key_parts (slab_key_new (of_nat j) (generation (slots s ! j))) = (j, generation (slots s ! j))"
  using slab_invD(1,5) [OF assms(1)] assms(2)
  by (simp add: key_parts_def slot_ok_def generation_get_wf)

lemma mem_live_entries:
  "(k, v) \<in> set (live_entries 0 sls) \<longleftrightarrow> (\<exists>j < length sls. occupied (sls ! j) \<and>
     k = slab_key_new (of_nat j) (generation (sls ! j)) \<and> v = the (data (sls ! j)))"
  by (fastforce simp: live_entries_def in_set_enumerate_eq)

lemma live_entries_view:
  assumes "slab_inv s fl"
  shows "(\<exists>k. (k, v) \<in> set (live_entries 0 (slots s)) \<and> key_parts k = p) \<longleftrightarrow> slab_view s p = Some v"
proof -
  obtain i g where p: "p = (i, g)" by force
  have "(\<exists>k. (k, v) \<in> set (live_entries 0 (slots s)) \<and> key_parts k = p) \<longleftrightarrow>
    (\<exists>j < length (slots s). occupied (slots s ! j) \<and> v = the (data (slots s ! j)) \<and>
       (j, generation (slots s ! j)) = p)"
    unfolding mem_live_entries using live_key_parts [OF assms] by metis
  also have "\<dots> \<longleftrightarrow> slab_view s p = Some v"
    using slab_inv_live [OF assms] by (auto simp: p slab_view_def occupied_def)
  finally show ?thesis .
qed

lemma distinct_live_entries:
  assumes "slab_inv s fl"
  shows "distinct (map (key_parts \<circ> fst) (live_entries 0 (slots s)))"
proof -
  let ?es = "filter (occupied \<circ> snd) (enumerate 0 (slots s))"
  have "map (fst \<circ> (key_parts \<circ> fst)) (live_entries 0 (slots s)) = map fst ?es"
    using live_key_parts [OF assms] by (fastforce simp: live_entries_def in_set_enumerate_eq)
  moreover have "distinct (map fst ?es)" by (simp add: distinct_map_filter)
  ultimately show ?thesis
    by (metis distinct_map list.map_comp)
qed

section \<open>Capacity\<close>

definition slab_reserved_count :: "'a slab \<Rightarrow> nat" where
  "slab_reserved_count s = length (filter (slab_reserved s) [0..<length (slots s)])"

lemma slab_slots_partition:
  assumes "slab_inv s fl"
  shows "length fl + slab_len s + slab_reserved_count s = slab_capacity s"
proof -
  let ?n = "length (slots s)"
  let ?O = "{i. i < ?n \<and> occupied (slots s ! i)}" and ?R = "{i. i < ?n \<and> slab_reserved s i}"
  note D = slab_invD [OF assms]
  have "{0..<?n} = (set fl \<union> ?O) \<union> ?R"
    using D(5) free_chain_less [OF D(3)]
    by (fastforce simp: slot_ok_def slab_reserved_def occupied_def split: if_splits)
  moreover have "(set fl \<union> ?O) \<inter> ?R = {}" "set fl \<inter> ?O = {}"
    using slab_inv_reserved_notin [OF assms] slab_inv_occupied_notin [OF assms]
    by (auto simp: slab_reserved_def)
  ultimately have "?n = card (set fl) + card ?O + card ?R"
    by (metis (no_types, lifting) List.finite_set card_Un_disjoint card_atLeastLessThan diff_zero
        finite_Un finite_atLeastLessThan)
  moreover have "card (set fl) = length fl" using D(2) by (rule distinct_card)
  moreover have "card ?O = slab_len s" by (simp add: D(4) count_pos_card)
  moreover have "card ?R = slab_reserved_count s"
    by (simp add: slab_reserved_count_def length_filter_conv_card conj_commute)
      (rule arg_cong [where f = card], auto)
  ultimately show ?thesis by (simp add: slab_capacity_def)
qed

section \<open>Properties\<close>

text \<open>A two-slot slab with one live entry, for the concrete instances below.\<close>

definition demo_slab :: "nat slab" where
  "demo_slab = \<lparr>slots = [\<lparr>generation = 1, next_free = FREE_SENTINEL, data = Some 7\<rparr>,
       \<lparr>generation = 0, next_free = FREE_SENTINEL, data = None\<rparr>],
     free_head = 1, slab_len = 1\<rparr>"

lemma demo_slab_inv: "slab_inv demo_slab [1]"
  by (simp add: slab_inv_def demo_slab_def count_pos_def occupied_def slot_ok_def gen_wf_def
      is_occupied_def nth_Cons' less_Suc_eq)

lemma demo_slab_wf: "slab_wf demo_slab"
  using demo_slab_inv by (auto simp: slab_wf_def)

lemma issued_key_one: "issued_key (slab_key_new i 1)"
  by (simp add: issued_key_def generation_get_wf gen_wf_def is_occupied_def)

lemma demo_slab_remove:
  "slab_remove demo_slab (slab_key_new 0 1) = Ret (Some 7,
     \<lparr>slots = [\<lparr>generation = 2, next_free = 1, data = None\<rparr>,
       \<lparr>generation = 0, next_free = FREE_SENTINEL, data = None\<rparr>], free_head = 0, slab_len = 0\<rparr>)"
  by (simp add: slab_remove_def demo_slab_def get_at_def generation_get_def release_slot_def
      slot_data_ref_def generation_next_def GENERATION_MAX_def)

lemma demo_slab_reserve:
  "slab_reserve demo_slab = Ret (Inr (slab_key_new 1 1),
     \<lparr>slots = [\<lparr>generation = 1, next_free = FREE_SENTINEL, data = Some 7\<rparr>,
       \<lparr>generation = 0, next_free = 1, data = None\<rparr>], free_head = FREE_SENTINEL, slab_len = 1\<rparr>)"
  by (simp add: slab_reserve_def demo_slab_def get_at_def FREE_SENTINEL_def is_occupied_def
      generation_next_def GENERATION_MAX_def)

text \<open>
  C1. Starting from an empty slab, any sequence of operations whose keys carry an occupied
  generation runs to its end, without a panic and without reading uninitialised memory, and
  every returned value is the one the abstract map from (index, generation) to payload
  prescribes.
\<close>

theorem slab_refines_map:
  fixes ops :: "'a slab_op list"
  assumes "capacity < 2 ^ 32" and "\<forall>op \<in> set ops. op_issued op"
  shows "\<exists>s0 rs s. slab_new capacity = Ret s0 \<and> slab_run ops s0 = Ret (rs, s) \<and> slab_wf s \<and>
    slab_trace_ok ops rs Map.empty (slab_view s)"
proof -
  obtain s0 :: "'a slab" where 0: "slab_new capacity = Ret s0" "slab_inv s0 [0..<capacity]" "slab_view s0 = Map.empty"
    using slab_new_spec [OF assms(1)] by metis
  obtain rs s fl' where "slab_run ops s0 = Ret (rs, s)" "slab_inv s fl'"
    "slab_trace_ok ops rs (slab_view s0) (slab_view s)"
    using slab_run_ok [OF 0(2) assms(2)] by metis
  with 0 show ?thesis by (auto simp: slab_wf_def)
qed

theorem slab_refines_map_witness:
  "\<exists>s0 rs s. slab_new 1 = Ret s0 \<and>
     slab_run [OpInsert (7 :: nat), OpInsert 8, OpRemove (slab_key_new 0 1), OpReserve] s0 = Ret (rs, s) \<and>
     slab_wf s \<and>
     slab_trace_ok [OpInsert 7, OpInsert 8, OpRemove (slab_key_new 0 1), OpReserve] rs Map.empty (slab_view s)"
  by (rule slab_refines_map) (simp_all add: issued_key_def generation_get_def GENERATION_MAX_def is_occupied_def)

text \<open>
  C2. A key is dead after its removal: however the slab is used for the next
  \<open>2 ^ 24 - 2\<close> operations, the removed key resolves to nothing, even if its slot is
  recycled. (The 24-bit generation needs that many bumps to come round.)
\<close>

theorem slab_stale_key_dead:
  assumes "slab_wf s" "issued_key k" "slab_remove s k = Ret (Some v, s1)"
    and "\<forall>op \<in> set ops. op_issued op" "length ops < 2 ^ 24 - 1"
  shows "\<exists>rs s2. slab_run ops s1 = Ret (rs, s2) \<and> slab_get s2 k = Ret None \<and> slab_slot_ptr s2 k = None"
proof -
  from assms(1) obtain fl where inv: "slab_inv s fl" by (auto simp: slab_wf_def)
  let ?i = "unat (key_index k)"
  from inv assms(2) have "slab_inv s1 (?i # fl) \<and> ?i < length (slots s1) \<and> gen_wf (key_generation k) \<and>
    generation (slots s1 ! ?i) = generation_next (key_generation k)"
  proof (cases rule: slab_key_cases)
    case Miss
    with assms(3) show ?thesis by (auto simp: slab_remove_def Let_def get_at_def split: if_splits)
  next
    case (Hit w)
    then obtain s' where s': "release_slot s (key_index k) (slots s ! ?i) = Ret s'" "slab_inv s' (?i # fl)"
      "slab_frame (OpRemove k) s s'" "generation (slots s' ! ?i) = generation_next (generation (slots s ! ?i))"
      using slab_release_ok [OF inv, of "key_index k" "OpRemove k"] by metis
    with Hit assms(3) have "s1 = s'" by (simp add: slab_remove_def Let_def get_at_def slot_data_ref_def)
    with s' Hit slab_invD(5) [OF inv Hit(2)] show ?thesis by (auto simp: slab_frame_def slot_ok_def)
  qed
  then have 1: "slab_inv s1 (?i # fl)" "?i < length (slots s1)" "gen_wf (key_generation k)"
    "generation (slots s1 ! ?i) = generation_next (key_generation k)" by simp_all
  from slab_run_ok [OF 1(1) assms(4)] obtain rs s2 fl2 where 2: "slab_run ops s1 = Ret (rs, s2)"
    "slab_drift (length ops) s1 s2" by metis
  with 1 obtain j where j: "j \<le> length ops" "?i < length (slots s2)"
    "generation (slots s2 ! ?i) = (generation_next ^^ Suc j) (key_generation k)"
    by (auto simp: slab_drift_def funpow_swap1)
  have "generation (slots s2 ! ?i) \<noteq> key_generation k"
    using generation_next_pow_neq [OF 1(3), of "Suc j"] j assms(5) by simp
  then show ?thesis using 2(1) j(2) by (simp add: slab_get_def slab_slot_ptr_def get_at_def)
qed

theorem slab_stale_key_dead_witness:
  "\<exists>s1 rs s2. slab_remove demo_slab (slab_key_new 0 1) = Ret (Some 7, s1) \<and>
     slab_run [OpInsert 9, OpReserve] s1 = Ret (rs, s2) \<and>
     slab_get s2 (slab_key_new 0 1) = Ret None \<and> slab_slot_ptr s2 (slab_key_new 0 1) = None"
  using slab_stale_key_dead [OF demo_slab_wf issued_key_one demo_slab_remove, of "[OpInsert 9, OpReserve]"]
  by (simp add: demo_slab_remove)

text \<open>
  C3. A reservation survives any operations that do not themselves consume it, and
  installing a value under it then succeeds and makes the value readable under that key.
\<close>

theorem slab_reserve_install:
  assumes "slab_wf s" "slab_reserve s = Ret (Inr k, s1)"
    and "\<forall>op \<in> set ops. op_issued op \<and> \<not> op_consumes op k"
  shows "\<exists>rs s2 s3. slab_run ops s1 = Ret (rs, s2) \<and> slab_install s2 k v = Ret (Inr (), s3) \<and>
    slab_get s3 k = Ret (Some v) \<and> slab_wf s3"
proof -
  from assms(1) obtain fl where inv: "slab_inv s fl" by (auto simp: slab_wf_def)
  with assms(2) obtain i fl1 where fl: "fl = i # fl1"
    by (cases fl) (auto simp: slab_reserve_full)
  obtain g s' where r: "slab_reserve s = Ret (Inr (slab_key_new (of_nat i) g), s')" "slab_inv s' fl1"
    "key_parts (slab_key_new (of_nat i) g) = (i, g)" "is_occupied g" "slab_reserved s' i"
    "slots s' = (slots s)[i := (slots s ! i)\<lparr>next_free := of_nat i\<rparr>]"
    "g = generation_next (generation (slots s ! i))"
    using slab_reserve_ok [OF inv [unfolded fl]] by metis
  with assms(2) have k: "k = slab_key_new (of_nat i) g" "s1 = s'" by simp_all
  with r have iss: "issued_key k" by (simp add: issued_key_parts)
  have "i < length (slots s)" using r(5,6) by (simp add: slab_reserved_def)
  with r k have "reservation s1 k" by (simp add: reservation_def key_parts_def)
  then obtain rs s2 fl2 where 2: "slab_run ops s1 = Ret (rs, s2)" "slab_inv s2 fl2" "reservation s2 k"
    using slab_run_ok [OF r(2), of ops] assms(3) k(2) by (metis (no_types, lifting))
  obtain s3 where 3: "slab_install s2 k v = Ret (Inr (), s3)" "slab_inv s3 fl2"
    "slab_view s3 = (slab_view s2)(key_parts k \<mapsto> v)"
    using slab_install_ok [OF 2(2) iss 2(3), of v] by metis
  then have "slab_get s3 k = Ret (Some v)" using slab_get_view [OF 3(2) iss] by simp
  with 2 3 show ?thesis by (auto simp: slab_wf_def)
qed

theorem slab_reserve_install_witness:
  "\<exists>s1 rs s2 s3. slab_reserve demo_slab = Ret (Inr (slab_key_new 1 1), s1) \<and>
     slab_run [OpRemove (slab_key_new 0 1), OpInsert 3] s1 = Ret (rs, s2) \<and>
     slab_install s2 (slab_key_new 1 1) 5 = Ret (Inr (), s3) \<and>
     slab_get s3 (slab_key_new 1 1) = Ret (Some 5) \<and> slab_wf s3"
  using slab_reserve_install [OF demo_slab_wf demo_slab_reserve,
      of "[OpRemove (slab_key_new 0 1), OpInsert 3]" 5]
  by (simp add: demo_slab_reserve issued_key_one)

text \<open>
  C4. The slab refuses an insert exactly when every slot is occupied or reserved, and
  otherwise never fails.
\<close>

theorem slab_full_iff:
  assumes "slab_wf s"
  shows "slab_len s + slab_reserved_count s \<le> slab_capacity s \<and>
    (if slab_len s + slab_reserved_count s = slab_capacity s
     then slab_insert s v = Ret (Inl Full, s)
     else \<exists>k s'. slab_insert s v = Ret (Inr k, s') \<and> slab_get s' k = Ret (Some v))"
proof -
  from assms obtain fl where inv: "slab_inv s fl" by (auto simp: slab_wf_def)
  note P = slab_slots_partition [OF inv]
  show ?thesis
  proof (cases fl)
    case Nil
    with P inv slab_insert_full show ?thesis by auto
  next
    case (Cons i fl')
    obtain g s' where "slab_insert s v = Ret (Inr (slab_key_new (of_nat i) g), s')" "slab_inv s' fl'"
      "slab_view s' = (slab_view s)((i, g) \<mapsto> v)" "key_parts (slab_key_new (of_nat i) g) = (i, g)"
      "is_occupied g"
      using slab_insert_ok [OF inv [unfolded Cons], of v] by metis
    then have "slab_get s' (slab_key_new (of_nat i) g) = Ret (Some v)"
      by (simp add: slab_get_view issued_key_parts)
    with P Cons \<open>slab_insert s v = _\<close> show ?thesis by auto
  qed
qed

theorem slab_full_iff_witness:
  "slab_wf demo_slab \<and> (\<exists>k s'. slab_insert demo_slab 4 = Ret (Inr k, s') \<and> slab_get s' k = Ret (Some 4))"
  using slab_full_iff [OF demo_slab_wf, of 4] demo_slab_wf
  by (simp add: demo_slab_def slab_capacity_def slab_reserved_count_def slab_reserved_def occupied_def
      is_occupied_def FREE_SENTINEL_def)

text \<open>
  C5. The iterator yields every live entry exactly once under the key that resolves to it, as
  many entries as \<open>len\<close> says, and dropping the slab releases exactly those payloads.
\<close>

theorem slab_iter_exact:
  assumes "slab_wf s"
  shows "\<exists>es. slab_iter s = Ret es \<and> slab_drop s = Ret (map snd es) \<and> length es = slab_len s \<and>
    distinct (map (key_parts \<circ> fst) es) \<and>
    (\<forall>p v. (\<exists>k. (k, v) \<in> set es \<and> key_parts k = p) \<longleftrightarrow> slab_view s p = Some v)"
proof -
  from assms obtain fl where inv: "slab_inv s fl" by (auto simp: slab_wf_def)
  note L = slab_inv_live [OF inv]
  show ?thesis
    using slab_iter_from_live [OF L, of 0] slab_drop_from_live [OF L, of 0] slab_invD(4) [OF inv]
    by (intro exI [of _ "live_entries 0 (slots s)"])
      (simp add: slab_iter_def slab_drop_def length_live_entries distinct_live_entries [OF inv]
        live_entries_view [OF inv])
qed

theorem slab_iter_exact_witness:
  "slab_wf demo_slab \<and> (\<exists>es. slab_iter demo_slab = Ret es \<and> length es = 1 \<and> slab_drop demo_slab = Ret (map snd es))"
  using slab_iter_exact [OF demo_slab_wf] demo_slab_wf by (auto simp: demo_slab_def)

text \<open>
  C6. The generation check alone does not protect an empty slot: a key built with an even
  generation, which the public constructor allows, matches a slot that was never filled and
  reads its uninitialised payload.
\<close>

theorem slab_forged_key_undefined:
  assumes "0 < capacity" "capacity < 2 ^ 32"
  shows "\<exists>s. slab_new capacity = Ret (s :: 'a slab) \<and> slab_wf s \<and>
    slab_get s (slab_key_new 0 0) = Undefined \<and> slab_retire_slot s (slab_key_new 0 0) = Panic"
proof -
  obtain s :: "'a slab" where s: "slab_new capacity = Ret s" "slab_inv s [0..<capacity]"
    using slab_new_spec [OF assms(2)] by metis
  with assms have "0 < length (slots s)" "slots s ! 0 = \<lparr>generation = 0,
      next_free = (if 1 < capacity then 1 else FREE_SENTINEL), data = None\<rparr>" "slab_len s = 0"
    by (auto simp: slab_new_def)
  then show ?thesis using s
    by (auto simp: slab_wf_def slab_get_def slab_retire_slot_def Let_def get_at_def slot_data_ref_def
        release_slot_def generation_get_wf)
qed

theorem slab_forged_key_undefined_witness:
  "\<exists>s. slab_new 1 = Ret (s :: nat slab) \<and> slab_wf s \<and> slab_get s (slab_key_new 0 0) = Undefined"
  using slab_forged_key_undefined [of 1] by auto

end
