(* ===== verification/Ir_Bytes.thy ===== *)
theory Ir_Bytes
  imports Kwokka_Prelude
begin

text \<open>
  What the codec of \<open>kwokka-ir\<close> uses of the language: byte slices with checked range reads,
  little-endian integers, \<open>Result\<close> with the \<open>?\<close> operator, the fixed-stride scan that the
  validation passes share, and in-place slice writes that panic out of range.
\<close>

type_synonym bytes = "u8 list"

section \<open>Results\<close>

text \<open>\<open>res_bind\<close> is the \<open>?\<close> operator; \<open>ok_or\<close> turns an option into a result.\<close>

definition res_bind :: "'e + 'a \<Rightarrow> ('a \<Rightarrow> 'e + 'b) \<Rightarrow> 'e + 'b" where
  "res_bind m f = (case m of Inl e \<Rightarrow> Inl e | Inr a \<Rightarrow> f a)"

definition ok_or :: "'a option \<Rightarrow> 'e \<Rightarrow> 'e + 'a" where
  "ok_or x e = (case x of None \<Rightarrow> Inl e | Some a \<Rightarrow> Inr a)"

definition res_ok :: "'e + 'a \<Rightarrow> 'a option" where
  "res_ok m = (case m of Inl e \<Rightarrow> None | Inr a \<Rightarrow> Some a)"

lemma res_bind_simps [simp]:
  "res_bind (Inl e) f = Inl e" "res_bind (Inr a) f = f a"
  by (simp_all add: res_bind_def)

lemma res_bind_eq_Inr [simp]:
  "res_bind m f = Inr b \<longleftrightarrow> (\<exists>a. m = Inr a \<and> f a = Inr b)"
  by (cases m) simp_all

lemma res_bind_cong [fundef_cong]:
  "m = m' \<Longrightarrow> (\<And>a. m' = Inr a \<Longrightarrow> f a = f' a) \<Longrightarrow> res_bind m f = res_bind m' f'"
  by (cases m') simp_all

lemma res_bindE:
  assumes "res_bind m f = Inr b"
  obtains a where "m = Inr a" "f a = Inr b"
  using assms by auto

lemma res_bind_prodE:
  assumes "res_bind m (case_prod f) = Inr b"
  obtains x y where "m = Inr (x, y)" "f x y = Inr b"
  using assms by auto

lemma ok_or_simps [simp]: "ok_or None e = Inl e" "ok_or (Some a) e = Inr a"
  by (simp_all add: ok_or_def)

lemma ok_or_eq_Inr [simp]: "ok_or x e = Inr a \<longleftrightarrow> x = Some a"
  by (cases x) simp_all

lemma res_ok_simps [simp]: "res_ok (Inl e) = None" "res_ok (Inr a) = Some a"
  by (simp_all add: res_ok_def)

lemma res_ok_eq_Some [simp]: "res_ok m = Some a \<longleftrightarrow> m = Inr a"
  by (cases m) simp_all

text \<open>A \<open>for\<close> loop whose body may return early.\<close>

fun for_each :: "('a \<Rightarrow> 'e + unit) \<Rightarrow> 'a list \<Rightarrow> 'e + unit" where
  "for_each f [] = Inr ()"
| "for_each f (x # xs) = res_bind (f x) (\<lambda>_. for_each f xs)"

lemma for_each_cong [fundef_cong]:
  "xs = ys \<Longrightarrow> (\<And>x. x \<in> set ys \<Longrightarrow> f x = g x) \<Longrightarrow> for_each f xs = for_each g ys"
  by (induction ys arbitrary: xs) (auto intro: res_bind_cong)

lemma for_each_ok: "for_each f xs = Inr u \<longleftrightarrow> (\<forall>x \<in> set xs. f x = Inr ())"
  by (induction xs) auto

section \<open>Slices\<close>

definition get_range :: "'a list \<Rightarrow> nat \<Rightarrow> nat \<Rightarrow> 'a list option" where
  "get_range xs a b = (if a \<le> b \<and> b \<le> length xs then Some (take (b - a) (drop a xs)) else None)"

lemma get_range_eq_Some:
  "get_range xs a b = Some ys \<longleftrightarrow> a \<le> b \<and> b \<le> length xs \<and> ys = take (b - a) (drop a xs)"
  by (auto simp: get_range_def)

lemma get_range_SomeD:
  "get_range xs a b = Some ys \<Longrightarrow> length ys = b - a \<and> a \<le> b \<and> b \<le> length xs"
  by (auto simp: get_range_def split: if_splits)

lemma get_range_append:
  "a = length xs \<Longrightarrow> b = length xs + length ys \<Longrightarrow> get_range (xs @ ys @ zs) a b = Some ys"
  by (simp add: get_range_def)

lemma get_range_mid:
  assumes "bs = xs @ ys @ zs" "a = length xs" "b = length xs + length ys"
  shows "get_range bs a b = Some ys"
  using assms by (simp add: get_range_def)

section \<open>Little-endian integers\<close>

primrec le_word :: "bytes \<Rightarrow> 'a::len word" where
  "le_word [] = 0"
| "le_word (b # bs) = ucast b OR push_bit 8 (le_word bs)"

primrec le_bytes :: "nat \<Rightarrow> 'a::len word \<Rightarrow> bytes" where
  "le_bytes 0 w = []"
| "le_bytes (Suc k) w = ucast w # le_bytes k (drop_bit 8 w)"

lemma length_le_bytes [simp]: "length (le_bytes k w) = k"
  by (induction k arbitrary: w) simp_all

lemma le_word_le_bytes_take: "le_word (le_bytes k w) = take_bit (8 * k) (w :: 'a::len word)"
proof (induction k arbitrary: w)
  case 0
  then show ?case by simp
next
  case (Suc k)
  show ?case
    by (rule bit_word_eqI)
      (auto simp: Suc bit_simps not_less dest: bit_imp_le_length)
qed

lemma le_word_le_bytes [simp]:
  "8 * k = LENGTH('a) \<Longrightarrow> le_word (le_bytes k w) = (w :: 'a::len word)"
  by (simp add: le_word_le_bytes_take)

lemma ex_take_2: "length xs = 2 \<Longrightarrow> \<exists>a b. xs = [a, b]"
  by (auto simp: length_Suc_conv numeral_eq_Suc)

lemma ex_take_4: "length xs = 4 \<Longrightarrow> \<exists>a b c d. xs = [a, b, c, d]"
  by (auto simp: length_Suc_conv numeral_eq_Suc)

lemma ex_take_8: "length xs = 8 \<Longrightarrow> \<exists>a b c d e f g h. xs = [a, b, c, d, e, f, g, h]"
  by (auto simp: length_Suc_conv numeral_eq_Suc)

section \<open>Fixed-stride scans\<close>

text \<open>
  The shape of every table pass of \<open>conductor/check.rs\<close>: from offset \<open>off\<close>, take the next
  \<open>n\<close> bytes (\<open>oob\<close> when they are not there), run the body on them, advance by \<open>n\<close>. The
  strides are positive constants; the guard \<open>0 < n\<close> makes the recursion well-founded.
\<close>

function scan_entries :: "'e \<Rightarrow> nat \<Rightarrow> (bytes \<Rightarrow> 'e + unit) \<Rightarrow> bytes \<Rightarrow> nat \<Rightarrow> 'e + unit" where
  "scan_entries oob n f t off =
     (if off < length t \<and> 0 < n
      then res_bind (ok_or (checked_add off n) oob) (\<lambda>end.
           res_bind (ok_or (get_range t off end) oob) (\<lambda>entry.
           res_bind (f entry) (\<lambda>_. scan_entries oob n f t (off + n))))
      else Inr ())"
  by pat_completeness auto
termination
  by (relation "measure (\<lambda>(oob, n, f, t, off). length t - off)") auto

declare scan_entries.simps [simp del]

text \<open>Entry \<open>i\<close> of a table with stride \<open>n\<close>.\<close>

definition chunk :: "nat \<Rightarrow> bytes \<Rightarrow> nat \<Rightarrow> bytes" where
  "chunk n t i = take n (drop (i * n) t)"

lemma stride_le: "i < m \<Longrightarrow> i * n + n \<le> m * (n :: nat)"
  by (metis Suc_leI add.commute mult_Suc mult_le_mono1)

lemma length_chunk: "i < m \<Longrightarrow> length t = m * n \<Longrightarrow> length (chunk n t i) = n"
  using stride_le [of i m n] by (simp add: chunk_def)

lemma get_range_chunk:
  assumes "i < m" "length t = m * n"
  shows "get_range t (i * n) (i * n + n) = Some (chunk n t i)"
  using stride_le [OF assms(1), of n] assms(2) by (simp add: get_range_def chunk_def)

lemma chunk_replicate: "i < m \<Longrightarrow> chunk n (replicate (m * n) x) i = replicate n x"
  using stride_le [of i m n] by (simp add: chunk_def)

lemma scan_entries_ok_from:
  assumes "length t = m * n" "0 < n" "length t < usize_bound" "i \<le> m"
  shows "scan_entries oob n f t (i * n) = Inr u \<longleftrightarrow> (\<forall>j. i \<le> j \<and> j < m \<longrightarrow> f (chunk n t j) = Inr ())"
  using assms(4)
proof (induction rule: inc_induct)
  case base
  show ?case using assms(1) by (auto simp: scan_entries.simps)
next
  case (step i)
  have len: "i * n < length t" using step.hyps assms(1,2) by simp
  from stride_le [OF step.hyps(2), of n] assms(1,3) have b: "i * n + n < usize_bound" by simp
  have "scan_entries oob n f t (i * n) = Inr u \<longleftrightarrow>
    f (chunk n t i) = Inr () \<and> scan_entries oob n f t (Suc i * n) = Inr u"
    using len b assms(2) get_range_chunk [OF step.hyps(2) assms(1)]
    by (subst scan_entries.simps) (simp add: add.commute [of n] checked_add_def)
  also have "\<dots> \<longleftrightarrow> (\<forall>j. i \<le> j \<and> j < m \<longrightarrow> f (chunk n t j) = Inr ())"
    unfolding step.IH using step.hyps(2) by (auto simp: Suc_le_eq le_less [of i])
  finally show ?case .
qed

lemma scan_entries_ok:
  assumes "length t = m * n" "0 < n" "length t < usize_bound"
  shows "scan_entries oob n f t 0 = Inr u \<longleftrightarrow> (\<forall>j < m. f (chunk n t j) = Inr ())"
  using scan_entries_ok_from [OF assms, of 0] by simp

lemma scan_entries_okD:
  assumes "scan_entries oob n f t 0 = Inr u" "length t = m * n" "0 < n" "length t < usize_bound" "j < m"
  shows "f (chunk n t j) = Inr ()"
  using scan_entries_ok [OF assms(2-4), of oob f u] assms(1,5) by blast

lemma scan_entries_okI:
  assumes "length t = m * n" "0 < n" "length t < usize_bound" "\<And>j. j < m \<Longrightarrow> f (chunk n t j) = Inr ()"
  shows "scan_entries oob n f t 0 = Inr ()"
  using scan_entries_ok [OF assms(1-3), of oob f "()"] assms(4) by blast

section \<open>Slice writes\<close>

text \<open>\<open>buf[off..off + bs.len()].copy_from_slice(bs)\<close>; a range past the end panics.\<close>

definition put_slice :: "bytes \<Rightarrow> nat \<Rightarrow> bytes \<Rightarrow> bytes exec" where
  "put_slice buf off bs =
     (if off + length bs \<le> length buf
      then Ret (take off buf @ bs @ drop (off + length bs) buf) else Panic)"

lemma put_slice_append:
  "exec_bind (put_slice buf off xs) (\<lambda>b. put_slice b (off + length xs) ys) = put_slice buf off (xs @ ys)"
  by (auto simp: put_slice_def ac_simps)

lemma put_slice_mid:
  assumes "buf = xs @ old @ zs" "off = length xs" "length old = length bs"
  shows "put_slice buf off bs = Ret (xs @ bs @ zs)"
  using assms by (simp add: put_slice_def)

lemma put_slice_length: "put_slice buf off bs = Ret b \<Longrightarrow> length b = length buf"
  by (auto simp: put_slice_def split: if_splits)

lemma put_slice_nil [simp]: "off \<le> length buf \<Longrightarrow> put_slice buf off [] = Ret buf"
  by (simp add: put_slice_def)

text \<open>Writes to disjoint ranges commute.\<close>

lemma put_slice_commute:
  assumes "off1 + length xs \<le> off2"
  shows "exec_bind (put_slice buf off2 ys) (\<lambda>b. put_slice b off1 xs) =
    exec_bind (put_slice buf off1 xs) (\<lambda>b. put_slice b off2 ys)"
proof (cases "off2 + length ys \<le> length buf")
  case False
  with assms show ?thesis by (auto simp: put_slice_def)
next
  case True
  define a b c d e where "a = take off1 buf" and "b = take (length xs) (drop off1 buf)"
    and "c = take (off2 - off1 - length xs) (drop (off1 + length xs) buf)"
    and "d = take (length ys) (drop off2 buf)" and "e = drop (off2 + length ys) buf"
  have "buf = a @ b @ c @ d @ e"
    by (rule nth_equalityI)
      (use assms True in \<open>auto simp: a_def b_def c_def d_def e_def nth_append min_def\<close>)
  moreover have "length a = off1" "length b = length xs" "length c = off2 - off1 - length xs"
    "length d = length ys"
    using assms True by (auto simp: a_def b_def c_def d_def)
  ultimately show ?thesis using assms by (simp add: put_slice_def)
qed

text \<open>The bytes after a write that is in range, and what a read of them sees.\<close>

definition overwrite :: "bytes \<Rightarrow> nat \<Rightarrow> bytes \<Rightarrow> bytes" where
  "overwrite buf off bs = take off buf @ bs @ drop (off + length bs) buf"

lemma length_overwrite [simp]: "off + length bs \<le> length buf \<Longrightarrow> length (overwrite buf off bs) = length buf"
  by (simp add: overwrite_def)

lemma nth_overwrite:
  assumes "off + length bs \<le> length buf" "p < length buf"
  shows "overwrite buf off bs ! p = (if off \<le> p \<and> p < off + length bs then bs ! (p - off) else buf ! p)"
  using assms by (auto simp: overwrite_def nth_append min_def)

lemma read_overwrite_same:
  assumes "off + length bs \<le> length buf" "n = length bs"
  shows "take n (drop off (overwrite buf off bs)) = bs"
  using assms by (simp add: overwrite_def)

lemma read_overwrite_other:
  assumes "off + length bs \<le> length buf" "p + n \<le> off \<or> off + length bs \<le> p"
  shows "take n (drop p (overwrite buf off bs)) = take n (drop p buf)"
proof (rule nth_equalityI)
  fix k
  assume "k < length (take n (drop p (overwrite buf off bs)))"
  then show "take n (drop p (overwrite buf off bs)) ! k = take n (drop p buf) ! k"
    using assms by (auto simp: nth_overwrite [OF assms(1)] min_def split: if_splits)
qed (simp add: assms(1))

text \<open>A write inside entry \<open>i\<close> of a table with stride \<open>n\<close> changes that entry only.\<close>

lemma chunk_overwrite_in:
  assumes "length buf = m * n" "i < m" "f + length bs \<le> n" "j < m"
  shows "chunk n (overwrite buf (i * n + f) bs) j = (if j = i then overwrite (chunk n buf i) f bs else chunk n buf j)"
proof -
  have b: "i * n + f + length bs \<le> length buf" using stride_le [OF assms(2), of n] assms(1,3) by simp
  show ?thesis
  proof (cases "j = i")
    case True
    have "take n (drop (i * n) (overwrite buf (i * n + f) bs)) = overwrite (take n (drop (i * n) buf)) f bs"
    proof (rule nth_equalityI)
      fix k
      assume "k < length (take n (drop (i * n) (overwrite buf (i * n + f) bs)))"
      then show "take n (drop (i * n) (overwrite buf (i * n + f) bs)) ! k = overwrite (take n (drop (i * n) buf)) f bs ! k"
        using b assms stride_le [OF assms(2), of n] by (auto simp: nth_overwrite)
    qed (use b assms stride_le [OF assms(2), of n] in \<open>simp add: overwrite_def\<close>)
    then show ?thesis using True by (simp add: chunk_def)
  next
    case False
    then have "j * n + n \<le> i * n \<or> i * n + n \<le> j * n" using stride_le [of j i n] stride_le [of i j n] by linarith
    then show ?thesis using False read_overwrite_other [OF b, of "j * n" n] assms(3) by (auto simp: chunk_def)
  qed
qed

end
