(* ===== verification/Ir_Reader.thy ===== *)
theory Ir_Reader
  imports Ir_Bytes "HOL-Library.List_Lexorder"
begin

text \<open>
  The reading half of \<open>kwokka-ir\<close>: the record framing of \<open>flat/reader.rs\<close>, the typed views
  of policies, edges, bindings and the registry, the validation passes of
  \<open>conductor/check.rs\<close> and the accessors of \<open>conductor/spec.rs\<close>, \<open>conductor/stage.rs\<close> and
  \<open>node/blob.rs\<close>. A borrowed slice of the blob is the list of its bytes. Every early return
  of the source is a branch of the sum type.
\<close>

section \<open>Errors, tags and header constants\<close>

datatype ir_error =
    BadMagic | UnsupportedVersion u16 | Truncated | OutOfBounds | Misaligned | BadTag u16
  | OrdinalOutOfRange | RegistryUnsorted

datatype node_tag =
    ConductorSpec | StageNode | Edge | PolicyRetry | PolicyBreaker | PolicyLimiter
  | PolicyTimeout | RegistryEntry | ConfigBinding

fun node_tag_u16 :: "node_tag \<Rightarrow> u16" where
  "node_tag_u16 ConductorSpec = 1"
| "node_tag_u16 StageNode = 2"
| "node_tag_u16 Edge = 3"
| "node_tag_u16 PolicyRetry = 4"
| "node_tag_u16 PolicyBreaker = 5"
| "node_tag_u16 PolicyLimiter = 6"
| "node_tag_u16 PolicyTimeout = 7"
| "node_tag_u16 RegistryEntry = 8"
| "node_tag_u16 ConfigBinding = 9"

definition node_tag_from_u16 :: "u16 \<Rightarrow> node_tag option" where
  "node_tag_from_u16 v =
     (if v = 1 then Some ConductorSpec else if v = 2 then Some StageNode
      else if v = 3 then Some Edge else if v = 4 then Some PolicyRetry
      else if v = 5 then Some PolicyBreaker else if v = 6 then Some PolicyLimiter
      else if v = 7 then Some PolicyTimeout else if v = 8 then Some RegistryEntry
      else if v = 9 then Some ConfigBinding else None)"

definition MAGIC :: bytes where "MAGIC = [0x4B, 0x57, 0x49, 0x52]"
definition VERSION :: u16 where "VERSION = 1"
definition HEADER_LEN :: nat where "HEADER_LEN = 16"
definition ROOT_OFFSET_FIELD :: nat where "ROOT_OFFSET_FIELD = 12"
definition RECORD_HEADER_LEN :: nat where "RECORD_HEADER_LEN = 8"
definition RECORD_ALIGN :: nat where "RECORD_ALIGN = 8"

section \<open>Scalar reads and record framing\<close>

definition read_u8 :: "bytes \<Rightarrow> nat \<Rightarrow> ir_error + u8" where
  "read_u8 bs off = ok_or (get_at bs off) Truncated"

definition read_u16 :: "bytes \<Rightarrow> nat \<Rightarrow> ir_error + u16" where
  "read_u16 bs off = res_bind (ok_or (checked_add off 2) Truncated) (\<lambda>end.
     case get_range bs off end of Some [a, b] \<Rightarrow> Inr (le_word [a, b]) | _ \<Rightarrow> Inl Truncated)"

definition read_u32 :: "bytes \<Rightarrow> nat \<Rightarrow> ir_error + u32" where
  "read_u32 bs off = res_bind (ok_or (checked_add off 4) Truncated) (\<lambda>end.
     case get_range bs off end of Some [a, b, c, d] \<Rightarrow> Inr (le_word [a, b, c, d]) | _ \<Rightarrow> Inl Truncated)"

definition read_u64 :: "bytes \<Rightarrow> nat \<Rightarrow> ir_error + u64" where
  "read_u64 bs off = res_bind (ok_or (checked_add off 8) Truncated) (\<lambda>end.
     res_bind (ok_or (get_range bs off end) Truncated) (\<lambda>chunk. Inr (le_word chunk)))"

record record_view =
  rv_tag :: node_tag
  rv_body :: bytes

definition read_record :: "bytes \<Rightarrow> nat \<Rightarrow> ir_error + record_view" where
  "read_record bs off =
     (if off mod RECORD_ALIGN \<noteq> 0 then Inl Misaligned
      else res_bind (read_u16 bs off) (\<lambda>tag_raw.
           res_bind (ok_or (checked_add off 4) Truncated) (\<lambda>len_offset.
           res_bind (read_u32 bs len_offset) (\<lambda>len32. let len = unat len32 in
           if len < RECORD_HEADER_LEN then Inl OutOfBounds
           else if len mod RECORD_ALIGN \<noteq> 0 then Inl Misaligned
           else res_bind (ok_or (checked_add off len) OutOfBounds) (\<lambda>end.
                res_bind (ok_or (checked_add off RECORD_HEADER_LEN) OutOfBounds) (\<lambda>body_start.
                res_bind (ok_or (get_range bs body_start end) OutOfBounds) (\<lambda>body.
                res_bind (ok_or (node_tag_from_u16 tag_raw) (BadTag tag_raw)) (\<lambda>tag.
                Inr \<lparr>rv_tag = tag, rv_body = body\<rparr>))))))))"

section \<open>Policy views\<close>

record limiter_view =
  lim_capacity :: u32
  lim_refill_tokens :: u32
  lim_refill_period_ns :: u64

record timeout_view =
  to_duration_ns :: u64

record retry_view =
  re_max_attempts :: u32
  re_backoff_kind :: u8
  re_jitter_kind :: u8
  re_base_delay_ns :: u64
  re_max_delay_ns :: u64

record breaker_view =
  br_window_kind :: u8
  br_failure_rate_percent :: u8
  br_minimum_calls :: u32
  br_window_span :: u64
  br_half_open_max_calls :: u32
  br_half_open_success_threshold :: u32
  br_open_duration_ns :: u64

definition LIMITER_LEN :: nat where "LIMITER_LEN = 16"
definition TIMEOUT_LEN :: nat where "TIMEOUT_LEN = 8"
definition RETRY_LEN :: nat where "RETRY_LEN = 24"
definition BREAKER_LEN :: nat where "BREAKER_LEN = 32"

definition limiter_parse :: "bytes \<Rightarrow> ir_error + limiter_view" where
  "limiter_parse body =
     (if length body \<noteq> LIMITER_LEN then Inl Truncated
      else res_bind (read_u32 body 0) (\<lambda>capacity.
           res_bind (read_u32 body 4) (\<lambda>tokens.
           res_bind (read_u64 body 8) (\<lambda>period.
           Inr \<lparr>lim_capacity = capacity, lim_refill_tokens = tokens, lim_refill_period_ns = period\<rparr>))))"

definition timeout_parse :: "bytes \<Rightarrow> ir_error + timeout_view" where
  "timeout_parse body =
     (if length body \<noteq> TIMEOUT_LEN then Inl Truncated
      else res_bind (read_u64 body 0) (\<lambda>d. Inr \<lparr>to_duration_ns = d\<rparr>))"

definition retry_parse :: "bytes \<Rightarrow> ir_error + retry_view" where
  "retry_parse body =
     (if length body \<noteq> RETRY_LEN then Inl Truncated
      else res_bind (read_u32 body 0) (\<lambda>attempts.
           res_bind (read_u8 body 4) (\<lambda>backoff.
           res_bind (read_u8 body 5) (\<lambda>jitter.
           res_bind (read_u64 body 8) (\<lambda>base.
           res_bind (read_u64 body 16) (\<lambda>max_delay.
           Inr \<lparr>re_max_attempts = attempts, re_backoff_kind = backoff, re_jitter_kind = jitter,
             re_base_delay_ns = base, re_max_delay_ns = max_delay\<rparr>))))))"

definition breaker_parse :: "bytes \<Rightarrow> ir_error + breaker_view" where
  "breaker_parse body =
     (if length body \<noteq> BREAKER_LEN then Inl Truncated
      else res_bind (read_u8 body 0) (\<lambda>kind.
           res_bind (read_u8 body 1) (\<lambda>rate.
           res_bind (read_u32 body 4) (\<lambda>calls.
           res_bind (read_u64 body 8) (\<lambda>span.
           res_bind (read_u32 body 16) (\<lambda>half_max.
           res_bind (read_u32 body 20) (\<lambda>half_ok.
           res_bind (read_u64 body 24) (\<lambda>open_ns.
           Inr \<lparr>br_window_kind = kind, br_failure_rate_percent = rate, br_minimum_calls = calls,
             br_window_span = span, br_half_open_max_calls = half_max,
             br_half_open_success_threshold = half_ok, br_open_duration_ns = open_ns\<rparr>))))))))"

datatype policy_kind = Limiter | Timeout | Retry | Breaker

definition POLICY_COUNT :: nat where "POLICY_COUNT = 4"

definition POLICY_ALL :: "policy_kind list" where
  "POLICY_ALL = [Limiter, Timeout, Retry, Breaker]"

fun policy_node_tag :: "policy_kind \<Rightarrow> node_tag" where
  "policy_node_tag Limiter = PolicyLimiter"
| "policy_node_tag Timeout = PolicyTimeout"
| "policy_node_tag Retry = PolicyRetry"
| "policy_node_tag Breaker = PolicyBreaker"

fun policy_slot_field :: "policy_kind \<Rightarrow> nat" where
  "policy_slot_field Limiter = 0"
| "policy_slot_field Timeout = 4"
| "policy_slot_field Retry = 8"
| "policy_slot_field Breaker = 12"

fun policy_validate_body :: "policy_kind \<Rightarrow> bytes \<Rightarrow> ir_error + unit" where
  "policy_validate_body Limiter body = res_bind (limiter_parse body) (\<lambda>_. Inr ())"
| "policy_validate_body Timeout body = res_bind (timeout_parse body) (\<lambda>_. Inr ())"
| "policy_validate_body Retry body = res_bind (retry_parse body) (\<lambda>_. Inr ())"
| "policy_validate_body Breaker body = res_bind (breaker_parse body) (\<lambda>_. Inr ())"

section \<open>Edges, scalars and bindings\<close>

record edge_view =
  ed_from :: u16
  ed_to :: u16
  ed_input :: u16

definition EDGE_LEN :: nat where "EDGE_LEN = 8"

definition edge_parse :: "bytes \<Rightarrow> edge_view option" where
  "edge_parse bs = (case bs of
     [f0, f1, t0, t1, i0, i1, _, _] \<Rightarrow>
       Some \<lparr>ed_from = le_word [f0, f1], ed_to = le_word [t0, t1], ed_input = le_word [i0, i1]\<rparr>
   | _ \<Rightarrow> None)"

record scalar_value =
  sc_kind :: u8
  sc_value :: u64

definition SCALAR_LEN :: nat where "SCALAR_LEN = 16"

definition scalar_parse :: "bytes \<Rightarrow> ir_error + scalar_value" where
  "scalar_parse body =
     (if length body \<noteq> SCALAR_LEN then Inl Truncated
      else res_bind (read_u8 body 0) (\<lambda>kind.
           res_bind (read_u64 body 8) (\<lambda>value. Inr \<lparr>sc_kind = kind, sc_value = value\<rparr>)))"

definition scalar_as_bool :: "scalar_value \<Rightarrow> bool" where
  "scalar_as_bool v \<longleftrightarrow> sc_value v \<noteq> 0"

record binding_view =
  bi_node_ordinal :: u16
  bi_field_tag :: u16
  bi_key :: bytes
  bi_default :: scalar_value

definition BINDING_LEN :: nat where "BINDING_LEN = 32"
definition SCALAR_OFFSET :: nat where "SCALAR_OFFSET = 16"

definition binding_parse :: "bytes \<Rightarrow> bytes \<Rightarrow> ir_error + binding_view" where
  "binding_parse body entry =
     (if length entry \<noteq> BINDING_LEN then Inl Truncated
      else res_bind (read_u16 entry 0) (\<lambda>node_ordinal.
           res_bind (read_u16 entry 2) (\<lambda>field_tag.
           res_bind (read_u32 entry 4) (\<lambda>key_len.
           res_bind (read_u32 entry 8) (\<lambda>key_offset.
           res_bind (ok_or (checked_add (unat key_offset) (unat key_len)) OutOfBounds) (\<lambda>key_end.
           res_bind (ok_or (get_range body (unat key_offset) key_end) OutOfBounds) (\<lambda>key.
           res_bind (ok_or (get_range entry SCALAR_OFFSET BINDING_LEN) OutOfBounds) (\<lambda>scalar.
           res_bind (scalar_parse scalar) (\<lambda>default.
           Inr \<lparr>bi_node_ordinal = node_ordinal, bi_field_tag = field_tag, bi_key = key,
             bi_default = default\<rparr>)))))))))"

section \<open>The registry\<close>

record registry_view =
  rg_body :: bytes
  rg_name_table :: bytes
  rg_sorted_index :: bytes
  rg_count :: u32

definition NAME_ENTRY_LEN :: nat where "NAME_ENTRY_LEN = 8"
definition SORTED_ENTRY_LEN :: nat where "SORTED_ENTRY_LEN = 2"

definition registry_is_empty :: "registry_view \<Rightarrow> bool" where
  "registry_is_empty v \<longleftrightarrow> rg_count v = 0"

definition registry_name :: "registry_view \<Rightarrow> u32 \<Rightarrow> bytes option" where
  "registry_name v ordinal =
     (if rg_count v \<le> ordinal then None
      else case checked_mul (unat ordinal) NAME_ENTRY_LEN of None \<Rightarrow> None | Some off \<Rightarrow>
        (case checked_add off NAME_ENTRY_LEN of None \<Rightarrow> None | Some end \<Rightarrow>
          (case get_range (rg_name_table v) off end of
             Some [o0, o1, o2, o3, l0, l1, l2, l3] \<Rightarrow>
               (let str_offset = unat (le_word [o0, o1, o2, o3] :: u32);
                    str_len = unat (le_word [l0, l1, l2, l3] :: u32)
                in case checked_add str_offset str_len of None \<Rightarrow> None
                   | Some str_end \<Rightarrow> get_range (rg_body v) str_offset str_end)
           | _ \<Rightarrow> None)))"

definition registry_sorted_ordinal :: "registry_view \<Rightarrow> u32 \<Rightarrow> u16 option" where
  "registry_sorted_ordinal v rank =
     (case checked_mul (unat rank) SORTED_ENTRY_LEN of None \<Rightarrow> None | Some off \<Rightarrow>
       (case checked_add off SORTED_ENTRY_LEN of None \<Rightarrow> None | Some end \<Rightarrow>
         (case get_range (rg_sorted_index v) off end of
            Some [a, b] \<Rightarrow> Some (le_word [a, b])
          | _ \<Rightarrow> None)))"

text \<open>
  The binary search of \<open>registry/name.rs\<close>. The bounds stay below the 32-bit count, so their
  arithmetic does not wrap and is written on naturals.
\<close>

function lookup_loop :: "registry_view \<Rightarrow> bytes \<Rightarrow> nat \<Rightarrow> nat \<Rightarrow> u32 option" where
  "lookup_loop v name low high =
     (if low < high then
        (let mid = low + (high - low) div 2 in
         case registry_sorted_ordinal v (of_nat mid) of None \<Rightarrow> None | Some ordinal \<Rightarrow>
           (case registry_name v (ucast ordinal) of None \<Rightarrow> None | Some probe \<Rightarrow>
              if name = probe then Some (ucast ordinal)
              else if name < probe then lookup_loop v name low mid
              else lookup_loop v name (mid + 1) high))
      else None)"
  by pat_completeness auto
termination
  by (relation "measure (\<lambda>(v, name, low, high). high - low)") auto

declare lookup_loop.simps [simp del]

definition registry_lookup :: "registry_view \<Rightarrow> bytes \<Rightarrow> u32 option" where
  "registry_lookup v name = lookup_loop v name 0 (unat (rg_count v))"

section \<open>Stages\<close>

record stage_view =
  sv_body :: bytes
  sv_entry :: bytes

definition stage_policy_body :: "stage_view \<Rightarrow> policy_kind \<Rightarrow> bytes option" where
  "stage_policy_body sv kind =
     (case read_u32 (sv_entry sv) (policy_slot_field kind) of
        Inl e \<Rightarrow> None
      | Inr slot_offset \<Rightarrow>
          if slot_offset = 0 then None
          else case res_ok (read_record (sv_body sv) (unat slot_offset)) of
            None \<Rightarrow> None
          | Some rv \<Rightarrow> if rv_tag rv = policy_node_tag kind then Some (rv_body rv) else None)"

definition stage_limiter :: "stage_view \<Rightarrow> limiter_view option" where
  "stage_limiter sv = Option.bind (stage_policy_body sv Limiter) (\<lambda>body. res_ok (limiter_parse body))"

definition stage_timeout :: "stage_view \<Rightarrow> timeout_view option" where
  "stage_timeout sv = Option.bind (stage_policy_body sv Timeout) (\<lambda>body. res_ok (timeout_parse body))"

definition stage_retry :: "stage_view \<Rightarrow> retry_view option" where
  "stage_retry sv = Option.bind (stage_policy_body sv Retry) (\<lambda>body. res_ok (retry_parse body))"

definition stage_breaker :: "stage_view \<Rightarrow> breaker_view option" where
  "stage_breaker sv = Option.bind (stage_policy_body sv Breaker) (\<lambda>body. res_ok (breaker_parse body))"

end
