(* ===== verification/Ir_Check.thy ===== *)
theory Ir_Check
  imports Ir_Reader
begin

text \<open>
  The validation passes of \<open>kwokka-ir/src/conductor/check.rs\<close>, in the order of the source,
  the conductor view with its accessors (\<open>conductor/spec.rs\<close>) and the blob entry points
  (\<open>flat/reader.rs\<close>, \<open>node/blob.rs\<close>).
\<close>

section \<open>Layout constants\<close>

definition STAGE_COUNT_FIELD :: nat where "STAGE_COUNT_FIELD = 0"
definition EDGE_COUNT_FIELD :: nat where "EDGE_COUNT_FIELD = 4"
definition STAGE_TABLE_OFFSET_FIELD :: nat where "STAGE_TABLE_OFFSET_FIELD = 8"
definition EDGE_TABLE_OFFSET_FIELD :: nat where "EDGE_TABLE_OFFSET_FIELD = 12"
definition REGISTRY_TABLE_OFFSET_FIELD :: nat where "REGISTRY_TABLE_OFFSET_FIELD = 16"
definition CONFIG_TABLE_OFFSET_FIELD :: nat where "CONFIG_TABLE_OFFSET_FIELD = 20"
definition CONDUCTOR_HEADER_LEN :: nat where "CONDUCTOR_HEADER_LEN = 24"
definition STAGE_ENTRY_LEN :: nat where "STAGE_ENTRY_LEN = 16"
definition CONFIG_HEADER_LEN :: nat where "CONFIG_HEADER_LEN = 8"

section \<open>Spans\<close>

record span =
  sp_offset :: nat
  sp_len :: nat

definition span_new :: "nat \<Rightarrow> nat \<Rightarrow> span" where
  "span_new off len = \<lparr>sp_offset = off, sp_len = len\<rparr>"

definition ranges_overlap :: "span \<Rightarrow> span \<Rightarrow> bool" where
  "ranges_overlap l r \<longleftrightarrow>
     sp_offset l < sp_offset r + sp_len r \<and> sp_offset r < sp_offset l + sp_len l"

definition overlaps_any :: "span \<Rightarrow> span list \<Rightarrow> bool" where
  "overlaps_any sp sections = list_ex (ranges_overlap sp) sections"

section \<open>Passes\<close>

definition slice_table :: "bytes \<Rightarrow> nat \<Rightarrow> u32 \<Rightarrow> nat \<Rightarrow> ir_error + (nat \<times> bytes)" where
  "slice_table body offset_field count entry_len =
     res_bind (read_u32 body offset_field) (\<lambda>off32. let table_offset = unat off32 in
     if table_offset < CONDUCTOR_HEADER_LEN then Inl OutOfBounds
     else res_bind (ok_or (checked_mul (unat count) entry_len) OutOfBounds) (\<lambda>sp.
          res_bind (ok_or (checked_add table_offset sp) OutOfBounds) (\<lambda>end.
          res_bind (ok_or (get_range body table_offset end) OutOfBounds) (\<lambda>slice.
          Inr (table_offset, slice)))))"

definition check_edge_ordinals :: "bytes \<Rightarrow> u32 \<Rightarrow> ir_error + unit" where
  "check_edge_ordinals edge_table stage_count =
     scan_entries OutOfBounds EDGE_LEN (\<lambda>entry.
       res_bind (ok_or (edge_parse entry) OutOfBounds) (\<lambda>edge.
       if stage_count \<le> ucast (ed_from edge) \<or> stage_count \<le> ucast (ed_to edge)
       then Inl OrdinalOutOfRange else Inr ())) edge_table 0"

definition record_span_at :: "bytes \<Rightarrow> bytes \<Rightarrow> policy_kind \<Rightarrow> ir_error + span option" where
  "record_span_at body entry kind =
     res_bind (read_u32 entry (policy_slot_field kind)) (\<lambda>off32. let slot_offset = unat off32 in
     if slot_offset = 0 then Inr None
     else if slot_offset < CONDUCTOR_HEADER_LEN then Inl OutOfBounds
     else res_bind (read_record body slot_offset) (\<lambda>rv.
          res_bind (ok_or (checked_add RECORD_HEADER_LEN (length (rv_body rv))) OutOfBounds) (\<lambda>len.
          Inr (Some \<lparr>sp_offset = slot_offset, sp_len = len\<rparr>))))"

definition check_policy_slot :: "bytes \<Rightarrow> bytes \<Rightarrow> policy_kind \<Rightarrow> span list \<Rightarrow> ir_error + unit" where
  "check_policy_slot body entry kind sections =
     res_bind (record_span_at body entry kind) (\<lambda>osp. case osp of
       None \<Rightarrow> Inr ()
     | Some record_span \<Rightarrow>
         res_bind (read_record body (sp_offset record_span)) (\<lambda>rv.
         if rv_tag rv \<noteq> policy_node_tag kind then Inl (BadTag (node_tag_u16 (rv_tag rv)))
         else res_bind (policy_validate_body kind (rv_body rv)) (\<lambda>_.
              if overlaps_any record_span sections then Inl OutOfBounds else Inr ())))"

definition check_stage_policies :: "bytes \<Rightarrow> bytes \<Rightarrow> span list \<Rightarrow> ir_error + unit" where
  "check_stage_policies body stage_table sections =
     scan_entries OutOfBounds STAGE_ENTRY_LEN (\<lambda>entry.
       for_each (\<lambda>kind. check_policy_slot body entry kind sections) POLICY_ALL) stage_table 0"

definition nth_record_span :: "bytes \<Rightarrow> bytes \<Rightarrow> nat \<Rightarrow> ir_error + span option" where
  "nth_record_span body stage_table n =
     res_bind (ok_or (checked_mul (n div POLICY_COUNT) STAGE_ENTRY_LEN) OutOfBounds) (\<lambda>off.
     res_bind (ok_or (checked_add off STAGE_ENTRY_LEN) OutOfBounds) (\<lambda>end.
     res_bind (ok_or (get_range stage_table off end) OutOfBounds) (\<lambda>entry.
     record_span_at body entry (POLICY_ALL ! (n mod POLICY_COUNT)))))"

text \<open>The body of the inner loop (slots \<open>a < b\<close>) and of the outer one.\<close>

definition check_record_pair :: "bytes \<Rightarrow> bytes \<Rightarrow> span \<Rightarrow> nat \<Rightarrow> ir_error + unit" where
  "check_record_pair body stage_table span_a b =
     res_bind (nth_record_span body stage_table b) (\<lambda>osb. case osb of
       None \<Rightarrow> Inr ()
     | Some span_b \<Rightarrow> if ranges_overlap span_a span_b then Inl OutOfBounds else Inr ())"

definition check_record_row :: "bytes \<Rightarrow> bytes \<Rightarrow> nat \<Rightarrow> nat \<Rightarrow> ir_error + unit" where
  "check_record_row body stage_table n_slots a =
     res_bind (nth_record_span body stage_table a) (\<lambda>osa. case osa of
       None \<Rightarrow> Inr ()
     | Some span_a \<Rightarrow> for_each (check_record_pair body stage_table span_a) [a + 1..<n_slots])"

definition check_record_overlaps :: "bytes \<Rightarrow> bytes \<Rightarrow> ir_error + unit" where
  "check_record_overlaps body stage_table =
     res_bind (ok_or (checked_mul (length stage_table div STAGE_ENTRY_LEN) POLICY_COUNT) OutOfBounds) (\<lambda>total.
     for_each (check_record_row body stage_table total) [0..<total])"

record parsed_registry =
  pr_view :: registry_view
  pr_name_table :: bytes
  pr_name_span :: span
  pr_sorted_span :: span

definition check_registry_names :: "registry_view \<Rightarrow> u32 \<Rightarrow> ir_error + unit" where
  "check_registry_names v stage_count =
     for_each (\<lambda>ordinal. if registry_name v (of_nat ordinal) = None then Inl OutOfBounds else Inr ())
       [0..<unat stage_count]"

definition check_sorted_ordinals :: "bytes \<Rightarrow> u32 \<Rightarrow> ir_error + unit" where
  "check_sorted_ordinals sorted_index stage_count =
     scan_entries OutOfBounds SORTED_ENTRY_LEN (\<lambda>entry. case entry of
         [a, b] \<Rightarrow> if stage_count \<le> ucast (le_word [a, b] :: u16) then Inl OrdinalOutOfRange else Inr ()
       | _ \<Rightarrow> Inl OutOfBounds) sorted_index 0"

definition parse_registry :: "bytes \<Rightarrow> u32 \<Rightarrow> ir_error + parsed_registry option" where
  "parse_registry body stage_count =
     res_bind (read_u32 body REGISTRY_TABLE_OFFSET_FIELD) (\<lambda>off32.
     if unat off32 = 0 then Inr None
     else res_bind (slice_table body REGISTRY_TABLE_OFFSET_FIELD stage_count NAME_ENTRY_LEN)
          (\<lambda>(name_offset, name_table).
          res_bind (ok_or (checked_add name_offset (length name_table)) OutOfBounds) (\<lambda>sorted_offset.
          res_bind (ok_or (checked_mul (unat stage_count) SORTED_ENTRY_LEN) OutOfBounds) (\<lambda>sorted_len.
          res_bind (ok_or (checked_add sorted_offset sorted_len) OutOfBounds) (\<lambda>sorted_end.
          res_bind (ok_or (get_range body sorted_offset sorted_end) OutOfBounds) (\<lambda>sorted_index.
          let view = \<lparr>rg_body = body, rg_name_table = name_table, rg_sorted_index = sorted_index,
                rg_count = stage_count\<rparr> in
          res_bind (check_registry_names view stage_count) (\<lambda>_.
          res_bind (check_sorted_ordinals sorted_index stage_count) (\<lambda>_.
          Inr (Some \<lparr>pr_view = view, pr_name_table = name_table,
            pr_name_span = span_new name_offset (length name_table),
            pr_sorted_span = span_new sorted_offset (length sorted_index)\<rparr>)))))))))"

record parsed_config =
  pc_count :: u32
  pc_entries :: bytes
  pc_section_span :: span

definition check_config_entries :: "bytes \<Rightarrow> bytes \<Rightarrow> u32 \<Rightarrow> ir_error + unit" where
  "check_config_entries body entries stage_count =
     scan_entries OutOfBounds BINDING_LEN (\<lambda>entry.
       res_bind (binding_parse body entry) (\<lambda>binding.
       if stage_count \<le> ucast (bi_node_ordinal binding) then Inl OrdinalOutOfRange else Inr ()))
       entries 0"

definition parse_config :: "bytes \<Rightarrow> u32 \<Rightarrow> ir_error + parsed_config option" where
  "parse_config body stage_count =
     res_bind (read_u32 body CONFIG_TABLE_OFFSET_FIELD) (\<lambda>off32. let config_offset = unat off32 in
     if config_offset = 0 then Inr None
     else if config_offset < CONDUCTOR_HEADER_LEN then Inl OutOfBounds
     else res_bind (read_u32 body config_offset) (\<lambda>count.
          res_bind (ok_or (checked_add config_offset CONFIG_HEADER_LEN) OutOfBounds) (\<lambda>entries_offset.
          res_bind (ok_or (checked_mul (unat count) BINDING_LEN) OutOfBounds) (\<lambda>entries_len.
          res_bind (ok_or (checked_add entries_offset entries_len) OutOfBounds) (\<lambda>entries_end.
          res_bind (ok_or (get_range body entries_offset entries_end) OutOfBounds) (\<lambda>entries.
          res_bind (check_config_entries body entries stage_count) (\<lambda>_.
          res_bind (ok_or (checked_add CONFIG_HEADER_LEN entries_len) OutOfBounds) (\<lambda>section_len.
          Inr (Some \<lparr>pc_count = count, pc_entries = entries,
            pc_section_span = span_new config_offset section_len\<rparr>)))))))))"

fun check_sections_disjoint :: "span list \<Rightarrow> ir_error + unit" where
  "check_sections_disjoint [] = Inr ()"
| "check_sections_disjoint (section # others) =
     (if list_ex (ranges_overlap section) others then Inl OutOfBounds
      else check_sections_disjoint others)"

fun record_floor :: "bytes \<Rightarrow> bytes \<Rightarrow> nat list \<Rightarrow> nat \<Rightarrow> ir_error + nat" where
  "record_floor body stage_table [] acc = Inr acc"
| "record_floor body stage_table (n # ns) acc =
     res_bind (nth_record_span body stage_table n) (\<lambda>osp. case osp of
       None \<Rightarrow> record_floor body stage_table ns acc
     | Some sp \<Rightarrow> record_floor body stage_table ns (max acc (sp_offset sp + sp_len sp)))"

definition heap_floor :: "span list \<Rightarrow> bytes \<Rightarrow> bytes \<Rightarrow> ir_error + nat" where
  "heap_floor sections body stage_table =
     (let floor = fold (\<lambda>section acc. max acc (sp_offset section + sp_len section)) sections 0 in
      res_bind (ok_or (checked_mul (length stage_table div STAGE_ENTRY_LEN) POLICY_COUNT) OutOfBounds) (\<lambda>total.
      record_floor body stage_table [0..<total] floor))"

definition check_names_in_heap :: "bytes \<Rightarrow> nat \<Rightarrow> ir_error + unit" where
  "check_names_in_heap name_table floor =
     scan_entries OutOfBounds NAME_ENTRY_LEN (\<lambda>entry.
       res_bind (read_u32 entry 0) (\<lambda>off. if unat off < floor then Inl OutOfBounds else Inr ()))
       name_table 0"

definition check_keys_in_heap :: "bytes \<Rightarrow> nat \<Rightarrow> ir_error + unit" where
  "check_keys_in_heap entries floor =
     scan_entries OutOfBounds BINDING_LEN (\<lambda>entry.
       res_bind (read_u32 entry 8) (\<lambda>off. if unat off < floor then Inl OutOfBounds else Inr ()))
       entries 0"

fun sorted_order_from :: "registry_view \<Rightarrow> bytes option \<Rightarrow> nat list \<Rightarrow> ir_error + unit" where
  "sorted_order_from v previous [] = Inr ()"
| "sorted_order_from v previous (rank # ranks) =
     res_bind (ok_or (registry_sorted_ordinal v (of_nat rank)) OutOfBounds) (\<lambda>ordinal.
     res_bind (ok_or (registry_name v (ucast ordinal)) OutOfBounds) (\<lambda>name.
     if (case previous of Some prev \<Rightarrow> name < prev | None \<Rightarrow> False) then Inl RegistryUnsorted
     else sorted_order_from v (Some name) ranks))"

definition check_sorted_order :: "registry_view \<Rightarrow> u32 \<Rightarrow> ir_error + unit" where
  "check_sorted_order v stage_count = sorted_order_from v None [0..<unat stage_count]"

section \<open>The parse\<close>

record conductor_view =
  cv_body :: bytes
  cv_stage_count :: u32
  cv_edge_count :: u32
  cv_stage_table :: bytes
  cv_edge_table :: bytes
  cv_registry :: "registry_view option"
  cv_config_count :: u32
  cv_config_entries :: bytes

text \<open>The spans of the sections, in the order the fixed array of the source is filled.\<close>

definition parse_sections ::
    "nat \<Rightarrow> bytes \<Rightarrow> nat \<Rightarrow> bytes \<Rightarrow> parsed_registry option \<Rightarrow> parsed_config option \<Rightarrow> span list" where
  "parse_sections stage_off stage_table edge_off edge_table registry config =
     [span_new stage_off (length stage_table), span_new edge_off (length edge_table)] @
     (case registry of None \<Rightarrow> [] | Some reg \<Rightarrow> [pr_name_span reg, pr_sorted_span reg]) @
     (case config of None \<Rightarrow> [] | Some cfg \<Rightarrow> [pc_section_span cfg])"

definition conductor_parse :: "bytes \<Rightarrow> ir_error + conductor_view" where
  "conductor_parse body =
     res_bind (read_u32 body STAGE_COUNT_FIELD) (\<lambda>stage_count.
     res_bind (read_u32 body EDGE_COUNT_FIELD) (\<lambda>edge_count.
     res_bind (slice_table body STAGE_TABLE_OFFSET_FIELD stage_count STAGE_ENTRY_LEN) (\<lambda>(stage_off, stage_table).
     res_bind (slice_table body EDGE_TABLE_OFFSET_FIELD edge_count EDGE_LEN) (\<lambda>(edge_off, edge_table).
     res_bind (parse_registry body stage_count) (\<lambda>registry.
     res_bind (parse_config body stage_count) (\<lambda>config.
     let sections = parse_sections stage_off stage_table edge_off edge_table registry config in
     res_bind (check_sections_disjoint sections) (\<lambda>_.
     res_bind (check_edge_ordinals edge_table stage_count) (\<lambda>_.
     res_bind (check_stage_policies body stage_table sections) (\<lambda>_.
     res_bind (check_record_overlaps body stage_table) (\<lambda>_.
     res_bind (heap_floor sections body stage_table) (\<lambda>floor.
     res_bind (case registry of None \<Rightarrow> Inr ()
       | Some reg \<Rightarrow> res_bind (check_names_in_heap (pr_name_table reg) floor) (\<lambda>_.
                     check_sorted_order (pr_view reg) stage_count)) (\<lambda>_.
     res_bind (case config of None \<Rightarrow> Inr ()
       | Some cfg \<Rightarrow> check_keys_in_heap (pc_entries cfg) floor) (\<lambda>_.
     Inr \<lparr>cv_body = body, cv_stage_count = stage_count, cv_edge_count = edge_count,
       cv_stage_table = stage_table, cv_edge_table = edge_table,
       cv_registry = map_option pr_view registry,
       cv_config_count = (case config of None \<Rightarrow> 0 | Some cfg \<Rightarrow> pc_count cfg),
       cv_config_entries = (case config of None \<Rightarrow> [] | Some cfg \<Rightarrow> pc_entries cfg)\<rparr>)))))))))))))"

section \<open>Accessors\<close>

definition conductor_stage :: "conductor_view \<Rightarrow> u32 \<Rightarrow> stage_view option" where
  "conductor_stage cv ordinal =
     (if cv_stage_count cv \<le> ordinal then None
      else Option.bind (checked_mul (unat ordinal) STAGE_ENTRY_LEN) (\<lambda>off.
           Option.bind (checked_add off STAGE_ENTRY_LEN) (\<lambda>end.
           Option.bind (get_range (cv_stage_table cv) off end) (\<lambda>entry.
           Some \<lparr>sv_body = cv_body cv, sv_entry = entry\<rparr>))))"

definition conductor_edge :: "conductor_view \<Rightarrow> u32 \<Rightarrow> edge_view option" where
  "conductor_edge cv index =
     Option.bind (checked_mul (unat index) EDGE_LEN) (\<lambda>off.
     Option.bind (checked_add off EDGE_LEN) (\<lambda>end.
     Option.bind (get_range (cv_edge_table cv) off end) edge_parse))"

definition conductor_edges :: "conductor_view \<Rightarrow> edge_view list" where
  "conductor_edges cv = List.map_filter (\<lambda>index. conductor_edge cv (of_nat index)) [0..<unat (cv_edge_count cv)]"

definition conductor_config_binding :: "conductor_view \<Rightarrow> u32 \<Rightarrow> binding_view option" where
  "conductor_config_binding cv index =
     Option.bind (checked_mul (unat index) BINDING_LEN) (\<lambda>off.
     Option.bind (checked_add off BINDING_LEN) (\<lambda>end.
     Option.bind (get_range (cv_config_entries cv) off end) (\<lambda>entry.
     res_ok (binding_parse (cv_body cv) entry))))"

definition conductor_config_bindings :: "conductor_view \<Rightarrow> binding_view list" where
  "conductor_config_bindings cv =
     List.map_filter (\<lambda>index. conductor_config_binding cv (of_nat index)) [0..<unat (cv_config_count cv)]"

section \<open>Entry points\<close>

text \<open>A validated blob is its bytes; \<open>validate\<close> is the only way to obtain one.\<close>

record kwokka_ir =
  ir_bytes :: bytes

definition root_record :: "bytes \<Rightarrow> ir_error + record_view" where
  "root_record bs =
     res_bind (read_u32 bs ROOT_OFFSET_FIELD) (\<lambda>root_offset.
     res_bind (read_record bs (unat root_offset)) (\<lambda>root.
     if rv_tag root \<noteq> ConductorSpec then Inl (BadTag (node_tag_u16 (rv_tag root))) else Inr root))"

definition validate :: "bytes \<Rightarrow> ir_error + kwokka_ir" where
  "validate bs =
     (if length bs < HEADER_LEN then Inl Truncated
      else if get_range bs 0 (length MAGIC) \<noteq> Some MAGIC then Inl BadMagic
      else res_bind (read_u16 bs 4) (\<lambda>version.
           if VERSION < version then Inl (UnsupportedVersion version)
           else res_bind (read_u32 bs 8) (\<lambda>total_len.
                if unat total_len \<noteq> length bs then Inl Truncated
                else res_bind (root_record bs) (\<lambda>root.
                     res_bind (conductor_parse (rv_body root)) (\<lambda>_. Inr \<lparr>ir_bytes = bs\<rparr>)))))"

definition ir_conductor :: "kwokka_ir \<Rightarrow> ir_error + conductor_view" where
  "ir_conductor ir = res_bind (root_record (ir_bytes ir)) (\<lambda>root. conductor_parse (rv_body root))"

end
