(* ===== verification/Ir_Writer.thy ===== *)
theory Ir_Writer
  imports Ir_Check
begin

text \<open>
  The writing half of \<open>kwokka-ir\<close>: the borrowed input of \<open>conductor/draft.rs\<close>, the layout
  arithmetic and the serialization passes of \<open>flat/writer.rs\<close>. A pass takes the buffer and
  returns the buffer after its writes; a slice index out of range is a panic.
\<close>

section \<open>The input\<close>

record stage_spec =
  ss_limiter :: "limiter_view option"
  ss_timeout :: "timeout_view option"
  ss_retry :: "retry_view option"
  ss_breaker :: "breaker_view option"

record registry_spec =
  rs_names :: "bytes list"
  rs_sorted :: "u16 list"

record binding_spec =
  bs_node_ordinal :: u16
  bs_field_tag :: u16
  bs_key :: bytes
  bs_default :: scalar_value

record conductor_blob =
  cb_stages :: "stage_spec list"
  cb_edges :: "edge_view list"
  cb_registry :: "registry_spec option"
  cb_config :: "binding_spec list"

datatype write_error =
    BufferTooSmall nat nat
  | SpecTooLarge
  | RegistryArity nat nat nat

section \<open>Layout\<close>

record layout =
  ly_total :: nat
  ly_spec_record_len :: nat
  ly_stage_count :: u32
  ly_edge_count :: u32
  ly_edge_table_off :: nat
  ly_policy_heap_off :: nat
  ly_registry_off :: nat
  ly_config_off :: nat
  ly_heap_off :: nat

definition try_u32 :: "nat \<Rightarrow> write_error + u32" where
  "try_u32 n = (if n < 2 ^ 32 then Inr (of_nat n) else Inl SpecTooLarge)"

definition align8 :: "nat \<Rightarrow> write_error + nat" where
  "align8 value = res_bind (ok_or (checked_add value 7) SpecTooLarge) (\<lambda>bumped. Inr (bumped div 8 * 8))"

definition validate_registry_arity :: "conductor_blob \<Rightarrow> write_error + unit" where
  "validate_registry_arity blob = (case cb_registry blob of
     None \<Rightarrow> Inr ()
   | Some registry \<Rightarrow>
       if length (rs_names registry) \<noteq> length (cb_stages blob) \<or> length (rs_sorted registry) \<noteq> length (cb_stages blob)
       then Inl (RegistryArity (length (rs_names registry)) (length (rs_sorted registry)) (length (cb_stages blob)))
       else Inr ())"

definition record_body_lens :: "stage_spec \<Rightarrow> nat option list" where
  "record_body_lens st =
     [map_option (\<lambda>_. LIMITER_LEN) (ss_limiter st), map_option (\<lambda>_. TIMEOUT_LEN) (ss_timeout st),
      map_option (\<lambda>_. RETRY_LEN) (ss_retry st), map_option (\<lambda>_. BREAKER_LEN) (ss_breaker st)]"

text \<open>A running sum with overflow checks, the shape of the three length loops.\<close>

fun checked_sum :: "nat \<Rightarrow> nat list \<Rightarrow> write_error + nat" where
  "checked_sum acc [] = Inr acc"
| "checked_sum acc (n # ns) = res_bind (ok_or (checked_add acc n) SpecTooLarge) (\<lambda>acc'. checked_sum acc' ns)"

definition payload_len :: "stage_spec \<Rightarrow> write_error + nat" where
  "payload_len st = checked_sum 0 (map ((+) RECORD_HEADER_LEN) (List.map_filter id (record_body_lens st)))"

fun after_policies :: "nat \<Rightarrow> stage_spec list \<Rightarrow> write_error + nat" where
  "after_policies acc [] = Inr acc"
| "after_policies acc (st # sts) =
     res_bind (payload_len st) (\<lambda>len.
     res_bind (ok_or (checked_add acc len) SpecTooLarge) (\<lambda>acc'. after_policies acc' sts))"

definition registry_len :: "nat \<Rightarrow> write_error + nat" where
  "registry_len stage_count =
     res_bind (ok_or (checked_mul stage_count NAME_ENTRY_LEN) SpecTooLarge) (\<lambda>names.
     res_bind (ok_or (checked_mul stage_count SORTED_ENTRY_LEN) SpecTooLarge) (\<lambda>sorted.
     res_bind (ok_or (checked_add names sorted) SpecTooLarge) align8))"

definition string_heap_len :: "conductor_blob \<Rightarrow> write_error + nat" where
  "string_heap_len blob =
     res_bind (case cb_registry blob of None \<Rightarrow> Inr 0 | Some registry \<Rightarrow> checked_sum 0 (map length (rs_names registry)))
       (\<lambda>names. checked_sum names (map (length \<circ> bs_key) (cb_config blob)))"

definition layout_compute :: "conductor_blob \<Rightarrow> write_error + layout" where
  "layout_compute blob =
     res_bind (try_u32 (length (cb_stages blob))) (\<lambda>stage_count.
     res_bind (try_u32 (length (cb_edges blob))) (\<lambda>edge_count.
     res_bind (validate_registry_arity blob) (\<lambda>_.
     res_bind (ok_or (checked_mul (length (cb_stages blob)) STAGE_ENTRY_LEN) SpecTooLarge) (\<lambda>stage_table_len.
     res_bind (ok_or (checked_add CONDUCTOR_HEADER_LEN stage_table_len) SpecTooLarge) (\<lambda>edge_table_off.
     res_bind (ok_or (checked_mul (length (cb_edges blob)) EDGE_LEN) SpecTooLarge) (\<lambda>edge_table_len.
     res_bind (ok_or (checked_add edge_table_off edge_table_len) SpecTooLarge) (\<lambda>policy_heap_off.
     res_bind (after_policies policy_heap_off (cb_stages blob)) (\<lambda>after_pol.
     res_bind (if cb_registry blob \<noteq> None
       then res_bind (registry_len (length (cb_stages blob))) (\<lambda>len.
            res_bind (ok_or (checked_add after_pol len) SpecTooLarge) (\<lambda>end. Inr (after_pol, end)))
       else Inr (0, after_pol)) (\<lambda>(registry_off, after_registry).
     res_bind (if cb_config blob = [] then Inr (0, after_registry)
       else res_bind (ok_or (checked_mul (length (cb_config blob)) BINDING_LEN) SpecTooLarge) (\<lambda>entries_len.
            res_bind (ok_or (checked_add CONFIG_HEADER_LEN entries_len) SpecTooLarge) (\<lambda>len.
            res_bind (ok_or (checked_add after_registry len) SpecTooLarge) (\<lambda>end. Inr (after_registry, end)))))
       (\<lambda>(config_off, heap_off).
     res_bind (string_heap_len blob) (\<lambda>heap_len.
     res_bind (ok_or (checked_add heap_off heap_len) SpecTooLarge) (\<lambda>body_end.
     res_bind (align8 body_end) (\<lambda>body_len.
     res_bind (ok_or (checked_add RECORD_HEADER_LEN body_len) SpecTooLarge) (\<lambda>spec_record_len.
     res_bind (ok_or (checked_add HEADER_LEN spec_record_len) SpecTooLarge) (\<lambda>blob_len.
     res_bind (try_u32 blob_len) (\<lambda>_.
     Inr \<lparr>ly_total = blob_len, ly_spec_record_len = spec_record_len, ly_stage_count = stage_count,
       ly_edge_count = edge_count, ly_edge_table_off = edge_table_off, ly_policy_heap_off = policy_heap_off,
       ly_registry_off = registry_off, ly_config_off = config_off, ly_heap_off = heap_off\<rparr>))))))))))))))))"

section \<open>Scalar writes\<close>

definition BODY_OFFSET :: nat where "BODY_OFFSET = HEADER_LEN + RECORD_HEADER_LEN"

definition put_u8 :: "bytes \<Rightarrow> nat \<Rightarrow> u8 \<Rightarrow> bytes exec" where
  "put_u8 buf off v = (if off < length buf then Ret (buf[off := v]) else Panic)"

definition put_u16 :: "bytes \<Rightarrow> nat \<Rightarrow> u16 \<Rightarrow> bytes exec" where
  "put_u16 buf off v = put_slice buf off (le_bytes 2 v)"

definition put_u32 :: "bytes \<Rightarrow> nat \<Rightarrow> u32 \<Rightarrow> bytes exec" where
  "put_u32 buf off v = put_slice buf off (le_bytes 4 v)"

definition put_u64 :: "bytes \<Rightarrow> nat \<Rightarrow> u64 \<Rightarrow> bytes exec" where
  "put_u64 buf off v = put_slice buf off (le_bytes 8 v)"

definition sat_u32 :: "nat \<Rightarrow> u32" where
  "sat_u32 n = (if n < 2 ^ 32 then of_nat n else 0xFFFFFFFF)"

definition put_offset :: "bytes \<Rightarrow> nat \<Rightarrow> nat \<Rightarrow> bytes exec" where
  "put_offset buf off v = put_slice buf off (le_bytes 4 (sat_u32 v))"

section \<open>Passes\<close>

definition write_header :: "bytes \<Rightarrow> layout \<Rightarrow> bytes exec" where
  "write_header buf ly =
     exec_bind (put_slice buf 0 MAGIC) (\<lambda>buf.
     exec_bind (put_u16 buf 4 VERSION) (\<lambda>buf.
     exec_bind (put_u16 buf 6 0) (\<lambda>buf.
     exec_bind (put_offset buf 8 (ly_total ly)) (\<lambda>buf.
     exec_bind (put_offset buf 12 HEADER_LEN) (\<lambda>buf.
     exec_bind (put_u16 buf HEADER_LEN (node_tag_u16 ConductorSpec)) (\<lambda>buf.
     exec_bind (put_u16 buf (HEADER_LEN + 2) 0) (\<lambda>buf.
     exec_bind (put_offset buf (HEADER_LEN + 4) (ly_spec_record_len ly)) (\<lambda>buf.
     exec_bind (put_u32 buf BODY_OFFSET (ly_stage_count ly)) (\<lambda>buf.
     exec_bind (put_u32 buf (BODY_OFFSET + 4) (ly_edge_count ly)) (\<lambda>buf.
     exec_bind (put_offset buf (BODY_OFFSET + 8) CONDUCTOR_HEADER_LEN) (\<lambda>buf.
     exec_bind (put_offset buf (BODY_OFFSET + 12) (ly_edge_table_off ly)) (\<lambda>buf.
     exec_bind (put_offset buf (BODY_OFFSET + 16) (ly_registry_off ly)) (\<lambda>buf.
     put_offset buf (BODY_OFFSET + 20) (ly_config_off ly))))))))))))))"

fun write_stage_slots :: "bytes \<Rightarrow> nat \<Rightarrow> nat \<Rightarrow> nat option list \<Rightarrow> nat \<Rightarrow> (bytes \<times> nat) exec" where
  "write_stage_slots buf entry slot [] payload = Ret (buf, payload)"
| "write_stage_slots buf entry slot (Some len # lens) payload =
     exec_bind (put_offset buf (entry + slot * 4) payload) (\<lambda>buf.
     write_stage_slots buf entry (slot + 1) lens (payload + (RECORD_HEADER_LEN + len)))"
| "write_stage_slots buf entry slot (None # lens) payload =
     exec_bind (put_offset buf (entry + slot * 4) 0) (\<lambda>buf.
     write_stage_slots buf entry (slot + 1) lens payload)"

fun write_stage_entries :: "bytes \<Rightarrow> nat \<Rightarrow> nat \<Rightarrow> stage_spec list \<Rightarrow> nat \<Rightarrow> bytes exec" where
  "write_stage_entries buf tbl i [] payload = Ret buf"
| "write_stage_entries buf tbl i (st # sts) payload =
     exec_bind (write_stage_slots buf (tbl + i * STAGE_ENTRY_LEN) 0 (record_body_lens st) payload)
       (\<lambda>(buf, payload). write_stage_entries buf tbl (i + 1) sts payload)"

definition write_stage_table :: "bytes \<Rightarrow> layout \<Rightarrow> stage_spec list \<Rightarrow> bytes exec" where
  "write_stage_table buf ly stages =
     write_stage_entries buf (BODY_OFFSET + CONDUCTOR_HEADER_LEN) 0 stages (ly_policy_heap_off ly)"

fun write_edge_entries :: "bytes \<Rightarrow> nat \<Rightarrow> nat \<Rightarrow> edge_view list \<Rightarrow> bytes exec" where
  "write_edge_entries buf tbl j [] = Ret buf"
| "write_edge_entries buf tbl j (edge # edges) =
     (let entry = tbl + j * EDGE_LEN in
      exec_bind (put_u16 buf entry (ed_from edge)) (\<lambda>buf.
      exec_bind (put_u16 buf (entry + 2) (ed_to edge)) (\<lambda>buf.
      exec_bind (put_u16 buf (entry + 4) (ed_input edge)) (\<lambda>buf.
      exec_bind (put_u16 buf (entry + 6) 0) (\<lambda>buf.
      write_edge_entries buf tbl (j + 1) edges)))))"

definition write_edge_table :: "bytes \<Rightarrow> layout \<Rightarrow> edge_view list \<Rightarrow> bytes exec" where
  "write_edge_table buf ly edges = write_edge_entries buf (BODY_OFFSET + ly_edge_table_off ly) 0 edges"

definition write_frame :: "bytes \<Rightarrow> nat \<Rightarrow> node_tag \<Rightarrow> nat \<Rightarrow> (bytes \<times> nat) exec" where
  "write_frame buf payload tag body_len =
     (let rec = BODY_OFFSET + payload in
      exec_bind (put_u16 buf rec (node_tag_u16 tag)) (\<lambda>buf.
      exec_bind (put_u16 buf (rec + 2) 0) (\<lambda>buf.
      exec_bind (put_offset buf (rec + 4) (RECORD_HEADER_LEN + body_len)) (\<lambda>buf.
      Ret (buf, rec + RECORD_HEADER_LEN)))))"

text \<open>The four conditional record writes of one stage, in the order of the source.\<close>

definition write_limiter :: "bytes \<Rightarrow> nat \<Rightarrow> limiter_view option \<Rightarrow> (bytes \<times> nat) exec" where
  "write_limiter buf payload ov = (case ov of None \<Rightarrow> Ret (buf, payload) | Some v \<Rightarrow>
     exec_bind (write_frame buf payload PolicyLimiter LIMITER_LEN) (\<lambda>(buf, body).
     exec_bind (put_u32 buf body (lim_capacity v)) (\<lambda>buf.
     exec_bind (put_u32 buf (body + 4) (lim_refill_tokens v)) (\<lambda>buf.
     exec_bind (put_u64 buf (body + 8) (lim_refill_period_ns v)) (\<lambda>buf.
     Ret (buf, payload + (RECORD_HEADER_LEN + LIMITER_LEN)))))))"

definition write_timeout :: "bytes \<Rightarrow> nat \<Rightarrow> timeout_view option \<Rightarrow> (bytes \<times> nat) exec" where
  "write_timeout buf payload ov = (case ov of None \<Rightarrow> Ret (buf, payload) | Some v \<Rightarrow>
     exec_bind (write_frame buf payload PolicyTimeout TIMEOUT_LEN) (\<lambda>(buf, body).
     exec_bind (put_u64 buf body (to_duration_ns v)) (\<lambda>buf.
     Ret (buf, payload + (RECORD_HEADER_LEN + TIMEOUT_LEN)))))"

definition write_retry :: "bytes \<Rightarrow> nat \<Rightarrow> retry_view option \<Rightarrow> (bytes \<times> nat) exec" where
  "write_retry buf payload ov = (case ov of None \<Rightarrow> Ret (buf, payload) | Some v \<Rightarrow>
     exec_bind (write_frame buf payload PolicyRetry RETRY_LEN) (\<lambda>(buf, body).
     exec_bind (put_u32 buf body (re_max_attempts v)) (\<lambda>buf.
     exec_bind (put_u8 buf (body + 4) (re_backoff_kind v)) (\<lambda>buf.
     exec_bind (put_u8 buf (body + 5) (re_jitter_kind v)) (\<lambda>buf.
     exec_bind (put_u16 buf (body + 6) 0) (\<lambda>buf.
     exec_bind (put_u64 buf (body + 8) (re_base_delay_ns v)) (\<lambda>buf.
     exec_bind (put_u64 buf (body + 16) (re_max_delay_ns v)) (\<lambda>buf.
     Ret (buf, payload + (RECORD_HEADER_LEN + RETRY_LEN))))))))))"

definition write_breaker :: "bytes \<Rightarrow> nat \<Rightarrow> breaker_view option \<Rightarrow> (bytes \<times> nat) exec" where
  "write_breaker buf payload ov = (case ov of None \<Rightarrow> Ret (buf, payload) | Some v \<Rightarrow>
     exec_bind (write_frame buf payload PolicyBreaker BREAKER_LEN) (\<lambda>(buf, body).
     exec_bind (put_u8 buf body (br_window_kind v)) (\<lambda>buf.
     exec_bind (put_u8 buf (body + 1) (br_failure_rate_percent v)) (\<lambda>buf.
     exec_bind (put_u16 buf (body + 2) 0) (\<lambda>buf.
     exec_bind (put_u32 buf (body + 4) (br_minimum_calls v)) (\<lambda>buf.
     exec_bind (put_u64 buf (body + 8) (br_window_span v)) (\<lambda>buf.
     exec_bind (put_u32 buf (body + 16) (br_half_open_max_calls v)) (\<lambda>buf.
     exec_bind (put_u32 buf (body + 20) (br_half_open_success_threshold v)) (\<lambda>buf.
     exec_bind (put_u64 buf (body + 24) (br_open_duration_ns v)) (\<lambda>buf.
     Ret (buf, payload + (RECORD_HEADER_LEN + BREAKER_LEN))))))))))))"

fun write_stage_policies :: "bytes \<Rightarrow> nat \<Rightarrow> stage_spec list \<Rightarrow> bytes exec" where
  "write_stage_policies buf payload [] = Ret buf"
| "write_stage_policies buf payload (st # sts) =
     exec_bind (write_limiter buf payload (ss_limiter st)) (\<lambda>(buf, payload).
     exec_bind (write_timeout buf payload (ss_timeout st)) (\<lambda>(buf, payload).
     exec_bind (write_retry buf payload (ss_retry st)) (\<lambda>(buf, payload).
     exec_bind (write_breaker buf payload (ss_breaker st)) (\<lambda>(buf, payload).
     write_stage_policies buf payload sts))))"

definition write_policy_records :: "bytes \<Rightarrow> layout \<Rightarrow> stage_spec list \<Rightarrow> bytes exec" where
  "write_policy_records buf ly stages = write_stage_policies buf (ly_policy_heap_off ly) stages"

definition write_bytes :: "bytes \<Rightarrow> nat \<Rightarrow> bytes \<Rightarrow> (bytes \<times> nat) exec" where
  "write_bytes buf heap bs =
     exec_bind (put_slice buf (BODY_OFFSET + heap) bs) (\<lambda>buf. Ret (buf, heap + length bs))"

fun write_names :: "bytes \<Rightarrow> nat \<Rightarrow> nat \<Rightarrow> bytes list \<Rightarrow> nat \<Rightarrow> (bytes \<times> nat) exec" where
  "write_names buf tbl i [] heap = Ret (buf, heap)"
| "write_names buf tbl i (name # names) heap =
     (let entry = tbl + i * NAME_ENTRY_LEN in
      exec_bind (put_offset buf entry heap) (\<lambda>buf.
      exec_bind (put_offset buf (entry + 4) (length name)) (\<lambda>buf.
      exec_bind (write_bytes buf heap name) (\<lambda>(buf, heap).
      write_names buf tbl (i + 1) names heap))))"

fun write_sorted :: "bytes \<Rightarrow> nat \<Rightarrow> nat \<Rightarrow> u16 list \<Rightarrow> bytes exec" where
  "write_sorted buf tbl k [] = Ret buf"
| "write_sorted buf tbl k (ordinal # ordinals) =
     exec_bind (put_u16 buf (tbl + k * SORTED_ENTRY_LEN) ordinal) (\<lambda>buf.
     write_sorted buf tbl (k + 1) ordinals)"

definition write_registry :: "bytes \<Rightarrow> layout \<Rightarrow> registry_spec \<Rightarrow> nat \<Rightarrow> (bytes \<times> nat) exec" where
  "write_registry buf ly registry heap =
     (let name_table = BODY_OFFSET + ly_registry_off ly;
          sorted_table = name_table + unat (ly_stage_count ly) * NAME_ENTRY_LEN in
      exec_bind (write_names buf name_table 0 (rs_names registry) heap) (\<lambda>(buf, heap).
      exec_bind (write_sorted buf sorted_table 0 (rs_sorted registry)) (\<lambda>buf.
      Ret (buf, heap))))"

fun write_bindings :: "bytes \<Rightarrow> nat \<Rightarrow> nat \<Rightarrow> binding_spec list \<Rightarrow> nat \<Rightarrow> (bytes \<times> nat) exec" where
  "write_bindings buf entries i [] heap = Ret (buf, heap)"
| "write_bindings buf entries i (b # bs) heap =
     (let entry = entries + i * BINDING_LEN in
      exec_bind (put_u16 buf entry (bs_node_ordinal b)) (\<lambda>buf.
      exec_bind (put_u16 buf (entry + 2) (bs_field_tag b)) (\<lambda>buf.
      exec_bind (put_offset buf (entry + 4) (length (bs_key b))) (\<lambda>buf.
      exec_bind (put_offset buf (entry + 8) heap) (\<lambda>buf.
      exec_bind (put_u32 buf (entry + 12) 0) (\<lambda>buf.
      exec_bind (put_u64 buf (entry + 16) (ucast (sc_kind (bs_default b)))) (\<lambda>buf.
      exec_bind (put_u64 buf (entry + 24) (sc_value (bs_default b))) (\<lambda>buf.
      exec_bind (write_bytes buf heap (bs_key b)) (\<lambda>(buf, heap).
      write_bindings buf entries (i + 1) bs heap)))))))))"

definition write_config :: "bytes \<Rightarrow> layout \<Rightarrow> binding_spec list \<Rightarrow> nat \<Rightarrow> (bytes \<times> nat) exec" where
  "write_config buf ly config heap =
     (let section = BODY_OFFSET + ly_config_off ly in
      exec_bind (put_offset buf section (length config)) (\<lambda>buf.
      exec_bind (put_u32 buf (section + 4) 0) (\<lambda>buf.
      write_bindings buf (section + CONFIG_HEADER_LEN) 0 config heap)))"

text \<open>The buffer after the call is part of the result; an error leaves it as it was.\<close>

definition write_conductor :: "bytes \<Rightarrow> conductor_blob \<Rightarrow> ((write_error + nat) \<times> bytes) exec" where
  "write_conductor buf blob = (case layout_compute blob of
     Inl e \<Rightarrow> Ret (Inl e, buf)
   | Inr ly \<Rightarrow>
       if length buf < ly_total ly then Ret (Inl (BufferTooSmall (ly_total ly) (length buf)), buf)
       else
         exec_bind (write_header (replicate (ly_total ly) 0 @ drop (ly_total ly) buf) ly) (\<lambda>buf.
         exec_bind (write_stage_table buf ly (cb_stages blob)) (\<lambda>buf.
         exec_bind (write_edge_table buf ly (cb_edges blob)) (\<lambda>buf.
         exec_bind (write_policy_records buf ly (cb_stages blob)) (\<lambda>buf.
         exec_bind (case cb_registry blob of None \<Rightarrow> Ret (buf, ly_heap_off ly)
           | Some registry \<Rightarrow> write_registry buf ly registry (ly_heap_off ly)) (\<lambda>(buf, heap).
         exec_bind (if cb_config blob = [] then Ret (buf, heap)
           else write_config buf ly (cb_config blob) heap) (\<lambda>(buf, heap).
         Ret (Inr (ly_total ly), buf))))))))"

end
