(* ===== verification/Ir_Sound.thy ===== *)
theory Ir_Sound
  imports Ir_Check
begin

text \<open>
  What acceptance by \<open>validate\<close> guarantees: the accessors of an accepted blob are total and in
  range, its typed regions do not overlap, and the registry's binary search is exact on the
  sorted index.
\<close>

lemmas ir_consts = MAGIC_def VERSION_def HEADER_LEN_def ROOT_OFFSET_FIELD_def RECORD_HEADER_LEN_def
  RECORD_ALIGN_def LIMITER_LEN_def TIMEOUT_LEN_def RETRY_LEN_def BREAKER_LEN_def POLICY_COUNT_def
  POLICY_ALL_def EDGE_LEN_def SCALAR_LEN_def BINDING_LEN_def SCALAR_OFFSET_def NAME_ENTRY_LEN_def
  SORTED_ENTRY_LEN_def STAGE_COUNT_FIELD_def EDGE_COUNT_FIELD_def STAGE_TABLE_OFFSET_FIELD_def
  EDGE_TABLE_OFFSET_FIELD_def REGISTRY_TABLE_OFFSET_FIELD_def CONFIG_TABLE_OFFSET_FIELD_def
  CONDUCTOR_HEADER_LEN_def STAGE_ENTRY_LEN_def CONFIG_HEADER_LEN_def

section \<open>Reads\<close>

lemma read_u8_eq: "read_u8 bs off = Inr w \<longleftrightarrow> off < length bs \<and> w = bs ! off"
  by (auto simp: read_u8_def)

lemma case_list2:
  "(case xs of [a, b] \<Rightarrow> f a b | _ \<Rightarrow> d) = (if length xs = 2 then f (xs ! 0) (xs ! 1) else d)"
  by (auto split: list.splits)

lemma case_list4:
  "(case xs of [a, b, c, e] \<Rightarrow> f a b c e | _ \<Rightarrow> d) =
   (if length xs = 4 then f (xs ! 0) (xs ! 1) (xs ! 2) (xs ! 3) else d)"
  by (auto split: list.splits)

lemma read_u16_eq:
  "read_u16 bs off = Inr w \<longleftrightarrow>
     off + 2 < usize_bound \<and> off + 2 \<le> length bs \<and> w = le_word (take 2 (drop off bs))"
proof (cases "off + 2 \<le> length bs")
  case True
  then obtain a b where "take 2 (drop off bs) = [a, b]"
    using ex_take_2 [of "take 2 (drop off bs)"] by auto
  with True show ?thesis by (auto simp: read_u16_def get_range_def checked_add_def)
next
  case False
  then show ?thesis by (auto simp: read_u16_def get_range_def checked_add_def)
qed

lemma read_u32_eq:
  "read_u32 bs off = Inr w \<longleftrightarrow>
     off + 4 < usize_bound \<and> off + 4 \<le> length bs \<and> w = le_word (take 4 (drop off bs))"
proof (cases "off + 4 \<le> length bs")
  case True
  then obtain a b c d where "take 4 (drop off bs) = [a, b, c, d]"
    using ex_take_4 [of "take 4 (drop off bs)"] by auto
  with True show ?thesis by (auto simp: read_u32_def get_range_def checked_add_def)
next
  case False
  then show ?thesis by (auto simp: read_u32_def get_range_def checked_add_def)
qed

lemma read_u64_eq:
  "read_u64 bs off = Inr w \<longleftrightarrow>
     off + 8 < usize_bound \<and> off + 8 \<le> length bs \<and> w = le_word (take 8 (drop off bs))"
  by (auto simp: read_u64_def get_range_def)

lemma read_record_eq:
  "read_record bs off = Inr rv \<longleftrightarrow>
     off mod 8 = 0 \<and> off + 8 + length (rv_body rv) \<le> length bs \<and> length (rv_body rv) mod 8 = 0 \<and>
     off + 8 + length (rv_body rv) < usize_bound \<and>
     node_tag_from_u16 (le_word (take 2 (drop off bs))) = Some (rv_tag rv) \<and>
     unat (le_word (take 4 (drop (off + 4) bs)) :: u32) = 8 + length (rv_body rv) \<and>
     take (length (rv_body rv)) (drop (off + 8) bs) = rv_body rv" (is "?L \<longleftrightarrow> ?R")
proof
  assume ?L
  then obtain tg len body where *: "off mod 8 = 0" "read_u16 bs off = Inr tg"
    "read_u32 bs (off + 4) = Inr len" "8 \<le> unat len" "unat len mod 8 = 0" "off + unat len < usize_bound"
    "get_range bs (off + 8) (off + unat len) = Some body" "node_tag_from_u16 tg = Some (rv_tag rv)"
    "rv_body rv = body"
    by (auto simp: read_record_def Let_def ir_consts split: if_splits)
  then have "length body = unat len - 8" "off + unat len \<le> length bs"
    using get_range_SomeD [OF *(7)] *(4) by auto
  moreover from this have "take (length body) (drop (off + 8) bs) = body"
    using *(7) by (simp add: get_range_eq_Some)
  moreover have "(unat len - 8) mod 8 = 0" using *(4,5) le_mod_geq [of 8 "unat len"] by simp
  ultimately show ?R using * by (simp add: read_u16_eq read_u32_eq)
next
  assume R: ?R
  let ?len = "le_word (take 4 (drop (off + 4) bs)) :: u32"
  have "read_u16 bs off = Inr (le_word (take 2 (drop off bs)))" "read_u32 bs (off + 4) = Inr ?len"
    using R by (auto simp: read_u16_eq read_u32_eq)
  moreover have "get_range bs (off + 8) (off + unat ?len) = Some (rv_body rv)"
    using R by (simp add: get_range_def)
  moreover have "unat ?len mod 8 = 0" using R by simp
  ultimately show ?L using R by (simp add: read_record_def Let_def ir_consts checked_add_def)
qed

lemma node_tag_from_u16_u16 [simp]: "node_tag_from_u16 (node_tag_u16 t) = Some t"
  by (cases t) (simp_all add: node_tag_from_u16_def)

lemma node_tag_from_u16_SomeD: "node_tag_from_u16 v = Some t \<Longrightarrow> node_tag_u16 t = v"
  by (auto simp: node_tag_from_u16_def split: if_splits)

section \<open>Destructing the passes\<close>

lemma slice_table_ok:
  assumes "slice_table body f count n = Inr (off, t)"
  shows "length t = unat count * n" "24 \<le> off" "off + length t \<le> length body"
    "t = take (length t) (drop off body)" "off + length t < usize_bound"
  using assms by (auto simp: slice_table_def Let_def ir_consts get_range_def split: if_splits)

lemma edge_parse_len: "length bs = 8 \<Longrightarrow> \<exists>e. edge_parse bs = Some e"
  by (drule ex_take_8) (auto simp: edge_parse_def)

lemma check_edge_ordinals_ok:
  assumes "check_edge_ordinals t count = Inr u" "length t = m * 8" "length t < usize_bound" "j < m"
  obtains e where "edge_parse (chunk 8 t j) = Some e" "ucast (ed_from e) < count" "ucast (ed_to e) < count"
proof -
  have "res_bind (ok_or (edge_parse (chunk 8 t j)) OutOfBounds) (\<lambda>edge.
       if count \<le> ucast (ed_from edge) \<or> count \<le> ucast (ed_to edge)
       then Inl OrdinalOutOfRange else Inr ()) = Inr ()"
    using scan_entries_okD [OF assms(1) [unfolded check_edge_ordinals_def EDGE_LEN_def] assms(2)] assms(3,4)
    by simp
  then show ?thesis using that by (auto split: if_splits)
qed

lemma check_config_entries_ok:
  assumes "check_config_entries body t count = Inr u" "length t = m * 32" "length t < usize_bound" "j < m"
  obtains b where "binding_parse body (chunk 32 t j) = Inr b" "ucast (bi_node_ordinal b) < count"
proof -
  have "res_bind (binding_parse body (chunk 32 t j)) (\<lambda>binding.
       if count \<le> ucast (bi_node_ordinal binding) then Inl OrdinalOutOfRange else Inr ()) = Inr ()"
    using scan_entries_okD [OF assms(1) [unfolded check_config_entries_def BINDING_LEN_def] assms(2)] assms(3,4)
    by simp
  then show ?thesis using that by (auto split: if_splits)
qed

lemma check_policy_slot_ok:
  assumes "check_policy_slot body entry kind sections = Inr u" "read_u32 entry (policy_slot_field kind) = Inr w"
    "w \<noteq> 0"
  obtains rv where "read_record body (unat w) = Inr rv" "rv_tag rv = policy_node_tag kind"
    "policy_validate_body kind (rv_body rv) = Inr ()" "24 \<le> unat w"
    "\<not> overlaps_any \<lparr>sp_offset = unat w, sp_len = 8 + length (rv_body rv)\<rparr> sections"
  using assms
  by (auto simp: check_policy_slot_def record_span_at_def Let_def ir_consts unat_eq_zero split: if_splits)

lemma check_stage_policies_ok:
  assumes "check_stage_policies body t sections = Inr u" "length t = m * 16" "length t < usize_bound" "j < m"
  shows "check_policy_slot body (chunk 16 t j) kind sections = Inr ()"
proof -
  have "kind \<in> set POLICY_ALL" by (cases kind) (simp_all add: POLICY_ALL_def)
  moreover have "for_each (\<lambda>kind. check_policy_slot body (chunk 16 t j) kind sections) POLICY_ALL = Inr ()"
    using scan_entries_okD [OF assms(1) [unfolded check_stage_policies_def STAGE_ENTRY_LEN_def] assms(2)] assms(3,4)
    by simp
  ultimately show ?thesis unfolding for_each_ok by blast
qed

lemma policy_validate_body_ok:
  assumes "policy_validate_body kind body = Inr ()"
  shows "kind = Limiter \<Longrightarrow> \<exists>v. limiter_parse body = Inr v"
    "kind = Timeout \<Longrightarrow> \<exists>v. timeout_parse body = Inr v"
    "kind = Retry \<Longrightarrow> \<exists>v. retry_parse body = Inr v"
    "kind = Breaker \<Longrightarrow> \<exists>v. breaker_parse body = Inr v"
  using assms by auto

text \<open>The pieces of a successful parse.\<close>

definition parse_pieces :: "bytes \<Rightarrow> conductor_view \<Rightarrow> nat \<Rightarrow> nat \<Rightarrow> parsed_registry option \<Rightarrow> parsed_config option \<Rightarrow> nat \<Rightarrow> bool" where
  "parse_pieces body cv so eo reg cfg floor \<longleftrightarrow>
     cv_body cv = body \<and>
     slice_table body 8 (cv_stage_count cv) 16 = Inr (so, cv_stage_table cv) \<and>
     slice_table body 12 (cv_edge_count cv) 8 = Inr (eo, cv_edge_table cv) \<and>
     parse_registry body (cv_stage_count cv) = Inr reg \<and>
     parse_config body (cv_stage_count cv) = Inr cfg \<and>
     check_sections_disjoint (parse_sections so (cv_stage_table cv) eo (cv_edge_table cv) reg cfg) = Inr () \<and>
     check_edge_ordinals (cv_edge_table cv) (cv_stage_count cv) = Inr () \<and>
     check_stage_policies body (cv_stage_table cv)
       (parse_sections so (cv_stage_table cv) eo (cv_edge_table cv) reg cfg) = Inr () \<and>
     check_record_overlaps body (cv_stage_table cv) = Inr () \<and>
     heap_floor (parse_sections so (cv_stage_table cv) eo (cv_edge_table cv) reg cfg) body (cv_stage_table cv) = Inr floor \<and>
     (\<forall>r. reg = Some r \<longrightarrow> check_names_in_heap (pr_name_table r) floor = Inr () \<and>
        check_sorted_order (pr_view r) (cv_stage_count cv) = Inr ()) \<and>
     (\<forall>c. cfg = Some c \<longrightarrow> check_keys_in_heap (pc_entries c) floor = Inr ()) \<and>
     cv_registry cv = map_option pr_view reg \<and>
     cv_config_count cv = (case cfg of None \<Rightarrow> 0 | Some c \<Rightarrow> pc_count c) \<and>
     cv_config_entries cv = (case cfg of None \<Rightarrow> [] | Some c \<Rightarrow> pc_entries c)"

lemma conductor_parse_pieces:
  assumes "conductor_parse body = Inr cv"
  obtains so eo reg cfg floor where "parse_pieces body cv so eo reg cfg floor"
proof -
  from assms obtain sc ec so st eo et reg cfg floor where
    "read_u32 body STAGE_COUNT_FIELD = Inr sc" "read_u32 body EDGE_COUNT_FIELD = Inr ec"
    "slice_table body STAGE_TABLE_OFFSET_FIELD sc STAGE_ENTRY_LEN = Inr (so, st)"
    "slice_table body EDGE_TABLE_OFFSET_FIELD ec EDGE_LEN = Inr (eo, et)"
    "parse_registry body sc = Inr reg" "parse_config body sc = Inr cfg"
    "check_sections_disjoint (parse_sections so st eo et reg cfg) = Inr ()"
    "check_edge_ordinals et sc = Inr ()"
    "check_stage_policies body st (parse_sections so st eo et reg cfg) = Inr ()"
    "check_record_overlaps body st = Inr ()"
    "heap_floor (parse_sections so st eo et reg cfg) body st = Inr floor"
    "(case reg of None \<Rightarrow> Inr () | Some r \<Rightarrow> res_bind (check_names_in_heap (pr_name_table r) floor) (\<lambda>_.
        check_sorted_order (pr_view r) sc)) = Inr ()"
    "(case cfg of None \<Rightarrow> Inr () | Some c \<Rightarrow> check_keys_in_heap (pc_entries c) floor) = Inr ()"
    "cv = \<lparr>cv_body = body, cv_stage_count = sc, cv_edge_count = ec, cv_stage_table = st, cv_edge_table = et,
       cv_registry = map_option pr_view reg,
       cv_config_count = (case cfg of None \<Rightarrow> 0 | Some c \<Rightarrow> pc_count c),
       cv_config_entries = (case cfg of None \<Rightarrow> [] | Some c \<Rightarrow> pc_entries c)\<rparr>"
    by (auto simp: conductor_parse_def Let_def)
  then have "parse_pieces body cv so eo reg cfg floor"
    by (auto simp: parse_pieces_def ir_consts split: option.splits)
  then show ?thesis by (rule that)
qed

lemma parse_config_ok:
  assumes "parse_config body count = Inr (Some c)"
  shows "check_config_entries body (pc_entries c) count = Inr ()"
    "length (pc_entries c) = unat (pc_count c) * 32" "length (pc_entries c) < usize_bound"
    "24 \<le> sp_offset (pc_section_span c)"
    "sp_offset (pc_section_span c) + sp_len (pc_section_span c) \<le> length body"
  using assms
  by (auto simp: parse_config_def Let_def ir_consts span_new_def get_range_def split: if_splits)

lemma parse_registry_ok:
  assumes "parse_registry body count = Inr (Some r)"
  shows "rg_body (pr_view r) = body" "rg_name_table (pr_view r) = pr_name_table r"
    "rg_count (pr_view r) = count" "length (pr_name_table r) = unat count * 8"
    "length (rg_sorted_index (pr_view r)) = unat count * 2"
    "check_registry_names (pr_view r) count = Inr ()"
    "check_sorted_ordinals (rg_sorted_index (pr_view r)) count = Inr ()"
    "length (rg_sorted_index (pr_view r)) < usize_bound" "length (pr_name_table r) < usize_bound"
proof -
  from assms obtain no nt si where *:
    "slice_table body REGISTRY_TABLE_OFFSET_FIELD count NAME_ENTRY_LEN = Inr (no, nt)"
    "no + length nt + unat count * 2 < usize_bound"
    "get_range body (no + length nt) (no + length nt + unat count * 2) = Some si"
    "pr_view r = \<lparr>rg_body = body, rg_name_table = nt, rg_sorted_index = si, rg_count = count\<rparr>"
    "check_registry_names (pr_view r) count = Inr ()" "check_sorted_ordinals si count = Inr ()"
    "pr_name_table r = nt"
    by (auto simp: parse_registry_def Let_def SORTED_ENTRY_LEN_def split: if_splits prod.splits)
  note S = slice_table_ok [OF *(1)] and G = get_range_SomeD [OF *(3)]
  show "rg_body (pr_view r) = body" "rg_name_table (pr_view r) = pr_name_table r"
    "rg_count (pr_view r) = count" "check_registry_names (pr_view r) count = Inr ()"
    "check_sorted_ordinals (rg_sorted_index (pr_view r)) count = Inr ()"
    using * by simp_all
  show "length (pr_name_table r) = unat count * 8" using S(1) * by (simp add: ir_consts)
  show "length (rg_sorted_index (pr_view r)) = unat count * 2" using G * by simp
  then show "length (rg_sorted_index (pr_view r)) < usize_bound" using *(2) by simp
  show "length (pr_name_table r) < usize_bound" using S(5) * by simp
qed

section \<open>Totality of the accessors\<close>

lemma conductor_stage_ok:
  assumes P: "parse_pieces body cv so eo reg cfg floor" and o: "ordinal < cv_stage_count cv"
  shows "conductor_stage cv ordinal = Some \<lparr>sv_body = body, sv_entry = chunk 16 (cv_stage_table cv) (unat ordinal)\<rparr>"
proof -
  from P have "slice_table body 8 (cv_stage_count cv) 16 = Inr (so, cv_stage_table cv)" and b: "cv_body cv = body"
    by (simp_all add: parse_pieces_def)
  note S = slice_table_ok [OF this(1)]
  from o have u: "unat ordinal < unat (cv_stage_count cv)" by (simp add: word_less_nat_alt)
  have "unat ordinal * 16 + 16 < usize_bound" using stride_le [OF u, of 16] S(1,5) by simp
  with get_range_chunk [OF u S(1)] o b show ?thesis
    by (simp add: conductor_stage_def ir_consts checked_mul_def checked_add_def)
qed

lemma conductor_edge_ok:
  assumes P: "parse_pieces body cv so eo reg cfg floor" and i: "i < unat (cv_edge_count cv)"
  obtains e where "conductor_edge cv (of_nat i) = Some e"
    "ucast (ed_from e) < cv_stage_count cv" "ucast (ed_to e) < cv_stage_count cv"
proof -
  from P have "slice_table body 12 (cv_edge_count cv) 8 = Inr (eo, cv_edge_table cv)"
    and c: "check_edge_ordinals (cv_edge_table cv) (cv_stage_count cv) = Inr ()"
    by (simp_all add: parse_pieces_def)
  note S = slice_table_ok [OF this(1)]
  have "length (cv_edge_table cv) < usize_bound" using S(5) by simp
  then obtain e where e: "edge_parse (chunk 8 (cv_edge_table cv) i) = Some e"
    "ucast (ed_from e) < cv_stage_count cv" "ucast (ed_to e) < cv_stage_count cv"
    using check_edge_ordinals_ok [OF c S(1) _ i] by metis
  have "i < 2 ^ 32" using i unat_u32_less [of "cv_edge_count cv"] by simp
  moreover have "i * 8 + 8 < usize_bound" using stride_le [OF i, of 8] S(1,5) by simp
  ultimately have "conductor_edge cv (of_nat i) = Some e"
    using get_range_chunk [OF i S(1)] e(1)
    by (simp add: conductor_edge_def ir_consts checked_mul_def checked_add_def)
  with e show ?thesis using that by blast
qed

lemma conductor_binding_ok:
  assumes P: "parse_pieces body cv so eo reg cfg floor" and i: "i < unat (cv_config_count cv)"
  obtains b where "conductor_config_binding cv (of_nat i) = Some b"
    "ucast (bi_node_ordinal b) < cv_stage_count cv"
proof -
  from P i obtain c where c: "cfg = Some c" by (cases cfg) (auto simp: parse_pieces_def)
  with P have p: "parse_config body (cv_stage_count cv) = Inr (Some c)" and eq: "cv_body cv = body"
    "cv_config_count cv = pc_count c" "cv_config_entries cv = pc_entries c"
    by (simp_all add: parse_pieces_def)
  note C = parse_config_ok [OF p]
  from i eq have i': "i < unat (pc_count c)" by simp
  obtain b where b: "binding_parse body (chunk 32 (pc_entries c) i) = Inr b"
    "ucast (bi_node_ordinal b) < cv_stage_count cv"
    using check_config_entries_ok [OF C(1,2,3) i'] by metis
  have "i < 2 ^ 32" using i' unat_u32_less [of "pc_count c"] by simp
  moreover have "i * 32 + 32 < usize_bound" using stride_le [OF i', of 32] C(2,3) by simp
  ultimately have "conductor_config_binding cv (of_nat i) = Some b"
    using get_range_chunk [OF i' C(2)] b(1) eq
    by (simp add: conductor_config_binding_def ir_consts checked_mul_def checked_add_def)
  with b show ?thesis using that by blast
qed

text \<open>A policy accessor of a validated stage misses only when its slot is zero.\<close>

lemma read_u32_slot:
  assumes "length entry = 16"
  obtains w where "read_u32 entry (policy_slot_field kind) = Inr w"
  using assms by (cases kind) (auto simp: read_u32_eq usize_bound_def)

lemma stage_policy_total:
  assumes P: "parse_pieces body cv so eo reg cfg floor" and o: "ordinal < cv_stage_count cv"
    and sv: "conductor_stage cv ordinal = Some sv"
  shows "read_u32 (sv_entry sv) (policy_slot_field kind) = Inr 0 \<and> stage_policy_body sv kind = None \<or>
    (\<exists>b. stage_policy_body sv kind = Some b \<and> policy_validate_body kind b = Inr () \<and>
       read_u32 (sv_entry sv) (policy_slot_field kind) \<noteq> Inr 0)"
proof -
  from P have "slice_table body 8 (cv_stage_count cv) 16 = Inr (so, cv_stage_table cv)"
    and c: "check_stage_policies body (cv_stage_table cv)
       (parse_sections so (cv_stage_table cv) eo (cv_edge_table cv) reg cfg) = Inr ()"
    by (simp_all add: parse_pieces_def)
  note S = slice_table_ok [OF this(1)]
  from o have u: "unat ordinal < unat (cv_stage_count cv)" by (simp add: word_less_nat_alt)
  have e: "sv = \<lparr>sv_body = body, sv_entry = chunk 16 (cv_stage_table cv) (unat ordinal)\<rparr>"
    using conductor_stage_ok [OF P o] sv by simp
  have "length (sv_entry sv) = 16" using e length_chunk [OF u S(1)] by simp
  then obtain w where w: "read_u32 (sv_entry sv) (policy_slot_field kind) = Inr w"
    by (rule read_u32_slot)
  have "length (cv_stage_table cv) < usize_bound" using S(5) by simp
  note K = check_stage_policies_ok [OF c S(1) this u, of kind]
  show ?thesis
  proof (cases "w = 0")
    case True
    with w show ?thesis by (simp add: stage_policy_body_def)
  next
    case False
    obtain rv where "read_record body (unat w) = Inr rv" "rv_tag rv = policy_node_tag kind"
      "policy_validate_body kind (rv_body rv) = Inr ()"
      using check_policy_slot_ok [OF K _ False] w e by auto
    with w False e show ?thesis by (simp add: stage_policy_body_def)
  qed
qed

lemma stage_accessors_total:
  assumes P: "parse_pieces body cv so eo reg cfg floor" and o: "ordinal < cv_stage_count cv"
    and sv: "conductor_stage cv ordinal = Some sv"
  shows "stage_limiter sv = None \<longleftrightarrow> read_u32 (sv_entry sv) 0 = Inr 0"
    "stage_timeout sv = None \<longleftrightarrow> read_u32 (sv_entry sv) 4 = Inr 0"
    "stage_retry sv = None \<longleftrightarrow> read_u32 (sv_entry sv) 8 = Inr 0"
    "stage_breaker sv = None \<longleftrightarrow> read_u32 (sv_entry sv) 12 = Inr 0"
  using stage_policy_total [OF assms, of Limiter] stage_policy_total [OF assms, of Timeout]
    stage_policy_total [OF assms, of Retry] stage_policy_total [OF assms, of Breaker]
  by (auto simp: stage_limiter_def stage_timeout_def stage_retry_def stage_breaker_def)

section \<open>The registry index\<close>

lemma registry_name_total:
  assumes "parse_registry body count = Inr (Some r)" "k < unat count"
  obtains n where "registry_name (pr_view r) (of_nat k) = Some n"
  using parse_registry_ok(6) [OF assms(1)] assms(2)
  by (fastforce simp: check_registry_names_def for_each_ok split: if_splits)

lemma registry_sorted_total:
  assumes "parse_registry body count = Inr (Some r)" "k < unat count"
  obtains o16 where "registry_sorted_ordinal (pr_view r) (of_nat k) = Some o16" "unat o16 < unat count"
proof -
  note R = parse_registry_ok [OF assms(1)]
  let ?si = "rg_sorted_index (pr_view r)"
  have "k < 2 ^ 32" using assms(2) unat_u32_less [of count] by simp
  moreover have "k * 2 + 2 < usize_bound" using stride_le [OF assms(2), of 2] R(5,8) by simp
  moreover note G = get_range_chunk [OF assms(2) R(5)]
  moreover obtain a b where ab: "chunk 2 ?si k = [a, b]"
    using length_chunk [OF assms(2) R(5)] ex_take_2 by blast
  ultimately have s: "registry_sorted_ordinal (pr_view r) (of_nat k) = Some (le_word [a, b])"
    by (simp add: registry_sorted_ordinal_def ir_consts checked_mul_def checked_add_def)
  from scan_entries_okD [OF R(7) [unfolded check_sorted_ordinals_def SORTED_ENTRY_LEN_def] R(5) _ R(8) assms(2)]
  have "\<not> count \<le> ucast (le_word [a, b] :: u16)" using ab by (auto split: if_splits)
  then have "unat (le_word [a, b] :: u16) < unat count"
    by (metis not_le unat_ucast_u16_u32 word_le_nat_alt)
  with s show ?thesis using that by blast
qed

text \<open>The name at a rank of the sorted index.\<close>

definition rank_name :: "registry_view \<Rightarrow> nat \<Rightarrow> bytes option" where
  "rank_name v k = Option.bind (registry_sorted_ordinal v (of_nat k)) (\<lambda>o16. registry_name v (ucast o16))"

lemma rank_name_total:
  assumes "parse_registry body count = Inr (Some r)" "k < unat count"
  obtains o16 n where "registry_sorted_ordinal (pr_view r) (of_nat k) = Some o16"
    "registry_name (pr_view r) (ucast o16) = Some n" "rank_name (pr_view r) k = Some n" "unat o16 < unat count"
proof -
  obtain o16 where o: "registry_sorted_ordinal (pr_view r) (of_nat k) = Some o16" "unat o16 < unat count"
    using registry_sorted_total [OF assms] .
  obtain n where "registry_name (pr_view r) (of_nat (unat o16)) = Some n"
    using registry_name_total [OF assms(1) o(2)] .
  moreover have "of_nat (unat o16) = (ucast o16 :: u32)"
    by (simp add: word_unat_eq_iff unat_u16_less [THEN less_trans])
  ultimately show ?thesis using o that by (simp add: rank_name_def)
qed

lemma sorted_order_from_sorted:
  assumes "sorted_order_from v prev ks = Inr u"
  shows "sorted (map (\<lambda>k. the (rank_name v k)) ks) \<and>
    (\<forall>p k. prev = Some p \<longrightarrow> k \<in> set ks \<longrightarrow> p \<le> the (rank_name v k))"
  using assms
proof (induction ks arbitrary: prev)
  case Nil
  then show ?case by simp
next
  case (Cons k ks)
  from Cons.prems obtain o16 n where
    "registry_sorted_ordinal v (of_nat k) = Some o16" "registry_name v (ucast o16) = Some n"
    and p: "\<And>p. prev = Some p \<Longrightarrow> p \<le> n" and rest: "sorted_order_from v (Some n) ks = Inr u"
    by (auto simp: not_less split: if_splits option.splits)
  then have "the (rank_name v k) = n" by (simp add: rank_name_def)
  with Cons.IH [OF rest] p show ?case by (fastforce intro: order_trans)
qed

text \<open>Binary search over a sorted, total index.\<close>

lemma lookup_loop_correct:
  assumes total: "\<And>k. k < high \<Longrightarrow> \<exists>o16 n. registry_sorted_ordinal v (of_nat k) = Some o16 \<and>
      registry_name v (ucast o16) = Some n"
    and sorted: "\<And>i j. i \<le> j \<Longrightarrow> j < high \<Longrightarrow> the (rank_name v i) \<le> the (rank_name v j)"
  shows "case lookup_loop v name low high of
      None \<Rightarrow> (\<forall>k. low \<le> k \<and> k < high \<longrightarrow> rank_name v k \<noteq> Some name)
    | Some w \<Rightarrow> registry_name v w = Some name \<and>
        (\<exists>k o16. low \<le> k \<and> k < high \<and> registry_sorted_ordinal v (of_nat k) = Some o16 \<and> w = ucast o16)"
  using assms
proof (induction v name low high rule: lookup_loop.induct)
  case (1 v name low high)
  show ?case
  proof (cases "low < high")
    case False
    then show ?thesis by (auto simp: lookup_loop.simps)
  next
    case True
    define mid where "mid = low + (high - low) div 2"
    have mid: "low \<le> mid" "mid < high" using True by (auto simp: mid_def)
    from "1.prems"(1) [OF mid(2)] obtain o16 n where
      o: "registry_sorted_ordinal v (of_nat mid) = Some o16" "registry_name v (ucast o16) = Some n" by blast
    then have rn: "rank_name v mid = Some n" by (simp add: rank_name_def)
    have unf: "lookup_loop v name low high =
      (if name = n then Some (ucast o16) else if name < n then lookup_loop v name low mid
       else lookup_loop v name (mid + 1) high)"
      using True o by (subst lookup_loop.simps) (simp add: mid_def Let_def)
    note IH1 = "1.IH"(1) [OF True mid_def o] and IH2 = "1.IH"(2) [OF True mid_def o]
    consider "name = n" | "name < n" | "n < name" by (rule linorder_cases)
    then show ?thesis
    proof cases
      case 1
      with unf o mid show ?thesis by auto
    next
      case 2
      have low: "case lookup_loop v name low mid of
          None \<Rightarrow> (\<forall>k. low \<le> k \<and> k < mid \<longrightarrow> rank_name v k \<noteq> Some name)
        | Some w \<Rightarrow> registry_name v w = Some name \<and>
            (\<exists>k o16. low \<le> k \<and> k < mid \<and> registry_sorted_ordinal v (of_nat k) = Some o16 \<and> w = ucast o16)"
        using IH1 2 "1.prems" mid(2) by (simp add: less_imp_neq)
      have "rank_name v k \<noteq> Some name" if "mid \<le> k" "k < high" for k
        using "1.prems"(2) [OF that] rn 2 by (metis leD option.sel)
      then have out: "rank_name v k = Some name \<Longrightarrow> k < high \<Longrightarrow> k < mid" for k by (meson not_less)
      have "lookup_loop v name low high = lookup_loop v name low mid" using unf 2 less_imp_neq [OF 2] by simp
      with low out mid show ?thesis by (auto split: option.splits)
    next
      case 3
      have high: "case lookup_loop v name (mid + 1) high of
          None \<Rightarrow> (\<forall>k. mid + 1 \<le> k \<and> k < high \<longrightarrow> rank_name v k \<noteq> Some name)
        | Some w \<Rightarrow> registry_name v w = Some name \<and>
            (\<exists>k o16. mid + 1 \<le> k \<and> k < high \<and> registry_sorted_ordinal v (of_nat k) = Some o16 \<and> w = ucast o16)"
        using IH2 3 "1.prems" by (simp add: less_imp_neq not_less_iff_gr_or_eq)
      have "rank_name v k \<noteq> Some name" if "k \<le> mid" for k
        using "1.prems"(2) [OF that mid(2)] rn 3 by (metis leD option.sel)
      then have out: "rank_name v k = Some name \<Longrightarrow> mid + 1 \<le> k" for k by (metis Suc_eq_plus1 not_less_eq_eq)
      have "lookup_loop v name low high = lookup_loop v name (mid + 1) high" using unf 3 by auto
      with high out mid show ?thesis by (auto split: option.splits) (metis Suc_leD le_trans)
    qed
  qed
qed

text \<open>The stages the sorted index lists.\<close>

definition listed :: "registry_view \<Rightarrow> u32 \<Rightarrow> bool" where
  "listed v w \<longleftrightarrow> (\<exists>k < unat (rg_count v). map_option ucast (registry_sorted_ordinal v (of_nat k)) = Some w)"

lemma registry_lookup_correct:
  assumes reg: "parse_registry body count = Inr (Some r)" and ord: "check_sorted_order (pr_view r) count = Inr ()"
  shows "case registry_lookup (pr_view r) name of
      None \<Rightarrow> (\<forall>w. listed (pr_view r) w \<longrightarrow> registry_name (pr_view r) w \<noteq> Some name)
    | Some w \<Rightarrow> listed (pr_view r) w \<and> registry_name (pr_view r) w = Some name"
proof -
  let ?v = "pr_view r"
  have "sorted (map (\<lambda>k. the (rank_name ?v k)) [0..<unat count])"
    using sorted_order_from_sorted [OF ord [unfolded check_sorted_order_def]] by blast
  then have "the (rank_name ?v i) \<le> the (rank_name ?v j)" if "i \<le> j" "j < unat count" for i j
    using that by (auto simp: sorted_iff_nth_mono)
  moreover have "\<exists>o16 n. registry_sorted_ordinal ?v (of_nat k) = Some o16 \<and> registry_name ?v (ucast o16) = Some n"
    if "k < unat count" for k
    using rank_name_total [OF reg that] by metis
  ultimately have "case lookup_loop ?v name 0 (unat count) of
      None \<Rightarrow> (\<forall>k. 0 \<le> k \<and> k < unat count \<longrightarrow> rank_name ?v k \<noteq> Some name)
    | Some w \<Rightarrow> registry_name ?v w = Some name \<and>
        (\<exists>k o16. 0 \<le> k \<and> k < unat count \<and> registry_sorted_ordinal ?v (of_nat k) = Some o16 \<and> w = ucast o16)"
    by (intro lookup_loop_correct)
  then show ?thesis
    by (auto simp: registry_lookup_def listed_def rank_name_def parse_registry_ok(3) [OF reg] split: option.splits)
qed

section \<open>Overlaps\<close>


lemma check_sections_disjoint_ok:
  "check_sections_disjoint ss = Inr u \<Longrightarrow> i < j \<Longrightarrow> j < length ss \<Longrightarrow> \<not> ranges_overlap (ss ! i) (ss ! j)"
proof (induction ss arbitrary: i j)
  case Nil
  then show ?case by simp
next
  case (Cons s ss)
  then obtain j' where j: "j = Suc j'" by (cases j) auto
  show ?case
  proof (cases i)
    case 0
    with Cons.prems j show ?thesis by (auto simp: list_ex_iff split: if_splits)
  next
    case (Suc i')
    with Cons j show ?thesis by (auto split: if_splits)
  qed
qed

section \<open>Properties\<close>

lemma validateD:
  assumes "validate bs = Inr ir"
  obtains cv body so eo reg cfg floor where "ir_bytes ir = bs" "ir_conductor ir = Inr cv"
    "parse_pieces body cv so eo reg cfg floor"
proof -
  from assms obtain root cv where "root_record bs = Inr root" "conductor_parse (rv_body root) = Inr cv"
    "ir = \<lparr>ir_bytes = bs\<rparr>"
    by (auto simp: validate_def split: if_splits)
  then show ?thesis using that conductor_parse_pieces by (metis ir_conductor_def kwokka_ir.select_convs(1) res_bind_simps(2))
qed

lemma length_map_filter_total:
  "(\<And>x. x \<in> set xs \<Longrightarrow> f x \<noteq> None) \<Longrightarrow> length (List.map_filter f xs) = length xs"
  by (induction xs) (auto simp: List.map_filter_simps split: option.splits)

lemma in_set_map_filter: "y \<in> set (List.map_filter f xs) \<longleftrightarrow> (\<exists>x \<in> set xs. f x = Some y)"
  by (induction xs) (auto simp: List.map_filter_simps split: option.splits)

lemma validate_lookup_listed:
  assumes "validate bs = Inr ir" "ir_conductor ir = Inr cv" "cv_registry cv = Some v"
  shows "case registry_lookup v name of
      None \<Rightarrow> (\<forall>w. listed v w \<longrightarrow> registry_name v w \<noteq> Some name)
    | Some w \<Rightarrow> listed v w \<and> registry_name v w = Some name"
proof -
  obtain body so eo reg cfg floor where P: "parse_pieces body cv so eo reg cfg floor"
    using validateD [OF assms(1)] assms(2) by (metis sum.inject(2))
  with assms(3) have "map_option pr_view reg = Some v" by (simp add: parse_pieces_def)
  then obtain r where r: "reg = Some r" "v = pr_view r" by auto
  with P have p: "parse_registry body (cv_stage_count cv) = Inr (Some r)"
    "check_sorted_order (pr_view r) (cv_stage_count cv) = Inr ()"
    by (simp_all add: parse_pieces_def)
  show ?thesis unfolding r(2) by (rule registry_lookup_correct [OF p])
qed

text \<open>
  C8. A blob that \<open>validate\<close> accepts has total accessors: \<open>conductor\<close> decodes it again, every
  stage ordinal below the count yields a stage whose policy accessors miss only where the
  slot is zero, and the edge and binding iterators yield as many items as the counts say,
  each naming a stage below the count.
\<close>

theorem validate_accessors_total:
  assumes "validate bs = Inr ir"
  shows "\<exists>cv. ir_conductor ir = Inr cv \<and>
    (\<forall>ordinal < cv_stage_count cv. \<exists>sv. conductor_stage cv ordinal = Some sv \<and>
       (stage_limiter sv = None \<longleftrightarrow> read_u32 (sv_entry sv) 0 = Inr 0) \<and>
       (stage_timeout sv = None \<longleftrightarrow> read_u32 (sv_entry sv) 4 = Inr 0) \<and>
       (stage_retry sv = None \<longleftrightarrow> read_u32 (sv_entry sv) 8 = Inr 0) \<and>
       (stage_breaker sv = None \<longleftrightarrow> read_u32 (sv_entry sv) 12 = Inr 0)) \<and>
    length (conductor_edges cv) = unat (cv_edge_count cv) \<and>
    (\<forall>e \<in> set (conductor_edges cv). ucast (ed_from e) < cv_stage_count cv \<and> ucast (ed_to e) < cv_stage_count cv) \<and>
    length (conductor_config_bindings cv) = unat (cv_config_count cv) \<and>
    (\<forall>b \<in> set (conductor_config_bindings cv). ucast (bi_node_ordinal b) < cv_stage_count cv)"
proof -
  obtain cv body so eo reg cfg floor where cv: "ir_conductor ir = Inr cv"
    and P: "parse_pieces body cv so eo reg cfg floor"
    using validateD [OF assms] by metis
  have E: "\<exists>e. conductor_edge cv (of_nat i) = Some e \<and> ucast (ed_from e) < cv_stage_count cv \<and>
      ucast (ed_to e) < cv_stage_count cv" if "i < unat (cv_edge_count cv)" for i
    using conductor_edge_ok [OF P that] by metis
  have B: "\<exists>b. conductor_config_binding cv (of_nat i) = Some b \<and> ucast (bi_node_ordinal b) < cv_stage_count cv"
    if "i < unat (cv_config_count cv)" for i
    using conductor_binding_ok [OF P that] by metis
  have "length (conductor_edges cv) = unat (cv_edge_count cv)"
    unfolding conductor_edges_def by (subst length_map_filter_total) (use E in force)+
  moreover have "length (conductor_config_bindings cv) = unat (cv_config_count cv)"
    unfolding conductor_config_bindings_def by (subst length_map_filter_total) (use B in force)+
  moreover have "\<forall>e \<in> set (conductor_edges cv). ucast (ed_from e) < cv_stage_count cv \<and> ucast (ed_to e) < cv_stage_count cv"
    using E by (fastforce simp: conductor_edges_def in_set_map_filter)
  moreover have "\<forall>b \<in> set (conductor_config_bindings cv). ucast (bi_node_ordinal b) < cv_stage_count cv"
    using B by (fastforce simp: conductor_config_bindings_def in_set_map_filter)
  moreover have "\<exists>sv. conductor_stage cv ordinal = Some sv \<and>
       (stage_limiter sv = None \<longleftrightarrow> read_u32 (sv_entry sv) 0 = Inr 0) \<and>
       (stage_timeout sv = None \<longleftrightarrow> read_u32 (sv_entry sv) 4 = Inr 0) \<and>
       (stage_retry sv = None \<longleftrightarrow> read_u32 (sv_entry sv) 8 = Inr 0) \<and>
       (stage_breaker sv = None \<longleftrightarrow> read_u32 (sv_entry sv) 12 = Inr 0)"
    if "ordinal < cv_stage_count cv" for ordinal
    by (intro exI conjI, rule conductor_stage_ok [OF P that])
      (rule stage_accessors_total [OF P that conductor_stage_ok [OF P that]])+
  ultimately show ?thesis using cv by blast
qed

text \<open>
  C9. The binary search of the registry is exact for the stages the sorted index lists: on an accepted
  blob an ordinal it returns is listed and carries the queried name, and it returns nothing exactly
  when no listed stage carries that name. So if the index lists every stage, it returns nothing
  exactly when no stage carries the name. Validation does not require the index to list every stage.
\<close>

theorem validate_lookup_exact:
  assumes "validate bs = Inr ir" "ir_conductor ir = Inr cv" "cv_registry cv = Some v"
  shows "(\<forall>w. registry_lookup v name = Some w \<longrightarrow> listed v w \<and> registry_name v w = Some name) \<and>
    (registry_lookup v name = None \<longleftrightarrow> (\<forall>w. listed v w \<longrightarrow> registry_name v w \<noteq> Some name)) \<and>
    ((\<forall>w < rg_count v. listed v w) \<longrightarrow>
      (registry_lookup v name = None \<longleftrightarrow> (\<forall>w < rg_count v. registry_name v w \<noteq> Some name)))"
proof -
  have L: "registry_lookup v name = Some w \<Longrightarrow> listed v w \<and> registry_name v w = Some name"
    "registry_lookup v name = None \<Longrightarrow> listed v w' \<Longrightarrow> registry_name v w' \<noteq> Some name" for w w'
    using validate_lookup_listed [OF assms, of name] by (auto split: option.splits)
  have "w < rg_count v" if "registry_name v w = Some name" for w
    using that by (auto simp: registry_name_def not_le [symmetric] split: if_splits)
  then show ?thesis using L by (metis option.exhaust)
qed


end
