(* ===== verification/Ir_Encoding.thy ===== *)
theory Ir_Encoding
  imports Ir_Writer Ir_Sound
begin

text \<open>
  A reference encoding of a conductor as one list of bytes, section after section, and the
  proof that the serialization passes of \<open>flat/writer.rs\<close>, with their interleaved writes to
  the tables and to the string heap, produce exactly it.
\<close>

section \<open>Occurrences of a byte string\<close>

definition occurs :: "bytes \<Rightarrow> nat \<Rightarrow> bytes \<Rightarrow> bool" where
  "occurs bs off ys \<longleftrightarrow> (\<exists>xs zs. bs = xs @ ys @ zs \<and> length xs = off)"

lemma occursI: "bs = xs @ ys @ zs \<Longrightarrow> length xs = off \<Longrightarrow> occurs bs off ys"
  by (auto simp: occurs_def)

lemma occurs_trans:
  assumes "occurs bs off ys" "occurs ys off' zs"
  shows "occurs bs (off + off') zs"
proof -
  from assms obtain a b c d where "bs = a @ ys @ b" "length a = off" "ys = c @ zs @ d" "length c = off'"
    by (auto simp: occurs_def)
  then show ?thesis by (intro occursI [of _ "a @ c" _ "d @ b"]) simp_all
qed

lemma occurs_length: "occurs bs off ys \<Longrightarrow> off + length ys \<le> length bs"
  by (auto simp: occurs_def)

lemma occurs_take: "occurs bs off ys \<Longrightarrow> n = length ys \<Longrightarrow> take n (drop off bs) = ys"
  by (auto simp: occurs_def)

lemma occurs_get_range: "occurs bs off ys \<Longrightarrow> b = off + length ys \<Longrightarrow> get_range bs off b = Some ys"
  by (auto simp: occurs_def get_range_def)

lemma occurs_concat:
  assumes "i < length xss"
  shows "occurs (concat xss) (sum_list (map length (take i xss))) (xss ! i)"
proof (rule occursI)
  show "concat xss = concat (take i xss) @ xss ! i @ concat (drop (Suc i) xss)"
    using assms by (metis concat.simps(2) concat_append id_take_nth_drop)
qed (simp add: length_concat)

lemma occurs_concat_map:
  assumes "i < length xs" "\<And>x. x \<in> set xs \<Longrightarrow> length (f x) = n"
  shows "occurs (concat (map f xs)) (i * n) (f (xs ! i))"
proof -
  have "\<forall>x \<in> set (take i xs). length (f x) = n" using assms(2) by (auto dest: in_set_takeD)
  then have "map (length \<circ> f) (take i xs) = replicate (length (take i xs)) n"
    by (intro replicate_eqI) auto
  then have "sum_list (map length (take i (map f xs))) = i * n"
    using assms(1) by (simp add: take_map [symmetric] sum_list_replicate)
  with occurs_concat [of i "map f xs"] assms(1) show ?thesis by simp
qed

lemma read_u16_occurs:
  "occurs bs off (le_bytes 2 w) \<Longrightarrow> length bs < usize_bound \<Longrightarrow> read_u16 bs off = Inr w"
  using occurs_length [of bs off "le_bytes 2 w"] by (simp add: read_u16_eq occurs_take)

lemma read_u32_occurs:
  "occurs bs off (le_bytes 4 w) \<Longrightarrow> length bs < usize_bound \<Longrightarrow> read_u32 bs off = Inr w"
  using occurs_length [of bs off "le_bytes 4 w"] by (simp add: read_u32_eq occurs_take)

lemma read_u64_occurs:
  "occurs bs off (le_bytes 8 w) \<Longrightarrow> length bs < usize_bound \<Longrightarrow> read_u64 bs off = Inr w"
  using occurs_length [of bs off "le_bytes 8 w"] by (simp add: read_u64_eq occurs_take)

section \<open>Patching a buffer\<close>

definition patch :: "bytes \<Rightarrow> nat \<Rightarrow> bytes \<Rightarrow> bytes" where
  "patch buf off bs = take off buf @ bs @ drop (off + length bs) buf"

lemma put_slice_patch: "off + length bs \<le> length buf \<Longrightarrow> put_slice buf off bs = Ret (patch buf off bs)"
  by (simp add: put_slice_def patch_def)

lemma length_patch [simp]: "off + length bs \<le> length buf \<Longrightarrow> length (patch buf off bs) = length buf"
  by (simp add: patch_def)

lemma patch_nil [simp]: "patch buf off [] = buf"
  by (simp add: patch_def)

lemma patch_append:
  "off + length xs + length ys \<le> length buf \<Longrightarrow>
   patch (patch buf off xs) (off + length xs) ys = patch buf off (xs @ ys)"
  by (simp add: patch_def ac_simps)

lemma patch_commute:
  assumes "off1 + length xs \<le> off2" "off2 + length ys \<le> length buf"
  shows "patch (patch buf off2 ys) off1 xs = patch (patch buf off1 xs) off2 ys"
  using put_slice_commute [OF assms(1), of buf ys] assms by (simp add: put_slice_patch)

lemma put_u8_patch: "off < length buf \<Longrightarrow> put_u8 buf off v = Ret (patch buf off [v])"
  by (simp add: put_u8_def patch_def upd_conv_take_nth_drop)

lemmas put_patch = put_slice_patch put_u8_patch put_u16_def put_u32_def put_u64_def put_offset_def

section \<open>The encoding\<close>

definition enc_limiter :: "limiter_view \<Rightarrow> bytes" where
  "enc_limiter v = le_bytes 4 (lim_capacity v) @ le_bytes 4 (lim_refill_tokens v) @
     le_bytes 8 (lim_refill_period_ns v)"

definition enc_timeout :: "timeout_view \<Rightarrow> bytes" where
  "enc_timeout v = le_bytes 8 (to_duration_ns v)"

definition enc_retry :: "retry_view \<Rightarrow> bytes" where
  "enc_retry v = le_bytes 4 (re_max_attempts v) @ [re_backoff_kind v] @ [re_jitter_kind v] @
     le_bytes 2 (0 :: u16) @ le_bytes 8 (re_base_delay_ns v) @ le_bytes 8 (re_max_delay_ns v)"

definition enc_breaker :: "breaker_view \<Rightarrow> bytes" where
  "enc_breaker v = [br_window_kind v] @ [br_failure_rate_percent v] @ le_bytes 2 (0 :: u16) @
     le_bytes 4 (br_minimum_calls v) @ le_bytes 8 (br_window_span v) @
     le_bytes 4 (br_half_open_max_calls v) @ le_bytes 4 (br_half_open_success_threshold v) @
     le_bytes 8 (br_open_duration_ns v)"

definition enc_record :: "node_tag \<Rightarrow> bytes \<Rightarrow> bytes" where
  "enc_record tag body = le_bytes 2 (node_tag_u16 tag) @ le_bytes 2 (0 :: u16) @
     le_bytes 4 (sat_u32 (8 + length body)) @ body"

definition stage_records :: "stage_spec \<Rightarrow> bytes option list" where
  "stage_records st =
     [map_option (enc_record PolicyLimiter \<circ> enc_limiter) (ss_limiter st),
      map_option (enc_record PolicyTimeout \<circ> enc_timeout) (ss_timeout st),
      map_option (enc_record PolicyRetry \<circ> enc_retry) (ss_retry st),
      map_option (enc_record PolicyBreaker \<circ> enc_breaker) (ss_breaker st)]"

definition rec_bytes :: "bytes option \<Rightarrow> bytes" where
  "rec_bytes r = (case r of None \<Rightarrow> [] | Some b \<Rightarrow> b)"

definition enc_records :: "bytes option list \<Rightarrow> bytes" where
  "enc_records rs = concat (map rec_bytes rs)"

fun slot_offsets :: "nat \<Rightarrow> bytes option list \<Rightarrow> nat list" where
  "slot_offsets base [] = []"
| "slot_offsets base (None # rs) = 0 # slot_offsets base rs"
| "slot_offsets base (Some b # rs) = base # slot_offsets (base + length b) rs"

definition enc_slots :: "nat \<Rightarrow> bytes option list \<Rightarrow> bytes" where
  "enc_slots base rs = concat (map (\<lambda>off. le_bytes 4 (sat_u32 off)) (slot_offsets base rs))"

definition enc_edge :: "edge_view \<Rightarrow> bytes" where
  "enc_edge e = le_bytes 2 (ed_from e) @ le_bytes 2 (ed_to e) @ le_bytes 2 (ed_input e) @ le_bytes 2 (0 :: u16)"

fun enc_names :: "nat \<Rightarrow> bytes list \<Rightarrow> bytes" where
  "enc_names heap [] = []"
| "enc_names heap (n # ns) =
     le_bytes 4 (sat_u32 heap) @ le_bytes 4 (sat_u32 (length n)) @ enc_names (heap + length n) ns"

fun enc_bindings :: "nat \<Rightarrow> binding_spec list \<Rightarrow> bytes" where
  "enc_bindings heap [] = []"
| "enc_bindings heap (b # bs) =
     le_bytes 2 (bs_node_ordinal b) @ le_bytes 2 (bs_field_tag b) @ le_bytes 4 (sat_u32 (length (bs_key b))) @
     le_bytes 4 (sat_u32 heap) @ le_bytes 4 (0 :: u32) @ le_bytes 8 (ucast (sc_kind (bs_default b)) :: u64) @
     le_bytes 8 (sc_value (bs_default b)) @ enc_bindings (heap + length (bs_key b)) bs"

lemma length_enc_policy [simp]:
  "length (enc_limiter l) = 16" "length (enc_timeout t) = 8" "length (enc_retry r) = 24"
  "length (enc_breaker b) = 32" "length (enc_record tag body) = 8 + length body" "length (enc_edge e) = 8"
  by (simp_all add: enc_limiter_def enc_timeout_def enc_retry_def enc_breaker_def enc_record_def enc_edge_def)

lemma length_slot_offsets [simp]: "length (slot_offsets base rs) = length rs"
  by (induction base rs rule: slot_offsets.induct) simp_all

lemma length_concat_const: "(\<And>x. x \<in> set xs \<Longrightarrow> length (f x) = n) \<Longrightarrow> length (concat (map f xs)) = length xs * n"
  by (induction xs) auto

lemma length_enc_slots [simp]: "length (enc_slots base rs) = length rs * 4"
  unfolding enc_slots_def by (subst length_concat_const) auto

lemma length_enc_names [simp]: "length (enc_names heap ns) = length ns * 8"
  by (induction heap ns rule: enc_names.induct) simp_all

lemma length_enc_bindings [simp]: "length (enc_bindings heap bs) = length bs * 32"
  by (induction heap bs rule: enc_bindings.induct) simp_all

lemma length_stage_records [simp]: "length (stage_records st) = 4"
  by (simp add: stage_records_def)

lemma enc_records_simps [simp]:
  "enc_records [] = []" "enc_records (r # rs) = rec_bytes r @ enc_records rs"
  "enc_records (rs @ rs') = enc_records rs @ enc_records rs'"
  by (simp_all add: enc_records_def)

lemma rec_bytes_simps [simp]: "rec_bytes None = []" "rec_bytes (Some b) = b"
  by (simp_all add: rec_bytes_def)

lemma record_body_lens_records:
  "record_body_lens st = map (map_option (\<lambda>b. length b - 8)) (stage_records st)"
  by (simp add: record_body_lens_def stage_records_def option.map_comp o_def ir_consts)

section \<open>The passes write the encoding\<close>

lemma enc_slots_simps [simp]:
  "enc_slots base [] = []"
  "enc_slots base (None # rs) = le_bytes 4 (sat_u32 0) @ enc_slots base rs"
  "enc_slots base (Some b # rs) = le_bytes 4 (sat_u32 base) @ enc_slots (base + length b) rs"
  by (simp_all add: enc_slots_def)

lemma patch_next:
  "off' = off + length xs \<Longrightarrow> off + length xs + length ys \<le> length buf \<Longrightarrow>
   patch (patch buf off xs) off' ys = patch buf off (xs @ ys)"
  using patch_append by simp

lemma write_stage_slots_patch:
  assumes "\<And>b. Some b \<in> set rs \<Longrightarrow> 8 \<le> length b" "entry + slot * 4 + length rs * 4 \<le> length buf"
  shows "write_stage_slots buf entry slot (map (map_option (\<lambda>b. length b - 8)) rs) payload =
    Ret (patch buf (entry + slot * 4) (enc_slots payload rs), payload + length (enc_records rs))"
  using assms
proof (induction rs arbitrary: buf slot payload)
  case Nil
  then show ?case by simp
next
  case (Cons r rs)
  show ?case
  proof (cases r)
    case None
    let ?b = "patch buf (entry + slot * 4) (le_bytes 4 (sat_u32 0))"
    have "write_stage_slots ?b entry (slot + 1) (map (map_option (\<lambda>b. length b - 8)) rs) payload =
      Ret (patch ?b (entry + (slot + 1) * 4) (enc_slots payload rs), payload + length (enc_records rs))"
      using Cons.prems by (intro Cons.IH) auto
    with None Cons.prems(2) show ?thesis by (simp add: put_patch patch_next)
  next
    case (Some b)
    let ?b = "patch buf (entry + slot * 4) (le_bytes 4 (sat_u32 payload))"
    have "write_stage_slots ?b entry (slot + 1) (map (map_option (\<lambda>b. length b - 8)) rs) (payload + length b) =
      Ret (patch ?b (entry + (slot + 1) * 4) (enc_slots (payload + length b) rs), payload + length b + length (enc_records rs))"
      using Cons.prems by (intro Cons.IH) auto
    moreover have "8 \<le> length b" using Cons.prems(1) Some by simp
    ultimately show ?thesis using Some Cons.prems(2) by (simp add: put_patch patch_next ir_consts)
  qed
qed

lemma stage_records_len: "Some b \<in> set (stage_records st) \<Longrightarrow> 8 \<le> length b"
  by (auto simp: stage_records_def eq_commute [of "Some b"])

lemma enc_slots_append:
  "enc_slots base (rs @ rs') = enc_slots base rs @ enc_slots (base + length (enc_records rs)) rs'"
proof (induction rs arbitrary: base)
  case Nil
  then show ?case by simp
next
  case (Cons r rs)
  then show ?case by (cases r) (simp_all add: add.assoc)
qed

definition all_records :: "stage_spec list \<Rightarrow> bytes option list" where
  "all_records sts = concat (map stage_records sts)"

lemma all_records_simps [simp]:
  "all_records [] = []" "all_records (st # sts) = stage_records st @ all_records sts"
  by (simp_all add: all_records_def)

lemma length_all_records [simp]: "length (all_records sts) = 4 * length sts"
  by (induction sts) simp_all

lemma write_stage_entries_patch:
  assumes "tbl + i * 16 + length sts * 16 \<le> length buf"
  shows "write_stage_entries buf tbl i sts payload = Ret (patch buf (tbl + i * 16) (enc_slots payload (all_records sts)))"
  using assms
proof (induction sts arbitrary: buf i payload)
  case Nil
  then show ?case by simp
next
  case (Cons st sts)
  let ?b = "patch buf (tbl + i * 16) (enc_slots payload (stage_records st))"
  have 1: "write_stage_slots buf (tbl + i * STAGE_ENTRY_LEN) 0 (record_body_lens st) payload =
    Ret (?b, payload + length (enc_records (stage_records st)))"
    using write_stage_slots_patch [where rs = "stage_records st" and entry = "tbl + i * 16" and slot = 0
        and buf = buf and payload = payload] stage_records_len [of _ st] Cons.prems
    by (simp add: record_body_lens_records ir_consts)
  have 2: "write_stage_entries ?b tbl (i + 1) sts (payload + length (enc_records (stage_records st))) =
    Ret (patch ?b (tbl + (i + 1) * 16) (enc_slots (payload + length (enc_records (stage_records st))) (all_records sts)))"
    using Cons.prems by (intro Cons.IH) simp
  show ?case using Cons.prems
    by (simp add: 1 2 [simplified] enc_slots_append patch_next)
qed

lemma write_edge_entries_patch:
  assumes "tbl + j * 8 + length es * 8 \<le> length buf"
  shows "write_edge_entries buf tbl j es = Ret (patch buf (tbl + j * 8) (concat (map enc_edge es)))"
  using assms
proof (induction es arbitrary: buf j)
  case Nil
  then show ?case by simp
next
  case (Cons e es)
  let ?b = "patch buf (tbl + j * 8) (enc_edge e)"
  have "write_edge_entries ?b tbl (j + 1) es = Ret (patch ?b (tbl + (j + 1) * 8) (concat (map enc_edge es)))"
    using Cons.prems by (intro Cons.IH) simp
  moreover have "patch ?b (tbl + (j + 1) * 8) (concat (map enc_edge es)) =
    patch buf (tbl + j * 8) (concat (map enc_edge (e # es)))"
    using Cons.prems by (subst patch_next) (simp_all add: length_concat_const)
  ultimately show ?case using Cons.prems
    by (simp add: put_patch patch_next ir_consts Let_def enc_edge_def [of e])
qed

definition frame_bytes :: "node_tag \<Rightarrow> nat \<Rightarrow> bytes" where
  "frame_bytes tag n = le_bytes 2 (node_tag_u16 tag) @ le_bytes 2 (0 :: u16) @ le_bytes 4 (sat_u32 (8 + n))"

lemma length_frame_bytes [simp]: "length (frame_bytes tag n) = 8"
  by (simp add: frame_bytes_def)

lemma enc_record_frame: "enc_record tag body = frame_bytes tag (length body) @ body"
  by (simp add: enc_record_def frame_bytes_def)

lemma write_frame_patch:
  assumes "32 + payload \<le> length buf"
  shows "write_frame buf payload tag n = Ret (patch buf (24 + payload) (frame_bytes tag n), 32 + payload)"
  using assms
  by (simp add: write_frame_def put_patch patch_next ir_consts BODY_OFFSET_def Let_def frame_bytes_def)

lemma write_limiter_patch:
  assumes "24 + payload + length (rec_bytes (map_option (enc_record PolicyLimiter \<circ> enc_limiter) ov)) \<le> length buf"
  shows "write_limiter buf payload ov = Ret (patch buf (24 + payload) (rec_bytes (map_option (enc_record PolicyLimiter \<circ> enc_limiter) ov)), payload + length (rec_bytes (map_option (enc_record PolicyLimiter \<circ> enc_limiter) ov)))"
  using assms
  by (cases ov) (simp_all add: write_limiter_def write_frame_patch put_patch patch_next ir_consts
      enc_record_frame enc_limiter_def)

lemma write_timeout_patch:
  assumes "24 + payload + length (rec_bytes (map_option (enc_record PolicyTimeout \<circ> enc_timeout) ov)) \<le> length buf"
  shows "write_timeout buf payload ov = Ret (patch buf (24 + payload) (rec_bytes (map_option (enc_record PolicyTimeout \<circ> enc_timeout) ov)), payload + length (rec_bytes (map_option (enc_record PolicyTimeout \<circ> enc_timeout) ov)))"
  using assms
  by (cases ov) (simp_all add: write_timeout_def write_frame_patch put_patch patch_next ir_consts
      enc_record_frame enc_timeout_def)

lemma write_retry_patch:
  assumes "24 + payload + length (rec_bytes (map_option (enc_record PolicyRetry \<circ> enc_retry) ov)) \<le> length buf"
  shows "write_retry buf payload ov = Ret (patch buf (24 + payload) (rec_bytes (map_option (enc_record PolicyRetry \<circ> enc_retry) ov)), payload + length (rec_bytes (map_option (enc_record PolicyRetry \<circ> enc_retry) ov)))"
  using assms
  by (cases ov) (simp_all add: write_retry_def write_frame_patch put_patch patch_next ir_consts
      enc_record_frame enc_retry_def)

lemma write_breaker_patch:
  assumes "24 + payload + length (rec_bytes (map_option (enc_record PolicyBreaker \<circ> enc_breaker) ov)) \<le> length buf"
  shows "write_breaker buf payload ov = Ret (patch buf (24 + payload) (rec_bytes (map_option (enc_record PolicyBreaker \<circ> enc_breaker) ov)), payload + length (rec_bytes (map_option (enc_record PolicyBreaker \<circ> enc_breaker) ov)))"
  using assms
  by (cases ov) (simp_all add: write_breaker_def write_frame_patch put_patch patch_next ir_consts
      enc_record_frame enc_breaker_def)

lemmas write_policy_patch = write_limiter_patch write_timeout_patch write_retry_patch write_breaker_patch

lemma write_stage_policies_patch:
  assumes "24 + payload + length (enc_records (all_records sts)) \<le> length buf"
  shows "write_stage_policies buf payload sts = Ret (patch buf (24 + payload) (enc_records (all_records sts)))"
  using assms
proof (induction sts arbitrary: buf payload)
  case Nil
  then show ?case by simp
next
  case (Cons st sts)
  let ?es = "enc_records (stage_records st)"
  let ?b = "patch buf (24 + payload) ?es"
  have "write_stage_policies ?b (payload + length ?es) sts =
    Ret (patch ?b (24 + (payload + length ?es)) (enc_records (all_records sts)))"
    using Cons.prems by (intro Cons.IH) simp
  moreover have "write_stage_policies buf payload (st # sts) = write_stage_policies ?b (payload + length ?es) sts"
    using Cons.prems by (simp add: write_policy_patch patch_next stage_records_def add.assoc)
  ultimately show ?case using Cons.prems by (simp add: patch_next)
qed

text \<open>The two interleaved write streams: table entries and heap strings.\<close>

lemma patch_interleave:
  assumes "t + length xs + length ys \<le> h" "h + length us + length vs \<le> length buf"
  shows "patch (patch (patch (patch buf t xs) h us) (t + length xs) ys) (h + length us) vs =
    patch (patch buf t (xs @ ys)) h (us @ vs)"
proof -
  have "patch (patch (patch buf t xs) h us) (t + length xs) ys = patch (patch (patch buf t xs) (t + length xs) ys) h us"
    using assms by (intro patch_commute) simp_all
  also have "\<dots> = patch (patch buf t (xs @ ys)) h us" using assms by (simp add: patch_append)
  finally show ?thesis using assms by (simp add: patch_append)
qed

lemma write_names_patch:
  assumes "tbl + i * 8 + length ns * 8 \<le> 24 + heap" "24 + heap + length (concat ns) \<le> length buf"
  shows "write_names buf tbl i ns heap =
    Ret (patch (patch buf (tbl + i * 8) (enc_names heap ns)) (24 + heap) (concat ns), heap + length (concat ns))"
  using assms
proof (induction ns arbitrary: buf i heap)
  case Nil
  then show ?case by simp
next
  case (Cons n ns)
  let ?e = "le_bytes 4 (sat_u32 heap) @ le_bytes 4 (sat_u32 (length n))"
  let ?b = "patch (patch buf (tbl + i * 8) ?e) (24 + heap) n"
  have "write_names ?b tbl (i + 1) ns (heap + length n) =
    Ret (patch (patch ?b (tbl + (i + 1) * 8) (enc_names (heap + length n) ns)) (24 + (heap + length n)) (concat ns),
      heap + length n + length (concat ns))"
    using Cons.prems by (intro Cons.IH) simp_all
  moreover have "write_names buf tbl i (n # ns) heap = write_names ?b tbl (i + 1) ns (heap + length n)"
    using Cons.prems
    by (simp add: put_patch patch_next ir_consts BODY_OFFSET_def Let_def write_bytes_def)
  moreover have "patch (patch ?b (tbl + (i + 1) * 8) (enc_names (heap + length n) ns)) (24 + (heap + length n)) (concat ns) =
    patch (patch buf (tbl + i * 8) (?e @ enc_names (heap + length n) ns)) (24 + heap) (n @ concat ns)"
    using patch_interleave [of "tbl + i * 8" ?e "enc_names (heap + length n) ns" "24 + heap" n "concat ns" buf] Cons.prems
    by (simp add: add.assoc add.commute [of 8 "i * 8"])
  ultimately show ?case by simp
qed

lemma write_sorted_patch:
  assumes "tbl + k * 2 + length ords * 2 \<le> length buf"
  shows "write_sorted buf tbl k ords = Ret (patch buf (tbl + k * 2) (concat (map (le_bytes 2) ords)))"
  using assms
proof (induction ords arbitrary: buf k)
  case Nil
  then show ?case by simp
next
  case (Cons w ords)
  let ?b = "patch buf (tbl + k * 2) (le_bytes 2 w)"
  have "write_sorted ?b tbl (k + 1) ords = Ret (patch ?b (tbl + (k + 1) * 2) (concat (map (le_bytes 2) ords)))"
    using Cons.prems by (intro Cons.IH) simp
  moreover have "patch ?b (tbl + (k + 1) * 2) (concat (map (le_bytes 2) ords)) =
    patch buf (tbl + k * 2) (concat (map (le_bytes 2) (w # ords)))"
    using Cons.prems by (subst patch_next) (simp_all add: length_concat_const)
  ultimately show ?case using Cons.prems by (simp add: put_patch ir_consts)
qed

definition enc_binding_entry :: "nat \<Rightarrow> binding_spec \<Rightarrow> bytes" where
  "enc_binding_entry heap b = le_bytes 2 (bs_node_ordinal b) @ le_bytes 2 (bs_field_tag b) @
     le_bytes 4 (sat_u32 (length (bs_key b))) @ le_bytes 4 (sat_u32 heap) @ le_bytes 4 (0 :: u32) @
     le_bytes 8 (ucast (sc_kind (bs_default b)) :: u64) @ le_bytes 8 (sc_value (bs_default b))"

lemma length_enc_binding_entry [simp]: "length (enc_binding_entry heap b) = 32"
  by (simp add: enc_binding_entry_def)

lemma enc_bindings_Cons: "enc_bindings heap (b # bs) = enc_binding_entry heap b @ enc_bindings (heap + length (bs_key b)) bs"
  by (simp add: enc_binding_entry_def)

lemma write_bindings_patch:
  assumes "entries + i * 32 + length bs * 32 \<le> 24 + heap" "24 + heap + length (concat (map bs_key bs)) \<le> length buf"
  shows "write_bindings buf entries i bs heap =
    Ret (patch (patch buf (entries + i * 32) (enc_bindings heap bs)) (24 + heap) (concat (map bs_key bs)),
      heap + length (concat (map bs_key bs)))"
  using assms
proof (induction bs arbitrary: buf i heap)
  case Nil
  then show ?case by simp
next
  case (Cons b bs)
  let ?e = "enc_binding_entry heap b" and ?h = "heap + length (bs_key b)" and ?ks = "concat (map bs_key bs)"
  let ?b = "patch (patch buf (entries + i * 32) ?e) (24 + heap) (bs_key b)"
  have "write_bindings ?b entries (i + 1) bs ?h =
    Ret (patch (patch ?b (entries + (i + 1) * 32) (enc_bindings ?h bs)) (24 + ?h) ?ks, ?h + length ?ks)"
    using Cons.prems by (intro Cons.IH) simp_all
  moreover have "write_bindings buf entries i (b # bs) heap = write_bindings ?b entries (i + 1) bs ?h"
    using Cons.prems
    by (simp add: put_patch patch_next ir_consts BODY_OFFSET_def Let_def write_bytes_def enc_binding_entry_def)
  moreover have "patch (patch ?b (entries + (i + 1) * 32) (enc_bindings ?h bs)) (24 + ?h) ?ks =
    patch (patch buf (entries + i * 32) (?e @ enc_bindings ?h bs)) (24 + heap) (bs_key b @ ?ks)"
    using patch_interleave [of "entries + i * 32" ?e "enc_bindings ?h bs" "24 + heap" "bs_key b" ?ks buf] Cons.prems
    by (simp add: add.assoc add.commute [of 32 "i * 32"])
  ultimately show ?case by (simp add: enc_bindings_Cons del: enc_bindings.simps)
qed

section \<open>The whole blob\<close>

definition up8 :: "nat \<Rightarrow> nat" where
  "up8 n = (n + 7) div 8 * 8"

lemma up8_props: "n \<le> up8 n" "up8 n < n + 8" "up8 n mod 8 = 0"
  by (simp_all add: up8_def)

definition l_edge :: "conductor_blob \<Rightarrow> nat" where
  "l_edge b = 24 + length (cb_stages b) * 16"

definition l_pol :: "conductor_blob \<Rightarrow> nat" where
  "l_pol b = l_edge b + length (cb_edges b) * 8"

definition l_reg :: "conductor_blob \<Rightarrow> nat" where
  "l_reg b = l_pol b + length (enc_records (all_records (cb_stages b)))"

definition reg_len :: "conductor_blob \<Rightarrow> nat" where
  "reg_len b = (if cb_registry b = None then 0 else up8 (length (cb_stages b) * 8 + length (cb_stages b) * 2))"

definition l_cfg :: "conductor_blob \<Rightarrow> nat" where
  "l_cfg b = l_reg b + reg_len b"

definition cfg_len :: "conductor_blob \<Rightarrow> nat" where
  "cfg_len b = (if cb_config b = [] then 0 else 8 + length (cb_config b) * 32)"

definition l_heap :: "conductor_blob \<Rightarrow> nat" where
  "l_heap b = l_cfg b + cfg_len b"

definition name_strings :: "conductor_blob \<Rightarrow> bytes" where
  "name_strings b = (case cb_registry b of None \<Rightarrow> [] | Some r \<Rightarrow> concat (rs_names r))"

definition key_strings :: "conductor_blob \<Rightarrow> bytes" where
  "key_strings b = concat (map bs_key (cb_config b))"

definition l_end :: "conductor_blob \<Rightarrow> nat" where
  "l_end b = l_heap b + length (name_strings b) + length (key_strings b)"

definition body_len :: "conductor_blob \<Rightarrow> nat" where
  "body_len b = up8 (l_end b)"

definition enc_registry :: "conductor_blob \<Rightarrow> bytes" where
  "enc_registry b = (case cb_registry b of None \<Rightarrow> []
     | Some r \<Rightarrow> enc_names (l_heap b) (rs_names r) @ concat (map (le_bytes 2) (rs_sorted r)))"

definition enc_config :: "conductor_blob \<Rightarrow> bytes" where
  "enc_config b = (if cb_config b = [] then []
     else le_bytes 4 (sat_u32 (length (cb_config b))) @ le_bytes 4 (0 :: u32) @
       enc_bindings (l_heap b + length (name_strings b)) (cb_config b))"

definition enc_cond_header :: "conductor_blob \<Rightarrow> bytes" where
  "enc_cond_header b = le_bytes 4 (of_nat (length (cb_stages b)) :: u32) @ le_bytes 4 (of_nat (length (cb_edges b)) :: u32) @
     le_bytes 4 (sat_u32 24) @ le_bytes 4 (sat_u32 (l_edge b)) @
     le_bytes 4 (sat_u32 (if cb_registry b = None then 0 else l_reg b)) @
     le_bytes 4 (sat_u32 (if cb_config b = [] then 0 else l_cfg b))"

definition enc_body :: "conductor_blob \<Rightarrow> bytes" where
  "enc_body b = enc_cond_header b @ enc_slots (l_pol b) (all_records (cb_stages b)) @
     concat (map enc_edge (cb_edges b)) @ enc_records (all_records (cb_stages b)) @
     enc_registry b @ replicate (reg_len b - length (enc_registry b)) 0 @ enc_config b @
     name_strings b @ key_strings b @ replicate (body_len b - l_end b) 0"

definition encode :: "conductor_blob \<Rightarrow> bytes" where
  "encode b = MAGIC @ le_bytes 2 VERSION @ le_bytes 2 (0 :: u16) @ le_bytes 4 (sat_u32 (24 + body_len b)) @
     le_bytes 4 (sat_u32 16) @ frame_bytes ConductorSpec (body_len b) @ enc_body b"

definition layout_of :: "conductor_blob \<Rightarrow> layout" where
  "layout_of b = \<lparr>ly_total = 24 + body_len b, ly_spec_record_len = 8 + body_len b,
     ly_stage_count = of_nat (length (cb_stages b)), ly_edge_count = of_nat (length (cb_edges b)),
     ly_edge_table_off = l_edge b, ly_policy_heap_off = l_pol b,
     ly_registry_off = (if cb_registry b = None then 0 else l_reg b),
     ly_config_off = (if cb_config b = [] then 0 else l_cfg b), ly_heap_off = l_heap b\<rparr>"

text \<open>The arity check: one name and one sorted entry per stage.\<close>

definition arity_ok :: "conductor_blob \<Rightarrow> bool" where
  "arity_ok b \<longleftrightarrow> (\<forall>r. cb_registry b = Some r \<longrightarrow>
     length (rs_names r) = length (cb_stages b) \<and> length (rs_sorted r) = length (cb_stages b))"

lemma checked_sum_eq: "checked_sum acc ns = Inr x \<Longrightarrow> x = acc + sum_list ns"
  by (induction acc ns rule: checked_sum.induct) auto

lemma sum_body_lens:
  assumes "\<And>b. Some b \<in> set rs \<Longrightarrow> 8 \<le> length b"
  shows "sum_list (map ((+) 8) (List.map_filter id (map (map_option (\<lambda>b. length b - 8)) rs))) = length (enc_records rs)"
  using assms
proof (induction rs)
  case Nil
  then show ?case by simp
next
  case (Cons r rs)
  have IH: "sum_list (map ((+) 8) (List.map_filter id (map (map_option (\<lambda>b. length b - 8)) rs))) = length (enc_records rs)"
    by (rule Cons.IH) (use Cons.prems in simp)
  show ?case
  proof (cases r)
    case None
    with IH show ?thesis by (simp add: List.map_filter_simps id_def)
  next
    case (Some b)
    with IH Cons.prems [of b] show ?thesis by (simp add: List.map_filter_simps id_def)
  qed
qed

lemma payload_len_eq: "payload_len st = Inr x \<Longrightarrow> x = length (enc_records (stage_records st))"
  using sum_body_lens [of "stage_records st"] stage_records_len [of _ st]
  by (auto simp: payload_len_def record_body_lens_records RECORD_HEADER_LEN_def dest!: checked_sum_eq)

lemma after_policies_eq: "after_policies acc sts = Inr x \<Longrightarrow> x = acc + length (enc_records (all_records sts))"
proof (induction acc sts rule: after_policies.induct)
  case (2 acc st sts)
  then obtain len where "payload_len st = Inr len" "after_policies (acc + len) sts = Inr x" "acc + len < usize_bound"
    by auto
  with "2.IH" [OF this(1), of "acc + len"] payload_len_eq [OF this(1)] show ?case by simp
qed simp

lemma align8_eq: "align8 n = Inr x \<Longrightarrow> x = up8 n"
  by (auto simp: align8_def up8_def)

lemma registry_len_eq: "registry_len n = Inr x \<Longrightarrow> x = up8 (n * 8 + n * 2)"
  by (auto simp: registry_len_def ir_consts dest!: align8_eq)

lemma string_heap_len_eq: "string_heap_len b = Inr x \<Longrightarrow> x = length (name_strings b) + length (key_strings b)"
  by (auto simp: string_heap_len_def name_strings_def key_strings_def length_concat dest!: checked_sum_eq split: option.splits)

lemma layout_compute_eq:
  assumes "layout_compute b = Inr ly"
  shows "ly = layout_of b" "24 + body_len b < 2 ^ 32" "arity_ok b"
    "length (cb_stages b) < 2 ^ 32" "length (cb_edges b) < 2 ^ 32"
proof -
  from assms obtain sc ec u ap ro ar co ho hl bl tw where *:
    "try_u32 (length (cb_stages b)) = Inr sc" "try_u32 (length (cb_edges b)) = Inr ec"
    "validate_registry_arity b = Inr u"
    "after_policies (24 + length (cb_stages b) * 16 + length (cb_edges b) * 8) (cb_stages b) = Inr ap"
    "(if cb_registry b \<noteq> None
       then res_bind (registry_len (length (cb_stages b))) (\<lambda>len.
            res_bind (ok_or (checked_add ap len) SpecTooLarge) (\<lambda>end. Inr (ap, end)))
       else Inr (0, ap)) = Inr (ro, ar)"
    "(if cb_config b = [] then Inr (0, ar)
       else res_bind (ok_or (checked_mul (length (cb_config b)) 32) SpecTooLarge) (\<lambda>entries_len.
            res_bind (ok_or (checked_add 8 entries_len) SpecTooLarge) (\<lambda>len.
            res_bind (ok_or (checked_add ar len) SpecTooLarge) (\<lambda>end. Inr (ar, end))))) = Inr (co, ho)"
    "string_heap_len b = Inr hl" "align8 (ho + hl) = Inr bl" "try_u32 (16 + (8 + bl)) = Inr tw"
    "ly = \<lparr>ly_total = 16 + (8 + bl), ly_spec_record_len = 8 + bl,
      ly_stage_count = sc, ly_edge_count = ec, ly_edge_table_off = 24 + length (cb_stages b) * 16,
      ly_policy_heap_off = 24 + length (cb_stages b) * 16 + length (cb_edges b) * 8,
      ly_registry_off = ro, ly_config_off = co, ly_heap_off = ho\<rparr>"
    unfolding layout_compute_def ir_consts
    by (elim res_bind_prodE res_bindE) (simp only: ok_or_eq_Inr checked_add_eq_Some checked_mul_eq_Some sum.inject)
  have 1: "ap = l_reg b" using after_policies_eq [OF *(4)] by (simp add: l_reg_def l_pol_def l_edge_def)
  have 2: "ro = (if cb_registry b = None then 0 else l_reg b)" "ar = l_cfg b"
    using *(5) 1 by (auto simp: l_cfg_def reg_len_def dest!: registry_len_eq split: if_splits)
  have 3: "co = (if cb_config b = [] then 0 else l_cfg b)" "ho = l_heap b"
    using *(6) 2 by (auto simp: l_heap_def cfg_len_def ir_consts split: if_splits)
  have 4: "bl = body_len b"
    using string_heap_len_eq [OF *(7)] 3 align8_eq [OF *(8)] by (simp add: l_end_def body_len_def add.assoc)
  show "ly = layout_of b" "24 + body_len b < 2 ^ 32"
    using *(1,2,9,10) 2 3 4
    by (auto simp: layout_of_def l_edge_def l_pol_def try_u32_def split: if_splits)
  show "arity_ok b" using *(3) by (auto simp: arity_ok_def validate_registry_arity_def split: if_splits)
  show "length (cb_stages b) < 2 ^ 32" "length (cb_edges b) < 2 ^ 32"
    using *(1,2) by (auto simp: try_u32_def split: if_splits)
qed

lemma write_header_patch:
  assumes "48 \<le> length buf"
  shows "write_header buf (layout_of b) = Ret (patch buf 0 (MAGIC @ le_bytes 2 VERSION @ le_bytes 2 (0 :: u16) @
     le_bytes 4 (sat_u32 (24 + body_len b)) @ le_bytes 4 (sat_u32 16) @ frame_bytes ConductorSpec (body_len b) @
     enc_cond_header b))"
  using assms
  by (simp add: write_header_def put_patch patch_next ir_consts BODY_OFFSET_def layout_of_def frame_bytes_def
      enc_cond_header_def)

lemma length_enc_registry:
  assumes "arity_ok b"
  shows "length (enc_registry b) = (if cb_registry b = None then 0 else length (cb_stages b) * 10)"
  using assms
  by (auto simp: enc_registry_def arity_ok_def length_concat_const split: option.splits)

lemma length_enc_registry_le: "arity_ok b \<Longrightarrow> length (enc_registry b) \<le> reg_len b"
  using up8_props(1) [of "length (cb_stages b) * 8 + length (cb_stages b) * 2"]
  by (auto simp: length_enc_registry reg_len_def)

lemma length_enc_config: "length (enc_config b) = cfg_len b"
  by (simp add: enc_config_def cfg_len_def)

lemma length_enc_cond_header: "length (enc_cond_header b) = 24"
  by (simp add: enc_cond_header_def)

lemma length_edges: "length (concat (map enc_edge es)) = length es * 8"
  by (simp add: length_concat_const)

lemma l_end_le: "l_end b \<le> body_len b"
  by (simp add: body_len_def up8_props)

lemma length_enc_body: "arity_ok b \<Longrightarrow> length (enc_body b) = body_len b"
  using length_enc_registry_le [of b] l_end_le [of b]
  by (simp add: enc_body_def length_enc_config length_enc_cond_header length_edges l_end_def l_heap_def
      l_cfg_def l_reg_def l_pol_def l_edge_def)

text \<open>Patching the four regions of a zeroed buffer lays the sections out one after another.\<close>

lemma patch_regions:
  assumes "length A \<le> c" "c + length C \<le> h" "h + length H \<le> n"
  shows "patch (patch (patch (replicate n 0 @ rest) 0 A) c C) h H =
    A @ replicate (c - length A) 0 @ C @ replicate (h - c - length C) 0 @ H @ replicate (n - h - length H) 0 @ rest"
proof -
  obtain p q r where n: "n = length A + p + length C + q + length H + r" "p = c - length A" "q = h - c - length C"
    "r = n - h - length H"
    using assms by simp
  have "replicate n (0 :: u8) = replicate (length A) 0 @ replicate p 0 @ replicate (length C) 0 @ replicate q 0 @
    replicate (length H) 0 @ replicate r 0"
    by (simp add: n(1) replicate_add)
  moreover have "c = length A + p" "h = length A + p + length C + q" using n assms by simp_all
  ultimately show ?thesis by (simp add: patch_def n(2-4) [symmetric]) (use n(1) in simp)
qed

definition enc_front :: "conductor_blob \<Rightarrow> bytes" where
  "enc_front b = MAGIC @ le_bytes 2 VERSION @ le_bytes 2 (0 :: u16) @ le_bytes 4 (sat_u32 (24 + body_len b)) @
     le_bytes 4 (sat_u32 16) @ frame_bytes ConductorSpec (body_len b) @ enc_cond_header b @
     enc_slots (l_pol b) (all_records (cb_stages b)) @ concat (map enc_edge (cb_edges b)) @
     enc_records (all_records (cb_stages b))"

lemma length_enc_front: "length (enc_front b) = 24 + l_reg b"
  by (simp add: enc_front_def MAGIC_def length_enc_cond_header length_edges l_reg_def l_pol_def l_edge_def)

lemmas l_defs = l_end_def l_heap_def l_cfg_def l_reg_def l_pol_def l_edge_def

lemma write_front:
  assumes "24 + l_reg b \<le> length buf"
  shows "exec_bind (write_header buf (layout_of b)) (\<lambda>buf.
         exec_bind (write_stage_table buf (layout_of b) (cb_stages b)) (\<lambda>buf.
         exec_bind (write_edge_table buf (layout_of b) (cb_edges b)) (\<lambda>buf.
         write_policy_records buf (layout_of b) (cb_stages b)))) = Ret (patch buf 0 (enc_front b))"
proof -
  let ?h = "MAGIC @ le_bytes 2 VERSION @ le_bytes 2 (0 :: u16) @ le_bytes 4 (sat_u32 (24 + body_len b)) @
     le_bytes 4 (sat_u32 16) @ frame_bytes ConductorSpec (body_len b) @ enc_cond_header b"
  let ?s = "enc_slots (l_pol b) (all_records (cb_stages b))" and ?e = "concat (map enc_edge (cb_edges b))"
    and ?p = "enc_records (all_records (cb_stages b))"
  have lens: "length ?h = 48" "length ?s = length (cb_stages b) * 16" "length ?e = length (cb_edges b) * 8"
    by (simp_all add: MAGIC_def length_enc_cond_header length_edges)
  have L: "l_reg b = 24 + length ?s + length ?e + length ?p" using lens by (simp add: l_defs)
  have "write_header buf (layout_of b) = Ret (patch buf 0 ?h)"
    using assms L by (intro write_header_patch) simp
  moreover have "write_stage_table (patch buf 0 ?h) (layout_of b) (cb_stages b) = Ret (patch (patch buf 0 ?h) 48 ?s)"
    using assms L lens write_stage_entries_patch [of 48 0 "cb_stages b" "patch buf 0 ?h" "l_pol b"]
    by (simp add: write_stage_table_def layout_of_def BODY_OFFSET_def ir_consts)
  moreover have "patch (patch buf 0 ?h) 48 ?s = patch buf 0 (?h @ ?s)"
    using assms L lens by (intro patch_next) simp_all
  moreover have "write_edge_table (patch buf 0 (?h @ ?s)) (layout_of b) (cb_edges b) =
    Ret (patch (patch buf 0 (?h @ ?s)) (24 + l_edge b) ?e)"
    using assms L lens write_edge_entries_patch [of "24 + l_edge b" 0 "cb_edges b" "patch buf 0 (?h @ ?s)"]
    by (simp add: write_edge_table_def layout_of_def BODY_OFFSET_def ir_consts l_edge_def)
  moreover have "patch (patch buf 0 (?h @ ?s)) (24 + l_edge b) ?e = patch buf 0 ((?h @ ?s) @ ?e)"
    using assms L lens by (intro patch_next) (simp_all add: l_edge_def)
  moreover have "write_policy_records (patch buf 0 ((?h @ ?s) @ ?e)) (layout_of b) (cb_stages b) =
    Ret (patch (patch buf 0 ((?h @ ?s) @ ?e)) (24 + l_pol b) ?p)"
    using assms L lens write_stage_policies_patch [of "l_pol b" "cb_stages b" "patch buf 0 ((?h @ ?s) @ ?e)"]
    by (simp add: write_policy_records_def layout_of_def l_pol_def l_edge_def)
  moreover have "patch (patch buf 0 ((?h @ ?s) @ ?e)) (24 + l_pol b) ?p = patch buf 0 (((?h @ ?s) @ ?e) @ ?p)"
    using assms L lens by (intro patch_next) (simp_all add: l_pol_def l_edge_def)
  moreover have "((?h @ ?s) @ ?e) @ ?p = enc_front b" by (simp add: enc_front_def)
  ultimately show ?thesis by (simp only: exec_bind.simps)
qed

lemma write_registry_step:
  assumes "arity_ok b" "length (cb_stages b) < 2 ^ 32" "24 + l_end b \<le> length buf"
  shows "(case cb_registry b of None \<Rightarrow> Ret (patch buf 0 (enc_front b), ly_heap_off (layout_of b))
      | Some registry \<Rightarrow> write_registry (patch buf 0 (enc_front b)) (layout_of b) registry (ly_heap_off (layout_of b))) =
    Ret (patch (patch buf 0 (enc_front b @ enc_registry b)) (24 + l_heap b) (name_strings b),
      l_heap b + length (name_strings b))"
proof (cases "cb_registry b")
  case None
  then show ?thesis by (simp add: layout_of_def enc_registry_def name_strings_def)
next
  case (Some r)
  let ?n = "length (cb_stages b)" and ?F = "patch buf 0 (enc_front b)"
  let ?N = "enc_names (l_heap b) (rs_names r)" and ?S = "concat (map (le_bytes 2) (rs_sorted r))"
    and ?C = "concat (rs_names r)"
  from Some assms(1) have ar: "length (rs_names r) = ?n" "length (rs_sorted r) = ?n" by (auto simp: arity_ok_def)
  have lens: "length ?N = ?n * 8" "length ?S = ?n * 2" "length ?C = length (name_strings b)"
    using ar Some by (simp_all add: length_concat_const name_strings_def)
  have fits: "24 + l_reg b + ?n * 10 \<le> 24 + l_heap b" "24 + l_heap b + length ?C \<le> length buf"
    "24 + l_reg b \<le> length buf"
    using length_enc_registry_le [OF assms(1)] length_enc_registry [OF assms(1)] Some assms(3) lens
    by (simp_all add: l_end_def l_heap_def l_cfg_def)
  have lF: "length ?F = length buf" using fits by (intro length_patch) (simp add: length_enc_front)
  have 1: "write_names ?F (24 + l_reg b) 0 (rs_names r) (l_heap b) =
    Ret (patch (patch ?F (24 + l_reg b) ?N) (24 + l_heap b) ?C, l_heap b + length ?C)"
    using fits lF ar write_names_patch [of "24 + l_reg b" 0 "rs_names r" "l_heap b" ?F] by simp
  have 2: "write_sorted (patch (patch ?F (24 + l_reg b) ?N) (24 + l_heap b) ?C) (24 + l_reg b + ?n * 8) 0 (rs_sorted r) =
    Ret (patch (patch (patch ?F (24 + l_reg b) ?N) (24 + l_heap b) ?C) (24 + l_reg b + ?n * 8) ?S)"
    using fits lF ar lens write_sorted_patch [of "24 + l_reg b + ?n * 8" 0 "rs_sorted r"] by simp
  have "patch (patch (patch ?F (24 + l_reg b) ?N) (24 + l_heap b) ?C) (24 + l_reg b + ?n * 8) ?S =
    patch (patch (patch ?F (24 + l_reg b) ?N) (24 + l_reg b + ?n * 8) ?S) (24 + l_heap b) ?C"
    using fits lF lens by (intro patch_commute) simp_all
  also have "patch (patch ?F (24 + l_reg b) ?N) (24 + l_reg b + ?n * 8) ?S = patch ?F (24 + l_reg b) (?N @ ?S)"
    using fits lF lens by (intro patch_next) simp_all
  also have "\<dots> = patch buf 0 (enc_front b @ enc_registry b)"
    using fits lens Some by (subst patch_next) (simp_all add: length_enc_front enc_registry_def)
  finally have 3: "patch (patch (patch ?F (24 + l_reg b) ?N) (24 + l_heap b) ?C) (24 + l_reg b + ?n * 8) ?S =
    patch (patch buf 0 (enc_front b @ enc_registry b)) (24 + l_heap b) ?C" .
  have 4: "write_registry ?F (layout_of b) r (ly_heap_off (layout_of b)) =
    exec_bind (write_names ?F (24 + l_reg b) 0 (rs_names r) (l_heap b)) (\<lambda>(buf, heap).
      exec_bind (write_sorted buf (24 + l_reg b + ?n * 8) 0 (rs_sorted r)) (\<lambda>buf. Ret (buf, heap)))"
    using Some assms(2) by (simp add: write_registry_def layout_of_def BODY_OFFSET_def ir_consts Let_def)
  have 5: "name_strings b = ?C" using Some by (simp add: name_strings_def)
  show ?thesis by (simp only: Some option.case 1 2 3 4 5 exec_bind.simps prod.case)
qed

lemma write_config_step:
  assumes "24 + l_end b \<le> length B"
  shows "(if cb_config b = [] then Ret (patch B (24 + l_heap b) (name_strings b), l_heap b + length (name_strings b))
      else write_config (patch B (24 + l_heap b) (name_strings b)) (layout_of b) (cb_config b)
        (l_heap b + length (name_strings b))) =
    Ret (patch (patch B (24 + l_cfg b) (enc_config b)) (24 + l_heap b) (name_strings b @ key_strings b),
      l_heap b + length (name_strings b) + length (key_strings b))"
proof (cases "cb_config b = []")
  case True
  then show ?thesis by (simp add: enc_config_def key_strings_def)
next
  case False
  let ?c = "24 + l_cfg b" and ?h = "24 + l_heap b" and ?N = "name_strings b" and ?K = "key_strings b"
  let ?hd = "le_bytes 4 (sat_u32 (length (cb_config b))) @ le_bytes 4 (0 :: u32)"
    and ?E = "enc_bindings (l_heap b + length ?N) (cb_config b)"
  let ?X = "patch B ?h ?N"
  have fits: "?c + 8 + length (cb_config b) * 32 = ?h" "?h + length ?N + length ?K \<le> length B"
    using False assms by (simp_all add: l_heap_def cfg_len_def l_end_def)
  have lX: "length ?X = length B" using fits by simp
  have 1: "patch ?X ?c ?hd = patch (patch B ?c ?hd) ?h ?N" using fits by (intro patch_commute) simp_all
  have "write_bindings (patch (patch B ?c ?hd) ?h ?N) (?c + 8) 0 (cb_config b) (l_heap b + length ?N) =
    Ret (patch (patch (patch (patch B ?c ?hd) ?h ?N) (?c + 8) ?E) (?h + length ?N) ?K,
      l_heap b + length ?N + length ?K)"
    using fits write_bindings_patch [of "?c + 8" 0 "cb_config b" "l_heap b + length ?N" "patch (patch B ?c ?hd) ?h ?N"]
    by (simp add: key_strings_def add.assoc)
  moreover have "patch (patch (patch (patch B ?c ?hd) ?h ?N) (?c + 8) ?E) (?h + length ?N) ?K =
    patch (patch B ?c (?hd @ ?E)) ?h (?N @ ?K)"
    using patch_interleave [of ?c ?hd ?E ?h ?N ?K B] fits by simp
  moreover have "enc_config b = ?hd @ ?E" using False by (simp add: enc_config_def)
  moreover have "write_config ?X (layout_of b) (cb_config b) (l_heap b + length ?N) =
    write_bindings (patch ?X ?c ?hd) (?c + 8) 0 (cb_config b) (l_heap b + length ?N)"
    using False fits lX
    by (simp add: write_config_def layout_of_def BODY_OFFSET_def ir_consts Let_def put_patch patch_next)
  ultimately show ?thesis using False 1 by simp
qed

lemma write_conductor_encode:
  assumes "layout_compute b = Inr ly" "ly_total ly \<le> length buf"
  shows "write_conductor buf b = Ret (Inr (ly_total ly), encode b @ drop (ly_total ly) buf)"
proof -
  note L = layout_compute_eq [OF assms(1)]
  have T: "ly_total ly = 24 + body_len b" using L(1) by (simp add: layout_of_def)
  let ?rest = "drop (ly_total ly) buf"
  define Z :: bytes where "Z = replicate (ly_total ly) 0 @ ?rest"
  have fits: "24 + l_end b \<le> length Z" "24 + l_reg b \<le> length Z"
    using l_end_le [of b] by (simp_all add: Z_def T l_end_def l_heap_def l_cfg_def)
  let ?B = "patch Z 0 (enc_front b @ enc_registry b)"
  have lB: "length (enc_front b @ enc_registry b) \<le> 24 + l_cfg b"
    using length_enc_registry_le [OF L(3)] by (simp add: length_enc_front l_cfg_def)
  then have "length ?B = length Z" using fits by (intro length_patch) (simp add: l_end_def l_heap_def)
  with fits have fB: "24 + l_end b \<le> length ?B" by simp
  obtain x1 x2 x3 where F: "write_header Z ly = Ret x1"
    "write_stage_table x1 ly (cb_stages b) = Ret x2" "write_edge_table x2 ly (cb_edges b) = Ret x3"
    "write_policy_records x3 ly (cb_stages b) = Ret (patch Z 0 (enc_front b))"
    using write_front [OF fits(2), folded L(1)] by auto
  note R = write_registry_step [OF L(3,4) fits(1), folded L(1)]
    and C = write_config_step [OF fB, folded L(1)]
  have "\<not> length buf < ly_total ly" using assms(2) by simp
  then have W: "write_conductor buf b = Ret (Inr (ly_total ly),
    patch (patch ?B (24 + l_cfg b) (enc_config b)) (24 + l_heap b) (name_strings b @ key_strings b))"
    unfolding write_conductor_def
    by (simp only: assms(1) sum.case if_False Z_def [symmetric] F R C exec_bind.simps prod.case)
  have "patch (patch ?B (24 + l_cfg b) (enc_config b)) (24 + l_heap b) (name_strings b @ key_strings b) =
    (enc_front b @ enc_registry b) @ replicate (24 + l_cfg b - length (enc_front b @ enc_registry b)) 0 @ enc_config b @
    replicate (24 + l_heap b - (24 + l_cfg b) - length (enc_config b)) 0 @ (name_strings b @ key_strings b) @
    replicate (24 + body_len b - (24 + l_heap b) - length (name_strings b @ key_strings b)) 0 @ ?rest"
    unfolding Z_def T using lB l_end_le [of b]
    by (intro patch_regions) (simp_all add: length_enc_config l_heap_def l_end_def add.assoc)
  also have "24 + l_cfg b - length (enc_front b @ enc_registry b) = reg_len b - length (enc_registry b)"
    by (simp add: length_enc_front l_cfg_def)
  also have "24 + l_heap b - (24 + l_cfg b) - length (enc_config b) = 0"
    by (simp add: length_enc_config l_heap_def)
  also have "24 + body_len b - (24 + l_heap b) - length (name_strings b @ key_strings b) = body_len b - l_end b"
    by (simp add: l_end_def)
  also have "(enc_front b @ enc_registry b) @ replicate (reg_len b - length (enc_registry b)) 0 @ enc_config b @
    replicate 0 0 @ (name_strings b @ key_strings b) @ replicate (body_len b - l_end b) 0 @ ?rest = encode b @ ?rest"
    by (simp add: encode_def enc_body_def enc_front_def)
  finally show ?thesis using W by simp
qed

end
