(* ===== verification/Ir_Roundtrip.thy ===== *)
theory Ir_Roundtrip
  imports Ir_Encoding
begin

text \<open>
  The round trip of \<open>kwokka-ir\<close>: a conductor whose ordinals are in range and whose registry
  index is sorted is serialized to bytes that \<open>validate\<close> accepts, and every accessor of the
  decoded view returns what was written.
\<close>

section \<open>Round trips of the leaves\<close>

lemma limiter_roundtrip: "limiter_parse (enc_limiter v) = Inr v"
  by (simp add: limiter_parse_def enc_limiter_def ir_consts read_u32_eq read_u64_eq usize_bound_def)

lemma timeout_roundtrip: "timeout_parse (enc_timeout v) = Inr v"
  by (simp add: timeout_parse_def enc_timeout_def ir_consts read_u64_eq usize_bound_def)

lemma retry_roundtrip: "retry_parse (enc_retry v) = Inr v"
  by (simp add: retry_parse_def enc_retry_def ir_consts read_u32_eq read_u64_eq read_u8_eq usize_bound_def nth_append)

lemma breaker_roundtrip: "breaker_parse (enc_breaker v) = Inr v"
  by (simp add: breaker_parse_def enc_breaker_def ir_consts read_u32_eq read_u64_eq read_u8_eq usize_bound_def nth_append)

lemma edge_roundtrip: "edge_parse (enc_edge e) = Some e"
proof -
  have "\<exists>a b. le_bytes 2 w = [a, b] \<and> le_word [a, b] = w" for w :: u16
  proof -
    have "le_word (le_bytes 2 w) = w" by simp
    then show ?thesis using ex_take_2 [of "le_bytes 2 w"] by (metis length_le_bytes)
  qed
  then obtain f0 f1 t0 t1 i0 i1 z0 z1 where
    "le_bytes 2 (ed_from e) = [f0, f1]" "le_word [f0, f1] = ed_from e"
    "le_bytes 2 (ed_to e) = [t0, t1]" "le_word [t0, t1] = ed_to e"
    "le_bytes 2 (ed_input e) = [i0, i1]" "le_word [i0, i1] = ed_input e"
    "le_bytes 2 (0 :: u16) = [z0, z1]"
    by metis
  then show ?thesis by (simp add: edge_parse_def enc_edge_def del: le_word.simps)
qed

lemma scalar_roundtrip:
  "scalar_parse (le_bytes 8 (ucast (sc_kind v) :: u64) @ le_bytes 8 (sc_value v)) = Inr v"
proof -
  have "ucast (ucast (sc_kind v) :: u64) = sc_kind v"
    by (rule bit_word_eqI) (simp add: bit_simps)
  then have "le_bytes 8 (ucast (sc_kind v) :: u64) ! 0 = sc_kind v"
    by (simp add: numeral_eq_Suc)
  then show ?thesis
    by (simp add: scalar_parse_def ir_consts read_u8_eq read_u64_eq usize_bound_def nth_append)
qed

text \<open>What a record of the policy heap decodes to.\<close>

lemma stage_records_kind:
  assumes "k < 4" "stage_records st ! k = Some r"
  obtains body where "r = enc_record (policy_node_tag (POLICY_ALL ! k)) body"
    "policy_validate_body (POLICY_ALL ! k) body = Inr ()" "length body mod 8 = 0" "length body \<le> 32"
proof -
  consider "k = 0" | "k = 1" | "k = 2" | "k = 3" using assms(1) by linarith
  then show ?thesis
    using assms(2) that
    by cases (auto simp: stage_records_def POLICY_ALL_def limiter_roundtrip timeout_roundtrip retry_roundtrip
        breaker_roundtrip)
qed

lemma unat_sat_u32: "n < 2 ^ 32 \<Longrightarrow> unat (sat_u32 n) = n"
  by (simp add: sat_u32_def)

lemma read_record_enc:
  assumes "occurs bs off (enc_record tag body)" "off mod 8 = 0" "length body mod 8 = 0" "length bs < 2 ^ 32"
  shows "read_record bs off = Inr \<lparr>rv_tag = tag, rv_body = body\<rparr>"
proof -
  have len: "off + 8 + length body \<le> length bs" using occurs_length [OF assms(1)] by simp
  have "occurs (enc_record tag body) 0 (le_bytes 2 (node_tag_u16 tag))"
    "occurs (enc_record tag body) 4 (le_bytes 4 (sat_u32 (8 + length body)))"
    "occurs (enc_record tag body) 8 body"
    by (rule occursI [of _ "[]"], simp add: enc_record_def, simp)
      (rule occursI [of _ "le_bytes 2 (node_tag_u16 tag) @ le_bytes 2 (0 :: u16)"], simp add: enc_record_def, simp,
       rule occursI [of _ "frame_bytes tag (length body)" _ "[]"], simp add: enc_record_frame, simp)
  note O = this [THEN occurs_trans [OF assms(1)]]
  have "unat (sat_u32 (8 + length body)) = 8 + length body" using len assms(4) by (intro unat_sat_u32) simp
  with O len assms show ?thesis
    by (simp add: read_record_eq occurs_take usize_bound_def)
qed

section \<open>Slots and records\<close>

lemma slot_offsets_nth:
  assumes "i < length rs"
  shows "slot_offsets base rs ! i = (if rs ! i = None then 0 else base + length (enc_records (take i rs)))"
  using assms
proof (induction base rs arbitrary: i rule: slot_offsets.induct)
  case (2 base rs)
  then show ?case by (cases i) simp_all
next
  case (3 base b rs)
  then show ?case by (cases i) (simp_all add: add.assoc)
qed simp

lemma occurs_slot:
  assumes "i < length rs"
  shows "occurs (enc_slots base rs) (i * 4) (le_bytes 4 (sat_u32 (slot_offsets base rs ! i)))"
  unfolding enc_slots_def
  using occurs_concat_map [of i "slot_offsets base rs" "\<lambda>off. le_bytes 4 (sat_u32 off)" 4] assms by simp

lemma occurs_record:
  assumes "i < length rs" "rs ! i = Some r"
  shows "occurs (enc_records rs) (length (enc_records (take i rs))) r"
proof (rule occursI)
  have "rs = take i rs @ Some r # drop (Suc i) rs" using assms by (metis id_take_nth_drop)
  then show "enc_records rs = enc_records (take i rs) @ r @ enc_records (drop (Suc i) rs)"
    by (metis enc_records_simps(2,3) rec_bytes_simps(2))
qed simp

lemma occurs_chunk:
  assumes "occurs t (j * n + f) ys" "f + length ys \<le> n"
  shows "occurs (chunk n t j) f ys"
proof -
  from assms(1) obtain xs zs where t: "t = xs @ ys @ zs" "length xs = j * n + f" by (auto simp: occurs_def)
  have "chunk n t j = drop (j * n) xs @ ys @ take (n - f - length ys) zs"
    using t assms(2) by (simp add: chunk_def)
  then show ?thesis using t(2) by (intro occursI) auto
qed

lemma all_records_nth:
  assumes "j < length sts" "k < 4"
  shows "all_records sts ! (4 * j + k) = stage_records (sts ! j) ! k"
  using assms
proof (induction sts arbitrary: j)
  case Nil
  then show ?case by simp
next
  case (Cons st sts)
  then show ?case by (cases j) (simp_all add: nth_append)
qed

lemma enc_records_mod: "(\<And>r. Some r \<in> set rs \<Longrightarrow> length r mod 8 = 0) \<Longrightarrow> length (enc_records rs) mod 8 = 0"
proof (induction rs)
  case Nil
  then show ?case by simp
next
  case (Cons r rs)
  have "length (enc_records rs) mod 8 = 0" by (rule Cons.IH) (use Cons.prems in simp)
  with Cons.prems show ?case by (cases r) (auto simp: mod_add_eq [symmetric] dvd_add)
qed

lemma all_records_mod: "Some r \<in> set (all_records sts) \<Longrightarrow> length r mod 8 = 0"
  by (auto simp: all_records_def stage_records_def eq_commute [of "Some r"])

lemma enc_records_take_mono:
  assumes "a < b" "rs ! a = Some r" "a < length rs"
  shows "length (enc_records (take a rs)) + length r \<le> length (enc_records (take b rs))"
proof -
  have "take b rs = take a rs @ Some r # take (b - Suc a) (drop (Suc a) rs)"
    using assms by (metis (no_types, lifting) Cons_nth_drop_Suc Suc_diff_Suc add_diff_inverse_nat less_imp_le_nat
        not_le take_Suc_Cons take_add)
  then show ?thesis by simp
qed

section \<open>The sections of an encoded body\<close>

definition blob_fits :: "conductor_blob \<Rightarrow> bool" where
  "blob_fits b \<longleftrightarrow> arity_ok b \<and> 24 + body_len b < 2 ^ 32 \<and>
     length (cb_stages b) < 2 ^ 32 \<and> length (cb_edges b) < 2 ^ 32"

lemma blob_fits_layout: "layout_compute b = Inr ly \<Longrightarrow> blob_fits b"
  using layout_compute_eq by (auto simp: blob_fits_def)

lemma fits_length:
  assumes "blob_fits b"
  shows "length (enc_body b) = body_len b" "length (enc_body b) < 2 ^ 32" "length (enc_body b) < usize_bound"
    "l_end b \<le> length (enc_body b)"
  using assms length_enc_body [of b] l_end_le [of b] by (auto simp: blob_fits_def usize_bound_def)

abbreviation slots_of :: "conductor_blob \<Rightarrow> bytes" where
  "slots_of b \<equiv> enc_slots (l_pol b) (all_records (cb_stages b))"

abbreviation edges_of :: "conductor_blob \<Rightarrow> bytes" where
  "edges_of b \<equiv> concat (map enc_edge (cb_edges b))"

abbreviation records_of :: "conductor_blob \<Rightarrow> bytes" where
  "records_of b \<equiv> enc_records (all_records (cb_stages b))"

lemma body_occurs:
  assumes "arity_ok b"
  shows "occurs (enc_body b) 0 (enc_cond_header b)" "occurs (enc_body b) 24 (slots_of b)"
    "occurs (enc_body b) (l_edge b) (edges_of b)" "occurs (enc_body b) (l_pol b) (records_of b)"
    "occurs (enc_body b) (l_reg b) (enc_registry b)" "occurs (enc_body b) (l_cfg b) (enc_config b)"
    "occurs (enc_body b) (l_heap b) (name_strings b)"
    "occurs (enc_body b) (l_heap b + length (name_strings b)) (key_strings b)"
proof -
  let ?H = "enc_cond_header b" and ?P = "replicate (reg_len b - length (enc_registry b)) 0 :: bytes"
  note L = length_enc_cond_header length_edges length_enc_config length_enc_registry_le [OF assms]
  show "occurs (enc_body b) 0 ?H" by (rule occursI [of _ "[]"]) (simp_all add: enc_body_def)
  show "occurs (enc_body b) 24 (slots_of b)" by (rule occursI [of _ ?H]) (simp_all add: enc_body_def L)
  show "occurs (enc_body b) (l_edge b) (edges_of b)"
    by (rule occursI [of _ "?H @ slots_of b"]) (simp_all add: enc_body_def L l_edge_def)
  show "occurs (enc_body b) (l_pol b) (records_of b)"
    by (rule occursI [of _ "?H @ slots_of b @ edges_of b"]) (simp_all add: enc_body_def L l_pol_def l_edge_def)
  show "occurs (enc_body b) (l_reg b) (enc_registry b)"
    by (rule occursI [of _ "?H @ slots_of b @ edges_of b @ records_of b"])
      (simp_all add: enc_body_def L l_reg_def l_pol_def l_edge_def)
  show "occurs (enc_body b) (l_cfg b) (enc_config b)"
    by (rule occursI [of _ "?H @ slots_of b @ edges_of b @ records_of b @ enc_registry b @ ?P"])
      (use L in \<open>simp_all add: enc_body_def l_defs\<close>)
  show "occurs (enc_body b) (l_heap b) (name_strings b)"
    by (rule occursI [of _ "?H @ slots_of b @ edges_of b @ records_of b @ enc_registry b @ ?P @ enc_config b"])
      (use L in \<open>simp_all add: enc_body_def l_defs\<close>)
  show "occurs (enc_body b) (l_heap b + length (name_strings b)) (key_strings b)"
    by (rule occursI [of _ "?H @ slots_of b @ edges_of b @ records_of b @ enc_registry b @ ?P @ enc_config b @ name_strings b"])
      (use L in \<open>simp_all add: enc_body_def l_defs\<close>)
qed

lemma header_fields:
  assumes "blob_fits b"
  shows "read_u32 (enc_body b) 0 = Inr (of_nat (length (cb_stages b)))"
    "read_u32 (enc_body b) 4 = Inr (of_nat (length (cb_edges b)))"
    "read_u32 (enc_body b) 8 = Inr (sat_u32 24)" "read_u32 (enc_body b) 12 = Inr (sat_u32 (l_edge b))"
    "read_u32 (enc_body b) 16 = Inr (sat_u32 (if cb_registry b = None then 0 else l_reg b))"
    "read_u32 (enc_body b) 20 = Inr (sat_u32 (if cb_config b = [] then 0 else l_cfg b))"
  using fits_length(3,4) [OF assms]
  by (simp_all add: read_u32_eq enc_body_def enc_cond_header_def usize_bound_def l_defs)

lemma offsets_small:
  assumes "blob_fits b"
  shows "l_edge b < 2 ^ 32" "l_pol b < 2 ^ 32" "l_reg b < 2 ^ 32" "l_cfg b < 2 ^ 32" "l_heap b < 2 ^ 32" "l_end b < 2 ^ 32"
  using fits_length(2,4) [OF assms] by (simp_all add: l_defs)

lemma slice_table_occurs:
  assumes "read_u32 body f = Inr w" "occurs body (unat w) t" "length t = unat count * n" "24 \<le> unat w"
    "length body < usize_bound"
  shows "slice_table body f count n = Inr (unat w, t)"
  using assms occurs_length [OF assms(2)] occurs_get_range [OF assms(2)]
  by (simp add: slice_table_def Let_def CONDUCTOR_HEADER_LEN_def checked_mul_def checked_add_def)

lemma tables_parse:
  assumes "blob_fits b"
  shows "slice_table (enc_body b) 8 (of_nat (length (cb_stages b))) 16 = Inr (24, slots_of b)"
    "slice_table (enc_body b) 12 (of_nat (length (cb_edges b))) 8 = Inr (l_edge b, edges_of b)"
proof -
  note F = fits_length [OF assms] and H = header_fields [OF assms] and O = offsets_small [OF assms]
  have ar: "arity_ok b" using assms by (simp add: blob_fits_def)
  have c: "length (cb_stages b) < 2 ^ 32" "length (cb_edges b) < 2 ^ 32" using assms by (simp_all add: blob_fits_def)
  show "slice_table (enc_body b) 8 (of_nat (length (cb_stages b))) 16 = Inr (24, slots_of b)"
    using slice_table_occurs [OF H(3), of "slots_of b"] body_occurs(2) [OF ar] F(3) c by (simp add: unat_sat_u32)
  show "slice_table (enc_body b) 12 (of_nat (length (cb_edges b))) 8 = Inr (l_edge b, edges_of b)"
    using slice_table_occurs [OF H(4), of "edges_of b"] body_occurs(3) [OF ar] F(3) c O(1)
    by (simp add: unat_sat_u32 length_edges l_edge_def)
qed

section \<open>Policy records of an encoded body\<close>

abbreviation recs_of :: "conductor_blob \<Rightarrow> bytes option list" where
  "recs_of b \<equiv> all_records (cb_stages b)"

definition rec_off :: "conductor_blob \<Rightarrow> nat \<Rightarrow> nat" where
  "rec_off b i = l_pol b + length (enc_records (take i (recs_of b)))"

definition rec_span :: "conductor_blob \<Rightarrow> nat \<Rightarrow> span option" where
  "rec_span b i = map_option (\<lambda>r. \<lparr>sp_offset = rec_off b i, sp_len = length r\<rparr>) (recs_of b ! i)"

lemma policy_slot_field_nth: "k < 4 \<Longrightarrow> policy_slot_field (POLICY_ALL ! k) = 4 * k"
  by (auto simp: POLICY_ALL_def less_Suc_eq numeral_eq_Suc)

lemma slot_read:
  assumes "j < length (cb_stages b)" "k < 4"
  shows "read_u32 (chunk 16 (slots_of b) j) (policy_slot_field (POLICY_ALL ! k)) =
    Inr (sat_u32 (slot_offsets (l_pol b) (recs_of b) ! (4 * j + k)))"
proof -
  let ?w = "sat_u32 (slot_offsets (l_pol b) (recs_of b) ! (4 * j + k))"
  have "4 * j + k < length (recs_of b)" using assms by simp
  then have "occurs (slots_of b) ((4 * j + k) * 4) (le_bytes 4 ?w)" by (rule occurs_slot)
  then have "occurs (slots_of b) (j * 16 + 4 * k) (le_bytes 4 ?w)" by (simp add: algebra_simps)
  then have "occurs (chunk 16 (slots_of b) j) (4 * k) (le_bytes 4 ?w)"
    using assms(2) by (intro occurs_chunk) simp_all
  moreover have "length (chunk 16 (slots_of b) j) = 16"
    using length_chunk [OF assms(1), of "slots_of b" 16] by simp
  ultimately show ?thesis
    by (simp add: read_u32_occurs policy_slot_field_nth [OF assms(2)] usize_bound_def)
qed

lemma rec_facts:
  assumes "blob_fits b" "i < length (recs_of b)" "recs_of b ! i = Some r"
  shows "occurs (enc_body b) (rec_off b i) r" "24 \<le> rec_off b i" "rec_off b i mod 8 = 0"
    "rec_off b i + length r \<le> l_reg b" "l_pol b \<le> rec_off b i"
proof -
  have ar: "arity_ok b" using assms(1) by (simp add: blob_fits_def)
  show "occurs (enc_body b) (rec_off b i) r"
    unfolding rec_off_def by (rule occurs_trans [OF body_occurs(4) [OF ar] occurs_record [OF assms(2,3)]])
  show "24 \<le> rec_off b i" by (simp add: rec_off_def l_pol_def l_edge_def)
  have "length (enc_records (take i (recs_of b))) mod 8 = 0"
    by (rule enc_records_mod) (auto dest: in_set_takeD all_records_mod)
  then show "rec_off b i mod 8 = 0"
    by (auto simp: rec_off_def l_pol_def l_edge_def)
  show "rec_off b i + length r \<le> l_reg b"
    using enc_records_take_mono [OF assms(2) assms(3,2)] by (simp add: rec_off_def l_reg_def)
  show "l_pol b \<le> rec_off b i" by (simp add: rec_off_def)
qed

lemma slot_value:
  assumes "blob_fits b" "i < length (recs_of b)"
  shows "unat (sat_u32 (slot_offsets (l_pol b) (recs_of b) ! i)) = (if recs_of b ! i = None then 0 else rec_off b i)"
proof (cases "recs_of b ! i")
  case None
  with assms show ?thesis by (simp add: slot_offsets_nth unat_sat_u32)
next
  case (Some r)
  have "rec_off b i < 2 ^ 32" using rec_facts(4) [OF assms Some] offsets_small(3) [OF assms(1)] by linarith
  with Some assms show ?thesis by (simp add: slot_offsets_nth unat_sat_u32 rec_off_def)
qed

lemma rec_kind:
  assumes "blob_fits b" "j < length (cb_stages b)" "k < 4" "recs_of b ! (4 * j + k) = Some r"
  obtains body where "read_record (enc_body b) (rec_off b (4 * j + k)) =
      Inr \<lparr>rv_tag = policy_node_tag (POLICY_ALL ! k), rv_body = body\<rparr>"
    "policy_validate_body (POLICY_ALL ! k) body = Inr ()" "length r = 8 + length body"
    "r = enc_record (policy_node_tag (POLICY_ALL ! k)) body"
proof -
  have i: "4 * j + k < length (recs_of b)" using assms(2,3) by simp
  have "stage_records (cb_stages b ! j) ! k = Some r" using all_records_nth [OF assms(2,3)] assms(4) by simp
  then obtain body where body: "r = enc_record (policy_node_tag (POLICY_ALL ! k)) body"
    "policy_validate_body (POLICY_ALL ! k) body = Inr ()" "length body mod 8 = 0"
    using stage_records_kind [OF assms(3)] by metis
  note R = rec_facts [OF assms(1) i assms(4)]
  have "read_record (enc_body b) (rec_off b (4 * j + k)) =
      Inr \<lparr>rv_tag = policy_node_tag (POLICY_ALL ! k), rv_body = body\<rparr>"
    using read_record_enc [OF R(1) [unfolded body(1)] R(3) body(3)] fits_length(2) [OF assms(1)] by simp
  with body show ?thesis using that by simp
qed

lemma record_span_enc:
  assumes "blob_fits b" "j < length (cb_stages b)" "k < 4"
  shows "record_span_at (enc_body b) (chunk 16 (slots_of b) j) (POLICY_ALL ! k) = Inr (rec_span b (4 * j + k))"
proof -
  have i: "4 * j + k < length (recs_of b)" using assms(2,3) by simp
  note S = slot_read [OF assms(2,3)] and V = slot_value [OF assms(1) i]
  show ?thesis
  proof (cases "recs_of b ! (4 * j + k)")
    case None
    with S V show ?thesis by (simp add: record_span_at_def rec_span_def)
  next
    case (Some r)
    obtain body where "read_record (enc_body b) (rec_off b (4 * j + k)) =
        Inr \<lparr>rv_tag = policy_node_tag (POLICY_ALL ! k), rv_body = body\<rparr>" "length r = 8 + length body"
      using rec_kind [OF assms Some] by metis
    moreover have "8 + length body < usize_bound"
      using rec_facts(4) [OF assms(1) i Some] offsets_small(3) [OF assms(1)] \<open>length r = _\<close>
      by (simp add: usize_bound_def)
    ultimately show ?thesis
      using S V Some rec_facts(2) [OF assms(1) i Some]
      by (simp add: record_span_at_def rec_span_def ir_consts checked_add_def)
  qed
qed

lemma nth_record_span_enc:
  assumes "blob_fits b" "i < 4 * length (cb_stages b)"
  shows "nth_record_span (enc_body b) (slots_of b) i = Inr (rec_span b i)"
proof -
  let ?j = "i div 4" and ?k = "i mod 4"
  have j: "?j < length (cb_stages b)" and k: "?k < 4" using assms(2) by auto
  have "length (slots_of b) = length (cb_stages b) * 16" by simp
  note G = get_range_chunk [OF j this] and T = stride_le [OF j, of 16]
  have "length (cb_stages b) * 16 < usize_bound"
    using offsets_small(1) [OF assms(1)] by (simp add: l_edge_def usize_bound_def)
  with T G record_span_enc [OF assms(1) j k] show ?thesis
    by (simp add: nth_record_span_def STAGE_ENTRY_LEN_def checked_mul_def checked_add_def
        POLICY_COUNT_def)
qed

section \<open>The passes accept an encoded body\<close>

text \<open>A span below or above the policy records overlaps none of them.\<close>

definition off_records :: "conductor_blob \<Rightarrow> span \<Rightarrow> bool" where
  "off_records b sp \<longleftrightarrow> sp_offset sp + sp_len sp \<le> l_pol b \<or> l_reg b \<le> sp_offset sp"

lemma rec_span_range:
  assumes "blob_fits b" "i < 4 * length (cb_stages b)" "rec_span b i = Some sp"
  shows "l_pol b \<le> sp_offset sp" "sp_offset sp + sp_len sp \<le> l_reg b"
  using assms rec_facts(4,5) [OF assms(1), of i] by (auto simp: rec_span_def)

lemma check_stage_policies_enc:
  assumes "blob_fits b" "\<forall>sp \<in> set sections. off_records b sp"
  shows "check_stage_policies (enc_body b) (slots_of b) sections = Inr ()"
proof -
  have "check_policy_slot (enc_body b) (chunk 16 (slots_of b) j) (POLICY_ALL ! k) sections = Inr ()"
    if j: "j < length (cb_stages b)" and k: "k < 4" for j k
  proof (cases "recs_of b ! (4 * j + k)")
    case None
    then show ?thesis
      using record_span_enc [OF assms(1) j k] by (simp add: check_policy_slot_def rec_span_def)
  next
    case (Some r)
    have i: "4 * j + k < 4 * length (cb_stages b)" using j k by simp
    obtain body where "read_record (enc_body b) (rec_off b (4 * j + k)) =
        Inr \<lparr>rv_tag = policy_node_tag (POLICY_ALL ! k), rv_body = body\<rparr>"
      "policy_validate_body (POLICY_ALL ! k) body = Inr ()"
      using rec_kind [OF assms(1) j k Some] by metis
    moreover have "\<not> overlaps_any \<lparr>sp_offset = rec_off b (4 * j + k), sp_len = length r\<rparr> sections"
      using rec_span_range [OF assms(1) i] assms(2) Some
      by (fastforce simp: overlaps_any_def list_ex_iff ranges_overlap_def off_records_def rec_span_def)
    ultimately show ?thesis
      using record_span_enc [OF assms(1) j k] Some by (simp add: check_policy_slot_def rec_span_def)
  qed
  then have "for_each (\<lambda>kind. check_policy_slot (enc_body b) (chunk 16 (slots_of b) j) kind sections) POLICY_ALL = Inr ()"
    if "j < length (cb_stages b)" for j
    unfolding for_each_ok using that
    by (simp add: all_set_conv_all_nth [of POLICY_ALL]) (simp add: POLICY_ALL_def)
  moreover have "length (slots_of b) < usize_bound"
    using offsets_small(1) [OF assms(1)] by (simp add: l_edge_def usize_bound_def)
  ultimately show ?thesis
    unfolding check_stage_policies_def STAGE_ENTRY_LEN_def
    by (subst scan_entries_ok [of _ "length (cb_stages b)"]) simp_all
qed

lemma rec_spans_disjoint:
  assumes "blob_fits b" "i < j" "j < 4 * length (cb_stages b)" "rec_span b i = Some s1" "rec_span b j = Some s2"
  shows "\<not> ranges_overlap s1 s2"
proof -
  from assms obtain r1 where "recs_of b ! i = Some r1" "s1 = \<lparr>sp_offset = rec_off b i, sp_len = length r1\<rparr>"
    "sp_offset s2 = rec_off b j" by (auto simp: rec_span_def)
  with enc_records_take_mono [OF assms(2), of "recs_of b" r1] assms(2,3) show ?thesis
    by (simp add: ranges_overlap_def rec_off_def)
qed

lemma slots_total:
  assumes "blob_fits b"
  shows "checked_mul (length (slots_of b) div STAGE_ENTRY_LEN) POLICY_COUNT = Some (4 * length (cb_stages b))"
  using offsets_small(1) [OF assms]
  by (simp add: STAGE_ENTRY_LEN_def POLICY_COUNT_def usize_bound_def l_edge_def)

lemma check_record_overlaps_enc:
  assumes "blob_fits b"
  shows "check_record_overlaps (enc_body b) (slots_of b) = Inr ()"
proof -
  let ?n = "4 * length (cb_stages b)"
  have "check_record_row (enc_body b) (slots_of b) ?n i = Inr ()" if i: "i < ?n" for i
  proof (cases "rec_span b i")
    case None
    then show ?thesis using nth_record_span_enc [OF assms i] by (simp add: check_record_row_def)
  next
    case (Some s1)
    have "check_record_pair (enc_body b) (slots_of b) s1 j = Inr ()" if j: "i < j" "j < ?n" for j
      using nth_record_span_enc [OF assms j(2)] rec_spans_disjoint [OF assms j Some]
      by (cases "rec_span b j") (simp_all add: check_record_pair_def)
    then have "for_each (check_record_pair (enc_body b) (slots_of b) s1) [i + 1..<?n] = Inr ()"
      unfolding for_each_ok by simp
    then show ?thesis using nth_record_span_enc [OF assms i] Some by (simp add: check_record_row_def)
  qed
  then have "for_each (check_record_row (enc_body b) (slots_of b) ?n) [0..<?n] = Inr ()"
    unfolding for_each_ok by simp
  then show ?thesis
    by (simp only: check_record_overlaps_def slots_total [OF assms] ok_or_simps res_bind_simps)
qed

lemma record_floor_le:
  assumes "\<And>n. n \<in> set ns \<Longrightarrow> \<exists>osp. nth_record_span body t n = Inr osp \<and>
      (\<forall>sp. osp = Some sp \<longrightarrow> sp_offset sp + sp_len sp \<le> h)" "acc \<le> h"
  shows "\<exists>f \<le> h. record_floor body t ns acc = Inr f"
  using assms
proof (induction ns arbitrary: acc)
  case Nil
  then show ?case by simp
next
  case (Cons n ns)
  from Cons.prems(1) [of n] obtain osp where o: "nth_record_span body t n = Inr osp"
    "\<And>sp. osp = Some sp \<Longrightarrow> sp_offset sp + sp_len sp \<le> h" by auto
  have "\<exists>f \<le> h. record_floor body t ns (case osp of None \<Rightarrow> acc | Some sp \<Rightarrow> max acc (sp_offset sp + sp_len sp)) = Inr f"
    using Cons.prems o by (intro Cons.IH) (auto split: option.splits)
  with o show ?case by (cases osp) simp_all
qed

lemma fold_max_le:
  assumes "\<forall>s \<in> set ss. sp_offset s + sp_len s \<le> h" "acc \<le> (h :: nat)"
  shows "fold (\<lambda>section acc. max acc (sp_offset section + sp_len section)) ss acc \<le> h"
  using assms by (induction ss arbitrary: acc) auto

lemma heap_floor_enc:
  assumes "blob_fits b" "\<forall>s \<in> set ss. sp_offset s + sp_len s \<le> l_heap b"
  obtains f where "heap_floor ss (enc_body b) (slots_of b) = Inr f" "f \<le> l_heap b"
proof -
  have "\<exists>f \<le> l_heap b. record_floor (enc_body b) (slots_of b) [0..<4 * length (cb_stages b)]
      (fold (\<lambda>section acc. max acc (sp_offset section + sp_len section)) ss 0) = Inr f"
  proof (rule record_floor_le)
    show "\<exists>osp. nth_record_span (enc_body b) (slots_of b) n = Inr osp \<and>
        (\<forall>sp. osp = Some sp \<longrightarrow> sp_offset sp + sp_len sp \<le> l_heap b)"
      if "n \<in> set [0..<4 * length (cb_stages b)]" for n
      using that nth_record_span_enc [OF assms(1), of n] rec_span_range(2) [OF assms(1), of n]
      by (fastforce simp: l_heap_def l_cfg_def)
    show "fold (\<lambda>section acc. max acc (sp_offset section + sp_len section)) ss 0 \<le> l_heap b"
      using assms(2) by (intro fold_max_le) auto
  qed
  then show ?thesis
    using that unfolding heap_floor_def Let_def slots_total [OF assms(1)] ok_or_simps res_bind_simps by blast
qed

lemma check_edge_ordinals_enc:
  assumes "blob_fits b" "\<forall>e \<in> set (cb_edges b). unat (ed_from e) < length (cb_stages b) \<and> unat (ed_to e) < length (cb_stages b)"
  shows "check_edge_ordinals (edges_of b) (of_nat (length (cb_stages b))) = Inr ()"
proof -
  have n: "length (cb_stages b) < 2 ^ 32" using assms(1) by (simp add: blob_fits_def)
  have lt: "length (edges_of b) < usize_bound"
    using offsets_small(2) [OF assms(1)] by (simp add: length_edges l_pol_def l_edge_def usize_bound_def)
  have "chunk 8 (edges_of b) j = enc_edge (cb_edges b ! j)" if "j < length (cb_edges b)" for j
    using occurs_concat_map [OF that, of enc_edge 8] occurs_take unfolding chunk_def
    by (metis length_enc_policy(6))
  moreover have "unat (ed_from (cb_edges b ! j)) < length (cb_stages b) \<and> unat (ed_to (cb_edges b ! j)) < length (cb_stages b)"
    if "j < length (cb_edges b)" for j
    using assms(2) that by simp
  ultimately show ?thesis
    unfolding check_edge_ordinals_def EDGE_LEN_def
    by (subst scan_entries_ok [of _ "length (cb_edges b)"])
      (use n lt in \<open>simp_all add: length_edges edge_roundtrip word_le_nat_alt\<close>, meson not_le)
qed

section \<open>Registry and bindings of an encoded body\<close>

lemma occurs_name_entry:
  assumes "i < length ns"
  shows "occurs (enc_names heap ns) (i * 8)
    (le_bytes 4 (sat_u32 (heap + length (concat (take i ns)))) @ le_bytes 4 (sat_u32 (length (ns ! i))))"
  using assms
proof (induction heap ns arbitrary: i rule: enc_names.induct)
  case (1 heap)
  then show ?case by simp
next
  case (2 heap n ns)
  show ?case
  proof (cases i)
    case 0
    then show ?thesis by (intro occursI [of _ "[]"]) simp_all
  next
    case (Suc k)
    let ?e = "le_bytes 4 (sat_u32 heap) @ le_bytes 4 (sat_u32 (length n))"
    have "occurs (enc_names heap (n # ns)) 8 (enc_names (heap + length n) ns)"
      by (intro occursI [of _ ?e _ "[]"]) simp_all
    from occurs_trans [OF this "2.IH" [of k]] "2.prems" Suc show ?thesis by (simp add: add.assoc)
  qed
qed

lemma occurs_name_string:
  assumes "i < length ns"
  shows "occurs (concat ns) (length (concat (take i ns))) (ns ! i)"
  using occurs_concat [OF assms] by (simp add: length_concat)

lemma le_bytes_word4:
  obtains a b c d where "le_bytes 4 (w :: u32) = [a, b, c, d]" "le_word [a, b, c, d] = w"
proof -
  have "le_word (le_bytes 4 w) = w" by simp
  moreover obtain a b c d where "le_bytes 4 w = [a, b, c, d]" using ex_take_4 [of "le_bytes 4 w"] by auto
  ultimately show ?thesis using that by metis
qed

lemma registry_name_occurs:
  assumes "occurs (rg_name_table v) (unat w * 8) (le_bytes 4 (sat_u32 off) @ le_bytes 4 (sat_u32 (length n)))"
    "occurs (rg_body v) off n" "w < rg_count v" "length (rg_body v) < 2 ^ 32" "length (rg_name_table v) < 2 ^ 32"
  shows "registry_name v w = Some n"
proof -
  obtain o0 o1 o2 o3 where o4: "le_bytes 4 (sat_u32 off) = [o0, o1, o2, o3]" "le_word [o0, o1, o2, o3] = sat_u32 off"
    by (rule le_bytes_word4)
  obtain l0 l1 l2 l3 where l4: "le_bytes 4 (sat_u32 (length n)) = [l0, l1, l2, l3]"
    "le_word [l0, l1, l2, l3] = sat_u32 (length n)"
    by (rule le_bytes_word4)
  have g: "get_range (rg_name_table v) (unat w * 8) (unat w * 8 + 8) = Some [o0, o1, o2, o3, l0, l1, l2, l3]"
    using occurs_get_range [OF assms(1), of "unat w * 8 + 8"] o4(1) l4(1) by simp
  have b: "off + length n < 2 ^ 32" "unat w * 8 + 8 < 2 ^ 32"
    using occurs_length [OF assms(2)] occurs_length [OF assms(1)] assms(4,5) by simp_all
  have "get_range (rg_body v) off (off + length n) = Some n" using occurs_get_range [OF assms(2)] by simp
  with g b o4(2) l4(2) assms(3) show ?thesis
    by (simp add: registry_name_def ir_consts Let_def unat_sat_u32 usize_bound_def checked_add_def checked_mul_def
        del: le_word.simps)
qed

definition reg_view :: "conductor_blob \<Rightarrow> registry_spec \<Rightarrow> registry_view" where
  "reg_view b r = \<lparr>rg_body = enc_body b, rg_name_table = enc_names (l_heap b) (rs_names r),
     rg_sorted_index = concat (map (le_bytes 2) (rs_sorted r)), rg_count = of_nat (length (cb_stages b))\<rparr>"

lemma reg_arity:
  assumes "blob_fits b" "cb_registry b = Some r"
  shows "length (rs_names r) = length (cb_stages b)" "length (rs_sorted r) = length (cb_stages b)"
    "length (cb_stages b) * 10 < 2 ^ 32" "name_strings b = concat (rs_names r)"
    "length (enc_registry b) = length (cb_stages b) * 10"
    "l_reg b + length (cb_stages b) * 10 \<le> l_cfg b"
proof -
  have ar: "arity_ok b" using assms(1) by (simp add: blob_fits_def)
  then show "length (rs_names r) = length (cb_stages b)" "length (rs_sorted r) = length (cb_stages b)"
    using assms(2) by (simp_all add: arity_ok_def)
  show e: "length (enc_registry b) = length (cb_stages b) * 10" using length_enc_registry [OF ar] assms(2) by simp
  then show l: "l_reg b + length (cb_stages b) * 10 \<le> l_cfg b"
    using length_enc_registry_le [OF ar] by (simp add: l_cfg_def)
  then show "length (cb_stages b) * 10 < 2 ^ 32" using offsets_small(4) [OF assms(1)] by linarith
  show "name_strings b = concat (rs_names r)" using assms(2) by (simp add: name_strings_def)
qed

lemma reg_name:
  assumes "blob_fits b" "cb_registry b = Some r" "i < length (cb_stages b)"
  shows "registry_name (reg_view b r) (of_nat i) = Some (rs_names r ! i)"
proof (rule registry_name_occurs)
  note A = reg_arity [OF assms(1,2)]
  have ar: "arity_ok b" using assms(1) by (simp add: blob_fits_def)
  have i: "i < length (rs_names r)" "unat (of_nat i :: u32) = i" using A assms(3) by simp_all
  show "occurs (rg_name_table (reg_view b r)) (unat (of_nat i :: u32) * 8)
     (le_bytes 4 (sat_u32 (l_heap b + length (concat (take i (rs_names r))))) @ le_bytes 4 (sat_u32 (length (rs_names r ! i))))"
    using occurs_name_entry [OF i(1), of "l_heap b"] i(2) by (simp add: reg_view_def)
  show "occurs (rg_body (reg_view b r)) (l_heap b + length (concat (take i (rs_names r)))) (rs_names r ! i)"
    using occurs_trans [OF body_occurs(7) [OF ar, unfolded A(4)] occurs_name_string [OF i(1)]]
    by (simp add: reg_view_def)
  show "of_nat i < rg_count (reg_view b r)"
    using assms(3) A(3) i(2) by (simp add: reg_view_def word_less_nat_alt)
  show "length (rg_body (reg_view b r)) < 2 ^ 32" using fits_length(2) [OF assms(1)] by (simp add: reg_view_def)
  show "length (rg_name_table (reg_view b r)) < 2 ^ 32" using A by (simp add: reg_view_def)
qed

lemma reg_sorted:
  assumes "blob_fits b" "cb_registry b = Some r" "k < length (cb_stages b)"
  shows "registry_sorted_ordinal (reg_view b r) (of_nat k) = Some (rs_sorted r ! k)"
proof -
  note A = reg_arity [OF assms(1,2)]
  have k: "k < length (rs_sorted r)" "unat (of_nat k :: u32) = k" using A assms(3) by simp_all
  let ?w = "rs_sorted r ! k"
  have "occurs (rg_sorted_index (reg_view b r)) (k * 2) (le_bytes 2 ?w)"
    using occurs_concat_map [OF k(1), of "le_bytes 2" 2] by (simp add: reg_view_def)
  then have g: "get_range (rg_sorted_index (reg_view b r)) (k * 2) (k * 2 + 2) = Some (le_bytes 2 ?w)"
    using occurs_get_range [of _ "k * 2" "le_bytes 2 ?w" "k * 2 + 2"] by simp
  obtain x y where xy: "le_bytes 2 ?w = [x, y]" using ex_take_2 [of "le_bytes 2 ?w"] by auto
  then have "le_word [x, y] = ?w" using le_word_le_bytes [of 2 ?w] by simp
  with g xy k A assms(3) show ?thesis
    by (simp add: registry_sorted_ordinal_def ir_consts checked_mul_def checked_add_def usize_bound_def
        del: le_word.simps)
qed

lemma check_sorted_ordinals_enc:
  assumes "blob_fits b" "cb_registry b = Some r" "\<forall>w \<in> set (rs_sorted r). unat w < length (cb_stages b)"
  shows "check_sorted_ordinals (concat (map (le_bytes 2) (rs_sorted r))) (of_nat (length (cb_stages b))) = Inr ()"
proof -
  note A = reg_arity [OF assms(1,2)]
  let ?t = "concat (map (le_bytes 2) (rs_sorted r))"
  have len: "length ?t = length (rs_sorted r) * 2" by (simp add: length_concat_const)
  have step: "(case chunk 2 ?t k of
         [c, d] \<Rightarrow> if of_nat (length (cb_stages b)) \<le> (ucast (le_word [c, d] :: u16) :: u32) then Inl OrdinalOutOfRange else Inr ()
       | _ \<Rightarrow> Inl OutOfBounds) = Inr ()" if k: "k < length (rs_sorted r)" for k
  proof -
    let ?w = "rs_sorted r ! k"
    obtain x y where xy: "le_bytes 2 ?w = [x, y]" using ex_take_2 [of "le_bytes 2 ?w"] by auto
    then have w: "le_word [x, y] = ?w" using le_word_le_bytes [of 2 ?w] by simp
    have "occurs ?t (k * 2) (le_bytes 2 ?w)" using occurs_concat_map [OF k, of "le_bytes 2" 2] by simp
    then have "chunk 2 ?t k = [x, y]" using occurs_take [of ?t "k * 2" _ 2] xy by (simp add: chunk_def)
    moreover have "unat ?w < length (cb_stages b)" using assms(3) k by simp
    ultimately show ?thesis using w A by (simp add: word_le_nat_alt not_le del: le_word.simps)
  qed
  show ?thesis
    unfolding check_sorted_ordinals_def SORTED_ENTRY_LEN_def
    by (subst scan_entries_ok [OF len]) (use step A len in \<open>auto simp: usize_bound_def\<close>)
qed

lemma parse_registry_enc:
  assumes "blob_fits b" "cb_registry b = Some r" "\<forall>w \<in> set (rs_sorted r). unat w < length (cb_stages b)"
  shows "parse_registry (enc_body b) (of_nat (length (cb_stages b))) = Inr (Some
    \<lparr>pr_view = reg_view b r, pr_name_table = enc_names (l_heap b) (rs_names r),
     pr_name_span = span_new (l_reg b) (length (cb_stages b) * 8),
     pr_sorted_span = span_new (l_reg b + length (cb_stages b) * 8) (length (cb_stages b) * 2)\<rparr>)"
proof -
  let ?n = "length (cb_stages b)" and ?N = "enc_names (l_heap b) (rs_names r)"
    and ?S = "concat (map (le_bytes 2) (rs_sorted r))"
  note A = reg_arity [OF assms(1,2)] and F = fits_length [OF assms(1)] and O = offsets_small [OF assms(1)]
  have ar: "arity_ok b" using assms(1) by (simp add: blob_fits_def)
  have er: "enc_registry b = ?N @ ?S" using assms(2) by (simp add: enc_registry_def)
  have lens: "length ?N = ?n * 8" "length ?S = ?n * 2" using A by (simp_all add: length_concat_const)
  have un: "unat (of_nat ?n :: u32) = ?n" using A(3) by simp
  have h: "read_u32 (enc_body b) 16 = Inr (sat_u32 (l_reg b))" using header_fields(5) [OF assms(1)] assms(2) by simp
  have u: "unat (sat_u32 (l_reg b)) = l_reg b" "l_reg b \<noteq> 0" using O(3) by (simp_all add: unat_sat_u32 l_defs)
  have oN: "occurs (enc_body b) (l_reg b) ?N"
    using occurs_trans [OF body_occurs(5) [OF ar, unfolded er], of 0 ?N] occursI [of "?N @ ?S" "[]" ?N ?S] by simp
  have oS: "occurs (enc_body b) (l_reg b + ?n * 8) ?S"
    using occurs_trans [OF body_occurs(5) [OF ar, unfolded er], of "?n * 8" ?S] occursI [of "?N @ ?S" ?N ?S "[]"] lens by simp
  have 1: "slice_table (enc_body b) 16 (of_nat ?n) 8 = Inr (l_reg b, ?N)"
    using slice_table_occurs [OF h, of ?N "of_nat ?n" 8] oN u un lens F(3) by (simp add: l_defs)
  have 2: "get_range (enc_body b) (l_reg b + ?n * 8) (l_reg b + ?n * 8 + ?n * 2) = Some ?S"
    using occurs_get_range [OF oS, of "l_reg b + ?n * 8 + ?n * 2"] lens by simp
  have 3: "l_reg b + ?n * 8 + ?n * 2 < usize_bound" "?n * 2 < usize_bound"
    using A(6) O(4) by (simp_all add: usize_bound_def)
  have 4: "check_registry_names (reg_view b r) (of_nat ?n) = Inr ()"
    unfolding check_registry_names_def for_each_ok un using reg_name [OF assms(1,2)] by simp
  note 5 = check_sorted_ordinals_enc [OF assms]
  show ?thesis
    using h u(2) 2 3 4 5 lens
    by (simp add: parse_registry_def REGISTRY_TABLE_OFFSET_FIELD_def NAME_ENTRY_LEN_def SORTED_ENTRY_LEN_def
        1 u(1) un checked_add_def checked_mul_def reg_view_def [symmetric] Let_def)
qed

lemma check_names_in_heap_enc:
  assumes "blob_fits b" "cb_registry b = Some r" "f \<le> l_heap b"
  shows "check_names_in_heap (enc_names (l_heap b) (rs_names r)) f = Inr ()"
proof -
  note A = reg_arity [OF assms(1,2)]
  let ?t = "enc_names (l_heap b) (rs_names r)"
  have ar: "arity_ok b" using assms(1) by (simp add: blob_fits_def)
  have E: "\<exists>w. read_u32 (chunk 8 ?t i) 0 = Inr w \<and> f \<le> unat w" if i: "i < length (rs_names r)" for i
  proof -
    let ?off = "l_heap b + length (concat (take i (rs_names r)))"
    have "occurs ?t (i * 8 + 0) (le_bytes 4 (sat_u32 ?off) @ le_bytes 4 (sat_u32 (length (rs_names r ! i))))"
      using occurs_name_entry [OF i] by simp
    from occurs_chunk [OF this] have "occurs (chunk 8 ?t i) 0 (le_bytes 4 (sat_u32 ?off) @ le_bytes 4 (sat_u32 (length (rs_names r ! i))))"
      by simp
    from occurs_trans [OF this, of 0 "le_bytes 4 (sat_u32 ?off)"] have "occurs (chunk 8 ?t i) 0 (le_bytes 4 (sat_u32 ?off))"
      by (simp add: occursI [of _ "[]"])
    then have "read_u32 (chunk 8 ?t i) 0 = Inr (sat_u32 ?off)"
      by (rule read_u32_occurs) (simp add: chunk_def usize_bound_def)
    moreover have "?off \<le> length (enc_body b)"
      using occurs_length [OF occurs_trans [OF body_occurs(7) [OF ar, unfolded A(4)] occurs_name_string [OF i]]] by simp
    then have "unat (sat_u32 ?off) = ?off" using fits_length(2) [OF assms(1)] by (intro unat_sat_u32) simp
    ultimately show ?thesis using assms(3) by simp
  qed
  show ?thesis
    unfolding check_names_in_heap_def NAME_ENTRY_LEN_def
    by (rule scan_entries_okI [of _ "length (rs_names r)"]) (use A E in \<open>fastforce simp: usize_bound_def\<close>)+
qed

lemma sorted_order_enc:
  assumes "blob_fits b" "cb_registry b = Some r" "\<forall>w \<in> set (rs_sorted r). unat w < length (cb_stages b)"
    "sorted (map (\<lambda>w. rs_names r ! unat w) (rs_sorted r))"
  shows "check_sorted_order (reg_view b r) (of_nat (length (cb_stages b))) = Inr ()"
proof -
  let ?n = "length (cb_stages b)" and ?nm = "\<lambda>k. rs_names r ! unat (rs_sorted r ! k)"
  note A = reg_arity [OF assms(1,2)]
  have entry: "registry_sorted_ordinal (reg_view b r) (of_nat k) = Some (rs_sorted r ! k)"
    "registry_name (reg_view b r) (ucast (rs_sorted r ! k)) = Some (?nm k)" if k: "k < ?n" for k
  proof -
    show "registry_sorted_ordinal (reg_view b r) (of_nat k) = Some (rs_sorted r ! k)"
      using reg_sorted [OF assms(1,2) k] .
    have "unat (rs_sorted r ! k) < ?n" using assms(3) A(2) k by simp
    from reg_name [OF assms(1,2) this] show "registry_name (reg_view b r) (ucast (rs_sorted r ! k)) = Some (?nm k)"
      by (simp only: of_nat_unat_u16)
  qed
  have mono: "?nm i \<le> ?nm j" if "i \<le> j" "j < ?n" for i j
    using sorted_nth_mono [OF assms(4), of i j] that A(2) by simp
  have "sorted_order_from (reg_view b r) (if i = 0 then None else Some (?nm (i - 1))) [i..<?n] = Inr ()" if "i \<le> ?n" for i
    using that
  proof (induction rule: inc_induct)
    case base
    then show ?case by simp
  next
    case (step i)
    then show ?case
      using entry [of i] mono [of "i - 1" i] by (auto simp: upt_conv_Cons)
  qed
  from this [of 0] show ?thesis using A(3) by (simp add: check_sorted_order_def)
qed

text \<open>Bindings: the entry, its key in the heap, and what the parser makes of them.\<close>

definition binding_of :: "binding_spec \<Rightarrow> binding_view" where
  "binding_of c = \<lparr>bi_node_ordinal = bs_node_ordinal c, bi_field_tag = bs_field_tag c, bi_key = bs_key c,
     bi_default = bs_default c\<rparr>"

lemma occurs_binding_entry:
  assumes "i < length cs"
  shows "occurs (enc_bindings heap cs) (i * 32)
    (enc_binding_entry (heap + length (concat (take i (map bs_key cs)))) (cs ! i))"
  using assms
proof (induction cs arbitrary: heap i)
  case Nil
  then show ?case by simp
next
  case (Cons c cs)
  show ?case
  proof (cases i)
    case 0
    then show ?thesis by (intro occursI [of _ "[]"]) (simp_all add: enc_bindings_Cons del: enc_bindings.simps)
  next
    case (Suc k)
    have "occurs (enc_bindings heap (c # cs)) 32 (enc_bindings (heap + length (bs_key c)) cs)"
      by (intro occursI [of _ "enc_binding_entry heap c" _ "[]"]) (simp_all add: enc_bindings_Cons del: enc_bindings.simps)
    from occurs_trans [OF this Cons.IH [of k]] Cons.prems Suc show ?thesis by (simp add: add.assoc)
  qed
qed

lemma binding_entry_fields:
  "read_u16 (enc_binding_entry h c) 0 = Inr (bs_node_ordinal c)"
  "read_u16 (enc_binding_entry h c) 2 = Inr (bs_field_tag c)"
  "read_u32 (enc_binding_entry h c) 4 = Inr (sat_u32 (length (bs_key c)))"
  "read_u32 (enc_binding_entry h c) 8 = Inr (sat_u32 h)"
  "get_range (enc_binding_entry h c) 16 32 =
     Some (le_bytes 8 (ucast (sc_kind (bs_default c)) :: u64) @ le_bytes 8 (sc_value (bs_default c)))"
  by (simp_all add: enc_binding_entry_def read_u16_eq read_u32_eq get_range_def usize_bound_def)

lemma binding_parse_enc:
  assumes "occurs body h (bs_key c)" "length body < 2 ^ 32"
  shows "binding_parse body (enc_binding_entry h c) = Inr (binding_of c)"
proof -
  have "h + length (bs_key c) < 2 ^ 32" using occurs_length [OF assms(1)] assms(2) by simp
  moreover have "get_range body h (h + length (bs_key c)) = Some (bs_key c)"
    using occurs_get_range [OF assms(1)] by simp
  ultimately show ?thesis
    by (simp add: binding_parse_def ir_consts binding_entry_fields scalar_roundtrip unat_sat_u32 checked_add_def
        usize_bound_def binding_of_def)
qed

definition cfg_view :: "conductor_blob \<Rightarrow> bytes" where
  "cfg_view b = enc_bindings (l_heap b + length (name_strings b)) (cb_config b)"

lemma cfg_chunk:
  assumes "blob_fits b" "i < length (cb_config b)"
  obtains h where "chunk 32 (cfg_view b) i = enc_binding_entry h (cb_config b ! i)" "l_heap b \<le> h" "h < 2 ^ 32"
    "binding_parse (enc_body b) (chunk 32 (cfg_view b) i) = Inr (binding_of (cb_config b ! i))"
proof -
  let ?h = "l_heap b + length (name_strings b) + length (concat (take i (map bs_key (cb_config b))))"
  have ar: "arity_ok b" using assms(1) by (simp add: blob_fits_def)
  have c: "chunk 32 (cfg_view b) i = enc_binding_entry ?h (cb_config b ! i)"
    using occurs_take [OF occurs_binding_entry [OF assms(2)], of 32] unfolding cfg_view_def chunk_def by simp
  have "occurs (key_strings b) (length (concat (take i (map bs_key (cb_config b))))) (bs_key (cb_config b ! i))"
    using occurs_concat [of i "map bs_key (cb_config b)"] assms(2) by (simp add: key_strings_def length_concat)
  from occurs_trans [OF body_occurs(8) [OF ar] this] have o: "occurs (enc_body b) ?h (bs_key (cb_config b ! i))" .
  note p = binding_parse_enc [OF o fits_length(2) [OF assms(1)]]
  have "?h < 2 ^ 32" using occurs_length [OF o] fits_length(2) [OF assms(1)] by simp
  with that [OF c _ this] c p show ?thesis by simp
qed

lemma cfg_entry_parse:
  assumes "blob_fits b" "i < length (cb_config b)"
  shows "binding_parse (enc_body b) (chunk 32 (cfg_view b) i) = Inr (binding_of (cb_config b ! i))"
  by (rule cfg_chunk [OF assms])

lemma cfg_entry_key:
  assumes "blob_fits b" "i < length (cb_config b)"
  shows "\<exists>w. read_u32 (chunk 32 (cfg_view b) i) 8 = Inr w \<and> l_heap b \<le> unat w"
  by (rule cfg_chunk [OF assms]) (simp add: binding_entry_fields unat_sat_u32)

lemma parse_config_enc:
  assumes "blob_fits b" "cb_config b \<noteq> []" "\<forall>c \<in> set (cb_config b). unat (bs_node_ordinal c) < length (cb_stages b)"
  shows "parse_config (enc_body b) (of_nat (length (cb_stages b))) = Inr (Some
    \<lparr>pc_count = of_nat (length (cb_config b)), pc_entries = cfg_view b,
     pc_section_span = span_new (l_cfg b) (8 + length (cb_config b) * 32)\<rparr>)"
proof -
  let ?m = "length (cb_config b)" and ?n = "length (cb_stages b)"
  note F = fits_length [OF assms(1)] and O = offsets_small [OF assms(1)]
  have ar: "arity_ok b" using assms(1) by (simp add: blob_fits_def)
  have n: "?n < 2 ^ 32" using assms(1) by (simp add: blob_fits_def)
  have m: "8 + ?m * 32 < 2 ^ 32" "l_cfg b + 8 + ?m * 32 < 2 ^ 32"
    using O(5) assms(2) by (simp_all add: l_heap_def cfg_len_def)
  have ec: "enc_config b = le_bytes 4 (sat_u32 ?m) @ le_bytes 4 (0 :: u32) @ cfg_view b"
    using assms(2) by (simp add: enc_config_def cfg_view_def)
  have lv: "length (cfg_view b) = ?m * 32" by (simp add: cfg_view_def)
  have oc: "occurs (enc_body b) (l_cfg b) (le_bytes 4 (sat_u32 ?m))"
    using occurs_trans [OF body_occurs(6) [OF ar, unfolded ec], of 0 "le_bytes 4 (sat_u32 ?m)"]
    by (simp add: occursI [of _ "[]"])
  have "occurs (enc_config b) 8 (cfg_view b)"
    by (rule occursI [of _ "le_bytes 4 (sat_u32 ?m) @ le_bytes 4 (0 :: u32)" _ "[]"]) (simp_all add: ec)
  from occurs_trans [OF body_occurs(6) [OF ar] this] have ov: "occurs (enc_body b) (l_cfg b + 8) (cfg_view b)" .
  have h: "read_u32 (enc_body b) 20 = Inr (sat_u32 (l_cfg b))" using header_fields(6) [OF assms(1)] assms(2) by simp
  have c: "read_u32 (enc_body b) (l_cfg b) = Inr (of_nat ?m)"
    using read_u32_occurs [OF oc F(3)] m by (simp add: sat_u32_def)
  have e: "check_config_entries (enc_body b) (cfg_view b) (of_nat ?n) = Inr ()"
    unfolding check_config_entries_def BINDING_LEN_def
  proof (rule scan_entries_okI [OF lv])
    fix j assume j: "j < ?m"
    have "unat (bs_node_ordinal (cb_config b ! j)) < ?n" using assms(3) j by simp
    then show "res_bind (binding_parse (enc_body b) (chunk 32 (cfg_view b) j)) (\<lambda>binding.
       if of_nat ?n \<le> (ucast (bi_node_ordinal binding) :: u32) then Inl OrdinalOutOfRange else Inr ()) = Inr ()"
      using n by (simp add: cfg_entry_parse [OF assms(1) j] binding_of_def word_le_nat_alt)
  qed (use lv m in \<open>simp_all add: usize_bound_def\<close>)
  have g: "get_range (enc_body b) (l_cfg b + 8) (l_cfg b + 8 + ?m * 32) = Some (cfg_view b)"
    using occurs_get_range [OF ov, of "l_cfg b + 8 + ?m * 32"] lv by simp
  have "unat (sat_u32 (l_cfg b)) = l_cfg b" "24 \<le> l_cfg b" "unat (of_nat ?m :: u32) = ?m"
    using O(4) m by (simp_all add: unat_sat_u32 l_defs)
  with h c e g m show ?thesis
    by (simp add: parse_config_def ir_consts Let_def checked_add_def checked_mul_def usize_bound_def)
qed

lemma check_keys_in_heap_enc:
  assumes "blob_fits b" "f \<le> l_heap b"
  shows "check_keys_in_heap (cfg_view b) f = Inr ()"
  unfolding check_keys_in_heap_def BINDING_LEN_def
proof (rule scan_entries_okI [of _ "length (cb_config b)"])
  fix j assume j: "j < length (cb_config b)"
  show "res_bind (read_u32 (chunk 32 (cfg_view b) j) 8) (\<lambda>off. if unat off < f then Inl OutOfBounds else Inr ()) = Inr ()"
    using cfg_entry_key [OF assms(1) j] assms(2) by (elim exE conjE) simp
next
  have "length (cb_config b) * 32 \<le> l_heap b" by (auto simp: l_heap_def cfg_len_def)
  then show "length (cfg_view b) < usize_bound"
    using offsets_small(5) [OF assms(1)] by (simp add: cfg_view_def usize_bound_def)
qed (simp_all add: cfg_view_def)

section \<open>The whole parse\<close>

text \<open>What the writer asks of its caller: ordinals name stages and the registry index is sorted.\<close>

definition blob_ok :: "conductor_blob \<Rightarrow> bool" where
  "blob_ok b \<longleftrightarrow>
     (\<forall>e \<in> set (cb_edges b). unat (ed_from e) < length (cb_stages b) \<and> unat (ed_to e) < length (cb_stages b)) \<and>
     (\<forall>c \<in> set (cb_config b). unat (bs_node_ordinal c) < length (cb_stages b)) \<and>
     (case cb_registry b of None \<Rightarrow> True
      | Some r \<Rightarrow> (\<forall>w \<in> set (rs_sorted r). unat w < length (cb_stages b)) \<and>
          sorted (map (\<lambda>w. rs_names r ! unat w) (rs_sorted r)))"

definition reg_parsed :: "conductor_blob \<Rightarrow> parsed_registry option" where
  "reg_parsed b = map_option (\<lambda>r. \<lparr>pr_view = reg_view b r, pr_name_table = enc_names (l_heap b) (rs_names r),
     pr_name_span = span_new (l_reg b) (length (cb_stages b) * 8),
     pr_sorted_span = span_new (l_reg b + length (cb_stages b) * 8) (length (cb_stages b) * 2)\<rparr>) (cb_registry b)"

definition cfg_parsed :: "conductor_blob \<Rightarrow> parsed_config option" where
  "cfg_parsed b = (if cb_config b = [] then None else Some
    \<lparr>pc_count = of_nat (length (cb_config b)), pc_entries = cfg_view b,
     pc_section_span = span_new (l_cfg b) (8 + length (cb_config b) * 32)\<rparr>)"

definition view_of :: "conductor_blob \<Rightarrow> conductor_view" where
  "view_of b = \<lparr>cv_body = enc_body b, cv_stage_count = of_nat (length (cb_stages b)),
     cv_edge_count = of_nat (length (cb_edges b)), cv_stage_table = slots_of b, cv_edge_table = edges_of b,
     cv_registry = map_option (reg_view b) (cb_registry b), cv_config_count = of_nat (length (cb_config b)),
     cv_config_entries = cfg_view b\<rparr>"

lemma reg_parse_enc:
  assumes "blob_fits b" "blob_ok b"
  shows "parse_registry (enc_body b) (of_nat (length (cb_stages b))) = Inr (reg_parsed b)"
proof (cases "cb_registry b")
  case None
  then show ?thesis
    using header_fields(5) [OF assms(1)] by (simp add: parse_registry_def ir_consts reg_parsed_def unat_sat_u32)
next
  case (Some r)
  then show ?thesis using parse_registry_enc [OF assms(1) Some] assms(2) by (simp add: reg_parsed_def blob_ok_def)
qed

lemma cfg_parse_enc:
  assumes "blob_fits b" "blob_ok b"
  shows "parse_config (enc_body b) (of_nat (length (cb_stages b))) = Inr (cfg_parsed b)"
proof (cases "cb_config b = []")
  case True
  then show ?thesis
    using header_fields(6) [OF assms(1)] by (simp add: parse_config_def ir_consts cfg_parsed_def unat_sat_u32)
next
  case False
  then show ?thesis using parse_config_enc [OF assms(1) False] assms(2) by (simp add: cfg_parsed_def blob_ok_def)
qed

abbreviation sections_of :: "conductor_blob \<Rightarrow> span list" where
  "sections_of b \<equiv> parse_sections 24 (slots_of b) (l_edge b) (edges_of b) (reg_parsed b) (cfg_parsed b)"

lemma sections_set:
  assumes "blob_fits b" "sp \<in> set (sections_of b)"
  shows "off_records b sp" "sp_offset sp + sp_len sp \<le> l_heap b"
proof -
  have pol: "24 + length (cb_stages b) * 16 + length (cb_edges b) * 8 = l_pol b" "l_pol b \<le> l_reg b"
    "l_reg b \<le> l_cfg b" "l_cfg b \<le> l_heap b" by (simp_all add: l_defs)
  have "cb_registry b \<noteq> None \<Longrightarrow> l_reg b + length (cb_stages b) * 10 \<le> l_cfg b"
    using reg_arity(6) [OF assms(1)] by auto
  moreover have "cb_config b \<noteq> [] \<Longrightarrow> l_cfg b + 8 + length (cb_config b) * 32 = l_heap b"
    by (simp add: l_heap_def cfg_len_def)
  ultimately show "off_records b sp" "sp_offset sp + sp_len sp \<le> l_heap b"
    using assms(2) pol
    by (cases "cb_registry b"; auto simp: parse_sections_def span_new_def reg_parsed_def cfg_parsed_def length_edges
        l_edge_def off_records_def split: if_splits)+
qed

lemma sections_disjoint_enc:
  assumes "blob_fits b"
  shows "check_sections_disjoint (sections_of b) = Inr ()"
proof -
  have pol: "24 + length (cb_stages b) * 16 + length (cb_edges b) * 8 = l_pol b" "l_pol b \<le> l_reg b"
    "l_reg b \<le> l_cfg b" by (simp_all add: l_defs)
  have "cb_registry b \<noteq> None \<Longrightarrow> l_reg b + length (cb_stages b) * 10 \<le> l_cfg b"
    using reg_arity(6) [OF assms(1)] by auto
  with pol show ?thesis
    by (auto simp: parse_sections_def span_new_def reg_parsed_def cfg_parsed_def length_edges l_edge_def
        ranges_overlap_def split: if_splits option.splits)
qed

lemma conductor_parse_enc:
  assumes "blob_fits b" "blob_ok b"
  shows "conductor_parse (enc_body b) = Inr (view_of b)"
proof -
  have heap: "\<forall>s \<in> set (sections_of b). sp_offset s + sp_len s \<le> l_heap b"
    using sections_set(2) [OF assms(1)] by blast
  obtain f where f: "heap_floor (sections_of b) (enc_body b) (slots_of b) = Inr f" "f \<le> l_heap b"
    using heap_floor_enc [OF assms(1) heap] by blast
  have pol: "check_stage_policies (enc_body b) (slots_of b) (sections_of b) = Inr ()"
    using check_stage_policies_enc [OF assms(1)] sections_set(1) [OF assms(1)] by blast
  have edges: "check_edge_ordinals (edges_of b) (of_nat (length (cb_stages b))) = Inr ()"
    using check_edge_ordinals_enc [OF assms(1)] assms(2) by (simp add: blob_ok_def)
  have names: "(case reg_parsed b of None \<Rightarrow> Inr ()
       | Some reg \<Rightarrow> res_bind (check_names_in_heap (pr_name_table reg) f) (\<lambda>_.
                     check_sorted_order (pr_view reg) (of_nat (length (cb_stages b))))) = Inr ()"
    using check_names_in_heap_enc [OF assms(1) _ f(2)] sorted_order_enc [OF assms(1)] assms(2)
    by (cases "cb_registry b") (simp_all add: reg_parsed_def blob_ok_def)
  have keys: "(case cfg_parsed b of None \<Rightarrow> Inr () | Some cfg \<Rightarrow> check_keys_in_heap (pc_entries cfg) f) = Inr ()"
    using check_keys_in_heap_enc [OF assms(1) f(2)] by (simp add: cfg_parsed_def)
  note P = header_fields [OF assms(1)] tables_parse [OF assms(1)] reg_parse_enc [OF assms] cfg_parse_enc [OF assms]
    sections_disjoint_enc [OF assms(1)] edges pol check_record_overlaps_enc [OF assms(1)] f(1) names keys
  have "conductor_parse (enc_body b) = Inr \<lparr>cv_body = enc_body b, cv_stage_count = of_nat (length (cb_stages b)),
     cv_edge_count = of_nat (length (cb_edges b)), cv_stage_table = slots_of b, cv_edge_table = edges_of b,
     cv_registry = map_option pr_view (reg_parsed b),
     cv_config_count = (case cfg_parsed b of None \<Rightarrow> 0 | Some cfg \<Rightarrow> pc_count cfg),
     cv_config_entries = (case cfg_parsed b of None \<Rightarrow> [] | Some cfg \<Rightarrow> pc_entries cfg)\<rparr>"
    unfolding conductor_parse_def ir_consts Let_def P res_bind_simps prod.case by (rule refl)
  then show ?thesis
    by (simp add: view_of_def reg_parsed_def cfg_parsed_def option.map_comp o_def cfg_view_def)
qed

section \<open>The blob and its accessors\<close>

lemma occurs_encode: "occurs (encode b) 16 (enc_record ConductorSpec (enc_body b))" if "arity_ok b"
proof (rule occursI [of _ "MAGIC @ le_bytes 2 VERSION @ le_bytes 2 (0 :: u16) @ le_bytes 4 (sat_u32 (24 + body_len b)) @
     le_bytes 4 (sat_u32 16)" _ "[]"])
  have "length (enc_body b) = body_len b" using length_enc_body [OF that] .
  then show "encode b = (MAGIC @ le_bytes 2 VERSION @ le_bytes 2 (0 :: u16) @ le_bytes 4 (sat_u32 (24 + body_len b)) @
     le_bytes 4 (sat_u32 16)) @ enc_record ConductorSpec (enc_body b) @ []"
    by (simp add: encode_def enc_record_def frame_bytes_def RECORD_HEADER_LEN_def)
qed (simp add: MAGIC_def)

lemma length_encode: "arity_ok b \<Longrightarrow> length (encode b) = 24 + body_len b"
  using occurs_encode [of b] length_enc_body [of b]
  by (simp add: encode_def frame_bytes_def MAGIC_def)

lemma root_record_enc:
  assumes "blob_fits b"
  shows "root_record (encode b) = Inr \<lparr>rv_tag = ConductorSpec, rv_body = enc_body b\<rparr>"
proof -
  have ar: "arity_ok b" using assms by (simp add: blob_fits_def)
  have len: "length (encode b) = 24 + body_len b" using length_encode [OF ar] .
  have fit: "24 + body_len b < 2 ^ 32" using assms by (simp add: blob_fits_def)
  have "length (enc_body b) mod 8 = 0" using length_enc_body [OF ar] up8_props(3) by (simp add: body_len_def)
  then have "read_record (encode b) 16 = Inr \<lparr>rv_tag = ConductorSpec, rv_body = enc_body b\<rparr>"
    using read_record_enc [OF occurs_encode [OF ar]] len fit by simp
  moreover have "read_u32 (encode b) 12 = Inr (sat_u32 16)"
    using len fit by (simp add: read_u32_eq usize_bound_def encode_def MAGIC_def)
  ultimately show ?thesis by (simp add: root_record_def ir_consts unat_sat_u32)
qed

lemma validate_enc:
  assumes "blob_fits b" "blob_ok b"
  shows "validate (encode b) = Inr \<lparr>ir_bytes = encode b\<rparr>"
proof -
  have ar: "arity_ok b" using assms by (simp add: blob_fits_def)
  have len: "length (encode b) = 24 + body_len b" using length_encode [OF ar] .
  have fit: "24 + body_len b < 2 ^ 32" using assms by (simp add: blob_fits_def)
  have "get_range (encode b) 0 4 = Some MAGIC" "read_u16 (encode b) 4 = Inr VERSION"
    "read_u32 (encode b) 8 = Inr (sat_u32 (24 + body_len b))"
    using len fit
    by (simp_all add: get_range_def read_u16_eq read_u32_eq usize_bound_def encode_def MAGIC_def)
  moreover have "length MAGIC = 4" "\<not> length (encode b) < 16" "unat (sat_u32 (24 + body_len b)) = length (encode b)"
    using len fit by (simp_all add: MAGIC_def unat_sat_u32)
  ultimately show ?thesis
    using root_record_enc [OF assms(1)] conductor_parse_enc [OF assms]
    by (simp add: validate_def HEADER_LEN_def)
qed

lemma stage_policy_body_enc:
  assumes "blob_fits b" "j < length (cb_stages b)" "k < 4"
  shows "stage_policy_body \<lparr>sv_body = enc_body b, sv_entry = chunk 16 (slots_of b) j\<rparr> (POLICY_ALL ! k) =
    map_option (drop 8) (stage_records (cb_stages b ! j) ! k)"
proof -
  have i: "4 * j + k < length (recs_of b)" using assms(2,3) by simp
  note S = slot_read [OF assms(2,3)] and V = slot_value [OF assms(1) i] and N = all_records_nth [OF assms(2,3)]
  show ?thesis
  proof (cases "recs_of b ! (4 * j + k)")
    case None
    then have "sat_u32 (slot_offsets (l_pol b) (recs_of b) ! (4 * j + k)) = 0" using V by (simp add: unat_eq_0)
    with S N None show ?thesis by (simp add: stage_policy_body_def)
  next
    case (Some r)
    obtain body where B: "read_record (enc_body b) (rec_off b (4 * j + k)) =
        Inr \<lparr>rv_tag = policy_node_tag (POLICY_ALL ! k), rv_body = body\<rparr>"
      "r = enc_record (policy_node_tag (POLICY_ALL ! k)) body"
      using rec_kind [OF assms Some] by metis
    let ?w = "sat_u32 (slot_offsets (l_pol b) (recs_of b) ! (4 * j + k))"
    have w: "unat ?w = rec_off b (4 * j + k)" using V Some by simp
    then have "?w \<noteq> 0" using rec_facts(2) [OF assms(1) i Some] by (metis not_numeral_le_zero unat_0)
    moreover have "stage_records (cb_stages b ! j) ! k = Some r" using N Some by simp
    moreover have "drop 8 r = body" using B(2) by (simp add: enc_record_def)
    ultimately show ?thesis using S B(1) by (simp add: stage_policy_body_def w)
  qed
qed

lemma conductor_stage_enc:
  assumes "blob_fits b" "j < length (cb_stages b)"
  shows "conductor_stage (view_of b) (of_nat j) = Some \<lparr>sv_body = enc_body b, sv_entry = chunk 16 (slots_of b) j\<rparr>"
proof -
  have n: "length (cb_stages b) < 2 ^ 32" using assms(1) by (simp add: blob_fits_def)
  have u: "unat (of_nat j :: u32) = j" using n assms(2) by simp
  have "length (slots_of b) = length (cb_stages b) * 16" by simp
  note G = get_range_chunk [OF assms(2) this]
  have "j * 16 + 16 < usize_bound"
    using stride_le [OF assms(2), of 16] offsets_small(1) [OF assms(1)] by (simp add: l_edge_def usize_bound_def)
  then show ?thesis
    using u G n assms(2)
    by (simp add: conductor_stage_def view_of_def STAGE_ENTRY_LEN_def checked_mul_def checked_add_def word_le_nat_alt)
qed

lemma stage_policies_enc:
  assumes "blob_fits b" "j < length (cb_stages b)"
  shows "let sv = \<lparr>sv_body = enc_body b, sv_entry = chunk 16 (slots_of b) j\<rparr>; st = cb_stages b ! j in
    stage_limiter sv = ss_limiter st \<and> stage_timeout sv = ss_timeout st \<and>
    stage_retry sv = ss_retry st \<and> stage_breaker sv = ss_breaker st"
proof -
  note P = stage_policy_body_enc [OF assms]
  have D: "drop 8 (enc_record tag body) = body" for tag body by (simp add: enc_record_def)
  have R: "limiter_parse (drop 8 (enc_record tag (enc_limiter l))) = Inr l"
    "timeout_parse (drop 8 (enc_record tag (enc_timeout t))) = Inr t"
    "retry_parse (drop 8 (enc_record tag (enc_retry r))) = Inr r"
    "breaker_parse (drop 8 (enc_record tag (enc_breaker c))) = Inr c" for tag l t r c
    by (simp_all add: D limiter_roundtrip timeout_roundtrip retry_roundtrip breaker_roundtrip)
  have K: "POLICY_ALL ! 0 = Limiter" "POLICY_ALL ! 1 = Timeout" "POLICY_ALL ! 2 = Retry" "POLICY_ALL ! 3 = Breaker"
    by (simp_all add: POLICY_ALL_def)
  note Q = P [of 0, unfolded K] P [of 1, unfolded K] P [of 2, unfolded K] P [of 3, unfolded K]
  show ?thesis
    unfolding Let_def stage_limiter_def stage_timeout_def stage_retry_def stage_breaker_def
    by (simp add: Q stage_records_def)
      (auto simp: R split: option.split bind_splits)
qed

lemma map_filter_nth:
  assumes "\<And>i. i < n \<Longrightarrow> f i = Some (g i)"
  shows "List.map_filter f [0..<n] = map g [0..<n]"
  unfolding List.map_filter_def using assms by (simp cong: filter_cong)

lemma conductor_edges_enc:
  assumes "blob_fits b"
  shows "conductor_edges (view_of b) = cb_edges b"
proof -
  let ?m = "length (cb_edges b)"
  have m: "?m < 2 ^ 32" using assms by (simp add: blob_fits_def)
  have lt: "?m * 8 < usize_bound"
    using offsets_small(2) [OF assms] by (simp add: l_pol_def l_edge_def usize_bound_def)
  have "conductor_edge (view_of b) (of_nat j) = Some (cb_edges b ! j)" if j: "j < ?m" for j
  proof -
    have "get_range (edges_of b) (j * 8) (j * 8 + 8) = Some (enc_edge (cb_edges b ! j))"
      using occurs_get_range [OF occurs_concat_map [OF j, of enc_edge 8]] by simp
    with m j lt stride_le [OF j, of 8] show ?thesis
      by (simp add: conductor_edge_def view_of_def EDGE_LEN_def checked_mul_def checked_add_def edge_roundtrip)
  qed
  from map_filter_nth [of ?m, OF this] show ?thesis
    using m by (simp add: conductor_edges_def view_of_def map_nth)
qed

lemma conductor_bindings_enc:
  assumes "blob_fits b"
  shows "conductor_config_bindings (view_of b) = map binding_of (cb_config b)"
proof -
  let ?m = "length (cb_config b)"
  have m: "?m * 32 < 2 ^ 32" using offsets_small(5) [OF assms] by (simp add: l_heap_def cfg_len_def split: if_splits)
  have lv: "length (cfg_view b) = ?m * 32" by (simp add: cfg_view_def)
  have "conductor_config_binding (view_of b) (of_nat j) = Some (binding_of (cb_config b ! j))" if j: "j < ?m" for j
  proof -
    have "unat (of_nat j :: u32) = j" "j * 32 + 32 < usize_bound"
      using m j stride_le [OF j, of 32] by (simp_all add: usize_bound_def)
    then show ?thesis
      using get_range_chunk [OF j lv] cfg_entry_parse [OF assms j]
      by (simp add: conductor_config_binding_def view_of_def BINDING_LEN_def checked_mul_def checked_add_def)
  qed
  from map_filter_nth [of ?m, OF this] show ?thesis
    using m by (simp add: conductor_config_bindings_def view_of_def)
      (metis (no_types, lifting) map_nth map_map o_apply map_eq_conv)
qed

section \<open>Properties\<close>

text \<open>
  C7. Serialization followed by validation is lossless: for a conductor whose ordinals name
  stages and whose registry index is sorted, \<open>write_conductor\<close> fills the buffer with bytes
  that \<open>validate\<close> accepts and every accessor of the decoded view returns what was written:
  the four policies of each stage, the edges, the names and the sorted index of the
  registry, and the configuration bindings.
\<close>

theorem write_validate_roundtrip:
  assumes "layout_compute b = Inr ly" "ly_total ly \<le> length buf" "blob_ok b"
  shows "\<exists>buf' ir cv. write_conductor buf b = Ret (Inr (ly_total ly), buf') \<and>
    validate (take (ly_total ly) buf') = Inr ir \<and> ir_conductor ir = Inr cv \<and>
    (\<forall>j < length (cb_stages b). \<exists>sv. conductor_stage cv (of_nat j) = Some sv \<and>
       stage_limiter sv = ss_limiter (cb_stages b ! j) \<and> stage_timeout sv = ss_timeout (cb_stages b ! j) \<and>
       stage_retry sv = ss_retry (cb_stages b ! j) \<and> stage_breaker sv = ss_breaker (cb_stages b ! j)) \<and>
    conductor_edges cv = cb_edges b \<and>
    conductor_config_bindings cv = map binding_of (cb_config b) \<and>
    (case cb_registry b of None \<Rightarrow> cv_registry cv = None
     | Some r \<Rightarrow> \<exists>v. cv_registry cv = Some v \<and> (\<forall>j < length (cb_stages b).
         registry_name v (of_nat j) = Some (rs_names r ! j) \<and>
         registry_sorted_ordinal v (of_nat j) = Some (rs_sorted r ! j)))"
proof -
  have f: "blob_fits b" using blob_fits_layout [OF assms(1)] .
  then have "length (encode b) = ly_total ly"
    using length_encode layout_compute_eq(1) [OF assms(1)] by (simp add: blob_fits_def layout_of_def)
  then have w: "write_conductor buf b = Ret (Inr (ly_total ly), encode b @ drop (ly_total ly) buf)"
    "validate (take (ly_total ly) (encode b @ drop (ly_total ly) buf)) = Inr \<lparr>ir_bytes = encode b\<rparr>"
    using write_conductor_encode [OF assms(1,2)] validate_enc [OF f assms(3)] by simp_all
  have c: "ir_conductor \<lparr>ir_bytes = encode b\<rparr> = Inr (view_of b)"
    using root_record_enc [OF f] conductor_parse_enc [OF f assms(3)] by (simp add: ir_conductor_def)
  have r: "case cb_registry b of None \<Rightarrow> cv_registry (view_of b) = None
     | Some r \<Rightarrow> \<exists>v. cv_registry (view_of b) = Some v \<and> (\<forall>j < length (cb_stages b).
         registry_name v (of_nat j) = Some (rs_names r ! j) \<and>
         registry_sorted_ordinal v (of_nat j) = Some (rs_sorted r ! j))"
    using reg_name [OF f] reg_sorted [OF f] by (simp add: view_of_def split: option.split)
  show ?thesis
    by (intro exI conjI allI impI, rule w(1), rule w(2), rule c, erule conductor_stage_enc [OF f])
      (use stage_policies_enc [OF f] conductor_edges_enc [OF f] conductor_bindings_enc [OF f] r in
        \<open>simp_all add: Let_def\<close>)
qed

section \<open>A concrete blob\<close>

definition demo_blob :: conductor_blob where
  "demo_blob = \<lparr>cb_stages = [
       \<lparr>ss_limiter = Some \<lparr>lim_capacity = 5, lim_refill_tokens = 1, lim_refill_period_ns = 1000\<rparr>,
        ss_timeout = Some \<lparr>to_duration_ns = 250\<rparr>, ss_retry = None, ss_breaker = None\<rparr>,
       \<lparr>ss_limiter = None, ss_timeout = None,
        ss_retry = Some \<lparr>re_max_attempts = 3, re_backoff_kind = 1, re_jitter_kind = 2, re_base_delay_ns = 10,
          re_max_delay_ns = 99\<rparr>, ss_breaker = None\<rparr>],
     cb_edges = [\<lparr>ed_from = 0, ed_to = 1, ed_input = 0\<rparr>],
     cb_registry = Some \<lparr>rs_names = [[98], [97, 97]], rs_sorted = [1, 0]\<rparr>,
     cb_config = [\<lparr>bs_node_ordinal = 1, bs_field_tag = 4, bs_key = [107],
       bs_default = \<lparr>sc_kind = 2, sc_value = 7\<rparr>\<rparr>]\<rparr>"

lemma demo_layout: "layout_compute demo_blob = Inr (layout_of demo_blob)" "ly_total (layout_of demo_blob) = 232"
proof -
  have "res_ok (layout_compute demo_blob) \<noteq> None"
    by (simp add: layout_compute_def demo_blob_def try_u32_def validate_registry_arity_def checked_mul_def
        checked_add_def usize_bound_def ir_consts payload_len_def record_body_lens_def registry_len_def align8_def
        string_heap_len_def List.map_filter_simps)
  then show "layout_compute demo_blob = Inr (layout_of demo_blob)"
    using layout_compute_eq(1) [of demo_blob] by (cases "layout_compute demo_blob") auto
  show "ly_total (layout_of demo_blob) = 232"
    by (simp add: layout_of_def l_defs body_len_def l_end_def up8_def reg_len_def cfg_len_def demo_blob_def
        stage_records_def name_strings_def key_strings_def)
qed

lemma demo_ok: "blob_ok demo_blob"
  by (simp add: blob_ok_def demo_blob_def)

lemma demo_fits: "blob_fits demo_blob"
  by (rule blob_fits_layout [OF demo_layout(1)])

lemma demo_validate: "validate (encode demo_blob) = Inr \<lparr>ir_bytes = encode demo_blob\<rparr>"
  "ir_conductor \<lparr>ir_bytes = encode demo_blob\<rparr> = Inr (view_of demo_blob)"
  using validate_enc [OF demo_fits demo_ok] root_record_enc [OF demo_fits] conductor_parse_enc [OF demo_fits demo_ok]
  by (simp_all add: ir_conductor_def)

theorem write_validate_roundtrip_witness:
  "layout_compute demo_blob = Inr (layout_of demo_blob) \<and>
   (\<exists>buf' ir cv. write_conductor (replicate 232 0) demo_blob = Ret (Inr 232, buf') \<and>
     validate (take 232 buf') = Inr ir \<and> ir_conductor ir = Inr cv \<and> conductor_edges cv = cb_edges demo_blob)"
  using write_validate_roundtrip [OF demo_layout(1), of "replicate 232 0"] demo_layout demo_ok by auto

theorem validate_accessors_total_witness:
  "validate (encode demo_blob) = Inr \<lparr>ir_bytes = encode demo_blob\<rparr> \<and>
   (\<exists>cv. ir_conductor \<lparr>ir_bytes = encode demo_blob\<rparr> = Inr cv \<and>
     length (conductor_edges cv) = unat (cv_edge_count cv) \<and>
     length (conductor_config_bindings cv) = unat (cv_config_count cv))"
  using validate_accessors_total [OF demo_validate(1)] demo_validate(1) by blast

lemma demo_registry:
  "cv_registry (view_of demo_blob) = Some (reg_view demo_blob \<lparr>rs_names = [[98], [97, 97]], rs_sorted = [1, 0]\<rparr>)"
  by (simp add: view_of_def demo_blob_def)

theorem validate_lookup_exact_witness:
  "\<exists>v. cv_registry (view_of demo_blob) = Some v \<and>
     (\<forall>w. registry_lookup v [98] = Some w \<longrightarrow> listed v w \<and> registry_name v w = Some [98]) \<and> registry_lookup v [98] \<noteq> None"
proof -
  let ?r = "\<lparr>rs_names = [[98], [97, 97]], rs_sorted = [1, 0]\<rparr>"
  have r: "cb_registry demo_blob = Some ?r" and n: "length (cb_stages demo_blob) = 2" by (simp_all add: demo_blob_def)
  have "registry_sorted_ordinal (reg_view demo_blob ?r) (of_nat 1) = Some 0" "registry_name (reg_view demo_blob ?r) 0 = Some [98]"
    using reg_sorted [OF demo_fits r, of 1] reg_name [OF demo_fits r, of 0] n by simp_all
  then have "listed (reg_view demo_blob ?r) 0" "registry_name (reg_view demo_blob ?r) 0 = Some [98]"
    unfolding listed_def by (auto simp: reg_view_def n intro: exI [of _ 1])
  then show ?thesis using validate_lookup_exact [OF demo_validate demo_registry, of "[98]"] demo_registry by blast
qed

text \<open>
  An accepted registry whose index lists stage 0 twice and stage 1 never: the search misses the
  name of stage 1.
\<close>

definition gap_blob :: conductor_blob where
  "gap_blob = demo_blob\<lparr>cb_registry := Some \<lparr>rs_names = [[97], [98]], rs_sorted = [0, 0]\<rparr>\<rparr>"

lemma gap_fits: "blob_fits gap_blob"
proof -
  have "res_ok (layout_compute gap_blob) \<noteq> None"
    by (simp add: layout_compute_def gap_blob_def demo_blob_def try_u32_def validate_registry_arity_def checked_mul_def
        checked_add_def usize_bound_def ir_consts payload_len_def record_body_lens_def registry_len_def align8_def
        string_heap_len_def List.map_filter_simps)
  then have "layout_compute gap_blob = Inr (layout_of gap_blob)"
    using layout_compute_eq(1) [of gap_blob] by (cases "layout_compute gap_blob") auto
  then show ?thesis by (rule blob_fits_layout)
qed

lemma lookup_misses_unlisted:
  "\<exists>ir cv v. validate (encode gap_blob) = Inr ir \<and> ir_conductor ir = Inr cv \<and> cv_registry cv = Some v \<and>
     registry_name v 1 = Some [98] \<and> registry_lookup v [98] = None"
proof -
  let ?r = "\<lparr>rs_names = [[97], [98]], rs_sorted = [0, 0]\<rparr>" let ?v = "reg_view gap_blob ?r"
  have ok: "blob_ok gap_blob" by (simp add: blob_ok_def gap_blob_def demo_blob_def)
  have V: "validate (encode gap_blob) = Inr \<lparr>ir_bytes = encode gap_blob\<rparr>"
    "ir_conductor \<lparr>ir_bytes = encode gap_blob\<rparr> = Inr (view_of gap_blob)" "cv_registry (view_of gap_blob) = Some ?v"
    using validate_enc [OF gap_fits ok] root_record_enc [OF gap_fits] conductor_parse_enc [OF gap_fits ok]
    by (simp_all add: ir_conductor_def view_of_def gap_blob_def)
  have r: "cb_registry gap_blob = Some ?r" and n: "length (cb_stages gap_blob) = 2" by (simp_all add: gap_blob_def demo_blob_def)
  have s: "registry_sorted_ordinal ?v (of_nat k) = Some 0" if "k < 2" for k
    using reg_sorted [OF gap_fits r, of k] that n by (auto simp: less_2_cases_iff)
  have m: "registry_name ?v 0 = Some [97]" "registry_name ?v 1 = Some [98]"
    using reg_name [OF gap_fits r, of 0] reg_name [OF gap_fits r, of 1] n by simp_all
  have "registry_lookup ?v [98] = None"
  proof (cases "registry_lookup ?v [98]")
    case (Some w)
    then have "listed ?v w" "registry_name ?v w = Some [98]" using validate_lookup_listed [OF V, of "[98]"] by auto
    then show ?thesis using s m(1) by (auto simp: listed_def reg_view_def n)
  qed
  then show ?thesis using V m by blast
qed



end
