(* ===== verification/Ring_Inbox.thy ===== *)
theory Ring_Inbox
  imports Slab_Key
begin

text \<open>
  The bounded rings a worker drains at the pass boundary: the spawn inbox
  (\<open>worker/queue/inbox.rs\<close>), the timer request inbox (\<open>worker/queue/arm.rs\<close>) and the reap
  queue (\<open>worker/queue/reap.rs\<close>). Head and tail are free-running machine words, the slot of
  a position is its low bits. The locale \<open>bounded_fifo\<close> is the contract their clients use;
  each ring is an interpretation of it.
\<close>

section \<open>The contract of a bounded FIFO\<close>

text \<open>
  A history of pushes (\<open>Some x\<close>) and pops (\<open>None\<close>): the values accepted, the values
  returned, and the final state.
\<close>

fun fifo_run :: "('s \<Rightarrow> 'a \<Rightarrow> 'r \<times> 's) \<Rightarrow> ('r \<Rightarrow> bool) \<Rightarrow> ('s \<Rightarrow> 'a option \<times> 's) \<Rightarrow>
    's \<Rightarrow> 'a option list \<Rightarrow> 'a list \<times> 'a list \<times> 's" where
  "fifo_run push accepted pop s [] = ([], [], s)"
| "fifo_run push accepted pop s (Some x # ops) = (case push s x of (r, s') \<Rightarrow>
     case fifo_run push accepted pop s' ops of (ins, outs, s'') \<Rightarrow> (if accepted r then x # ins else ins, outs, s''))"
| "fifo_run push accepted pop s (None # ops) = (case pop s of (r, s') \<Rightarrow>
     case fifo_run push accepted pop s' ops of (ins, outs, s'') \<Rightarrow> (ins, case r of None \<Rightarrow> outs | Some y \<Rightarrow> y # outs, s''))"

locale bounded_fifo =
  fixes wf :: "'s \<Rightarrow> bool" and contents :: "'s \<Rightarrow> 'a list" and cap :: "'s \<Rightarrow> nat"
    and push :: "'s \<Rightarrow> 'a \<Rightarrow> 'r \<times> 's" and accepted :: "'r \<Rightarrow> bool" and pop :: "'s \<Rightarrow> 'a option \<times> 's"
  assumes bounded: "wf s \<Longrightarrow> length (contents s) \<le> cap s"
    and push_room: "\<lbrakk>wf s; length (contents s) < cap s; push s x = (r, s')\<rbrakk>
      \<Longrightarrow> accepted r \<and> wf s' \<and> contents s' = contents s @ [x] \<and> cap s' = cap s"
    and push_full: "\<lbrakk>wf s; length (contents s) = cap s; push s x = (r, s')\<rbrakk> \<Longrightarrow> \<not> accepted r \<and> s' = s"
    and pop_empty: "\<lbrakk>wf s; contents s = []\<rbrakk> \<Longrightarrow> pop s = (None, s)"
    and pop_front: "\<lbrakk>wf s; contents s = x # xs\<rbrakk>
      \<Longrightarrow> \<exists>s'. pop s = (Some x, s') \<and> wf s' \<and> contents s' = xs \<and> cap s' = cap s"
begin

lemma run_fifo:
  assumes "wf s" "fifo_run push accepted pop s ops = (ins, outs, s')"
  shows "contents s @ ins = outs @ contents s' \<and> wf s' \<and> cap s' = cap s \<and> length (contents s') \<le> cap s"
  using assms
proof (induction ops arbitrary: s ins outs s')
  case Nil
  then show ?case using bounded by auto
next
  case (Cons op ops)
  show ?case
  proof (cases op)
    case (Some x)
    obtain r t where p: "push s x = (r, t)" by fastforce
    obtain i' o' u where q: "fifo_run push accepted pop t ops = (i', o', u)" by (metis prod_cases3)
    have "length (contents s) < cap s \<or> length (contents s) = cap s" using bounded [OF Cons.prems(1)] by linarith
    then show ?thesis
      using Cons.IH [OF _ q] push_room [OF Cons.prems(1) _ p] push_full [OF Cons.prems(1) _ p] Cons.prems p q Some
      by (auto split: if_splits)
  next
    case None
    show ?thesis
    proof (cases "contents s")
      case Nil
      then have p: "pop s = (None, s)" using pop_empty Cons.prems by blast
      obtain i' o' u where q: "fifo_run push accepted pop s ops = (i', o', u)" by (metis prod_cases3)
      show ?thesis using Cons.IH [OF _ q] Cons.prems p q None by auto
    next
      case (Cons y ys)
      then obtain t where p: "pop s = (Some y, t)" "wf t" "contents t = ys" "cap t = cap s"
        using pop_front Cons.prems by blast
      obtain i' o' u where q: "fifo_run push accepted pop t ops = (i', o', u)" by (metis prod_cases3)
      show ?thesis using Cons.IH [OF p(2) q] Cons.prems p q None \<open>contents s = y # ys\<close> by auto
    qed
  qed
qed

end

section \<open>The shared layout\<close>

record 'a ring =
  ring_slots :: "'a option list"
  ring_head :: u64
  ring_tail :: u64

text \<open>\<open>pos & (N - 1)\<close>, with \<open>N\<close> the length of the slot array.\<close>

definition ring_index :: "'a ring \<Rightarrow> u64 \<Rightarrow> nat" where
  "ring_index r pos = unat (pos AND (of_nat (length (ring_slots r)) - 1))"

definition ring_put :: "'a ring \<Rightarrow> 'a \<Rightarrow> 'a ring" where
  "ring_put r x = r\<lparr>ring_slots := (ring_slots r)[ring_index r (ring_tail r) := Some x], ring_tail := ring_tail r + 1\<rparr>"

definition ring_take :: "'a ring \<Rightarrow> 'a option \<times> 'a ring" where
  "ring_take r = (ring_slots r ! ring_index r (ring_head r),
     r\<lparr>ring_slots := (ring_slots r)[ring_index r (ring_head r) := None], ring_head := ring_head r + 1\<rparr>)"

definition ring_new :: "nat \<Rightarrow> 'a ring" where
  "ring_new n = \<lparr>ring_slots = replicate n None, ring_head = 0, ring_tail = 0\<rparr>"

text \<open>
  The queue a ring stands for, and its invariant: the slot count is a power of two (the
  compile-time assertion of every \<open>new\<close>), the occupied positions are the ones from head to
  tail.
\<close>

definition ring_size :: "'a ring \<Rightarrow> nat" where
  "ring_size r = unat (ring_tail r - ring_head r)"

definition ring_list :: "'a ring \<Rightarrow> 'a list" where
  "ring_list r = map (\<lambda>i. the (ring_slots r ! ring_index r (ring_head r + of_nat i))) [0..<ring_size r]"

definition ring_cap :: "'a ring \<Rightarrow> nat" where
  "ring_cap r = length (ring_slots r)"

definition pow2_cap :: "nat \<Rightarrow> bool" where
  "pow2_cap n \<longleftrightarrow> (\<exists>k < 63. n = 2 ^ k)"

definition ring_wf :: "'a ring \<Rightarrow> bool" where
  "ring_wf r \<longleftrightarrow> pow2_cap (ring_cap r) \<and> ring_size r \<le> ring_cap r \<and>
     (\<forall>i < ring_size r. ring_slots r ! ring_index r (ring_head r + of_nat i) \<noteq> None)"

lemma ring_index_mod:
  assumes "pow2_cap (ring_cap r)"
  shows "ring_index r w = unat w mod ring_cap r"
proof -
  obtain k where k: "length (ring_slots r) = 2 ^ k" using assms by (auto simp: pow2_cap_def ring_cap_def)
  have "(of_nat (2 ^ k) - 1 :: u64) = mask k" by (simp add: mask_eq_exp_minus_1)
  then show ?thesis using k by (simp add: ring_index_def ring_cap_def unat_and_mask_eq)
qed

lemma unat_add_of_nat_mod:
  assumes "n = 2 ^ k" "k < 63"
  shows "unat (w + of_nat i :: u64) mod n = (unat w + i) mod n"
proof -
  have d: "n dvd 2 ^ 64" using assms le_imp_power_dvd [of k 64 "2 :: nat"] by simp
  have "unat (w + of_nat i) = (unat w + i) mod 2 ^ 64"
    by (simp add: unat_word_ariths unat_of_nat mod_add_right_eq)
  then show ?thesis using d by (simp add: mod_mod_cancel)
qed

lemma ring_index_add:
  assumes "pow2_cap (ring_cap r)"
  shows "ring_index r (w + of_nat i) = (unat w + i) mod ring_cap r"
  using assms unat_add_of_nat_mod by (auto simp: ring_index_mod pow2_cap_def)

lemma ring_new_wf:
  assumes "pow2_cap n"
  shows "ring_wf (ring_new n)" "ring_list (ring_new n) = []" "ring_cap (ring_new n) = n"
  using assms by (simp_all add: ring_wf_def ring_new_def ring_size_def ring_list_def ring_cap_def)

lemma length_ring_list [simp]: "length (ring_list r) = ring_size r"
  by (simp add: ring_list_def)

lemma ring_cap_pos: "pow2_cap (ring_cap r) \<Longrightarrow> 0 < ring_cap r \<and> ring_cap r < 2 ^ 63"
  using power_strict_increasing [of _ 63 "2 :: nat"] by (auto simp: pow2_cap_def)

lemma ring_put_ok:
  assumes "ring_wf r" "ring_size r < ring_cap r"
  shows "ring_wf (ring_put r x)" "ring_list (ring_put r x) = ring_list r @ [x]" "ring_cap (ring_put r x) = ring_cap r"
proof -
  let ?n = "ring_cap r" and ?h = "unat (ring_head r)" and ?s = "ring_size r" and ?r = "ring_put r x"
  have p2: "pow2_cap ?n" using assms(1) by (simp add: ring_wf_def)
  note pos = ring_cap_pos [OF p2]
  show c: "ring_cap ?r = ?n" by (simp add: ring_put_def ring_cap_def)
  have tail: "ring_tail r = ring_head r + of_nat ?s" by (simp add: ring_size_def)
  have idx: "ring_index r (ring_head r + of_nat i) = (?h + i) mod ?n" for i by (rule ring_index_add [OF p2])
  have idx': "ring_index ?r (ring_head ?r + of_nat i) = (?h + i) mod ?n" for i
    using ring_index_add [of ?r "ring_head r" i] p2 c by (simp add: ring_put_def)
  have size: "ring_size ?r = Suc ?s"
  proof -
    have "ring_tail ?r - ring_head ?r = of_nat (Suc ?s)" by (simp add: ring_put_def tail)
    moreover have "Suc ?s < 2 ^ 64" using assms(2) pos by simp
    ultimately show ?thesis using unat_of_nat_u64 [of "Suc ?s"] by (metis ring_size_def)
  qed
  have slots: "ring_slots ?r ! ((?h + i) mod ?n) = (if i = ?s then Some x else ring_slots r ! ((?h + i) mod ?n))"
    if "i \<le> ?s" for i
    using mod_window_inj [of ?h i ?n ?s] that assms(2) pos tail idx
    by (auto simp: ring_put_def nth_list_update ring_cap_def)
  show "ring_wf ?r"
    using assms p2 c size slots unfolding ring_wf_def idx idx' by (simp add: less_Suc_eq_le)
  show "ring_list ?r = ring_list r @ [x]"
    unfolding ring_list_def size idx idx' by (auto simp: slots)
qed

lemma ring_take_ok:
  assumes "ring_wf r" "ring_list r = y # ys"
  shows "\<exists>r'. ring_take r = (Some y, r') \<and> ring_wf r' \<and> ring_list r' = ys \<and> ring_cap r' = ring_cap r"
proof -
  let ?n = "ring_cap r" and ?h = "unat (ring_head r)" and ?s = "ring_size r" and ?r = "snd (ring_take r)"
  have p2: "pow2_cap ?n" using assms(1) by (simp add: ring_wf_def)
  note pos = ring_cap_pos [OF p2]
  have s: "?s = Suc (length ys)" using assms(2) length_ring_list [of r] by simp
  have sn: "?s \<le> ?n" using assms(1) by (simp add: ring_wf_def)
  have c: "ring_cap ?r = ?n" by (simp add: ring_take_def ring_cap_def)
  have idx: "ring_index r (ring_head r + of_nat i) = (?h + i) mod ?n" for i by (rule ring_index_add [OF p2])
  have i0: "ring_index r (ring_head r) = ?h mod ?n" using idx [of 0] by simp
  have idx': "ring_index ?r (ring_head ?r + of_nat i) = (?h + Suc i) mod ?n" for i
    using ring_index_add [of ?r "ring_head r" "Suc i"] p2 c by (simp add: ring_take_def ac_simps)
  have some: "ring_slots r ! ((?h + i) mod ?n) \<noteq> None" if "i < ?s" for i
    using assms(1) that unfolding ring_wf_def idx by blast
  have size: "ring_size ?r = length ys"
  proof -
    have b: "length ys < 2 ^ 64" "Suc (length ys) < 2 ^ 64" using s sn pos by simp_all
    have "ring_tail r - ring_head r = of_nat (Suc (length ys))"
      using s unat_of_nat_u64 [OF b(2)] by (simp only: ring_size_def word_unat_eq_iff)
    then have "ring_tail ?r - ring_head ?r = of_nat (length ys)" by (simp add: ring_take_def algebra_simps)
    then show ?thesis using unat_of_nat_u64 [OF b(1)] by (simp only: ring_size_def)
  qed
  have slots: "ring_slots ?r ! ((?h + Suc i) mod ?n) = ring_slots r ! ((?h + Suc i) mod ?n)" if "i < length ys" for i
    using mod_window_inj [of ?h "Suc i" ?n 0] that s sn pos i0 by (auto simp: ring_take_def nth_list_update ring_cap_def)
  have l: "map (\<lambda>i. the (ring_slots r ! ((?h + i) mod ?n))) [0..<Suc (length ys)] = y # ys"
    using assms(2) unfolding ring_list_def idx s .
  have "the (ring_slots r ! (?h mod ?n)) = y" using l by (simp add: upt_conv_Cons del: upt_Suc)
  then have "fst (ring_take r) = Some y" using some [of 0] s i0 by (auto simp: ring_take_def)
  moreover have "ring_wf ?r"
    unfolding ring_wf_def idx' c size using p2 s sn some slots by (metis Suc_leD Suc_less_eq)
  moreover have "ring_list ?r = ys"
  proof -
    have "ring_list ?r = map (\<lambda>i. the (ring_slots r ! ((?h + Suc i) mod ?n))) [0..<length ys]"
      unfolding ring_list_def size idx' by (rule map_cong) (use slots in \<open>simp_all del: add_Suc_right\<close>)
    also have "\<dots> = ys" using l by (simp add: upt_conv_Cons map_Suc_upt [symmetric] o_def del: upt_Suc)
    finally show ?thesis .
  qed
  ultimately show ?thesis using c by (metis prod.collapse)
qed

section \<open>Spawn inbox\<close>

definition SPAWN_INBOX_CAPACITY :: nat where "SPAWN_INBOX_CAPACITY = 64"

record 'c pending_spawn =
  pd_parent :: task_ref
  pd_cell :: 'c

definition spawn_inbox_new :: "'c pending_spawn ring" where
  "spawn_inbox_new = ring_new SPAWN_INBOX_CAPACITY"

text \<open>A full inbox returns the request to the caller.\<close>

definition spawn_inbox_push :: "'c pending_spawn ring \<Rightarrow> 'c pending_spawn \<Rightarrow> 'c pending_spawn option \<times> 'c pending_spawn ring" where
  "spawn_inbox_push r request =
     (if length (ring_slots r) \<le> unat (ring_tail r - ring_head r) then (Some request, r)
      else (None, ring_put r request))"

definition spawn_inbox_pop :: "'c pending_spawn ring \<Rightarrow> 'c pending_spawn option \<times> 'c pending_spawn ring" where
  "spawn_inbox_pop r = (if ring_head r = ring_tail r then (None, r) else ring_take r)"

section \<open>Timer request inbox\<close>

definition TIMER_INBOX_CAPACITY :: nat where "TIMER_INBOX_CAPACITY = 64"

record timer_request =
  tq_task_ref :: task_ref
  tq_delay_ticks :: u64

definition timer_inbox_new :: "timer_request ring" where
  "timer_inbox_new = ring_new TIMER_INBOX_CAPACITY"

definition timer_inbox_push :: "timer_request ring \<Rightarrow> timer_request \<Rightarrow> bool \<times> timer_request ring" where
  "timer_inbox_push r request =
     (if length (ring_slots r) \<le> unat (ring_tail r - ring_head r) then (False, r)
      else (True, ring_put r request))"

definition timer_inbox_pop :: "timer_request ring \<Rightarrow> timer_request option \<times> timer_request ring" where
  "timer_inbox_pop r = (if ring_head r = ring_tail r then (None, r) else ring_take r)"

section \<open>Reap queue\<close>

definition REAP_QUEUE_CAPACITY :: nat where "REAP_QUEUE_CAPACITY = 64"

definition reap_queue_new :: "task_ref ring" where
  "reap_queue_new = ring_new REAP_QUEUE_CAPACITY"

definition reap_queue_push :: "task_ref ring \<Rightarrow> task_ref \<Rightarrow> bool \<times> task_ref ring" where
  "reap_queue_push r parent =
     (if length (ring_slots r) \<le> unat (ring_tail r - ring_head r) then (False, r)
      else (True, ring_put r parent))"

definition reap_queue_pop :: "task_ref ring \<Rightarrow> task_ref option \<times> task_ref ring" where
  "reap_queue_pop r = (if ring_head r = ring_tail r then (None, r) else ring_take r)"

section \<open>The rings are bounded FIFOs\<close>

lemma ring_size_0: "ring_head r = ring_tail r \<longleftrightarrow> ring_list r = []"
proof -
  have "ring_list r = [] \<longleftrightarrow> ring_size r = 0" using length_ring_list [of r] by (metis length_0_conv)
  then show ?thesis by (auto simp: ring_size_def unat_eq_0)
qed

lemma ring_bounded: "ring_wf r \<Longrightarrow> ring_size r \<le> ring_cap r"
  by (simp add: ring_wf_def)

lemmas ring_fifo_defs = spawn_inbox_push_def spawn_inbox_pop_def timer_inbox_push_def timer_inbox_pop_def
  reap_queue_push_def reap_queue_pop_def

interpretation spawn_fifo: bounded_fifo ring_wf ring_list ring_cap spawn_inbox_push "\<lambda>r. r = None" spawn_inbox_pop
proof
  fix s :: "'a pending_spawn ring" and x xs
  assume "ring_wf s" "ring_list s = x # xs"
  then show "\<exists>s'. spawn_inbox_pop s = (Some x, s') \<and> ring_wf s' \<and> ring_list s' = xs \<and> ring_cap s' = ring_cap s"
    using ring_take_ok [of s x xs] ring_size_0 [of s] by (simp add: ring_fifo_defs)
qed (auto simp: ring_fifo_defs ring_bounded ring_size_def [symmetric] ring_cap_def [symmetric] ring_put_ok ring_size_0
    split: if_splits)

interpretation timer_fifo: bounded_fifo ring_wf ring_list ring_cap timer_inbox_push "\<lambda>r. r" timer_inbox_pop
proof
  fix s :: "timer_request ring" and x xs
  assume "ring_wf s" "ring_list s = x # xs"
  then show "\<exists>s'. timer_inbox_pop s = (Some x, s') \<and> ring_wf s' \<and> ring_list s' = xs \<and> ring_cap s' = ring_cap s"
    using ring_take_ok [of s x xs] ring_size_0 [of s] by (simp add: ring_fifo_defs)
qed (auto simp: ring_fifo_defs ring_bounded ring_size_def [symmetric] ring_cap_def [symmetric] ring_put_ok ring_size_0
    split: if_splits)

interpretation reap_fifo: bounded_fifo ring_wf ring_list ring_cap reap_queue_push "\<lambda>r. r" reap_queue_pop
proof
  fix s :: "task_ref ring" and x xs
  assume "ring_wf s" "ring_list s = x # xs"
  then show "\<exists>s'. reap_queue_pop s = (Some x, s') \<and> ring_wf s' \<and> ring_list s' = xs \<and> ring_cap s' = ring_cap s"
    using ring_take_ok [of s x xs] ring_size_0 [of s] by (simp add: ring_fifo_defs)
qed (auto simp: ring_fifo_defs ring_bounded ring_size_def [symmetric] ring_cap_def [symmetric] ring_put_ok ring_size_0
    split: if_splits)

lemma caps_pow2: "pow2_cap SPAWN_INBOX_CAPACITY" "pow2_cap TIMER_INBOX_CAPACITY" "pow2_cap REAP_QUEUE_CAPACITY"
  unfolding pow2_cap_def SPAWN_INBOX_CAPACITY_def TIMER_INBOX_CAPACITY_def REAP_QUEUE_CAPACITY_def
  by (rule exI [of _ 6], simp)+

lemma spawn_inbox_new_ok: "ring_wf spawn_inbox_new" "ring_list spawn_inbox_new = []" "ring_cap spawn_inbox_new = SPAWN_INBOX_CAPACITY"
  by (simp_all add: spawn_inbox_new_def ring_new_wf caps_pow2)

lemma timer_inbox_new_ok: "ring_wf timer_inbox_new" "ring_list timer_inbox_new = []" "ring_cap timer_inbox_new = TIMER_INBOX_CAPACITY"
  by (simp_all add: timer_inbox_new_def ring_new_wf caps_pow2)

lemma reap_queue_new_ok: "ring_wf reap_queue_new" "ring_list reap_queue_new = []" "ring_cap reap_queue_new = REAP_QUEUE_CAPACITY"
  by (simp_all add: reap_queue_new_def ring_new_wf caps_pow2)


section \<open>Properties\<close>

text \<open>
  C36. The spawn inbox is a lossless bounded FIFO: over any history of pushes and pops from a
  fresh inbox, including across the wrap-around of its positions, the values popped followed
  by the values still queued are exactly the accepted pushes in order, at most 64 are queued,
  and a push is refused only when 64 are.
\<close>

theorem spawn_inbox_fifo:
  assumes "fifo_run spawn_inbox_push (\<lambda>r. r = None) spawn_inbox_pop spawn_inbox_new ops = (ins, outs, s)"
  shows "ins = outs @ ring_list s \<and> length (ring_list s) \<le> SPAWN_INBOX_CAPACITY \<and>
    (fst (spawn_inbox_push s x) \<noteq> None \<longleftrightarrow> length (ring_list s) = SPAWN_INBOX_CAPACITY)"
proof -
  note R = spawn_fifo.run_fifo [OF spawn_inbox_new_ok(1) assms]
  then have w: "ring_wf s" "ring_cap s = SPAWN_INBOX_CAPACITY" "ring_size s \<le> SPAWN_INBOX_CAPACITY"
    by (simp_all add: spawn_inbox_new_ok)
  obtain r s' where p: "spawn_inbox_push s x = (r, s')" by fastforce
  show ?thesis
    using R w p spawn_fifo.push_room [OF w(1) _ p] spawn_fifo.push_full [OF w(1) _ p]
    by (cases "ring_size s = SPAWN_INBOX_CAPACITY") (auto simp: spawn_inbox_new_ok)
qed

theorem spawn_inbox_fifo_witness:
  "(let p = \<lparr>pd_parent = 1, pd_cell = CHR ''x''\<rparr>; q = \<lparr>pd_parent = 2, pd_cell = CHR ''y''\<rparr>;
        (ins, outs, s) = fifo_run spawn_inbox_push (\<lambda>r. r = None) spawn_inbox_pop spawn_inbox_new [Some p, Some q, None]
    in ins = [p, q] \<and> outs = [p] \<and> ins = outs @ ring_list s)"
proof -
  let ?p = "\<lparr>pd_parent = 1, pd_cell = CHR ''x''\<rparr>" and ?q = "\<lparr>pd_parent = 2, pd_cell = CHR ''y''\<rparr>"
  obtain ins outs s where r: "fifo_run spawn_inbox_push (\<lambda>r. r = None) spawn_inbox_pop spawn_inbox_new [Some ?p, Some ?q, None] = (ins, outs, s)"
    by (metis prod_cases3)
  then have "ins = [?p, ?q]" "outs = [?p]"
    by (auto simp: spawn_inbox_push_def spawn_inbox_pop_def spawn_inbox_new_def ring_new_def ring_put_def ring_take_def
        ring_index_def SPAWN_INBOX_CAPACITY_def nth_list_update split: if_splits)
  with spawn_inbox_fifo [OF r] r show ?thesis by (simp add: Let_def)
qed

end
