(* ===== verification/Task_State.thy ===== *)
theory Task_State
  imports Kwokka_Prelude
begin

text \<open>
  The task lifecycle word (\<open>task/cell/state.rs\<close>): the states, their discriminants, the
  atomic operations of \<open>AtomicTaskState\<close>, and their interleavings by any number of threads.
  Every access is a single atomic operation on one word or on the claim flag, so a step of
  a thread is one such operation.
\<close>

section \<open>States\<close>

datatype task_state = Sleeping | Woken | Running | Done | Cancelled | Failed | Taken | Retired

fun is_terminal :: "task_state \<Rightarrow> bool" where
  "is_terminal Cancelled = True"
| "is_terminal Failed = True"
| "is_terminal Taken = True"
| "is_terminal Retired = True"
| "is_terminal _ = False"

fun task_state_u8 :: "task_state \<Rightarrow> u8" where
  "task_state_u8 Sleeping = 0"
| "task_state_u8 Woken = 1"
| "task_state_u8 Running = 2"
| "task_state_u8 Done = 3"
| "task_state_u8 Cancelled = 4"
| "task_state_u8 Failed = 5"
| "task_state_u8 Taken = 6"
| "task_state_u8 Retired = 7"

definition task_state_from_u8 :: "u8 \<Rightarrow> task_state exec" where
  "task_state_from_u8 value =
     (if value = 0 then Ret Sleeping else if value = 1 then Ret Woken
      else if value = 2 then Ret Running else if value = 3 then Ret Done
      else if value = 4 then Ret Cancelled else if value = 5 then Ret Failed
      else if value = 6 then Ret Taken else if value = 7 then Ret Retired else Panic)"

text \<open>
  The atomic byte only ever holds the discriminant of a state, so decoding it never reaches
  the panic arm; the model below stores the state itself.
\<close>

lemma task_state_from_u8_cast [simp]: "task_state_from_u8 (task_state_u8 s) = Ret s"
  by (cases s) (simp_all add: task_state_from_u8_def)

lemma task_state_u8_inj: "task_state_u8 s = task_state_u8 t \<longleftrightarrow> s = t"
  using task_state_from_u8_cast by (metis exec.inject)

section \<open>The atomic cell\<close>

record atomic_task_state =
  ats_state :: task_state
  ats_claim :: bool

definition ats_new :: atomic_task_state where
  "ats_new = \<lparr>ats_state = Sleeping, ats_claim = False\<rparr>"

definition ats_load :: "atomic_task_state \<Rightarrow> task_state" where
  "ats_load a = ats_state a"

definition try_claim :: "atomic_task_state \<Rightarrow> bool \<times> atomic_task_state" where
  "try_claim a = (if ats_claim a then (False, a) else (True, a\<lparr>ats_claim := True\<rparr>))"

definition release_claim :: "atomic_task_state \<Rightarrow> atomic_task_state" where
  "release_claim a = a\<lparr>ats_claim := False\<rparr>"

text \<open>The strong compare-exchange of the state.\<close>

definition ats_cas :: "task_state \<Rightarrow> task_state \<Rightarrow> atomic_task_state \<Rightarrow> (task_state + unit) \<times> atomic_task_state" where
  "ats_cas expected next a =
     (if ats_state a = expected then (Inr (), a\<lparr>ats_state := next\<rparr>) else (Inl (ats_state a), a))"

definition try_retire :: "atomic_task_state \<Rightarrow> (task_state + unit) \<times> atomic_task_state" where
  "try_retire = ats_cas Sleeping Retired"

definition try_retire_woken :: "atomic_task_state \<Rightarrow> (task_state + unit) \<times> atomic_task_state" where
  "try_retire_woken = ats_cas Woken Retired"

text \<open>
  \<open>transition\<close>: a weak compare-exchange in a loop. The list says which attempts fail
  although the state matches; once it is exhausted the exchange is exact.
\<close>

fun transition_loop :: "bool list \<Rightarrow> task_state \<Rightarrow> task_state \<Rightarrow> atomic_task_state \<Rightarrow> (task_state + unit) \<times> atomic_task_state" where
  "transition_loop [] expected next a = ats_cas expected next a"
| "transition_loop (spurious # rest) expected next a =
     (if ats_state a = expected \<and> \<not> spurious then (Inr (), a\<lparr>ats_state := next\<rparr>)
      else let current = ats_state a in
        if is_terminal current \<or> current \<noteq> expected then (Inl current, a)
        else transition_loop rest expected next a)"

definition transition_spurious :: "bool list \<Rightarrow> task_state \<Rightarrow> task_state \<Rightarrow> atomic_task_state \<Rightarrow> (task_state + unit) \<times> atomic_task_state" where
  "transition_spurious sp expected next a =
     (if is_terminal expected then (Inl (ats_load a), a) else transition_loop sp expected next a)"

definition transition :: "task_state \<Rightarrow> task_state \<Rightarrow> atomic_task_state \<Rightarrow> (task_state + unit) \<times> atomic_task_state" where
  "transition = transition_spurious []"

text \<open>Spurious failures never change the outcome.\<close>

lemma transition_spurious_eq: "transition_spurious sp e n a = transition e n a"
proof -
  have "transition_loop sp e n a = ats_cas e n a" if "\<not> is_terminal e"
    using that by (induction sp e n a rule: transition_loop.induct) (auto simp: ats_cas_def Let_def)
  then show ?thesis by (simp add: transition_spurious_def transition_def)
qed

lemma transition_cas: "transition e n a = (if is_terminal e then (Inl (ats_state a), a) else ats_cas e n a)"
  by (simp add: transition_def transition_spurious_def ats_load_def)

definition ats_wake :: "atomic_task_state \<Rightarrow> (task_state + unit) \<times> atomic_task_state" where
  "ats_wake = transition Sleeping Woken"

definition try_start_poll :: "atomic_task_state \<Rightarrow> (task_state + unit) \<times> atomic_task_state" where
  "try_start_poll = transition Woken Running"

definition ats_complete :: "atomic_task_state \<Rightarrow> (task_state + unit) \<times> atomic_task_state" where
  "ats_complete = transition Running Done"

definition ats_suspend :: "atomic_task_state \<Rightarrow> (task_state + unit) \<times> atomic_task_state" where
  "ats_suspend = transition Running Sleeping"

text \<open>Without interference the loop of \<open>cancel\<close> runs once: its exchange expects the state it has just loaded.\<close>

definition ats_cancel :: "atomic_task_state \<Rightarrow> bool \<times> atomic_task_state" where
  "ats_cancel a = (let current = ats_load a in
     if current \<in> {Sleeping, Woken, Running} then (True, snd (transition current Cancelled a))
     else (False, a))"

lemmas ats_defs = ats_load_def ats_cas_def try_retire_def try_retire_woken_def transition_cas ats_wake_def
  try_start_poll_def ats_complete_def ats_suspend_def ats_cancel_def Let_def

lemma transition_Ok:
  "fst (transition e n a) = Inr () \<longleftrightarrow> \<not> is_terminal e \<and> ats_state a = e"
  by (auto simp: transition_cas ats_cas_def)

lemma ats_cancel_iff: "fst (ats_cancel a) \<longleftrightarrow> ats_state a \<in> {Sleeping, Woken, Running}"
  by (auto simp: ats_cancel_def ats_load_def Let_def)

section \<open>Interleavings\<close>

text \<open>
  The operations that end with one exchange: the wrappers of \<open>transition\<close>, the exchange of
  \<open>take_output\<close> (\<open>task/cell/erased.rs\<close>), and the two retirements.
\<close>

datatype exchange = XWake | XStartPoll | XComplete | XSuspend | XTake | XRetire | XRetireWoken

fun exchange_op :: "exchange \<Rightarrow> atomic_task_state \<Rightarrow> (task_state + unit) \<times> atomic_task_state" where
  "exchange_op XWake = ats_wake"
| "exchange_op XStartPoll = try_start_poll"
| "exchange_op XComplete = ats_complete"
| "exchange_op XSuspend = ats_suspend"
| "exchange_op XTake = transition Done Taken"
| "exchange_op XRetire = try_retire"
| "exchange_op XRetireWoken = try_retire_woken"

text \<open>The wrappers of \<open>transition\<close> use the weak exchange, the retirements the strong one.\<close>

fun weak_exchange :: "exchange \<Rightarrow> bool" where
  "weak_exchange XRetire \<longleftrightarrow> False"
| "weak_exchange XRetireWoken \<longleftrightarrow> False"
| "weak_exchange _ \<longleftrightarrow> True"

text \<open>One pass of the loop of \<open>cancel\<close> with the state it loaded: it returns, or loads again.\<close>

definition cancel_pass :: "task_state \<Rightarrow> atomic_task_state \<Rightarrow> bool option \<times> atomic_task_state" where
  "cancel_pass current a =
     (if current \<in> {Sleeping, Woken, Running} then
        (case transition current Cancelled a of
           (Inr _, a') \<Rightarrow> (Some True, a')
         | (Inl _, a') \<Rightarrow> (None, a'))
      else (Some False, a))"

lemma cancel_pass_loaded: "cancel_pass (ats_load a) a = (Some (fst (ats_cancel a)), snd (ats_cancel a))"
  by (auto simp: cancel_pass_def ats_defs)

text \<open>
  Where a thread stands: outside the cell, before the exchange of an operation, at the load of
  \<open>cancel\<close>, in a pass of \<open>cancel\<close> with the state it loaded, or back with a result.
\<close>

datatype ats_pc = Idle | Exchanging exchange | CancelLoad | CancelPass task_state
  | ExchangeRet exchange "task_state + unit" | CancelRet bool

fun at_rest :: "ats_pc \<Rightarrow> bool" where
  "at_rest Idle \<longleftrightarrow> True"
| "at_rest (ExchangeRet x r) \<longleftrightarrow> True"
| "at_rest (CancelRet b) \<longleftrightarrow> True"
| "at_rest _ \<longleftrightarrow> False"

text \<open>
  The cell, the threads, and two ghosts: who changed the state by which operation, with the states
  of the cell before and after, and the thread whose \<open>try_claim\<close> succeeded and that has not
  released.
\<close>

datatype winner = ByExchange exchange | ByCancel

type_synonym won = "nat \<times> winner \<times> task_state \<times> task_state"

record ats_conc =
  cc_cell :: atomic_task_state
  cc_pc :: "nat \<Rightarrow> ats_pc"
  cc_log :: "won list"
  cc_owner :: "nat option"

definition ats_conc_init :: ats_conc where
  "ats_conc_init = \<lparr>cc_cell = ats_new, cc_pc = (\<lambda>_. Idle), cc_log = [], cc_owner = None\<rparr>"

definition cc_goto :: "nat \<Rightarrow> ats_pc \<Rightarrow> ats_conc \<Rightarrow> ats_conc" where
  "cc_goto t pc c = c\<lparr>cc_pc := (cc_pc c)(t := pc)\<rparr>"

definition cc_won :: "nat \<Rightarrow> winner \<Rightarrow> ats_pc \<Rightarrow> atomic_task_state \<Rightarrow> ats_conc \<Rightarrow> ats_conc" where
  "cc_won t w pc cell c = c\<lparr>cc_cell := cell, cc_pc := (cc_pc c)(t := pc),
     cc_log := cc_log c @ [(t, w, ats_state (cc_cell c), ats_state cell)]\<rparr>"

text \<open>
  One atomic access of a thread inside an operation. An attempt of a weak exchange that would
  succeed may fail spuriously: the loop of \<open>transition\<close> then tries again with the same arguments.
\<close>

definition ats_act :: "bool \<Rightarrow> nat \<Rightarrow> ats_conc \<Rightarrow> ats_conc" where
  "ats_act spurious t c = (case cc_pc c t of
     Exchanging x \<Rightarrow> (case exchange_op x (cc_cell c) of
         (Inr u, cell) \<Rightarrow> if spurious \<and> weak_exchange x then c
                         else cc_won t (ByExchange x) (ExchangeRet x (Inr u)) cell c
       | (Inl s, cell) \<Rightarrow> cc_goto t (ExchangeRet x (Inl s)) (c\<lparr>cc_cell := cell\<rparr>))
   | CancelLoad \<Rightarrow> cc_goto t (CancelPass (ats_load (cc_cell c))) c
   | CancelPass current \<Rightarrow> (case cancel_pass current (cc_cell c) of
         (Some True, cell) \<Rightarrow> if spurious then c else cc_won t ByCancel (CancelRet True) cell c
       | (Some False, cell) \<Rightarrow> cc_goto t (CancelRet False) (c\<lparr>cc_cell := cell\<rparr>)
       | (None, cell) \<Rightarrow> cc_goto t CancelLoad (c\<lparr>cc_cell := cell\<rparr>))
   | _ \<Rightarrow> c)"

inductive ats_step :: "nat \<Rightarrow> ats_conc \<Rightarrow> ats_conc \<Rightarrow> bool" where
  call_exchange: "at_rest (cc_pc c t) \<Longrightarrow> ats_step t c (cc_goto t (Exchanging x) c)"
| call_cancel: "at_rest (cc_pc c t) \<Longrightarrow> ats_step t c (cc_goto t CancelLoad c)"
| act: "ats_step t c (ats_act spurious t c)"
| claim_won: "at_rest (cc_pc c t) \<Longrightarrow> try_claim (cc_cell c) = (True, cell') \<Longrightarrow>
    ats_step t c (c\<lparr>cc_cell := cell', cc_owner := Some t\<rparr>)"
| claim_lost: "at_rest (cc_pc c t) \<Longrightarrow> try_claim (cc_cell c) = (False, cell') \<Longrightarrow>
    ats_step t c (c\<lparr>cc_cell := cell'\<rparr>)"
| release: "at_rest (cc_pc c t) \<Longrightarrow> cc_owner c = Some t \<Longrightarrow>
    ats_step t c (c\<lparr>cc_cell := release_claim (cc_cell c), cc_owner := None\<rparr>)"

definition ats_any :: "ats_conc \<Rightarrow> ats_conc \<Rightarrow> bool" where
  "ats_any c c' \<longleftrightarrow> (\<exists>t. ats_step t c c')"

section \<open>The lifecycle\<close>

text \<open>The specification: the edges of the lifecycle, each with the operation that may take it.\<close>

fun lifecycle_edge :: "winner \<Rightarrow> task_state \<Rightarrow> task_state \<Rightarrow> bool" where
  "lifecycle_edge (ByExchange XWake) e n \<longleftrightarrow> e = Sleeping \<and> n = Woken"
| "lifecycle_edge (ByExchange XStartPoll) e n \<longleftrightarrow> e = Woken \<and> n = Running"
| "lifecycle_edge (ByExchange XComplete) e n \<longleftrightarrow> e = Running \<and> n = Done"
| "lifecycle_edge (ByExchange XSuspend) e n \<longleftrightarrow> e = Running \<and> n = Sleeping"
| "lifecycle_edge (ByExchange XTake) e n \<longleftrightarrow> e = Done \<and> n = Taken"
| "lifecycle_edge (ByExchange XRetire) e n \<longleftrightarrow> e = Sleeping \<and> n = Retired"
| "lifecycle_edge (ByExchange XRetireWoken) e n \<longleftrightarrow> e = Woken \<and> n = Retired"
| "lifecycle_edge ByCancel e n \<longleftrightarrow> (e = Sleeping \<or> e = Woken \<or> e = Running) \<and> n = Cancelled"

fun lifecycle_path :: "task_state \<Rightarrow> won list \<Rightarrow> task_state \<Rightarrow> bool" where
  "lifecycle_path s [] u \<longleftrightarrow> s = u"
| "lifecycle_path s ((t, w, e, n) # es) u \<longleftrightarrow> e = s \<and> lifecycle_edge w e n \<and> lifecycle_path n es u"

definition wins :: "winner \<Rightarrow> won list \<Rightarrow> nat" where
  "wins w es = length (filter (\<lambda>(t, w', e, n). w' = w) es)"

definition ends :: "won list \<Rightarrow> nat" where
  "ends es = length (filter (\<lambda>(t, w, e, n). is_terminal n) es)"

lemma counts_simps [simp]:
  "wins w [] = 0" "wins w ((t, w', e, n) # es) = (if w' = w then Suc (wins w es) else wins w es)"
  "ends [] = 0" "ends ((t, w', e, n) # es) = (if is_terminal n then Suc (ends es) else ends es)"
  by (simp_all add: wins_def ends_def)

lemma lifecycle_path_snoc:
  "lifecycle_path s (es @ [(t, w, e, n)]) u \<longleftrightarrow> lifecycle_path s es e \<and> lifecycle_edge w e n \<and> n = u"
  by (induction s es u rule: lifecycle_path.induct) auto

lemma edge_live: "lifecycle_edge w e n \<Longrightarrow> \<not> is_terminal e"
  by (cases "(w, e, n)" rule: lifecycle_edge.cases) auto

lemma path_from_terminal: "lifecycle_path s es u \<Longrightarrow> is_terminal s \<Longrightarrow> es = [] \<and> u = s"
  using edge_live by (cases "(s, es, u)" rule: lifecycle_path.cases) auto

text \<open>
  What a path says of its length: each kind of edge that enters a state is balanced by the edges
  that leave it, and at most the last edge is terminal.
\<close>

lemma path_ends: "lifecycle_path s es u \<Longrightarrow> \<not> is_terminal s \<Longrightarrow> ends es = of_bool (is_terminal u)"
proof (induction s es u rule: lifecycle_path.induct)
  case (2 s t w e n es u)
  then show ?case using path_from_terminal [of n es u] by (cases "is_terminal n") auto
qed simp

lemma path_balance:
  assumes "lifecycle_path s es u"
  shows "wins (ByExchange XStartPoll) es + of_bool (u = Woken) \<le> wins (ByExchange XWake) es + of_bool (s = Woken)"
    "wins (ByExchange XWake) es + of_bool (s = Woken) \<le> wins (ByExchange XStartPoll) es + of_bool (u = Woken) + ends es"
    "wins (ByExchange XComplete) es + wins (ByExchange XSuspend) es + of_bool (u = Running)
       \<le> wins (ByExchange XStartPoll) es + of_bool (s = Running)"
    "wins (ByExchange XStartPoll) es + of_bool (s = Running)
       \<le> wins (ByExchange XComplete) es + wins (ByExchange XSuspend) es + of_bool (u = Running) + ends es"
    "wins (ByExchange XComplete) es + of_bool (s = Done) = wins (ByExchange XTake) es + of_bool (u = Done)"
    "wins (ByExchange XTake) es \<le> ends es"
proof -
  let ?P = "\<lambda>s es u.
    wins (ByExchange XStartPoll) es + of_bool (u = Woken) \<le> wins (ByExchange XWake) es + of_bool (s = Woken) \<and>
    wins (ByExchange XWake) es + of_bool (s = Woken) \<le> wins (ByExchange XStartPoll) es + of_bool (u = Woken) + ends es \<and>
    wins (ByExchange XComplete) es + wins (ByExchange XSuspend) es + of_bool (u = Running)
       \<le> wins (ByExchange XStartPoll) es + of_bool (s = Running) \<and>
    wins (ByExchange XStartPoll) es + of_bool (s = Running)
       \<le> wins (ByExchange XComplete) es + wins (ByExchange XSuspend) es + of_bool (u = Running) + ends es \<and>
    wins (ByExchange XComplete) es + of_bool (s = Done) = wins (ByExchange XTake) es + of_bool (u = Done) \<and>
    wins (ByExchange XTake) es \<le> ends es"
  have "?P s es u" using assms
  proof (induction s es u rule: lifecycle_path.induct)
    case (2 s t w e n es u)
    then show ?case by (cases "(w, e, n)" rule: lifecycle_edge.cases) auto
  qed simp
  then show "wins (ByExchange XStartPoll) es + of_bool (u = Woken) \<le> wins (ByExchange XWake) es + of_bool (s = Woken)"
    "wins (ByExchange XWake) es + of_bool (s = Woken) \<le> wins (ByExchange XStartPoll) es + of_bool (u = Woken) + ends es"
    "wins (ByExchange XComplete) es + wins (ByExchange XSuspend) es + of_bool (u = Running)
       \<le> wins (ByExchange XStartPoll) es + of_bool (s = Running)"
    "wins (ByExchange XStartPoll) es + of_bool (s = Running)
       \<le> wins (ByExchange XComplete) es + wins (ByExchange XSuspend) es + of_bool (u = Running) + ends es"
    "wins (ByExchange XComplete) es + of_bool (s = Done) = wins (ByExchange XTake) es + of_bool (u = Done)"
    "wins (ByExchange XTake) es \<le> ends es" by blast+
qed

text \<open>The operations take only their edges, and a refused one changes nothing.\<close>

lemma exchange_op_edge:
  assumes "exchange_op x a = (r, a')"
  shows "case r of Inr u \<Rightarrow> lifecycle_edge (ByExchange x) (ats_state a) (ats_state a') \<and> ats_claim a' = ats_claim a
    | Inl s \<Rightarrow> a' = a \<and> s = ats_state a"
  using assms by (cases x) (auto simp: ats_defs split: if_splits)

lemma cancel_pass_edge:
  assumes "cancel_pass e a = (r, a')"
  shows "if r = Some True then lifecycle_edge ByCancel (ats_state a) (ats_state a') \<and> ats_claim a' = ats_claim a else a' = a"
  using assms by (auto simp: cancel_pass_def ats_defs split: if_splits)

section \<open>The invariant\<close>

fun told :: "nat \<Rightarrow> ats_pc \<Rightarrow> won list \<Rightarrow> bool" where
  "told t (ExchangeRet x (Inr u)) es \<longleftrightarrow> (\<exists>e n. (t, ByExchange x, e, n) \<in> set es)"
| "told t (CancelRet True) es \<longleftrightarrow> (\<exists>e n. (t, ByCancel, e, n) \<in> set es)"
| "told t _ es \<longleftrightarrow> True"

lemma told_append: "told t pc es \<Longrightarrow> told t pc (es @ es')"
  by (cases "(t, pc, es)" rule: told.cases) auto

definition ats_inv :: "ats_conc \<Rightarrow> bool" where
  "ats_inv c \<longleftrightarrow> lifecycle_path Sleeping (cc_log c) (ats_state (cc_cell c)) \<and>
     (\<forall>t. told t (cc_pc c t) (cc_log c)) \<and> (ats_claim (cc_cell c) \<longleftrightarrow> cc_owner c \<noteq> None)"

lemma cc_goto_inv: "ats_inv c \<Longrightarrow> told t pc (cc_log c) \<Longrightarrow> ats_inv (cc_goto t pc c)"
  by (auto simp: ats_inv_def cc_goto_def)

lemma cc_won_inv:
  assumes "ats_inv c" "lifecycle_edge w (ats_state (cc_cell c)) (ats_state cell)" "ats_claim cell = ats_claim (cc_cell c)"
    "\<And>e n es. told t pc (es @ [(t, w, e, n)])"
  shows "ats_inv (cc_won t w pc cell c)"
  using assms by (auto simp: ats_inv_def cc_won_def lifecycle_path_snoc told_append)

lemma ats_act_inv:
  assumes inv: "ats_inv c"
  shows "ats_inv (ats_act spurious t c)"
proof (cases "cc_pc c t")
  case (Exchanging x)
  obtain r cell where x: "exchange_op x (cc_cell c) = (r, cell)" by fastforce
  show ?thesis
  proof (cases r)
    case (Inl s)
    then show ?thesis using exchange_op_edge [OF x] Exchanging x cc_goto_inv [OF inv, of t "ExchangeRet x (Inl s)"]
      by (simp add: ats_act_def)
  next
    case (Inr u)
    then show ?thesis using exchange_op_edge [OF x] Exchanging x inv cc_won_inv [OF inv, of "ByExchange x" cell t "ExchangeRet x (Inr u)"]
      by (auto simp: ats_act_def)
  qed
next
  case CancelLoad
  then show ?thesis using cc_goto_inv [OF inv] by (simp add: ats_act_def)
next
  case (CancelPass e)
  obtain r cell where x: "cancel_pass e (cc_cell c) = (r, cell)" by fastforce
  consider "r = Some True" | "r = Some False" | "r = None" by (cases r) auto
  then show ?thesis
  proof cases
    case 1
    then show ?thesis using cancel_pass_edge [OF x] CancelPass x inv cc_won_inv [OF inv, of ByCancel cell t "CancelRet True"]
      by (auto simp: ats_act_def)
  qed (use cancel_pass_edge [OF x] CancelPass x cc_goto_inv [OF inv] in \<open>auto simp: ats_act_def\<close>)
qed (use inv in \<open>simp_all add: ats_act_def\<close>)

lemma ats_step_inv: "ats_step t c c' \<Longrightarrow> ats_inv c \<Longrightarrow> ats_inv c'"
proof (induction rule: ats_step.induct)
  case (act t c spurious)
  then show ?case by (intro ats_act_inv)
qed (auto simp: ats_inv_def cc_goto_def try_claim_def release_claim_def split: if_splits)

lemma ats_reach_inv: "ats_any\<^sup>*\<^sup>* ats_conc_init c \<Longrightarrow> ats_inv c"
proof (induction rule: rtranclp_induct)
  case base
  then show ?case by (simp add: ats_inv_def ats_conc_init_def ats_new_def)
next
  case (step c c')
  then show ?case using ats_step_inv by (auto simp: ats_any_def)
qed

lemma ats_act_log: "\<exists>es. cc_log (ats_act spurious t c) = cc_log c @ es"
  by (auto simp: ats_act_def cc_goto_def cc_won_def split: ats_pc.splits prod.splits sum.splits option.splits bool.splits)

lemma ats_step_log: "ats_step t c c' \<Longrightarrow> \<exists>es. cc_log c' = cc_log c @ es"
  by (induction rule: ats_step.induct) (simp_all add: cc_goto_def ats_act_log)

lemma lifecycle_path_append: "lifecycle_path s (es @ es') u \<longleftrightarrow> (\<exists>v. lifecycle_path s es v \<and> lifecycle_path v es' u)"
  by (induction s es u rule: lifecycle_path.induct) auto

lemma lifecycle_path_unique: "lifecycle_path s es u \<Longrightarrow> lifecycle_path s es v \<Longrightarrow> u = v"
  by (induction s es u rule: lifecycle_path.induct) auto

lemma ats_terminal_frozen:
  assumes run: "ats_any\<^sup>*\<^sup>* c c'" and inv: "ats_inv c" and t: "is_terminal (ats_state (cc_cell c))"
  shows "ats_state (cc_cell c') = ats_state (cc_cell c) \<and> cc_log c' = cc_log c"
proof -
  have "ats_inv c' \<and> (\<exists>es. cc_log c' = cc_log c @ es)" using run
  proof (induction rule: rtranclp_induct)
    case (step d d')
    then obtain u where "ats_step u d d'" by (auto simp: ats_any_def)
    then show ?case using step.IH ats_step_inv ats_step_log by fastforce
  qed (simp add: inv)
  then obtain es where "cc_log c' = cc_log c @ es" "lifecycle_path Sleeping (cc_log c @ es) (ats_state (cc_cell c'))"
    by (auto simp: ats_inv_def)
  moreover then have "lifecycle_path (ats_state (cc_cell c)) es (ats_state (cc_cell c'))"
    using inv lifecycle_path_unique by (fastforce simp: ats_inv_def lifecycle_path_append)
  ultimately show ?thesis using path_from_terminal [OF _ t] by auto
qed

section \<open>A thread that runs alone\<close>

fun solo :: "bool list \<Rightarrow> nat \<Rightarrow> ats_conc \<Rightarrow> ats_conc" where
  "solo [] t c = c"
| "solo (spurious # rest) t c = solo rest t (ats_act spurious t c)"

lemma solo_rest [simp]: "at_rest (cc_pc c t) \<Longrightarrow> solo fl t c = c"
  by (induction fl) (auto simp: ats_act_def split: ats_pc.splits)

lemma solo_exchange:
  assumes "cc_pc c t = Exchanging x" "1 \<le> count_list fl False"
  shows "cc_pc (solo fl t c) t = ExchangeRet x (fst (exchange_op x (cc_cell c))) \<and>
    cc_cell (solo fl t c) = snd (exchange_op x (cc_cell c))"
  using assms(2)
proof (induction fl)
  case (Cons b fl)
  obtain r cell where x: "exchange_op x (cc_cell c) = (r, cell)" by fastforce
  show ?case
  proof (cases "b \<and> weak_exchange x \<and> r = Inr ()")
    case True
    then have "ats_act b t c = c" using assms(1) x by (simp add: ats_act_def)
    then show ?thesis using Cons True by simp
  next
    case False
    then have "cc_pc (ats_act b t c) t = ExchangeRet x r \<and> cc_cell (ats_act b t c) = cell"
      using assms(1) x by (cases r) (auto simp: ats_act_def cc_goto_def cc_won_def)
    then show ?thesis using x by simp
  qed
qed simp

lemma solo_pass:
  assumes "cc_pc c t = CancelPass (ats_load (cc_cell c))" "1 \<le> count_list fl False"
  shows "cc_pc (solo fl t c) t = CancelRet (fst (ats_cancel (cc_cell c))) \<and> cc_cell (solo fl t c) = snd (ats_cancel (cc_cell c))"
  using assms(2)
proof (induction fl)
  case (Cons b fl)
  note x = cancel_pass_loaded [of "cc_cell c"]
  show ?case
  proof (cases "b \<and> fst (ats_cancel (cc_cell c))")
    case True
    then have "ats_act b t c = c" using assms(1) x by (simp add: ats_act_def)
    then show ?thesis using Cons True by simp
  next
    case False
    then have "cc_pc (ats_act b t c) t = CancelRet (fst (ats_cancel (cc_cell c))) \<and> cc_cell (ats_act b t c) = snd (ats_cancel (cc_cell c))"
      using assms(1) x by (auto simp: ats_act_def cc_goto_def cc_won_def split: bool.splits)
    then show ?thesis by simp
  qed
qed simp

lemma solo_load:
  assumes "cc_pc c t = CancelLoad" "2 \<le> count_list fl False"
  shows "cc_pc (solo fl t c) t = CancelRet (fst (ats_cancel (cc_cell c))) \<and> cc_cell (solo fl t c) = snd (ats_cancel (cc_cell c))"
proof (cases fl)
  case (Cons b rest)
  let ?c = "ats_act b t c"
  have "cc_pc ?c t = CancelPass (ats_load (cc_cell ?c))" "cc_cell ?c = cc_cell c"
    using assms(1) by (simp_all add: ats_act_def cc_goto_def)
  then show ?thesis using solo_pass [of ?c t rest] assms(2) Cons by (auto split: if_splits)
qed (use assms in simp)

lemma solo_stale:
  assumes "cc_pc c t = CancelPass e" "3 \<le> count_list fl False"
  shows "at_rest (cc_pc (solo fl t c) t)"
proof (cases "e \<in> {Sleeping, Woken, Running} \<and> e \<noteq> ats_state (cc_cell c)")
  case True
  obtain b rest where fl: "fl = b # rest" using assms(2) by (cases fl) auto
  have "cc_pc (ats_act b t c) t = CancelLoad"
    using True assms(1) by (auto simp: ats_act_def cancel_pass_def transition_cas ats_cas_def cc_goto_def)
  then show ?thesis using solo_load [of "ats_act b t c" t rest] assms(2) fl by (auto split: if_splits)
next
  case False
  show ?thesis
  proof (cases "e = ats_state (cc_cell c)")
    case True
    then show ?thesis using solo_pass [of c t fl] assms by (simp add: ats_load_def)
  next
    case no: False
    obtain b rest where fl: "fl = b # rest" using assms(2) by (cases fl) auto
    have "cc_pc (ats_act b t c) t = CancelRet False"
      using no False assms(1) by (auto simp: ats_act_def cancel_pass_def cc_goto_def)
    then show ?thesis using fl by simp
  qed
qed

section \<open>Properties\<close>

text \<open>
  C11. Whatever the interleaving of wakes, polls, completions, suspensions, cancellations,
  retirements and output takes by any number of threads, spurious failures included: the changes of
  the state form one path of the lifecycle graph from \<open>Sleeping\<close> to the current state, each taken by
  the operation the graph names; at most one of them is terminal, and a terminal state is final; a
  task completes at most once; every poll is started by a wake of its own and is over before the next
  one starts; an operation or a \<open>cancel\<close> that reports success has made its change; and the claim flag
  is set exactly while one thread holds the claim.
\<close>

theorem task_state_races:
  assumes "ats_any\<^sup>*\<^sup>* ats_conc_init c"
  shows "lifecycle_path Sleeping (cc_log c) (ats_state (cc_cell c)) \<and> ends (cc_log c) \<le> 1 \<and>
    (is_terminal (ats_state (cc_cell c)) \<longrightarrow>
      (\<forall>c'. ats_any\<^sup>*\<^sup>* c c' \<longrightarrow> ats_state (cc_cell c') = ats_state (cc_cell c) \<and> cc_log c' = cc_log c)) \<and>
    wins (ByExchange XComplete) (cc_log c) \<le> 1 \<and>
    wins (ByExchange XStartPoll) (cc_log c) \<le> wins (ByExchange XWake) (cc_log c) \<and>
    wins (ByExchange XWake) (cc_log c) \<le> wins (ByExchange XStartPoll) (cc_log c) + 1 \<and>
    wins (ByExchange XComplete) (cc_log c) + wins (ByExchange XSuspend) (cc_log c) \<le> wins (ByExchange XStartPoll) (cc_log c) \<and>
    wins (ByExchange XStartPoll) (cc_log c) \<le> wins (ByExchange XComplete) (cc_log c) + wins (ByExchange XSuspend) (cc_log c) + 1 \<and>
    (\<forall>t. told t (cc_pc c t) (cc_log c)) \<and> (ats_claim (cc_cell c) \<longleftrightarrow> cc_owner c \<noteq> None)"
proof -
  have i: "ats_inv c" using ats_reach_inv [OF assms] .
  then have p: "lifecycle_path Sleeping (cc_log c) (ats_state (cc_cell c))"
    and told: "\<forall>t. told t (cc_pc c t) (cc_log c)" "ats_claim (cc_cell c) \<longleftrightarrow> cc_owner c \<noteq> None"
    unfolding ats_inv_def by blast+
  have frozen: "\<forall>c'. ats_any\<^sup>*\<^sup>* c c' \<longrightarrow> ats_state (cc_cell c') = ats_state (cc_cell c) \<and> cc_log c' = cc_log c"
    if "is_terminal (ats_state (cc_cell c))"
    using ats_terminal_frozen [OF _ i that] by blast
  have e: "ends (cc_log c) = of_bool (is_terminal (ats_state (cc_cell c)))" using path_ends [OF p] by simp
  then have "ends (cc_log c) \<le> 1" by simp
  moreover have "wins (ByExchange XComplete) (cc_log c) \<le> 1"
    using path_balance(5,6) [OF p] e by (cases "ats_state (cc_cell c)") simp_all
  moreover have "wins (ByExchange XStartPoll) (cc_log c) \<le> wins (ByExchange XWake) (cc_log c)"
    using path_balance(1) [OF p] by simp
  moreover have "wins (ByExchange XWake) (cc_log c) \<le> wins (ByExchange XStartPoll) (cc_log c) + 1"
    using path_balance(2) [OF p] e by (cases "ats_state (cc_cell c)") simp_all
  moreover have "wins (ByExchange XComplete) (cc_log c) + wins (ByExchange XSuspend) (cc_log c) \<le> wins (ByExchange XStartPoll) (cc_log c)"
    using path_balance(3) [OF p] by simp
  moreover have "wins (ByExchange XStartPoll) (cc_log c) \<le> wins (ByExchange XComplete) (cc_log c) + wins (ByExchange XSuspend) (cc_log c) + 1"
    using path_balance(4) [OF p] e by (cases "ats_state (cc_cell c)") simp_all
  ultimately show ?thesis using p told frozen by (intro conjI impI)
qed

text \<open>Thread 0 wakes the task while thread 1 is already cancelling it; the cancellation retries and wins.\<close>

abbreviation race :: "task_state \<Rightarrow> ats_pc \<Rightarrow> ats_pc \<Rightarrow> won list \<Rightarrow> ats_conc" where
  "race st p0 p1 lg \<equiv> \<lparr>cc_cell = \<lparr>ats_state = st, ats_claim = False\<rparr>,
     cc_pc = (\<lambda>_. Idle)(0 := p0, Suc 0 := p1), cc_log = lg, cc_owner = None\<rparr>"

abbreviation woke :: won where
  "woke \<equiv> (0, ByExchange XWake, Sleeping, Woken)"

definition demo_stale :: ats_conc where
  "demo_stale = race Woken (ExchangeRet XWake (Inr ())) (CancelPass Sleeping) [woke]"

definition demo_race :: ats_conc where
  "demo_race = race Cancelled (ExchangeRet XWake (Inr ())) (CancelRet True) [woke, (1, ByCancel, Woken, Cancelled)]"

lemma ats_any_act: "ats_any\<^sup>*\<^sup>* c d \<Longrightarrow> ats_act spurious t d = d' \<Longrightarrow> ats_any\<^sup>*\<^sup>* c d'"
  using act by (metis ats_any_def rtranclp.rtrancl_into_rtrancl)

lemma ats_any_step: "ats_any\<^sup>*\<^sup>* c d \<Longrightarrow> ats_step t d d' \<Longrightarrow> ats_any\<^sup>*\<^sup>* c d'"
  by (metis ats_any_def rtranclp.rtrancl_into_rtrancl)

lemmas race_eval = ats_act_def cc_goto_def cc_won_def ats_defs cancel_pass_def fun_upd_twist

lemma demo_stale_reached: "ats_any\<^sup>*\<^sup>* ats_conc_init demo_stale"
proof -
  have "ats_conc_init = race Sleeping Idle Idle []" by (auto simp: ats_conc_init_def ats_new_def)
  then have "ats_any\<^sup>*\<^sup>* ats_conc_init (race Sleeping Idle Idle [])" by simp
  from ats_any_step [OF this call_cancel [of _ "Suc 0"]] have "ats_any\<^sup>*\<^sup>* ats_conc_init (race Sleeping Idle CancelLoad [])"
    by (simp add: cc_goto_def)
  from ats_any_act [OF this, of False "Suc 0"] have "ats_any\<^sup>*\<^sup>* ats_conc_init (race Sleeping Idle (CancelPass Sleeping) [])"
    by (simp add: race_eval)
  from ats_any_step [OF this call_exchange [of _ 0 XWake]]
  have "ats_any\<^sup>*\<^sup>* ats_conc_init (race Sleeping (Exchanging XWake) (CancelPass Sleeping) [])"
    by (simp add: cc_goto_def fun_upd_twist)
  from ats_any_act [OF this, of False 0] show ?thesis
    unfolding demo_stale_def by (simp add: race_eval)
qed

lemma demo_race_run: "solo [False, False, False] 1 demo_stale = demo_race"
  by (simp add: demo_stale_def demo_race_def race_eval)

lemma solo_reached: "ats_any\<^sup>*\<^sup>* c d \<Longrightarrow> ats_any\<^sup>*\<^sup>* c (solo fl t d)"
  by (induction fl arbitrary: d) (auto intro: ats_any_act)

lemma demo_race_reached: "ats_any\<^sup>*\<^sup>* ats_conc_init demo_race"
  using solo_reached [OF demo_stale_reached] unfolding demo_race_run [symmetric] .

theorem task_state_races_witness:
  "ats_any\<^sup>*\<^sup>* ats_conc_init demo_race \<and> lifecycle_path Sleeping (cc_log demo_race) Cancelled \<and>
   (\<nexists>c'. ats_any\<^sup>*\<^sup>* demo_race c' \<and> ats_state (cc_cell c') \<noteq> Cancelled)"
  using task_state_races [OF demo_race_reached] demo_race_reached by (simp add: demo_race_def)

text \<open>
  C37. The loops are obstruction-free. Wherever a thread is inside an operation, once it has run
  alone through three accesses that were not spurious failures it is back, whichever other attempts of
  the weak exchange failed spuriously in between; and if it was at the start of the operation, it is
  back with the result and the cell of the sequential operation (\<open>ats_cancel\<close> for \<open>cancel\<close>).
\<close>

theorem task_state_solo:
  assumes "3 \<le> count_list spurious False"
  shows "at_rest (cc_pc (solo spurious t c) t) \<and>
    (\<forall>x. cc_pc c t = Exchanging x \<longrightarrow> cc_pc (solo spurious t c) t = ExchangeRet x (fst (exchange_op x (cc_cell c))) \<and>
       cc_cell (solo spurious t c) = snd (exchange_op x (cc_cell c))) \<and>
    (cc_pc c t = CancelLoad \<longrightarrow> cc_pc (solo spurious t c) t = CancelRet (fst (ats_cancel (cc_cell c))) \<and>
       cc_cell (solo spurious t c) = snd (ats_cancel (cc_cell c)))"
  using assms solo_exchange [of c t _ spurious] solo_load [of c t spurious] solo_stale [of c t _ spurious]
  by (cases "cc_pc c t") simp_all

theorem task_state_solo_witness:
  "cc_pc demo_stale 1 = CancelPass Sleeping \<and> at_rest (cc_pc (solo [True, False, True, False, True, False] 1 demo_stale) 1)"
  using task_state_solo [of "[True, False, True, False, True, False]" 1 demo_stale]
  by (simp add: demo_stale_def del: solo.simps)

end
