(* ===== verification/Pip_Id.thy ===== *)
theory Pip_Id
  imports Kwokka_Prelude
begin

text \<open>
  Task identities of \<open>kwokka-core/src/id\<close>: the packed 128-bit \<open>Pip\<close>, its fields, how ids are
  minted from the process-wide counter or from a worker's own counter, and the namespace.
\<close>

section \<open>Layout\<close>

type_synonym pip = u128
type_synonym namespace = u32

definition SEQ_SHIFT :: nat where "SEQ_SHIFT = 80"
definition SEQ_BITS :: nat where "SEQ_BITS = 48"
definition SEQ_MASK :: u128 where "SEQ_MASK = push_bit SEQ_SHIFT (push_bit SEQ_BITS 1 - 1)"
definition DEPTH_SHIFT :: nat where "DEPTH_SHIFT = 64"
definition DEPTH_BITS :: nat where "DEPTH_BITS = 16"
definition DEPTH_MASK :: u128 where "DEPTH_MASK = push_bit DEPTH_SHIFT (push_bit DEPTH_BITS 1 - 1)"
definition VERSION_SHIFT :: nat where "VERSION_SHIFT = 40"
definition CURRENT_VERSION :: u8 where "CURRENT_VERSION = 0"
definition WORKER_SHIFT :: nat where "WORKER_SHIFT = 2"
definition WORKER_BITS :: nat where "WORKER_BITS = 38"
definition WORKER_MASK :: u128 where "WORKER_MASK = push_bit WORKER_SHIFT (push_bit WORKER_BITS 1 - 1)"

definition NAMESPACE_ROOT :: namespace where "NAMESPACE_ROOT = 0"

section \<open>Fields\<close>

definition pip_as_u128 :: "pip \<Rightarrow> u128" where
  "pip_as_u128 p = p"

definition pip_depth :: "pip \<Rightarrow> u16" where
  "pip_depth p = ucast (drop_bit DEPTH_SHIFT (p AND DEPTH_MASK))"

definition pip_seq :: "pip \<Rightarrow> u64" where
  "pip_seq p = ucast (drop_bit SEQ_SHIFT (p AND SEQ_MASK))"

definition pip_worker_id :: "pip \<Rightarrow> u64" where
  "pip_worker_id p = ucast (drop_bit WORKER_SHIFT (p AND WORKER_MASK))"

section \<open>Minting\<close>

definition pip_pack :: "u64 \<Rightarrow> u16 \<Rightarrow> u64 \<Rightarrow> u128" where
  "pip_pack seq depth worker =
     (let worker_masked = ucast worker AND (push_bit WORKER_BITS 1 - 1) in
      push_bit SEQ_SHIFT (ucast seq) OR push_bit DEPTH_SHIFT (ucast depth)
        OR push_bit VERSION_SHIFT (ucast CURRENT_VERSION) OR push_bit WORKER_SHIFT worker_masked)"

text \<open>The process-wide counter is state: minting returns the id and the next value.\<close>

definition next_seq :: "u64 \<Rightarrow> u64 \<times> u64" where
  "next_seq global = (global, global + 1)"

definition pip_root :: "u64 \<Rightarrow> pip \<times> u64" where
  "pip_root global = (case next_seq global of (s, global') \<Rightarrow> (pip_pack s 0 0, global'))"

definition pip_root_on :: "u64 \<Rightarrow> u64 \<Rightarrow> pip \<times> u64" where
  "pip_root_on worker_id global = (case next_seq global of (s, global') \<Rightarrow> (pip_pack s 0 worker_id, global'))"

definition pip_issue :: "u64 \<Rightarrow> u64 \<Rightarrow> pip" where
  "pip_issue worker_id seq = pip_pack seq 0 worker_id"

datatype pip_error = DepthOverflow

definition pip_child :: "pip \<Rightarrow> u64 \<Rightarrow> (pip_error + pip) \<times> u64" where
  "pip_child p global =
     (if pip_depth p = 0xFFFF then (Inl DepthOverflow, global)
      else case next_seq global of (s, global') \<Rightarrow>
        (Inr (pip_pack s (pip_depth p + 1) (pip_worker_id p)), global'))"

definition pip_detached :: "u64 \<Rightarrow> pip \<times> u64" where
  "pip_detached global = pip_root global"

definition is_parent_of :: "pip \<Rightarrow> pip \<Rightarrow> bool" where
  "is_parent_of p q \<longleftrightarrow> pip_depth p + 1 = pip_depth q \<and> pip_seq p < pip_seq q"

definition is_ancestor_of :: "pip \<Rightarrow> pip \<Rightarrow> bool" where
  "is_ancestor_of p q \<longleftrightarrow> pip_depth p < pip_depth q \<and> pip_seq p < pip_seq q"

section \<open>Round trips\<close>

lemmas pip_consts = SEQ_SHIFT_def SEQ_BITS_def SEQ_MASK_def DEPTH_SHIFT_def DEPTH_BITS_def DEPTH_MASK_def
  VERSION_SHIFT_def CURRENT_VERSION_def WORKER_SHIFT_def WORKER_BITS_def WORKER_MASK_def

lemma ones_mask: "push_bit n 1 - 1 = (mask n :: u128)"
  by (simp add: mask_eq_exp_minus_1)

lemma pip_masks:
  "SEQ_MASK = push_bit 80 (mask 48)" "DEPTH_MASK = push_bit 64 (mask 16)" "WORKER_MASK = push_bit 2 (mask 38)"
  unfolding pip_consts ones_mask by (rule refl)+

lemma pip_pack_mask:
  "pip_pack s d w = push_bit 80 (ucast s) OR push_bit 64 (ucast d) OR push_bit 2 (ucast w AND mask 38)"
  unfolding pip_pack_def Let_def SEQ_SHIFT_def DEPTH_SHIFT_def WORKER_SHIFT_def WORKER_BITS_def VERSION_SHIFT_def
    CURRENT_VERSION_def ones_mask by simp

lemmas pip_bits = pip_masks pip_pack_mask SEQ_SHIFT_def DEPTH_SHIFT_def WORKER_SHIFT_def

lemma pip_seq_pack [packs]: "pip_seq (pip_pack s d w) = take_bit 48 s"
  by (rule bit_word_eqI) (auto simp: pip_seq_def pip_bits bit_simps dest: bit_imp_le_length)

lemma pip_depth_pack [packs]: "pip_depth (pip_pack s d w) = d"
  by (rule bit_word_eqI) (auto simp: pip_depth_def pip_bits bit_simps dest: bit_imp_le_length)

lemma pip_worker_pack [packs]: "pip_worker_id (pip_pack s d w) = take_bit 38 w"
  by (rule bit_word_eqI) (auto simp: pip_worker_id_def pip_bits bit_simps dest: bit_imp_le_length)

lemma take_bit_u64_id: "unat w < 2 ^ n \<Longrightarrow> take_bit n (w :: u64) = w"
  by (simp add: take_bit_eq_mod unsigned_take_bit_eq word_unat_eq_iff) (metis mod_less take_bit_eq_mod unsigned_take_bit_eq)

section \<open>Properties\<close>

text \<open>
  C38. Ids minted from a worker's own counter are unique while the counter stays below
  \<open>2 ^ 48\<close>: two of them coincide only when both the worker and the sequence number do, none
  is the reserved zero when counters start at one, and the fields read back.
\<close>

theorem pip_issue_unique:
  assumes "unat w < 2 ^ 38" "unat w' < 2 ^ 38" "unat s < 2 ^ 48" "unat s' < 2 ^ 48" "0 < s"
  shows "(pip_issue w s = pip_issue w' s' \<longleftrightarrow> w = w' \<and> s = s') \<and> pip_issue w s \<noteq> 0 \<and>
    pip_worker_id (pip_issue w s) = w \<and> pip_seq (pip_issue w s) = s \<and> pip_depth (pip_issue w s) = 0"
proof -
  have f: "pip_worker_id (pip_issue v t) = v" "pip_seq (pip_issue v t) = t"
    if "unat v < 2 ^ 38" "unat t < 2 ^ 48" for v t
    using that by (simp_all add: pip_issue_def packs take_bit_u64_id)
  have "pip_seq 0 = 0" by (simp add: pip_seq_def)
  then have "pip_issue w s \<noteq> 0" using f(2) [OF assms(1,3)] assms(5) by force
  moreover have "pip_issue w s = pip_issue w' s' \<longleftrightarrow> w = w' \<and> s = s'"
    using f [OF assms(1,3)] f [OF assms(2,4)] by metis
  ultimately show ?thesis using f [OF assms(1,3)] by (simp add: pip_issue_def packs)
qed

theorem pip_issue_unique_witness:
  "(pip_issue 3 1 = pip_issue 4 1 \<longleftrightarrow> (3 :: u64) = 4 \<and> (1 :: u64) = 1) \<and> pip_issue 3 1 \<noteq> 0 \<and> pip_worker_id (pip_issue 3 1) = 3"
  using pip_issue_unique [of 3 4 1 1] by simp

section \<open>Lineages\<close>

text \<open>
  A history of mints from the process-wide counter (\<open>GLOBAL_SEQ\<close>, which starts at one), with the
  index of the parent of every id minted by \<open>child\<close>.
\<close>

datatype mint = MintRoot | MintRootOn u64 | MintDetached | MintChild nat

fun mint_exec :: "(pip \<times> nat option) list \<times> u64 \<Rightarrow> mint \<Rightarrow> (pip \<times> nat option) list \<times> u64" where
  "mint_exec (ids, global) MintRoot = (case pip_root global of (p, global') \<Rightarrow> (ids @ [(p, None)], global'))"
| "mint_exec (ids, global) (MintRootOn w) = (case pip_root_on w global of (p, global') \<Rightarrow> (ids @ [(p, None)], global'))"
| "mint_exec (ids, global) MintDetached = (case pip_detached global of (p, global') \<Rightarrow> (ids @ [(p, None)], global'))"
| "mint_exec (ids, global) (MintChild i) =
     (if i < length ids then case pip_child (fst (ids ! i)) global of
          (Inr c, global') \<Rightarrow> (ids @ [(c, Some i)], global')
        | (Inl e, global') \<Rightarrow> (ids, global')
      else (ids, global))"

definition minted :: "mint list \<Rightarrow> (pip \<times> nat option) list \<times> u64" where
  "minted ms = foldl mint_exec ([], 1) ms"

definition begot :: "(pip \<times> nat option) list \<Rightarrow> (nat \<times> nat) set" where
  "begot ids = {(i, j). j < length ids \<and> snd (ids ! j) = Some i}"

definition parented :: "(pip \<times> nat option) list \<Rightarrow> nat \<Rightarrow> bool" where
  "parented ids j \<longleftrightarrow> (\<forall>i. snd (ids ! j) = Some i \<longrightarrow> i < j
     \<and> unat (pip_depth (fst (ids ! j))) = Suc (unat (pip_depth (fst (ids ! i))))
     \<and> pip_worker_id (fst (ids ! j)) = pip_worker_id (fst (ids ! i)))"

definition lineage_inv :: "(pip \<times> nat option) list \<times> u64 \<Rightarrow> bool" where
  "lineage_inv s \<longleftrightarrow> snd s = of_nat (Suc (length (fst s))) \<and>
     (\<forall>j<length (fst s). pip_seq (fst (fst s ! j)) = of_nat (Suc j) \<and> parented (fst s) j)"

lemma depth_Suc: "pip_depth p \<noteq> 0xFFFF \<Longrightarrow> unat (pip_depth p + 1) = Suc (unat (pip_depth p))"
proof -
  assume "pip_depth p \<noteq> 0xFFFF"
  then have "unat (pip_depth p) \<noteq> 65535" by (auto simp: word_unat_eq_iff)
  then have "unat (pip_depth p) + 1 < 2 ^ 16" using unat_u16_less [of "pip_depth p"] by simp
  then show ?thesis by (simp add: unat_word_ariths)
qed

lemma worker_stored: "take_bit 38 (pip_worker_id p) = pip_worker_id p"
  by (rule bit_word_eqI) (auto simp: pip_worker_id_def pip_bits bit_simps)

lemma lineage_append:
  assumes inv: "lineage_inv (ids, global)" and small: "Suc (length ids) < 2 ^ 48"
    and seq: "pip_seq p = take_bit 48 global" and par: "parented (ids @ [(p, par)]) (length ids)"
  shows "lineage_inv (ids @ [(p, par)], global + 1)"
proof -
  have g: "global = of_nat (Suc (length ids))" using inv by (simp add: lineage_inv_def)
  then have "unat global < 2 ^ 48" using small by (simp add: unat_of_nat del: of_nat_Suc)
  then have "pip_seq p = of_nat (Suc (length ids))" using seq g take_bit_u64_id by simp
  moreover have "parented (ids @ [(p, par)]) j = parented ids j" if "parented ids j" "j < length ids" for j
    using that by (auto simp: parented_def nth_append)
  ultimately show ?thesis using inv par g by (auto simp: lineage_inv_def nth_append less_Suc_eq)
qed

lemma mint_exec_inv:
  assumes inv: "lineage_inv s" and small: "Suc (length (fst s)) < 2 ^ 48"
  shows "lineage_inv (mint_exec s m) \<and> length (fst (mint_exec s m)) \<le> Suc (length (fst s))"
proof -
  obtain ids global where s: "s = (ids, global)" by fastforce
  note A = lineage_append [OF inv [unfolded s] small [unfolded s fst_conv]]
  have fresh: "parented (ids @ [(p, None)]) (length ids)" for p by (simp add: parented_def)
  show ?thesis
  proof (cases m)
    case (MintChild i)
    show ?thesis
    proof (cases "i < length ids \<and> pip_depth (fst (ids ! i)) \<noteq> 0xFFFF")
      case True
      let ?q = "fst (ids ! i)" let ?c = "pip_pack global (pip_depth ?q + 1) (pip_worker_id ?q)"
      have "parented (ids @ [(?c, Some i)]) (length ids)"
        using True depth_Suc by (simp add: parented_def nth_append packs worker_stored)
      then show ?thesis using True MintChild s A [of ?c "Some i"] by (simp add: pip_child_def next_seq_def packs)
    next
      case False
      then show ?thesis using MintChild s inv by (auto simp: pip_child_def)
    qed
  qed (use s A [OF _ fresh] in \<open>simp_all add: pip_root_def pip_root_on_def pip_detached_def next_seq_def packs\<close>)
qed

lemma minted_inv:
  assumes "length ms + 1 < 2 ^ 48"
  shows "lineage_inv (minted ms) \<and> length (fst (minted ms)) \<le> length ms"
  using assms
proof (induction ms rule: rev_induct)
  case Nil
  then show ?case by (simp add: minted_def lineage_inv_def)
next
  case (snoc m ms)
  then have "lineage_inv (minted ms)" "length (fst (minted ms)) \<le> length ms" by simp_all
  then show ?case using mint_exec_inv [of "minted ms" m] snoc.prems by (simp add: minted_def)
qed

lemma seq_less: "i < j \<Longrightarrow> Suc j < 2 ^ 48 \<Longrightarrow> (of_nat (Suc i) :: u64) < of_nat (Suc j)"
  by (simp add: word_less_nat_alt unat_of_nat del: of_nat_Suc)

text \<open>
  C39. Ids minted from the process-wide counter (by \<open>root\<close>, \<open>root_on\<close>, \<open>detached\<close> and \<open>child\<close>, in any
  order and fewer than \<open>2 ^ 48 - 1\<close> of them) are pairwise distinct; a child has its parent's worker and
  passes the parent filter against it; and every id passes the ancestor filter against all its
  descendants, at any distance.
\<close>

theorem pip_lineage:
  assumes "length ms + 1 < 2 ^ 48"
  shows "let ids = fst (minted ms) in distinct (map fst ids) \<and>
    (\<forall>(i, j) \<in> begot ids. is_parent_of (fst (ids ! i)) (fst (ids ! j)) \<and> pip_worker_id (fst (ids ! j)) = pip_worker_id (fst (ids ! i))) \<and>
    (\<forall>(i, j) \<in> (begot ids)\<^sup>+. is_ancestor_of (fst (ids ! i)) (fst (ids ! j)))"
proof -
  define ids where "ids = fst (minted ms)"
  have len: "Suc (length ids) < 2 ^ 48" and sq: "\<And>j. j < length ids \<Longrightarrow> pip_seq (fst (ids ! j)) = of_nat (Suc j)"
    and par: "\<And>j. j < length ids \<Longrightarrow> parented ids j"
    using minted_inv [OF assms] assms by (auto simp: ids_def lineage_inv_def)
  have lt: "pip_seq (fst (ids ! i)) < pip_seq (fst (ids ! j))" if "i < j" "j < length ids" for i j
    using seq_less [of i j] that len sq by simp
  have "fst (ids ! i) \<noteq> fst (ids ! j)" if "i < j" "j < length ids" for i j
    using lt [OF that] by auto
  then have "fst (ids ! i) \<noteq> fst (ids ! j)" if "i \<noteq> j" "i < length ids" "j < length ids" for i j
    using that by (metis nat_neq_iff)
  then have d: "distinct (map fst ids)" by (simp add: distinct_conv_nth)
  have edge: "i < j \<and> j < length ids \<and> unat (pip_depth (fst (ids ! j))) = Suc (unat (pip_depth (fst (ids ! i))))
      \<and> pip_worker_id (fst (ids ! j)) = pip_worker_id (fst (ids ! i))" if "(i, j) \<in> begot ids" for i j
    using that par [of j] by (auto simp: begot_def parented_def)
  have "is_parent_of (fst (ids ! i)) (fst (ids ! j)) \<and> pip_worker_id (fst (ids ! j)) = pip_worker_id (fst (ids ! i))"
    if "(i, j) \<in> begot ids" for i j
  proof -
    have "pip_depth (fst (ids ! i)) + 1 = pip_depth (fst (ids ! j))"
      using edge [OF that] unat_u16_less [of "pip_depth (fst (ids ! j))"] by (simp add: word_unat_eq_iff unat_word_ariths)
    then show ?thesis using edge [OF that] lt by (simp add: is_parent_of_def)
  qed
  moreover have "i < j \<and> j < length ids \<and> unat (pip_depth (fst (ids ! i))) < unat (pip_depth (fst (ids ! j)))"
    if "(i, j) \<in> (begot ids)\<^sup>+" for i j
    using that by (induction rule: trancl_induct) (use edge in fastforce)+
  then have "is_ancestor_of (fst (ids ! i)) (fst (ids ! j))" if "(i, j) \<in> (begot ids)\<^sup>+" for i j
    using that lt by (simp add: is_ancestor_of_def word_less_nat_alt)
  ultimately show ?thesis using d by (auto simp: Let_def ids_def)
qed

lemma demo_minted:
  "minted [MintRootOn 3, MintChild 0, MintRoot, MintChild 1]
     = ([(pip_pack 1 0 3, None), (pip_pack 2 1 3, Some 0), (pip_pack 3 0 0, None), (pip_pack 4 2 3, Some 1)], 5)"
  by (simp add: minted_def pip_root_on_def pip_root_def pip_child_def next_seq_def packs take_bit_u64_id)

theorem pip_lineage_witness:
  "is_ancestor_of (pip_pack 1 0 3) (pip_pack 4 2 3) \<and> is_parent_of (pip_pack 2 1 3) (pip_pack 4 2 3)"
proof -
  let ?ms = "[MintRootOn 3, MintChild 0, MintRoot, MintChild 1]"
  let ?ids = "[(pip_pack 1 0 3, None), (pip_pack 2 1 3, Some 0), (pip_pack 3 0 0, None), (pip_pack 4 2 3, Some 1)]"
  have b: "(0, 1) \<in> begot ?ids" "(1, 3) \<in> begot ?ids" by (simp_all add: begot_def)
  have anc: "(0, 3) \<in> (begot ?ids)\<^sup>+" by (rule trancl_into_trancl [OF r_into_trancl [OF b(1)] b(2)])
  have "length ?ms + 1 < 2 ^ 48" by simp
  note P = pip_lineage [OF this, unfolded demo_minted Let_def fst_conv]
  show ?thesis using bspec [OF conjunct2 [OF conjunct2 [OF P]] anc] bspec [OF conjunct1 [OF conjunct2 [OF P]] b(2)] by simp
qed

text \<open>
  Outside such a history the filters can miss a parent: the sequence number of an id issued from a
  worker's own counter is unrelated to the process-wide counter its child draws from.
\<close>

lemma issued_parent_missed:
  "\<exists>c. pip_child (pip_issue 1 100) 1 = (Inr c, 2) \<and> \<not> is_parent_of (pip_issue 1 100) c \<and> \<not> is_ancestor_of (pip_issue 1 100) c"
  by (simp add: pip_child_def pip_issue_def next_seq_def packs take_bit_u64_id is_parent_of_def is_ancestor_of_def)

text \<open>Minting a child is refused exactly at the deepest level, and then leaves the counter alone.\<close>

lemma pip_child_refused: "fst (pip_child p global) = Inl e \<longleftrightarrow> pip_depth p = 0xFFFF"
  "pip_depth p = 0xFFFF \<Longrightarrow> snd (pip_child p global) = global"
  by (cases e; simp add: pip_child_def next_seq_def)+

end
