(* ===== verification/Task_Cell.thy ===== *)
theory Task_Cell
  imports Task_State Slab Pip_Id
begin

text \<open>
  The task cell (\<open>task/cell\<close>): the header every scheduler pass reads and writes, the typed
  cell behind it (the output and the future, each of them possibly uninitialised), the
  functions of its vtable, and one poll of a task through its lifecycle.

  The future is code of the runtime's user: its poll is a parameter
  \<open>poll :: 'f \<Rightarrow> 'e \<Rightarrow> 'f \<times> 'o poll_result \<times> 'e\<close>, where \<open>'e\<close> is whatever the poll may act on.
  Half-initialised memory is an option, and reading or dropping an uninitialised half is
  undefined behaviour.
\<close>

section \<open>Header\<close>

record wake_data =
  wd_result :: u32
  wd_flags :: u32
  wd_buf_id :: u16
  wd_has_result :: bool

definition NO_BUF :: u16 where "NO_BUF = 0xFFFF"

definition WAKE_DATA_EMPTY :: wake_data where
  "WAKE_DATA_EMPTY = \<lparr>wd_result = 0, wd_flags = 0, wd_buf_id = NO_BUF, wd_has_result = False\<rparr>"

record task_header =
  th_state :: atomic_task_state
  th_pip :: pip
  th_namespace :: namespace
  th_first_child :: "task_ref option"
  th_next_sibling :: "task_ref option"
  th_wake_data :: wake_data
  th_in_flight_ops :: u16
  th_is_pinned :: bool
  th_is_remote_settled :: bool
  th_has_polled :: bool
  th_io_bound :: bool
  th_next_runnable :: "task_ref option"

definition task_header_new :: "pip \<Rightarrow> namespace \<Rightarrow> task_header" where
  "task_header_new pip ns = \<lparr>th_state = ats_new, th_pip = pip, th_namespace = ns, th_first_child = None,
     th_next_sibling = None, th_wake_data = WAKE_DATA_EMPTY, th_in_flight_ops = 0, th_is_pinned = False,
     th_is_remote_settled = False, th_has_polled = False, th_io_bound = False, th_next_runnable = None\<rparr>"

definition retire_in_flight_op :: "task_header \<Rightarrow> task_header" where
  "retire_in_flight_op h = h\<lparr>th_in_flight_ops := (if th_in_flight_ops h = 0 then 0 else th_in_flight_ops h - 1)\<rparr>"

definition store_io_result :: "u32 \<Rightarrow> u32 \<Rightarrow> u16 option \<Rightarrow> task_header \<Rightarrow> task_header" where
  "store_io_result result flags buf_id h = retire_in_flight_op (h\<lparr>th_wake_data :=
     \<lparr>wd_result = result, wd_flags = flags, wd_buf_id = (case buf_id of None \<Rightarrow> NO_BUF | Some b \<Rightarrow> b),
      wd_has_result = True\<rparr>\<rparr>)"

definition set_pip :: "pip \<Rightarrow> task_header \<Rightarrow> task_header" where
  "set_pip pip h = h\<lparr>th_pip := pip\<rparr>"

section \<open>Cell\<close>

record ('f, 'o) task_slot =
  ts_header :: task_header
  ts_output :: "'o option"
  ts_future :: "'f option"

definition task_slot_new :: "pip \<Rightarrow> namespace \<Rightarrow> 'f \<Rightarrow> ('f, 'o) task_slot" where
  "task_slot_new pip ns f = \<lparr>ts_header = task_header_new pip ns, ts_output = None, ts_future = Some f\<rparr>"

definition slot_state :: "('f, 'o) task_slot \<Rightarrow> task_state" where
  "slot_state s = ats_load (th_state (ts_header s))"

definition on_state :: "(atomic_task_state \<Rightarrow> 'r \<times> atomic_task_state) \<Rightarrow> ('f, 'o) task_slot \<Rightarrow> 'r \<times> ('f, 'o) task_slot" where
  "on_state op s = (case op (th_state (ts_header s)) of (r, a) \<Rightarrow> (r, s\<lparr>ts_header := (ts_header s)\<lparr>th_state := a\<rparr>\<rparr>))"

text \<open>What happens to the two halves: the events a client of the task can observe.\<close>

datatype ('f, 'o) cell_event = FutureDropped 'f | OutputDropped 'o | OutputMoved 'o

datatype 'o poll_result = Pending | Ready 'o

definition poll_fn :: "('f \<Rightarrow> 'e \<Rightarrow> 'f \<times> 'o poll_result \<times> 'e) \<Rightarrow> ('f, 'o) task_slot \<Rightarrow> 'e \<Rightarrow>
    (bool \<times> ('f, 'o) task_slot \<times> 'e \<times> ('f, 'o) cell_event list) exec" where
  "poll_fn poll s env = (case ts_future s of None \<Rightarrow> Undefined
     | Some f \<Rightarrow> (case poll f env of
         (f', Pending, env') \<Rightarrow> Ret (False, s\<lparr>ts_future := Some f'\<rparr>, env', [])
       | (f', Ready out, env') \<Rightarrow> Ret (True, s\<lparr>ts_output := Some out, ts_future := None\<rparr>, env', [FutureDropped f'])))"

definition drop_in_place_fn :: "('f, 'o) task_slot \<Rightarrow> ('f, 'o) cell_event list exec" where
  "drop_in_place_fn s = (case slot_state s of
     Done \<Rightarrow> (case ts_output s of None \<Rightarrow> Undefined | Some v \<Rightarrow> Ret [OutputDropped v])
   | Failed \<Rightarrow> Ret []
   | Taken \<Rightarrow> Ret []
   | Retired \<Rightarrow> Ret []
   | _ \<Rightarrow> (case ts_future s of None \<Rightarrow> Undefined | Some f \<Rightarrow> Ret [FutureDropped f]))"


section \<open>One poll\<close>



text \<open>\<open>spawn_insert\<close>: build the slot, insert it, and hand out the reference.\<close>

definition spawn_insert :: "('f, 'o) task_slot slab \<Rightarrow> u8 \<Rightarrow> pip \<Rightarrow> namespace \<Rightarrow> 'f \<Rightarrow>
    ((slab_error + task_ref) \<times> ('f, 'o) task_slot slab) exec" where
  "spawn_insert tasks worker_id pip ns f =
     exec_bind (slab_insert tasks (task_slot_new pip ns f)) (\<lambda>(r, tasks').
     case r of Inl e \<Rightarrow> Ret (Inl e, tasks') | Inr key \<Rightarrow> Ret (Inr (task_ref_from_slab worker_id key), tasks'))"

section \<open>Which half is alive\<close>



lemma slot_state_on_state [simp]:
  "slot_state (snd (on_state op s)) = ats_state (snd (op (th_state (ts_header s))))"
  "ts_future (snd (on_state op s)) = ts_future s" "ts_output (snd (on_state op s)) = ts_output s"
  by (simp_all add: on_state_def slot_state_def ats_load_def split: prod.split)

lemma fst_on_state [simp]: "fst (on_state op s) = fst (op (th_state (ts_header s)))"
  by (simp add: on_state_def split: prod.split)

lemma slot_state_alt: "slot_state s = ats_state (th_state (ts_header s))"
  by (simp add: slot_state_def ats_load_def)






section \<open>Life of a cell\<close>









section \<open>Properties\<close>


text \<open>
  C40. The window the comments of \<open>poll_task\<close> and \<open>drop_in_place_fn\<close> warn about is real: if a
  cancellation lands after the future returned \<open>Ready\<close> and before \<open>complete\<close>, the completion is
  refused and dropping the slot drops the already dropped future again.
\<close>

theorem cancel_in_ready_window:
  assumes "slot_state s = Running" "poll_fn poll s env = Ret (True, s1, env', ev)"
  shows "(let s2 = snd (on_state ats_cancel s1) in
    fst (on_state ats_complete s2) = Inl Cancelled \<and>
    drop_in_place_fn (snd (on_state ats_complete s2)) = Undefined)"
proof -
  from assms(2) have "ts_future s1 = None" "slot_state s1 = slot_state s"
    by (auto simp: poll_fn_def slot_state_alt split: option.splits prod.splits poll_result.splits)
  then show ?thesis
    using assms(1) by (auto simp: Let_def ats_defs on_state_def slot_state_alt drop_in_place_fn_def)
qed

definition demo_running :: "(nat, nat) task_slot" where
  "demo_running = snd (on_state try_start_poll (snd (on_state ats_wake (task_slot_new 0 0 7))))"

theorem cancel_in_ready_window_witness:
  "slot_state demo_running = Running \<and>
   (\<exists>s1. poll_fn (\<lambda>f e. (f, Ready (f + 1), e)) demo_running () = Ret (True, s1, (), [FutureDropped 7]) \<and>
     (let s2 = snd (on_state ats_cancel s1) in drop_in_place_fn (snd (on_state ats_complete s2)) = Undefined))"
proof -
  have r: "slot_state demo_running = Running" "ts_future demo_running = Some 7"
    by (simp_all add: demo_running_def slot_state_alt task_slot_new_def task_header_new_def ats_new_def ats_defs on_state_def)
  let ?s1 = "demo_running\<lparr>ts_output := Some 8, ts_future := None\<rparr>"
  have p: "poll_fn (\<lambda>f e. (f, Ready (f + 1), e)) demo_running () = Ret (True, ?s1, (), [FutureDropped 7])"
    using r by (simp add: poll_fn_def)
  show ?thesis using cancel_in_ready_window [OF r(1) p] p r(1) by (auto simp: Let_def)
qed

end
