(* ===== verification/Link_Chain.thy ===== *)
theory Link_Chain
  imports Kwokka_Prelude
begin

text \<open>
  Intrusive lists: elements of a store linked through a field of their own. \<open>chain m link p xs\<close>
  says that following \<open>link\<close> from \<open>p\<close> in the store \<open>m\<close> visits exactly \<open>xs\<close>. The run queue, the
  child lists and the slots of the timer wheel are such lists.
\<close>

fun chain :: "('r \<Rightarrow> 'h option) \<Rightarrow> ('h \<Rightarrow> 'r option) \<Rightarrow> 'r option \<Rightarrow> 'r list \<Rightarrow> bool" where
  "chain m link p [] \<longleftrightarrow> p = None"
| "chain m link p (x # xs) \<longleftrightarrow> p = Some x \<and> (\<exists>h. m x = Some h \<and> chain m link (link h) xs)"

lemma chain_unique: "chain m link p xs \<Longrightarrow> chain m link p ys \<Longrightarrow> xs = ys"
proof (induction xs arbitrary: p ys)
  case Nil
  then show ?case by (cases ys) auto
next
  case (Cons x xs)
  then show ?case by (cases ys) auto
qed

lemma chain_suffix: "chain m link p (xs @ x # ys) \<Longrightarrow> chain m link (Some x) (x # ys)"
  by (induction xs arbitrary: p) auto

lemma chain_distinct: "chain m link p xs \<Longrightarrow> distinct xs"
proof (induction xs arbitrary: p)
  case (Cons x xs)
  have "x \<notin> set xs"
  proof
    assume "x \<in> set xs"
    then obtain a b where ab: "xs = a @ x # b" by (meson split_list)
    then have "chain m link (Some x) (x # b)" using chain_suffix [of m link p "x # a" x b] Cons.prems by simp
    moreover have "chain m link (Some x) (x # xs)" using Cons.prems by auto
    ultimately have "x # b = x # xs" by (rule chain_unique)
    with ab show False by simp
  qed
  with Cons show ?case by auto
qed simp

lemma chain_mem: "chain m link p xs \<Longrightarrow> x \<in> set xs \<Longrightarrow> m x \<noteq> None"
  by (induction xs arbitrary: p) auto

lemma chain_cong:
  "(\<And>x. x \<in> set xs \<Longrightarrow> map_option link (m x) = map_option link (m' x)) \<Longrightarrow> chain m link p xs \<longleftrightarrow> chain m' link p xs"
proof (induction xs arbitrary: p)
  case (Cons x xs)
  have "map_option link (m x) = map_option link (m' x)" using Cons.prems by simp
  moreover have "chain m link q xs = chain m' link q xs" for q using Cons by simp
  ultimately show ?case by (auto simp: map_option_case split: option.splits)
qed simp

lemma chain_upd_other: "x \<notin> set xs \<Longrightarrow> chain (m(x := v)) link p xs \<longleftrightarrow> chain m link p xs"
  by (rule chain_cong) auto

lemma chain_upd_same_link:
  "m x = Some h \<Longrightarrow> link h' = link h \<Longrightarrow> chain (m(x \<mapsto> h')) link p xs \<longleftrightarrow> chain m link p xs"
  by (rule chain_cong) auto

end
