(* ===== verification/Task_Store.thy ===== *)
theory Task_Store
  imports Task_Cell Link_Chain
begin

text \<open>
  The trait \<open>TaskStorage\<close> (\<open>task/join/children.rs\<close>) and its implementation by the slab of
  task slots (\<open>task/cell/storage.rs\<close>): headers looked up and updated by task reference. The
  locale states what a client may rely on; the slab is its interpretation. The intrusive
  lists that clients thread through the headers are described by \<open>chain\<close>.
\<close>

section \<open>References of one worker\<close>

definition ref_parts :: "task_ref \<Rightarrow> nat \<times> generation" where
  "ref_parts t = (unat (ref_index t), ref_generation t)"

lemma ref_generation_wf: "generation_get (ref_generation t) = ref_generation t"
  by (rule bit_word_eqI) (auto simp: ref_generation_def generation_from_raw_def generation_get_def key_masks bit_simps)

lemma key_parts_task_key [simp]: "key_parts (task_key t) = ref_parts t"
  by (simp add: key_parts_def task_key_def ref_parts_def ref_generation_wf)

text \<open>A slab reference of the worker, with the odd generation that every issued key has.\<close>

definition local_ref :: "u8 \<Rightarrow> task_ref \<Rightarrow> bool" where
  "local_ref w t \<longleftrightarrow> ref_worker_id t = w \<and> \<not> is_arena t \<and> is_occupied (ref_generation t)"

lemma task_ref_bits:
  "bit t n \<longleftrightarrow> (n < 32 \<and> bit (ref_index t) n \<or> 32 \<le> n \<and> n < 56 \<and> bit (ref_generation t) (n - 32) \<or>
     56 \<le> n \<and> n < 63 \<and> bit (ref_worker_id t) (n - 56) \<or> n = 63 \<and> is_arena t)"
proof -
  have a: "is_arena t \<longleftrightarrow> bit t 63"
  proof -
    have "drop_bit 63 t = of_bool (bit t 63)"
    proof (rule bit_word_eqI)
      fix n show "bit (drop_bit 63 t) n \<longleftrightarrow> bit (of_bool (bit t 63) :: u64) n"
        using bit_imp_le_length [of t "63 + n"] by (cases n) (auto simp: bit_simps)
    qed
    then show ?thesis by (simp add: is_arena_def)
  qed
  consider "n < 32" | "32 \<le> n" "n < 56" | "56 \<le> n" "n < 63" | "n = 63" | "64 \<le> n" by linarith
  then show ?thesis
  proof cases
    case 5
    then show ?thesis using bit_imp_le_length [of t n] by auto
  qed (auto simp: a ref_index_def ref_generation_def generation_from_raw_def ref_worker_id_def key_masks bit_simps)
qed

lemma local_ref_eqI:
  assumes "local_ref w t" "local_ref w u" "ref_parts t = ref_parts u"
  shows "t = u"
proof (rule bit_word_eqI)
  fix n
  have "ref_index t = ref_index u" "ref_generation t = ref_generation u"
    using assms(3) by (simp_all add: ref_parts_def word_unat_eq_iff)
  then show "bit t n \<longleftrightarrow> bit u n"
    using assms(1,2) unfolding task_ref_bits [of t] task_ref_bits [of u] by (simp add: local_ref_def)
qed

lemma local_ref_issued: "local_ref w t \<Longrightarrow> issued_key (task_key t)"
  by (simp add: local_ref_def issued_key_def task_key_def ref_generation_wf)

section \<open>The storage interface\<close>

locale task_storage =
  fixes inv :: "'s \<Rightarrow> bool" and view :: "'s \<Rightarrow> task_ref \<Rightarrow> task_header option" and own :: "task_ref \<Rightarrow> bool"
    and get :: "'s \<Rightarrow> task_ref \<Rightarrow> task_header option exec"
    and get_mut :: "'s \<Rightarrow> task_ref \<Rightarrow> (task_header \<Rightarrow> task_header) \<Rightarrow> 's option exec"
  assumes get_view: "inv s \<Longrightarrow> own t \<Longrightarrow> get s t = Ret (view s t)"
    and get_mut_miss: "inv s \<Longrightarrow> own t \<Longrightarrow> view s t = None \<Longrightarrow> get_mut s t f = Ret None"
    and get_mut_hit: "inv s \<Longrightarrow> own t \<Longrightarrow> view s t = Some h \<Longrightarrow>
      \<exists>s'. get_mut s t f = Ret (Some s') \<and> inv s' \<and> view s' = (view s)(t \<mapsto> f h)"
    and view_own: "view s t = Some h \<Longrightarrow> own t"

definition storage_get :: "('f, 'o) task_slot slab \<Rightarrow> task_ref \<Rightarrow> task_header option exec" where
  "storage_get tasks t = exec_bind (slab_get tasks (task_key t)) (\<lambda>r. Ret (map_option ts_header r))"

definition storage_get_mut :: "('f, 'o) task_slot slab \<Rightarrow> task_ref \<Rightarrow> (task_header \<Rightarrow> task_header) \<Rightarrow> ('f, 'o) task_slot slab option exec" where
  "storage_get_mut tasks t f = slab_get_mut tasks (task_key t) (\<lambda>s. s\<lparr>ts_header := f (ts_header s)\<rparr>)"

definition storage_get_slot_ptr :: "('f, 'o) task_slot slab \<Rightarrow> task_ref \<Rightarrow> nat option" where
  "storage_get_slot_ptr tasks t = slab_slot_ptr tasks (task_key t)"

definition slot_view :: "u8 \<Rightarrow> ('f, 'o) task_slot slab \<Rightarrow> task_ref \<Rightarrow> ('f, 'o) task_slot option" where
  "slot_view w tasks t = (if local_ref w t then slab_view tasks (ref_parts t) else None)"

definition header_view :: "u8 \<Rightarrow> ('f, 'o) task_slot slab \<Rightarrow> task_ref \<Rightarrow> task_header option" where
  "header_view w tasks t = map_option ts_header (slot_view w tasks t)"

lemma storage_get_view:
  assumes "slab_wf s" "local_ref w t"
  shows "storage_get s t = Ret (header_view w s t)"
proof -
  obtain fl where "slab_inv s fl" using assms(1) by (auto simp: slab_wf_def)
  from slab_get_view [OF this local_ref_issued [OF assms(2)]] assms(2) show ?thesis
    by (simp add: storage_get_def header_view_def slot_view_def)
qed

lemma slot_view_update:
  assumes "local_ref w t" "slab_view s' = (slab_view s)(ref_parts t := x)"
  shows "slot_view w s' = (slot_view w s)(t := x)"
proof
  fix u
  show "slot_view w s' u = ((slot_view w s)(t := x)) u"
    using assms local_ref_eqI [of w u t] by (auto simp: slot_view_def)
qed

lemma slab_get_mut_slot:
  assumes "slab_wf s" "local_ref w t"
  shows "slot_view w s t = None \<Longrightarrow> slab_get_mut s (task_key t) f = Ret None"
    and "slot_view w s t = Some v \<Longrightarrow> \<exists>s'. slab_get_mut s (task_key t) f = Ret (Some s') \<and> slab_wf s' \<and>
      slot_view w s' = (slot_view w s)(t \<mapsto> f v) \<and> slab_capacity s' = slab_capacity s"
proof -
  obtain fl where inv: "slab_inv s fl" using assms(1) by (auto simp: slab_wf_def)
  obtain r s' fl' where op: "slab_apply (OpGetMut (task_key t) f) s = Ret (r, s')" "slab_inv s' fl'"
    "slab_spec (OpGetMut (task_key t) f) r (slab_view s) (slab_view s')" "slab_frame (OpGetMut (task_key t) f) s s'"
    using slab_get_mut_op_ok [OF inv local_ref_issued [OF assms(2)]] unfolding slab_op_ok_def by blast
  have v: "slot_view w s t = slab_view s (ref_parts t)" using assms(2) by (simp add: slot_view_def)
  obtain q where q: "slab_get_mut s (task_key t) f = Ret q"
    "(case q of None \<Rightarrow> (RetBool False, s) | Some s' \<Rightarrow> (RetBool True, s')) = (r, s')"
    using op(1) by auto
  have spec: "r = RetBool (slot_view w s t \<noteq> None)" using op(3) v by simp
  { assume "slot_view w s t = None"
    then show "slab_get_mut s (task_key t) f = Ret None" using q spec by (cases q) auto }
  { assume h: "slot_view w s t = Some v"
    then have "slab_view s' = (slab_view s)(ref_parts t \<mapsto> f v)" using op(3) v by simp
    note u = slot_view_update [OF assms(2) this]
    have "q = Some s'" using q spec h by (cases q) auto
    moreover have "slab_wf s'" using op(2) by (auto simp: slab_wf_def)
    moreover have "slab_capacity s' = slab_capacity s" using op(4) by (simp add: slab_frame_def slab_capacity_def)
    ultimately show "\<exists>s'. slab_get_mut s (task_key t) f = Ret (Some s') \<and> slab_wf s' \<and>
      slot_view w s' = (slot_view w s)(t \<mapsto> f v) \<and> slab_capacity s' = slab_capacity s"
      using q(1) u by blast }
qed

lemma storage_get_mut_slot:
  assumes "slab_wf s" "local_ref w t" "slot_view w s t = Some v"
  obtains s' where "storage_get_mut s t f = Ret (Some s')" "slab_wf s'"
    "slot_view w s' = (slot_view w s)(t \<mapsto> v\<lparr>ts_header := f (ts_header v)\<rparr>)" "slab_capacity s' = slab_capacity s"
  using slab_get_mut_slot(2) [OF assms] unfolding storage_get_mut_def by blast

lemma header_view_update:
  "slot_view w s' = (slot_view w s)(t \<mapsto> v\<lparr>ts_header := h\<rparr>) \<Longrightarrow> header_view w s' = (header_view w s)(t \<mapsto> h)"
  by (auto simp: header_view_def)

interpretation task_slab: task_storage slab_wf "header_view w" "local_ref w" storage_get storage_get_mut for w
proof
  fix s :: "('a, 'b) task_slot slab" and t h f
  assume s: "slab_wf s" "local_ref w t"
  show "storage_get s t = Ret (header_view w s t)" using storage_get_view [OF s] .
  { assume "header_view w s t = None"
    then show "storage_get_mut s t f = Ret None"
      using slab_get_mut_slot(1) [OF s] by (simp add: storage_get_mut_def header_view_def) }
  { assume "header_view w s t = Some h"
    then obtain v where v: "slot_view w s t = Some v" "h = ts_header v" by (auto simp: header_view_def)
    show "\<exists>s'. storage_get_mut s t f = Ret (Some s') \<and> slab_wf s' \<and> header_view w s' = (header_view w s)(t \<mapsto> f h)"
      by (rule storage_get_mut_slot [OF s v(1), of f]) (auto simp: v(2) dest: header_view_update) }
next
  fix s :: "('a, 'b) task_slot slab" and t h
  show "header_view w s t = Some h \<Longrightarrow> local_ref w t" by (auto simp: header_view_def slot_view_def split: if_splits)
qed

section \<open>Concrete slabs\<close>

text \<open>A full slab with the given slots, all of the first occupied generation, and references of worker 3 into it.\<close>

definition demo_tasks :: "('f, 'o) task_slot list \<Rightarrow> ('f, 'o) task_slot slab" where
  "demo_tasks ss = \<lparr>slots = map (\<lambda>s. \<lparr>generation = 1, next_free = FREE_SENTINEL, data = Some s\<rparr>) ss,
     free_head = FREE_SENTINEL, slab_len = length ss\<rparr>"

definition demo_ref :: "nat \<Rightarrow> task_ref" where
  "demo_ref i = task_ref_from_slab 3 (slab_key_new (of_nat i) 1)"

lemma demo_tasks_inv: "length ss < 2 ^ 32 \<Longrightarrow> slab_inv (demo_tasks ss) []"
  by (simp add: slab_inv_def demo_tasks_def slot_ok_def gen_wf_def is_occupied_def count_pos_def occupied_def filter_map o_def)

lemma demo_tasks_wf: "length ss < 2 ^ 32 \<Longrightarrow> slab_wf (demo_tasks ss)"
  using demo_tasks_inv by (auto simp: slab_wf_def)

lemma demo_ref_local [simp]: "local_ref 3 (demo_ref i)"
  by (simp add: local_ref_def demo_ref_def generation_get_def GENERATION_MAX_def is_occupied_def WORKER_ID_MAX_def)

lemma demo_ref_parts: "i < 2 ^ 32 \<Longrightarrow> ref_parts (demo_ref i) = (i, 1)"
  by (simp add: ref_parts_def demo_ref_def generation_get_def GENERATION_MAX_def)

lemma demo_view: "i < length ss \<Longrightarrow> length ss < 2 ^ 32 \<Longrightarrow> slot_view 3 (demo_tasks ss) (demo_ref i) = Some (ss ! i)"
  by (simp add: slot_view_def demo_ref_parts slab_view_def demo_tasks_def is_occupied_def)

lemma demo_ref_inj: "i < 2 ^ 32 \<Longrightarrow> j < 2 ^ 32 \<Longrightarrow> demo_ref i = demo_ref j \<longleftrightarrow> i = j"
  using demo_ref_parts by (metis prod.inject)

end
