(* ===== verification/Run_Queue.thy ===== *)
theory Run_Queue
  imports Task_Store
begin

text \<open>
  The local run queue (\<open>scheduler/runnable/queue.rs\<close>): a FIFO threaded through the headers
  of the queued tasks by \<open>next_runnable\<close>, with a head, a tail and a length.
\<close>

section \<open>Operations\<close>

record run_queue =
  rq_head :: "task_ref option"
  rq_tail :: "task_ref option"
  rq_len :: nat

definition rq_new :: run_queue where
  "rq_new = \<lparr>rq_head = None, rq_tail = None, rq_len = 0\<rparr>"

definition rq_is_empty :: "run_queue \<Rightarrow> bool" where
  "rq_is_empty q \<longleftrightarrow> rq_len q = 0"

definition rq_push :: "run_queue \<Rightarrow> task_ref \<Rightarrow> ('f, 'o) task_slot slab \<Rightarrow> (run_queue \<times> ('f, 'o) task_slot slab) exec" where
  "rq_push q t tasks =
     exec_bind (storage_get_mut tasks t (\<lambda>h. h\<lparr>th_next_runnable := None\<rparr>)) (\<lambda>r. case r of
       None \<Rightarrow> Ret (q, tasks)
     | Some tasks1 \<Rightarrow>
         exec_bind (case rq_tail q of
             Some tail_ref \<Rightarrow>
               exec_bind (storage_get_mut tasks1 tail_ref (\<lambda>h. h\<lparr>th_next_runnable := Some t\<rparr>)) (\<lambda>r2.
               Ret (rq_head q, case r2 of None \<Rightarrow> tasks1 | Some tasks2 \<Rightarrow> tasks2))
           | None \<Rightarrow> Ret (Some t, tasks1)) (\<lambda>(head, tasks2).
         Ret (\<lparr>rq_head = head, rq_tail = Some t, rq_len = rq_len q + 1\<rparr>, tasks2)))"

definition rq_pop :: "run_queue \<Rightarrow> ('f, 'o) task_slot slab \<Rightarrow> (task_ref option \<times> run_queue) exec" where
  "rq_pop q tasks = (case rq_head q of
     None \<Rightarrow> Ret (None, q)
   | Some head_ref \<Rightarrow>
       exec_bind (storage_get tasks head_ref) (\<lambda>r.
       let next = Option.bind r th_next_runnable in
       if rq_len q = 0 then Panic
       else Ret (Some head_ref, \<lparr>rq_head = next, rq_tail = (if next = None then None else rq_tail q), rq_len = rq_len q - 1\<rparr>)))"

section \<open>The queue it stands for\<close>

definition rq_list :: "u8 \<Rightarrow> run_queue \<Rightarrow> ('f, 'o) task_slot slab \<Rightarrow> task_ref list \<Rightarrow> bool" where
  "rq_list w q tasks xs \<longleftrightarrow> chain (header_view w tasks) th_next_runnable (rq_head q) xs \<and>
     rq_tail q = (if xs = [] then None else Some (last xs)) \<and> rq_len q = length xs"

text \<open>Two slabs that differ in the run-queue links only.\<close>

definition no_run_link :: "('f, 'o) task_slot \<Rightarrow> ('f, 'o) task_slot" where
  "no_run_link s = s\<lparr>ts_header := (ts_header s)\<lparr>th_next_runnable := None\<rparr>\<rparr>"

definition same_tasks :: "u8 \<Rightarrow> ('f, 'o) task_slot slab \<Rightarrow> ('f, 'o) task_slot slab \<Rightarrow> bool" where
  "same_tasks w a b \<longleftrightarrow> slab_capacity a = slab_capacity b \<and>
     (\<forall>t. map_option no_run_link (slot_view w a t) = map_option no_run_link (slot_view w b t))"

lemma same_tasks_refl [simp]: "same_tasks w a a"
  by (simp add: same_tasks_def)

lemma same_tasks_trans: "same_tasks w a b \<Longrightarrow> same_tasks w b c \<Longrightarrow> same_tasks w a c"
  by (simp add: same_tasks_def)

lemma same_tasks_link:
  assumes "slot_view w a t = Some v" "slot_view w b = (slot_view w a)(t \<mapsto> v\<lparr>ts_header := (ts_header v)\<lparr>th_next_runnable := l\<rparr>\<rparr>)"
    "slab_capacity b = slab_capacity a"
  shows "same_tasks w b a"
  using assms by (auto simp: same_tasks_def no_run_link_def)

lemma same_tasks_None: "same_tasks w a b \<Longrightarrow> slot_view w a t = None \<longleftrightarrow> slot_view w b t = None"
  by (metis map_option_is_None same_tasks_def)

lemma rq_new_list: "rq_list w rq_new tasks []"
  by (simp add: rq_list_def rq_new_def)

lemma rq_list_distinct: "rq_list w q tasks xs \<Longrightarrow> distinct xs"
  using chain_distinct by (auto simp: rq_list_def)

lemma rq_list_live: "rq_list w q tasks xs \<Longrightarrow> t \<in> set xs \<Longrightarrow> slot_view w tasks t \<noteq> None"
  using chain_mem by (fastforce simp: rq_list_def header_view_def)

lemma chain_snoc:
  assumes "chain m link p xs" "xs \<noteq> []" "m (last xs) = Some h" "t \<notin> set xs" "m t = Some ht"
    "link h' = Some t" "link ht' = None"
  shows "chain (m(t \<mapsto> ht', last xs \<mapsto> h')) link p (xs @ [t])"
  using assms
proof (induction xs arbitrary: p)
  case (Cons x xs)
  show ?case
  proof (cases "xs = []")
    case True
    then show ?thesis using Cons.prems by auto
  next
    case False
    then have l: "last (x # xs) = last xs" by simp
    have "x \<noteq> last xs" using chain_distinct [OF Cons.prems(1)] False by auto
    moreover obtain hx where "m x = Some hx" "chain m link (link hx) xs" "p = Some x" using Cons.prems(1) by auto
    ultimately show ?thesis using Cons.IH [of "link hx"] Cons.prems False unfolding l by auto
  qed
qed simp

lemma rq_push_miss:
  assumes "slab_wf tasks" "local_ref w t" "slot_view w tasks t = None"
  shows "rq_push q t tasks = Ret (q, tasks)"
  using task_slab.get_mut_miss [OF assms(1,2)] assms(3) by (simp add: rq_push_def header_view_def)

lemma rq_push_ok:
  assumes "slab_wf tasks" "rq_list w q tasks xs" "slot_view w tasks t \<noteq> None" "t \<notin> set xs"
  obtains q' tasks' where "rq_push q t tasks = Ret (q', tasks')" "slab_wf tasks'"
    "rq_list w q' tasks' (xs @ [t])" "same_tasks w tasks' tasks"
proof -
  from assms(3) obtain v where v: "slot_view w tasks t = Some v" by auto
  then have own: "local_ref w t" by (simp add: slot_view_def split: if_splits)
  obtain tasks1 where 1: "storage_get_mut tasks t (\<lambda>h. h\<lparr>th_next_runnable := None\<rparr>) = Ret (Some tasks1)" "slab_wf tasks1"
    "slot_view w tasks1 = (slot_view w tasks)(t \<mapsto> v\<lparr>ts_header := (ts_header v)\<lparr>th_next_runnable := None\<rparr>\<rparr>)"
    "slab_capacity tasks1 = slab_capacity tasks"
    using storage_get_mut_slot [OF assms(1) own v] by metis
  note s1 = same_tasks_link [OF v 1(3,4)] and hv1 = header_view_update [OF 1(3)]
  have hv: "header_view w tasks t = Some (ts_header v)" using v by (simp add: header_view_def)
  have c: "chain (header_view w tasks) th_next_runnable (rq_head q) xs" using assms(2) by (simp add: rq_list_def)
  show ?thesis
  proof (cases "xs = []")
    case True
    then have q: "rq_tail q = None" "rq_len q = 0" using assms(2) by (simp_all add: rq_list_def)
    have "rq_push q t tasks = Ret (\<lparr>rq_head = Some t, rq_tail = Some t, rq_len = 1\<rparr>, tasks1)"
      using 1(1) q by (simp add: rq_push_def)
    then show ?thesis
      by (rule that [OF _ 1(2) _ s1]) (use True hv1 in \<open>simp add: rq_list_def\<close>)
  next
    case False
    let ?l = "last xs"
    have l: "?l \<in> set xs" "?l \<noteq> t" using False assms(4) by auto
    obtain u where u: "slot_view w tasks ?l = Some u" using rq_list_live [OF assms(2) l(1)] by auto
    then have u1: "slot_view w tasks1 ?l = Some u" "local_ref w ?l" using 1(3) l(2) by (auto simp: slot_view_def split: if_splits)
    obtain tasks2 where 2: "storage_get_mut tasks1 ?l (\<lambda>h. h\<lparr>th_next_runnable := Some t\<rparr>) = Ret (Some tasks2)" "slab_wf tasks2"
      "slot_view w tasks2 = (slot_view w tasks1)(?l \<mapsto> u\<lparr>ts_header := (ts_header u)\<lparr>th_next_runnable := Some t\<rparr>\<rparr>)"
      "slab_capacity tasks2 = slab_capacity tasks1"
      using storage_get_mut_slot [OF 1(2) u1(2,1)] by metis
    have q: "rq_tail q = Some ?l" "rq_len q = length xs" using assms(2) False by (simp_all add: rq_list_def)
    have hu: "header_view w tasks ?l = Some (ts_header u)" using u by (simp add: header_view_def)
    have "chain (header_view w tasks2) th_next_runnable (rq_head q) (xs @ [t])"
      using chain_snoc [OF c False hu assms(4) hv, of "(ts_header u)\<lparr>th_next_runnable := Some t\<rparr>" "(ts_header v)\<lparr>th_next_runnable := None\<rparr>"]
        hv1 header_view_update [OF 2(3)] by simp
    moreover have "rq_push q t tasks = Ret (\<lparr>rq_head = rq_head q, rq_tail = Some t, rq_len = length xs + 1\<rparr>, tasks2)"
      using 1(1) 2(1) q by (simp add: rq_push_def)
    moreover have "same_tasks w tasks2 tasks"
      using same_tasks_trans [OF same_tasks_link [OF u1(1) 2(3,4)] s1] .
    ultimately show ?thesis using that [OF _ 2(2)] by (simp add: rq_list_def)
  qed
qed

lemma rq_pop_empty: "rq_list w q tasks [] \<Longrightarrow> rq_pop q tasks = Ret (None, q)"
  by (simp add: rq_list_def rq_pop_def)

lemma rq_pop_ok:
  assumes "slab_wf tasks" "rq_list w q tasks (x # xs)"
  obtains q' where "rq_pop q tasks = Ret (Some x, q')" "rq_list w q' tasks xs"
proof -
  from assms(2) obtain h where h: "rq_head q = Some x" "header_view w tasks x = Some h"
    "chain (header_view w tasks) th_next_runnable (th_next_runnable h) xs" "rq_len q = Suc (length xs)"
    "rq_tail q = Some (last (x # xs))"
    by (auto simp: rq_list_def)
  have "storage_get tasks x = Ret (Some h)"
    using task_slab.get_view [OF assms(1) task_slab.view_own [OF h(2)]] h(2) by simp
  moreover have "th_next_runnable h = None \<longleftrightarrow> xs = []" using h(3) by (cases xs) auto
  ultimately show ?thesis using h by (intro that) (auto simp: rq_pop_def rq_list_def)
qed

section \<open>Histories\<close>

text \<open>A push (\<open>Some t\<close>) or a pop (\<open>None\<close>); the popped references are returned in order.\<close>

fun rq_run :: "run_queue \<Rightarrow> ('f, 'o) task_slot slab \<Rightarrow> task_ref option list \<Rightarrow>
    (task_ref option list \<times> run_queue \<times> ('f, 'o) task_slot slab) exec" where
  "rq_run q tasks [] = Ret ([], q, tasks)"
| "rq_run q tasks (Some t # ops) = exec_bind (rq_push q t tasks) (\<lambda>(q', tasks'). rq_run q' tasks' ops)"
| "rq_run q tasks (None # ops) = exec_bind (rq_pop q tasks) (\<lambda>(r, q').
     exec_bind (rq_run q' tasks ops) (\<lambda>(rs, q'', tasks''). Ret (r # rs, q'', tasks'')))"

fun fifo_spec :: "task_ref list \<Rightarrow> task_ref option list \<Rightarrow> task_ref option list \<times> task_ref list" where
  "fifo_spec xs [] = ([], xs)"
| "fifo_spec xs (Some t # ops) = fifo_spec (xs @ [t]) ops"
| "fifo_spec [] (None # ops) = (case fifo_spec [] ops of (rs, ys) \<Rightarrow> (None # rs, ys))"
| "fifo_spec (x # xs) (None # ops) = (case fifo_spec xs ops of (rs, ys) \<Rightarrow> (Some x # rs, ys))"

text \<open>Pushed tasks are live and not already queued.\<close>

fun rq_fresh :: "(task_ref \<Rightarrow> bool) \<Rightarrow> task_ref list \<Rightarrow> task_ref option list \<Rightarrow> bool" where
  "rq_fresh live xs [] \<longleftrightarrow> True"
| "rq_fresh live xs (Some t # ops) \<longleftrightarrow> live t \<and> t \<notin> set xs \<and> rq_fresh live (xs @ [t]) ops"
| "rq_fresh live xs (None # ops) \<longleftrightarrow> rq_fresh live (tl xs) ops"

text \<open>
  C34. The intrusive run queue is a FIFO queue: every history of pushes of live, not yet queued
  tasks and of pops runs without panic and returns exactly what a list-based queue returns,
  and nothing but the links of the headers is ever changed.
\<close>

theorem rq_refines_fifo:
  assumes "slab_wf tasks" "rq_list w q tasks xs" "rq_fresh (\<lambda>t. slot_view w tasks t \<noteq> None) xs ops"
  shows "\<exists>q' tasks'. rq_run q tasks ops = Ret (fst (fifo_spec xs ops), q', tasks') \<and> slab_wf tasks' \<and>
    rq_list w q' tasks' (snd (fifo_spec xs ops)) \<and> same_tasks w tasks' tasks"
  using assms
proof (induction ops arbitrary: q tasks xs)
  case Nil
  then show ?case by simp
next
  case (Cons op ops)
  show ?case
  proof (cases op)
    case (Some t)
    obtain q1 tasks1 where 1: "rq_push q t tasks = Ret (q1, tasks1)" "slab_wf tasks1"
      "rq_list w q1 tasks1 (xs @ [t])" "same_tasks w tasks1 tasks"
      using rq_push_ok [OF Cons.prems(1,2), of t] Cons.prems(3) Some by auto
    have "rq_fresh (\<lambda>t. slot_view w tasks1 t \<noteq> None) (xs @ [t]) ops"
      using Cons.prems(3) Some same_tasks_None [OF 1(4)] by simp
    from Cons.IH [OF 1(2,3) this] 1 Some same_tasks_trans [OF _ 1(4)] show ?thesis by auto
  next
    case None
    show ?thesis
    proof (cases xs)
      case Nil
      then have "rq_pop q tasks = Ret (None, q)" using rq_pop_empty Cons.prems(2) by blast
      moreover have "rq_fresh (\<lambda>t. slot_view w tasks t \<noteq> None) [] ops" using Cons.prems(3) None Nil by simp
      ultimately show ?thesis
        using Cons.IH [of tasks q "[]"] Cons.prems(1,2) None Nil by (auto split: prod.splits)
    next
      case (Cons x ys)
      then obtain q1 where "rq_pop q tasks = Ret (Some x, q1)" "rq_list w q1 tasks ys"
        using rq_pop_ok Cons.prems(1,2) by metis
      moreover have "rq_fresh (\<lambda>t. slot_view w tasks t \<noteq> None) ys ops" using Cons.prems(3) None Cons by simp
      ultimately show ?thesis
        using Cons.IH [of tasks q1 ys] Cons.prems(1) None Cons by (auto split: prod.splits)
    qed
  qed
qed

theorem rq_refines_fifo_witness:
  "let tasks = demo_tasks [task_slot_new 1 0 (10 :: nat), task_slot_new 2 0 11 :: (nat, nat) task_slot] in
   \<exists>q' tasks'. rq_run rq_new tasks [Some (demo_ref 1), Some (demo_ref 0), None] = Ret ([Some (demo_ref 1)], q', tasks') \<and>
     rq_list 3 q' tasks' [demo_ref 0]"
proof -
  define tasks where "tasks = demo_tasks [task_slot_new 1 0 (10 :: nat), task_slot_new 2 0 11 :: (nat, nat) task_slot]"
  have l: "slot_view 3 tasks (demo_ref 0) \<noteq> None" "slot_view 3 tasks (demo_ref 1) \<noteq> None" "demo_ref 0 \<noteq> demo_ref 1"
    by (simp_all add: demo_view demo_ref_inj tasks_def)
  have "slab_wf tasks" by (simp add: tasks_def demo_tasks_wf)
  from rq_refines_fifo [OF this rq_new_list, of 3 "[Some (demo_ref 1), Some (demo_ref 0), None]"] l
  show ?thesis unfolding Let_def tasks_def [symmetric] by auto
qed

end
