(* ===== verification/Children.thy ===== *)
theory Children
  imports Task_Store
begin

text \<open>
  The child lists of structured concurrency (\<open>task/join/children.rs\<close>): a singly linked list
  through the headers, from the parent's \<open>first_child\<close> along \<open>next_sibling\<close>. The operations
  are generic over the storage trait, as in the source; the walks are loops that end only
  on an acyclic list, so they are partial functions and their termination is proved.
\<close>

section \<open>Operations\<close>

datatype children_error = ParentNotFound | ChildNotFound

definition push_child :: "('s \<Rightarrow> task_ref \<Rightarrow> task_header option exec) \<Rightarrow>
    ('s \<Rightarrow> task_ref \<Rightarrow> (task_header \<Rightarrow> task_header) \<Rightarrow> 's option exec) \<Rightarrow>
    's \<Rightarrow> task_ref \<Rightarrow> task_ref \<Rightarrow> ((children_error + unit) \<times> 's) exec" where
  "push_child get get_mut s parent child =
     exec_bind (get s parent) (\<lambda>r. case r of None \<Rightarrow> Ret (Inl ParentNotFound, s) | Some hp \<Rightarrow>
     let prev_first = th_first_child hp in
     exec_bind (get_mut s child (\<lambda>h. h\<lparr>th_next_sibling := prev_first\<rparr>)) (\<lambda>r. case r of
       None \<Rightarrow> Ret (Inl ChildNotFound, s)
     | Some s1 \<Rightarrow>
         exec_bind (get_mut s1 parent (\<lambda>h. h\<lparr>th_first_child := Some child\<rparr>)) (\<lambda>r. case r of
           None \<Rightarrow> Ret (Inl ParentNotFound, s1)
         | Some s2 \<Rightarrow> Ret (Inr (), s2))))"

text \<open>\<open>ChildrenIter\<close>: the pending reference; \<open>next\<close> yields it and advances along the siblings.\<close>

definition iter_children :: "('s \<Rightarrow> task_ref \<Rightarrow> task_header option exec) \<Rightarrow> 's \<Rightarrow> task_ref \<Rightarrow> task_ref option exec" where
  "iter_children get s parent = exec_bind (get s parent) (\<lambda>r. Ret (Option.bind r th_first_child))"

definition children_iter_next :: "('s \<Rightarrow> task_ref \<Rightarrow> task_header option exec) \<Rightarrow> 's \<Rightarrow> task_ref option \<Rightarrow>
    (task_ref option \<times> task_ref option) exec" where
  "children_iter_next get s next = (case next of None \<Rightarrow> Ret (None, next)
     | Some current \<Rightarrow> exec_bind (get s current) (\<lambda>r. case r of
         None \<Rightarrow> Ret (None, next)
       | Some h \<Rightarrow> Ret (Some current, th_next_sibling h)))"

text \<open>The standard library's \<open>find\<close> over the iterator; the test may read the storage.\<close>

partial_function (option) children_find :: "('s \<Rightarrow> task_ref \<Rightarrow> task_header option exec) \<Rightarrow> 's \<Rightarrow>
    (task_ref \<Rightarrow> bool exec) \<Rightarrow> task_ref option \<Rightarrow> task_ref option exec option" where
  "children_find get s P next = (case children_iter_next get s next of
     Ret (None, next') \<Rightarrow> Some (Ret None)
   | Ret (Some c, next') \<Rightarrow> (case P c of
       Ret b \<Rightarrow> if b then Some (Ret (Some c)) else children_find get s P next'
     | Panic \<Rightarrow> Some Panic
     | Undefined \<Rightarrow> Some Undefined)
   | Panic \<Rightarrow> Some Panic
   | Undefined \<Rightarrow> Some Undefined)"

partial_function (option) children_collect :: "('s \<Rightarrow> task_ref \<Rightarrow> task_header option exec) \<Rightarrow> 's \<Rightarrow>
    task_ref list \<Rightarrow> task_ref option \<Rightarrow> task_ref list exec option" where
  "children_collect get s acc next = (case children_iter_next get s next of
     Ret (None, next') \<Rightarrow> Some (Ret (rev acc))
   | Ret (Some c, next') \<Rightarrow> children_collect get s (c # acc) next'
   | Panic \<Rightarrow> Some Panic
   | Undefined \<Rightarrow> Some Undefined)"

datatype remove_position = Head | AfterPrev task_ref

partial_function (option) locate_loop :: "('s \<Rightarrow> task_ref \<Rightarrow> task_header option exec) \<Rightarrow> 's \<Rightarrow> task_ref \<Rightarrow> task_ref \<Rightarrow>
    (children_error + remove_position) exec option" where
  "locate_loop get s child current = (case get s current of
     Ret None \<Rightarrow> Some (Ret (Inl ChildNotFound))
   | Ret (Some h) \<Rightarrow> (case th_next_sibling h of
       Some next \<Rightarrow> if next = child then Some (Ret (Inr (AfterPrev current))) else locate_loop get s child next
     | None \<Rightarrow> Some (Ret (Inl ChildNotFound)))
   | Panic \<Rightarrow> Some Panic
   | Undefined \<Rightarrow> Some Undefined)"

definition locate :: "('s \<Rightarrow> task_ref \<Rightarrow> task_header option exec) \<Rightarrow> 's \<Rightarrow> task_ref \<Rightarrow> task_ref \<Rightarrow>
    (children_error + remove_position) exec option" where
  "locate get s parent child = (case get s parent of
     Ret None \<Rightarrow> Some (Ret (Inl ParentNotFound))
   | Ret (Some hp) \<Rightarrow> (case th_first_child hp of
       None \<Rightarrow> Some (Ret (Inl ChildNotFound))
     | Some current \<Rightarrow> if current = child then Some (Ret (Inr Head)) else locate_loop get s child current)
   | Panic \<Rightarrow> Some Panic
   | Undefined \<Rightarrow> Some Undefined)"

text \<open>The part of \<open>remove_child\<close> after the position is known.\<close>

definition unlink_child :: "('s \<Rightarrow> task_ref \<Rightarrow> task_header option exec) \<Rightarrow>
    ('s \<Rightarrow> task_ref \<Rightarrow> (task_header \<Rightarrow> task_header) \<Rightarrow> 's option exec) \<Rightarrow>
    's \<Rightarrow> task_ref \<Rightarrow> task_ref \<Rightarrow> remove_position \<Rightarrow> ((children_error + unit) \<times> 's) exec" where
  "unlink_child get get_mut s parent child position =
     exec_bind (get s child) (\<lambda>r. case r of None \<Rightarrow> Ret (Inl ChildNotFound, s) | Some hc \<Rightarrow>
     let child_next = th_next_sibling hc in
     exec_bind (case position of
         Head \<Rightarrow> exec_bind (get_mut s parent (\<lambda>h. h\<lparr>th_first_child := child_next\<rparr>)) (\<lambda>r.
           Ret (case r of None \<Rightarrow> Inl ParentNotFound | Some s1 \<Rightarrow> Inr s1))
       | AfterPrev prev \<Rightarrow> exec_bind (get_mut s prev (\<lambda>h. h\<lparr>th_next_sibling := child_next\<rparr>)) (\<lambda>r.
           Ret (case r of None \<Rightarrow> Inl ChildNotFound | Some s1 \<Rightarrow> Inr s1))) (\<lambda>r. case r of
       Inl e \<Rightarrow> Ret (Inl e, s)
     | Inr s1 \<Rightarrow> exec_bind (get_mut s1 child (\<lambda>h. h\<lparr>th_next_sibling := None\<rparr>)) (\<lambda>r. case r of
           None \<Rightarrow> Ret (Inl ChildNotFound, s1)
         | Some s2 \<Rightarrow> Ret (Inr (), s2))))"

definition remove_child :: "('s \<Rightarrow> task_ref \<Rightarrow> task_header option exec) \<Rightarrow>
    ('s \<Rightarrow> task_ref \<Rightarrow> (task_header \<Rightarrow> task_header) \<Rightarrow> 's option exec) \<Rightarrow>
    's \<Rightarrow> task_ref \<Rightarrow> task_ref \<Rightarrow> ((children_error + unit) \<times> 's) exec option" where
  "remove_child get get_mut s parent child = (case locate get s parent child of
     None \<Rightarrow> None
   | Some (Ret (Inl e)) \<Rightarrow> Some (Ret (Inl e, s))
   | Some (Ret (Inr position)) \<Rightarrow> Some (unlink_child get get_mut s parent child position)
   | Some Panic \<Rightarrow> Some Panic
   | Some Undefined \<Rightarrow> Some Undefined)"

section \<open>The list of a parent\<close>

definition children_of :: "(task_ref \<Rightarrow> task_header option) \<Rightarrow> task_ref \<Rightarrow> task_ref list \<Rightarrow> bool" where
  "children_of m parent xs \<longleftrightarrow> parent \<notin> set xs \<and>
     (\<exists>h. m parent = Some h \<and> chain m th_next_sibling (th_first_child h) xs)"

lemma children_of_distinct: "children_of m p xs \<Longrightarrow> distinct xs"
  using chain_distinct by (auto simp: children_of_def)

lemma children_of_unique: "children_of m p xs \<Longrightarrow> children_of m p ys \<Longrightarrow> xs = ys"
  using chain_unique by (auto simp: children_of_def)

lemma children_of_frame:
  assumes "children_of m q ys" "x \<noteq> q" "x \<notin> set ys"
  shows "children_of (m(x := v)) q ys"
  using assms chain_upd_other [of x ys m v th_next_sibling] by (auto simp: children_of_def)

text \<open>Cutting one element out of a chain.\<close>

lemma chain_cut:
  assumes "chain m link p (as @ a # c # bs)" "m a = Some ha" "m c = Some hc" "link ha' = link hc"
  shows "chain (m(a \<mapsto> ha')) link p (as @ a # bs)"
  using assms
proof (induction as arbitrary: p)
  case Nil
  then have "a \<notin> set bs" using chain_distinct [of m link p "a # c # bs"] by simp
  with Nil have "chain (m(a \<mapsto> ha')) link (link ha') bs" by (simp add: chain_upd_other)
  moreover have "p = Some a" using Nil by simp
  ultimately show ?case unfolding append_Nil chain.simps fun_upd_same by blast
next
  case (Cons x as)
  then have "x \<noteq> a" using chain_distinct [of m link p "x # as @ a # c # bs"] by auto
  with Cons show ?case by auto
qed

context task_storage
begin

lemma iter_next_step:
  assumes "inv s" "chain (view s) th_next_sibling nx xs"
  shows "children_iter_next get s nx = (case xs of [] \<Rightarrow> Ret (None, None)
    | x # ys \<Rightarrow> Ret (Some x, th_next_sibling (the (view s x))))"
proof (cases xs)
  case (Cons x ys)
  then obtain h where "nx = Some x" "view s x = Some h" using assms(2) by auto
  then show ?thesis using get_view [OF assms(1) view_own] Cons by (simp add: children_iter_next_def)
qed (use assms in \<open>simp add: children_iter_next_def\<close>)

lemma children_collect_chain:
  assumes "inv s" "chain (view s) th_next_sibling nx xs"
  shows "children_collect get s acc nx = Some (Ret (rev acc @ xs))"
  using assms(2)
proof (induction xs arbitrary: nx acc)
  case Nil
  have "children_iter_next get s nx = Ret (None, None)" using iter_next_step [OF assms(1) Nil(1)] by simp
  then show ?case by (subst children_collect.simps) simp
next
  case (Cons x xs)
  then obtain h where h: "view s x = Some h" "chain (view s) th_next_sibling (th_next_sibling h) xs" by auto
  have "children_iter_next get s nx = Ret (Some x, th_next_sibling h)"
    using iter_next_step [OF assms(1) Cons.prems] h by simp
  then show ?case by (subst children_collect.simps) (simp add: Cons.IH [OF h(2)])
qed

lemma children_find_chain:
  assumes "inv s" "chain (view s) th_next_sibling nx xs" "\<And>x. x \<in> set xs \<Longrightarrow> P x = Ret (Q x)"
  shows "children_find get s P nx = Some (Ret (List.find Q xs))"
  using assms(2,3)
proof (induction xs arbitrary: nx)
  case Nil
  have "children_iter_next get s nx = Ret (None, None)" using iter_next_step [OF assms(1) Nil(1)] by simp
  then show ?case by (subst children_find.simps) simp
next
  case (Cons x xs)
  then obtain h where h: "view s x = Some h" "chain (view s) th_next_sibling (th_next_sibling h) xs" by auto
  have "children_iter_next get s nx = Ret (Some x, th_next_sibling h)"
    using iter_next_step [OF assms(1) Cons.prems(1)] h by simp
  then show ?case using Cons.prems(2) by (subst children_find.simps) (simp add: Cons.IH [OF h(2)])
qed

lemma locate_loop_chain:
  assumes "inv s" "chain (view s) th_next_sibling (Some c) (c # xs)"
  shows "locate_loop get s x c = Some (Ret (case takeWhile (\<lambda>y. y \<noteq> x) xs of ys \<Rightarrow>
    if x \<in> set xs then Inr (AfterPrev (last (c # ys))) else Inl ChildNotFound))"
  using assms(2)
proof (induction xs arbitrary: c)
  case Nil
  then obtain h where "view s c = Some h" "th_next_sibling h = None" by auto
  then show ?case using get_view [OF assms(1) view_own] by (subst locate_loop.simps) simp
next
  case (Cons y ys)
  then obtain h where h: "view s c = Some h" "th_next_sibling h = Some y"
    "chain (view s) th_next_sibling (Some y) (y # ys)" by auto
  have "get s c = Ret (Some h)" using get_view [OF assms(1) view_own [OF h(1)]] h(1) by simp
  then show ?case using Cons.IH [OF h(3)] h(2) by (subst locate_loop.simps) auto
qed

lemma get_mut_view:
  assumes "inv s" "view s t = Some h"
  obtains s' where "get_mut s t f = Ret (Some s')" "inv s'" "view s' = (view s)(t \<mapsto> f h)"
  using get_mut_hit [OF assms(1) view_own [OF assms(2)] assms(2)] by blast

lemma push_child_ok:
  assumes "inv s" "children_of (view s) p xs" "view s p = Some hp" "view s c = Some hc" "c \<notin> set xs" "c \<noteq> p"
  obtains s' where "push_child get get_mut s p c = Ret (Inr (), s')" "inv s'" "children_of (view s') p (c # xs)"
    "view s' = (view s)(c \<mapsto> hc\<lparr>th_next_sibling := th_first_child hp\<rparr>, p \<mapsto> hp\<lparr>th_first_child := Some c\<rparr>)"
proof -
  obtain s1 where 1: "get_mut s c (\<lambda>h. h\<lparr>th_next_sibling := th_first_child hp\<rparr>) = Ret (Some s1)" "inv s1"
    "view s1 = (view s)(c \<mapsto> hc\<lparr>th_next_sibling := th_first_child hp\<rparr>)"
    using get_mut_view [OF assms(1,4)] by metis
  then have "view s1 p = Some hp" using assms(3,6) by simp
  then obtain s2 where 2: "get_mut s1 p (\<lambda>h. h\<lparr>th_first_child := Some c\<rparr>) = Ret (Some s2)" "inv s2"
    "view s2 = (view s1)(p \<mapsto> hp\<lparr>th_first_child := Some c\<rparr>)"
    using get_mut_view [OF 1(2)] by metis
  have "push_child get get_mut s p c = Ret (Inr (), s2)"
    using 1(1) 2(1) get_view [OF assms(1) view_own [OF assms(3)]] assms(3) by (simp add: push_child_def)
  moreover have "children_of (view s2) p (c # xs)"
    using assms 1(3) 2(3) by (auto simp: children_of_def chain_upd_other)
  ultimately show ?thesis using that 1(3) 2(2,3) by simp
qed

lemma push_child_errors:
  assumes "inv s" "own p" "own c"
  shows "view s p = None \<Longrightarrow> push_child get get_mut s p c = Ret (Inl ParentNotFound, s)"
    and "view s p \<noteq> None \<Longrightarrow> view s c = None \<Longrightarrow> push_child get get_mut s p c = Ret (Inl ChildNotFound, s)"
  using get_view [OF assms(1,2)] get_mut_miss [OF assms(1,3)] by (auto simp: push_child_def)

lemma locate_children:
  assumes "inv s" "children_of (view s) p xs"
  shows "locate get s p c = Some (Ret (if c \<notin> set xs then Inl ChildNotFound
    else if takeWhile (\<lambda>y. y \<noteq> c) xs = [] then Inr Head else Inr (AfterPrev (last (takeWhile (\<lambda>y. y \<noteq> c) xs)))))"
proof -
  obtain hp where hp: "view s p = Some hp" "chain (view s) th_next_sibling (th_first_child hp) xs"
    using assms(2) by (auto simp: children_of_def)
  have "get s p = Ret (Some hp)" using get_view [OF assms(1) view_own [OF hp(1)]] hp(1) by simp
  moreover have "th_first_child hp = (case xs of [] \<Rightarrow> None | x # ys \<Rightarrow> Some x)" using hp(2) by (cases xs) auto
  ultimately show ?thesis
    using hp(2) locate_loop_chain [OF assms(1), of _ _ c]
    by (cases xs) (auto simp: locate_def)
qed

lemma unlink_Head_ok:
  assumes "inv s" "children_of (view s) p (c # bs)" "view s p = Some hp" "view s c = Some hc"
  obtains s' where "unlink_child get get_mut s p c Head = Ret (Inr (), s')" "inv s'" "children_of (view s') p bs"
    "view s' = (view s)(p \<mapsto> hp\<lparr>th_first_child := th_next_sibling hc\<rparr>, c \<mapsto> hc\<lparr>th_next_sibling := None\<rparr>)"
proof -
  have pc: "p \<noteq> c" "c \<notin> set bs" "p \<notin> set bs"
    using assms(2) children_of_distinct [OF assms(2)] by (auto simp: children_of_def)
  obtain s1 where 1: "get_mut s p (\<lambda>h. h\<lparr>th_first_child := th_next_sibling hc\<rparr>) = Ret (Some s1)" "inv s1"
    "view s1 = (view s)(p \<mapsto> hp\<lparr>th_first_child := th_next_sibling hc\<rparr>)"
    using get_mut_view [OF assms(1,3)] by metis
  then have "view s1 c = Some hc" using assms(4) pc by simp
  then obtain s2 where 2: "get_mut s1 c (\<lambda>h. h\<lparr>th_next_sibling := None\<rparr>) = Ret (Some s2)" "inv s2"
    "view s2 = (view s1)(c \<mapsto> hc\<lparr>th_next_sibling := None\<rparr>)"
    using get_mut_view [OF 1(2)] by metis
  have "unlink_child get get_mut s p c Head = Ret (Inr (), s2)"
    using 1(1) 2(1) get_view [OF assms(1) view_own [OF assms(4)]] assms(4) by (simp add: unlink_child_def)
  moreover have "children_of (view s2) p bs"
  proof -
    have "chain (view s) th_next_sibling (th_next_sibling hc) bs" using assms(2-4) by (auto simp: children_of_def)
    then have "chain (view s2) th_next_sibling (th_next_sibling hc) bs"
      unfolding 1(3) 2(3) using pc by (simp add: chain_upd_other)
    then show ?thesis using pc 1(3) 2(3) by (simp add: children_of_def)
  qed
  ultimately show ?thesis using that 1(3) 2(2,3) by simp
qed

lemma unlink_AfterPrev_ok:
  assumes "inv s" "children_of (view s) p (as @ a # c # bs)" "view s a = Some ha" "view s c = Some hc"
  obtains s' where "unlink_child get get_mut s p c (AfterPrev a) = Ret (Inr (), s')" "inv s'"
    "children_of (view s') p (as @ a # bs)"
    "view s' = (view s)(a \<mapsto> ha\<lparr>th_next_sibling := th_next_sibling hc\<rparr>, c \<mapsto> hc\<lparr>th_next_sibling := None\<rparr>)"
proof -
  obtain hp where hp: "view s p = Some hp" "chain (view s) th_next_sibling (th_first_child hp) (as @ a # c # bs)"
    "p \<notin> set (as @ a # c # bs)"
    using assms(2) by (auto simp: children_of_def)
  have d: "a \<noteq> c" "c \<notin> set (as @ a # bs)" using chain_distinct [OF hp(2)] by auto
  obtain s1 where 1: "get_mut s a (\<lambda>h. h\<lparr>th_next_sibling := th_next_sibling hc\<rparr>) = Ret (Some s1)" "inv s1"
    "view s1 = (view s)(a \<mapsto> ha\<lparr>th_next_sibling := th_next_sibling hc\<rparr>)"
    using get_mut_view [OF assms(1,3)] by metis
  then have "view s1 c = Some hc" using assms(4) d by simp
  then obtain s2 where 2: "get_mut s1 c (\<lambda>h. h\<lparr>th_next_sibling := None\<rparr>) = Ret (Some s2)" "inv s2"
    "view s2 = (view s1)(c \<mapsto> hc\<lparr>th_next_sibling := None\<rparr>)"
    using get_mut_view [OF 1(2)] by metis
  have "unlink_child get get_mut s p c (AfterPrev a) = Ret (Inr (), s2)"
    using 1(1) 2(1) get_view [OF assms(1) view_own [OF assms(4)]] assms(4) by (simp add: unlink_child_def)
  moreover have "children_of (view s2) p (as @ a # bs)"
  proof -
    have "chain (view s1) th_next_sibling (th_first_child hp) (as @ a # bs)"
      unfolding 1(3) by (rule chain_cut [OF hp(2) assms(3,4)]) simp
    then have "chain (view s2) th_next_sibling (th_first_child hp) (as @ a # bs)"
      unfolding 2(3) using d(2) by (simp add: chain_upd_other)
    moreover have "view s2 p = Some hp" using hp 1(3) 2(3) by auto
    ultimately show ?thesis using hp(3) by (simp add: children_of_def)
  qed
  ultimately show ?thesis using that 1(3) 2(2,3) by simp
qed

lemma remove_child_ok:
  assumes "inv s" "children_of (view s) p xs" "c \<in> set xs"
  obtains s' where "remove_child get get_mut s p c = Some (Ret (Inr (), s'))" "inv s'"
    "children_of (view s') p (remove1 c xs)"
    "\<And>t. map_option (\<lambda>h. h\<lparr>th_first_child := None, th_next_sibling := None\<rparr>) (view s' t) =
      map_option (\<lambda>h. h\<lparr>th_first_child := None, th_next_sibling := None\<rparr>) (view s t)"
proof -
  obtain as bs where xs: "xs = as @ c # bs" "c \<notin> set as" using assms(3) by (meson split_list_first)
  have tw: "takeWhile (\<lambda>y. y \<noteq> c) xs = as" "remove1 c xs = as @ bs"
    using xs by (auto simp: takeWhile_tail remove1_append)
  have live: "view s x \<noteq> None" if "x \<in> set xs \<or> x = p" for x
    using assms(2) that chain_mem by (fastforce simp: children_of_def)
  then obtain hp hc where h: "view s p = Some hp" "view s c = Some hc" using assms(3) by blast
  show ?thesis
  proof (cases as rule: rev_cases)
    case Nil
    then have "locate get s p c = Some (Ret (Inr Head))" using locate_children [OF assms(1,2), of c] tw xs by simp
    moreover obtain s' where "unlink_child get get_mut s p c Head = Ret (Inr (), s')" "inv s'" "children_of (view s') p bs"
      "view s' = (view s)(p \<mapsto> hp\<lparr>th_first_child := th_next_sibling hc\<rparr>, c \<mapsto> hc\<lparr>th_next_sibling := None\<rparr>)"
      using unlink_Head_ok [OF assms(1) _ h] assms(2) xs Nil by (metis append_Nil)
    ultimately show ?thesis using that [of s'] tw Nil h by (auto simp: remove_child_def)
  next
    case (snoc zs a)
    then have "locate get s p c = Some (Ret (Inr (AfterPrev a)))"
      using locate_children [OF assms(1,2), of c] tw xs by simp
    moreover obtain ha where ha: "view s a = Some ha" using live [of a] xs snoc by auto
    moreover obtain s' where "unlink_child get get_mut s p c (AfterPrev a) = Ret (Inr (), s')" "inv s'"
      "children_of (view s') p (zs @ a # bs)"
      "view s' = (view s)(a \<mapsto> ha\<lparr>th_next_sibling := th_next_sibling hc\<rparr>, c \<mapsto> hc\<lparr>th_next_sibling := None\<rparr>)"
      using unlink_AfterPrev_ok [OF assms(1) _ ha h(2), of p zs bs] assms(2) xs snoc by auto
    ultimately show ?thesis using that [of s'] tw snoc h by (auto simp: remove_child_def)
  qed
qed

lemma remove_child_absent:
  assumes "inv s" "children_of (view s) p xs" "c \<notin> set xs"
  shows "remove_child get get_mut s p c = Some (Ret (Inl ChildNotFound, s))"
  using locate_children [OF assms(1,2), of c] assms(3) by (simp add: remove_child_def)

end

section \<open>Properties\<close>

text \<open>
  C35. On the slab of a worker the child list of a parent behaves as a list: pushing a live
  task that is not yet a child puts it first; iterating yields the list; removing a child
  ends, unlinks exactly that child and leaves every other field of every header alone;
  removing a task that is not a child ends with \<open>ChildNotFound\<close> and changes nothing.
\<close>

theorem children_refine_list:
  assumes "slab_wf s" "children_of (header_view w s) p xs" "header_view w s c \<noteq> None" "c \<noteq> p"
  shows "(c \<notin> set xs \<longrightarrow> (\<exists>s'. push_child storage_get storage_get_mut s p c = Ret (Inr (), s') \<and> slab_wf s' \<and>
      children_of (header_view w s') p (c # xs))) \<and>
    (\<exists>first. iter_children storage_get s p = Ret first \<and>
      children_collect storage_get s [] first = Some (Ret xs)) \<and>
    (c \<in> set xs \<longrightarrow> (\<exists>s'. remove_child storage_get storage_get_mut s p c = Some (Ret (Inr (), s')) \<and> slab_wf s' \<and>
      children_of (header_view w s') p (remove1 c xs) \<and>
      (\<forall>t. map_option (\<lambda>h. h\<lparr>th_first_child := None, th_next_sibling := None\<rparr>) (header_view w s' t) =
           map_option (\<lambda>h. h\<lparr>th_first_child := None, th_next_sibling := None\<rparr>) (header_view w s t)))) \<and>
    (c \<notin> set xs \<longrightarrow> remove_child storage_get storage_get_mut s p c = Some (Ret (Inl ChildNotFound, s)))"
proof -
  obtain hp where hp: "header_view w s p = Some hp" "chain (header_view w s) th_next_sibling (th_first_child hp) xs"
    using assms(2) by (auto simp: children_of_def)
  obtain hc where hc: "header_view w s c = Some hc" using assms(3) by auto
  have "iter_children storage_get s p = Ret (th_first_child hp)"
    using task_slab.get_view [OF assms(1) task_slab.view_own [OF hp(1)]] hp(1) by (simp add: iter_children_def)
  moreover have "children_collect storage_get s [] (th_first_child hp) = Some (Ret xs)"
    using task_slab.children_collect_chain [OF assms(1) hp(2)] by simp
  moreover have "\<exists>s'. push_child storage_get storage_get_mut s p c = Ret (Inr (), s') \<and> slab_wf s' \<and>
      children_of (header_view w s') p (c # xs)" if "c \<notin> set xs"
    using task_slab.push_child_ok [OF assms(1,2) hp(1) hc that assms(4)] by metis
  moreover have "\<exists>s'. remove_child storage_get storage_get_mut s p c = Some (Ret (Inr (), s')) \<and> slab_wf s' \<and>
      children_of (header_view w s') p (remove1 c xs) \<and>
      (\<forall>t. map_option (\<lambda>h. h\<lparr>th_first_child := None, th_next_sibling := None\<rparr>) (header_view w s' t) =
           map_option (\<lambda>h. h\<lparr>th_first_child := None, th_next_sibling := None\<rparr>) (header_view w s t))" if "c \<in> set xs"
    using task_slab.remove_child_ok [OF assms(1,2) that] by metis
  ultimately show ?thesis using task_slab.remove_child_absent [OF assms(1,2)] by blast
qed

theorem children_refine_list_witness:
  "let s = demo_tasks [task_slot_new 1 0 (10 :: nat), task_slot_new 2 0 11 :: (nat, nat) task_slot] in
   \<exists>s'. push_child storage_get storage_get_mut s (demo_ref 0) (demo_ref 1) = Ret (Inr (), s') \<and>
     children_of (header_view 3 s') (demo_ref 0) [demo_ref 1]"
proof -
  define s where "s = demo_tasks [task_slot_new 1 0 (10 :: nat), task_slot_new 2 0 11 :: (nat, nat) task_slot]"
  have v: "header_view 3 s (demo_ref 0) = Some (task_header_new 1 0)" "header_view 3 s (demo_ref 1) = Some (task_header_new 2 0)"
    by (simp_all add: s_def header_view_def demo_view task_slot_new_def)
  then have c: "children_of (header_view 3 s) (demo_ref 0) []" by (simp add: children_of_def task_header_new_def)
  have "slab_wf s" by (simp add: s_def demo_tasks_wf)
  moreover have "demo_ref 1 \<noteq> demo_ref 0" by (simp add: demo_ref_inj)
  ultimately have "\<exists>s'. push_child storage_get storage_get_mut s (demo_ref 0) (demo_ref 1) = Ret (Inr (), s') \<and>
     children_of (header_view 3 s') (demo_ref 0) [demo_ref 1]"
    using children_refine_list [OF _ c, of "demo_ref 1"] v by auto
  then show ?thesis unfolding Let_def s_def .
qed

end
