(* ===== verification/Slot_Bitmap.thy ===== *)
theory Slot_Bitmap
  imports Kwokka_Prelude
begin

text \<open>
  Bit counts of machine words and the slot bitmaps of \<open>kwokka-io\<close>: arrays of 64-bit words in
  which bit \<open>i mod 64\<close> of word \<open>i div 64\<close> says whether slot \<open>i\<close> is in use. The two
  searches the slabs run over them, the masked scan for a free slot and the walk over the set
  bits, are shown equal to linear searches over the slot numbers.
\<close>

section \<open>Bit counts\<close>

definition leading_zeros :: "u64 \<Rightarrow> nat" where
  "leading_zeros w = length (takeWhile (\<lambda>i. \<not> bit w i) (rev [0..<64]))"

definition trailing_zeros :: "u64 \<Rightarrow> nat" where
  "trailing_zeros w = length (takeWhile (\<lambda>i. \<not> bit w i) [0..<64])"

lemma le_length_takeWhile: "m \<le> length (takeWhile P xs) \<longleftrightarrow> m \<le> length xs \<and> (\<forall>i<m. P (xs ! i))"
proof (induction xs arbitrary: m)
  case (Cons x xs)
  show ?case
  proof (cases m)
    case (Suc k)
    then show ?thesis using Cons.IH [of k] by (auto simp: nth_Cons less_Suc_eq_0_disj split: nat.splits)
  qed simp
qed auto

lemma no_low_bits: "m \<le> 64 \<Longrightarrow> (\<forall>i<m. \<not> bit (w :: u64) i) \<longleftrightarrow> 2 ^ m dvd unat w"
proof -
  assume m: "m \<le> 64"
  have "(\<forall>i<m. \<not> bit w i) \<longleftrightarrow> (\<forall>i. \<not> bit (take_bit m w) i)" by (auto simp: bit_take_bit_iff)
  also have "\<dots> \<longleftrightarrow> take_bit m w = 0" by (metis bit_eq_iff bit_0_eq bot_apply bot_bool_def)
  also have "\<dots> \<longleftrightarrow> unat (take_bit m w) = 0" by (simp add: unat_eq_zero)
  also have "unat (take_bit m w) = unat w mod 2 ^ m" unfolding unsigned_take_bit_eq by (rule take_bit_eq_mod)
  finally show ?thesis by (simp add: dvd_eq_mod_eq_0)
qed

lemma trailing_zeros_ge: "m \<le> 64 \<Longrightarrow> m \<le> trailing_zeros w \<longleftrightarrow> 2 ^ m dvd unat w"
proof -
  assume m: "m \<le> 64"
  have "m \<le> trailing_zeros w \<longleftrightarrow> (\<forall>i<m. \<not> bit w i)"
    unfolding trailing_zeros_def le_length_takeWhile using m by auto
  then show ?thesis using no_low_bits [OF m] by simp
qed

lemma bit_le_unat: "bit (w :: u64) k \<Longrightarrow> 2 ^ k \<le> unat w"
proof -
  assume "bit w k"
  then have "bit (unat w) k" by (simp add: bit_unsigned_iff)
  then have "odd (unat w div 2 ^ k)" by (simp add: bit_iff_odd)
  then show ?thesis by (metis div_less even_zero not_le)
qed

lemma leading_zeros_spec:
  assumes "w \<noteq> 0"
  shows "leading_zeros w < 64" "2 ^ (63 - leading_zeros w) \<le> unat w" "unat w < 2 ^ (64 - leading_zeros w)"
proof -
  have ge: "m \<le> leading_zeros w \<longleftrightarrow> m \<le> 64 \<and> (\<forall>i<m. \<not> bit w (63 - i))" for m
    unfolding leading_zeros_def le_length_takeWhile by (auto simp: rev_nth)
  obtain k where k: "bit w k" using assms by (auto simp: bit_eq_iff)
  then have "k < 64" using bit_imp_le_length by fastforce
  then have "\<not> 64 \<le> leading_zeros w" using k unfolding ge by (auto intro!: exI [of _ "63 - k"])
  then show lt: "leading_zeros w < 64" by simp
  have "\<not> leading_zeros w + 1 \<le> leading_zeros w" by simp
  then have "bit w (63 - leading_zeros w)" using lt ge [of "leading_zeros w"]
    unfolding ge [of "leading_zeros w + 1"] by (auto simp: less_Suc_eq)
  then show "2 ^ (63 - leading_zeros w) \<le> unat w" by (rule bit_le_unat)
  have hi: "\<not> bit w i" if "64 - leading_zeros w \<le> i" for i
  proof
    assume b: "bit w i"
    then have "i < 64" using bit_imp_le_length by fastforce
    moreover have "\<forall>j<leading_zeros w. \<not> bit w (63 - j)" using ge [of "leading_zeros w"] by simp
    moreover have "63 - i < leading_zeros w" using that lt \<open>i < 64\<close> by linarith
    ultimately have "\<not> bit w (63 - (63 - i))" by blast
    then show False using b \<open>i < 64\<close> by simp
  qed
  then have "take_bit (64 - leading_zeros w) w = w"
    by (intro bit_eqI) (metis bit_take_bit_iff not_le)
  then have "unat w mod 2 ^ (64 - leading_zeros w) = unat w"
    using unsigned_take_bit_eq [of "64 - leading_zeros w" w, where ?'a = nat] by (simp add: take_bit_eq_mod)
  then show "unat w < 2 ^ (64 - leading_zeros w)" by (metis mod_less_divisor zero_less_numeral zero_less_power)
qed

lemma bit_set_mask: "i < 64 \<Longrightarrow> s < 64 \<Longrightarrow> bit (m OR 2 ^ s :: u64) i \<longleftrightarrow> i = s \<or> bit m i"
  by (auto simp: bit_simps)

lemma bit_clear_mask: "i < 64 \<Longrightarrow> s < 64 \<Longrightarrow> bit (m AND NOT (2 ^ s) :: u64) i \<longleftrightarrow> i \<noteq> s \<and> bit m i"
  by (auto simp: bit_simps)

section \<open>Clearing the lowest set bit\<close>

lemma trailing_zeros_bit:
  assumes "w \<noteq> 0"
  shows "trailing_zeros w < 64" "bit w (trailing_zeros w)" "i < trailing_zeros w \<Longrightarrow> \<not> bit w i"
proof -
  have ge: "m \<le> trailing_zeros w \<longleftrightarrow> m \<le> 64 \<and> (\<forall>i<m. \<not> bit w i)" for m
    unfolding trailing_zeros_def le_length_takeWhile by auto
  obtain k where k: "bit w k" using assms by (auto simp: bit_eq_iff)
  then have "k < 64" using bit_imp_le_length by fastforce
  then have "\<not> 64 \<le> trailing_zeros w" using k unfolding ge by auto
  then show lt: "trailing_zeros w < 64" by simp
  show low: "i < trailing_zeros w \<Longrightarrow> \<not> bit w i" for i using ge [of "trailing_zeros w"] by simp
  have "\<not> trailing_zeros w + 1 \<le> trailing_zeros w" by simp
  then show "bit w (trailing_zeros w)" using lt low unfolding ge [of "trailing_zeros w + 1"]
    by (auto simp: less_Suc_eq)
qed

lemma div_pred: "(n :: nat) mod m \<noteq> 0 \<Longrightarrow> (n - 1) div m = n div m"
proof -
  assume "n mod m \<noteq> 0"
  then have "n - 1 = n div m * m + (n mod m - 1)" using div_mult_mod_eq [of n m] by linarith
  moreover have "0 < m \<Longrightarrow> n mod m - 1 < m" by (metis less_imp_diff_less mod_less_divisor)
  ultimately show ?thesis by (cases "m = 0") (simp_all add: div_add1_eq)
qed

lemma div_below_multiple: "0 < m \<Longrightarrow> ((m :: nat) - 1 + k * m) div m = k"
  using div_mult_self1 [of m "m - 1" k] by (simp only: mult.commute) simp

lemma bit_clear_lowest:
  assumes "w \<noteq> 0"
  shows "bit (w AND (w - 1) :: u64) i \<longleftrightarrow> bit w i \<and> i \<noteq> trailing_zeros w"
proof -
  let ?t = "trailing_zeros w" and ?n = "unat w"
  note T = trailing_zeros_bit [OF assms]
  have un: "unat (w - 1) = ?n - 1" using assms by (simp add: unat_minus_one)
  have b: "bit w k \<longleftrightarrow> odd (?n div 2 ^ k)" "bit (w - 1) k \<longleftrightarrow> odd ((?n - 1) div 2 ^ k)" if "k < 64" for k
    using that bit_unsigned_iff [of w k, where ?'a = nat] bit_unsigned_iff [of "w - 1" k, where ?'a = nat] un
    by (simp_all add: bit_iff_odd)
  have dv: "2 ^ ?t dvd ?n" using trailing_zeros_ge [of ?t w] T(1) by simp
  have *: "bit (w - 1) i \<longleftrightarrow> bit w i" if "?t < i" "i < 64"
  proof -
    have "\<not> 2 ^ Suc ?t dvd ?n" using trailing_zeros_ge [of "Suc ?t" w] T(1) by simp
    moreover have "(2 :: nat) ^ Suc ?t dvd 2 ^ i" using that(1) by (intro le_imp_power_dvd) simp
    ultimately have "?n mod 2 ^ i \<noteq> 0" by (metis dvd_eq_mod_eq_0 dvd_trans)
    then show ?thesis using b [OF that(2)] div_pred by simp
  qed
  moreover have "\<not> bit (w - 1) ?t"
  proof -
    obtain k where k: "?n = 2 ^ ?t * k" using dv by blast
    then have "odd k" using T(2) b(1) [OF T(1)] by simp
    then obtain j where j: "k = Suc (2 * j)" by (elim oddE) simp
    then have "?n - 1 = (2 ^ ?t - 1) + 2 * j * 2 ^ ?t" using k by (simp add: algebra_simps)
    then have "(?n - 1) div 2 ^ ?t = 2 * j" using div_below_multiple [of "2 ^ ?t" "2 * j"] by (simp only:) simp
    then show ?thesis using b(2) [OF T(1)] by simp
  qed
  moreover have "i < 64" if "bit w i" using that bit_imp_le_length by fastforce
  ultimately show ?thesis using T(2,3) by (auto simp: bit_and_iff) (metis not_less_iff_gr_or_eq)+
qed

lemma clear_lowest_less: "w \<noteq> 0 \<Longrightarrow> unat (w AND (w - 1) :: u64) < unat w"
proof -
  assume w: "w \<noteq> 0"
  have "w AND (w - 1) \<le> w" by (simp add: word_and_le2)
  moreover have "w AND (w - 1) \<noteq> w"
    using bit_clear_lowest [OF w, of "trailing_zeros w"] trailing_zeros_bit(2) [OF w] by metis
  ultimately show ?thesis by (simp add: word_le_nat_alt word_unat_eq_iff)
qed

section \<open>Searching the set bits of a word\<close>

text \<open>
  \<open>while pending != 0\<close>: take the lowest set bit, clear it, run the body on it; the body may
  return from the search.
\<close>

function scan_bits :: "u64 \<Rightarrow> (nat \<Rightarrow> 'b option) \<Rightarrow> 'b option" where
  "scan_bits pending f =
     (if pending = 0 then None
      else case f (trailing_zeros pending) of
          Some y \<Rightarrow> Some y
        | None \<Rightarrow> scan_bits (pending AND (pending - 1)) f)"
  by auto

termination
  by (relation "measure (\<lambda>(w, f). unat w)") (simp_all add: clear_lowest_less)

declare scan_bits.simps [simp del]

text \<open>\<open>for word in 0..BITMAP_WORDS\<close> around it, the body seeing the slot number \<open>word * 64 + bit\<close>.\<close>

fun scan_words :: "nat \<Rightarrow> u64 list \<Rightarrow> (nat \<Rightarrow> 'b option) \<Rightarrow> 'b option" where
  "scan_words i [] f = None"
| "scan_words i (w # ws) f =
     (case scan_bits w (\<lambda>b. f (i * 64 + b)) of
        Some y \<Rightarrow> Some y
      | None \<Rightarrow> scan_words (Suc i) ws f)"

text \<open>The reference search: the first slot number, in ascending order, on which the body returns.\<close>

primrec first_some :: "('a \<Rightarrow> 'b option) \<Rightarrow> 'a list \<Rightarrow> 'b option" where
  "first_some f [] = None"
| "first_some f (x # xs) = (case f x of Some y \<Rightarrow> Some y | None \<Rightarrow> first_some f xs)"

lemma first_some_append:
  "first_some f (xs @ ys) = (case first_some f xs of Some y \<Rightarrow> Some y | None \<Rightarrow> first_some f ys)"
  by (induction xs) (auto split: option.splits)

lemma first_some_map: "first_some f (map g xs) = first_some (\<lambda>x. f (g x)) xs"
  by (induction xs) (auto split: option.splits)

lemma first_some_cong: "(\<And>x. x \<in> set xs \<Longrightarrow> f x = g x) \<Longrightarrow> first_some f xs = first_some g xs"
  by (induction xs) (auto split: option.splits)

lemma first_some_find: "first_some (\<lambda>x. if P x then Some x else None) xs = find P xs"
  by (induction xs) simp_all

lemma first_some_filter: "first_some f (filter P xs) = first_some (\<lambda>x. if P x then f x else None) xs"
  by (induction xs) (auto split: option.splits)

lemma upt_split: "i \<le> j \<Longrightarrow> j \<le> k \<Longrightarrow> [i..<k] = [i..<j] @ [j..<k]"
  using upt_add_eq_append [of i j "k - j"] by simp

lemma set_bits_Cons:
  assumes "w \<noteq> 0"
  shows "filter (bit w) [0..<64] = trailing_zeros w # filter (bit (w AND (w - 1) :: u64)) [0..<64]"
proof -
  let ?t = "trailing_zeros w"
  note T = trailing_zeros_bit [OF assms]
  have split: "[0..<64] = [0..<?t] @ ?t # [Suc ?t..<64]" using T(1) upt_split [of 0 ?t 64] upt_conv_Cons [of ?t 64] by simp
  have "filter (bit w) [0..<?t] = []" "filter (bit (w AND (w - 1))) [0..<?t] = []"
    using T(3) by (auto simp: filter_empty_conv bit_clear_lowest [OF assms])
  moreover have "filter (bit (w AND (w - 1))) [Suc ?t..<64] = filter (bit w) [Suc ?t..<64]"
    by (rule filter_cong) (auto simp: bit_clear_lowest [OF assms])
  ultimately show ?thesis using T(2) unfolding split by (simp add: bit_clear_lowest [OF assms])
qed

lemma scan_bits_eq: "scan_bits w f = first_some f (filter (bit w) [0..<64])"
proof (induction w f rule: scan_bits.induct)
  case (1 w f)
  show ?case
  proof (cases "w = 0")
    case True
    then show ?thesis by (simp add: scan_bits.simps)
  next
    case False
    then show ?thesis using 1 by (subst scan_bits.simps) (auto simp: set_bits_Cons split: option.splits)
  qed
qed

section \<open>Slot bitmaps\<close>

type_synonym bitmap = "u64 list"

text \<open>Slot \<open>i\<close> of a bitmap, the view all lemmas are stated in.\<close>

definition bm_mem :: "bitmap \<Rightarrow> nat \<Rightarrow> bool" where
  "bm_mem bm i = bit (bm ! (i div 64)) (i mod 64)"

lemma bm_mem_Cons: "bm_mem (w # ws) i = (if i < 64 then bit w i else bm_mem ws (i - 64))"
  by (auto simp: bm_mem_def nth_Cons' div_if [of i 64] le_mod_geq)

lemma upt_shift: "[a..<a + n] = map (\<lambda>x. a + x) [0..<n]"
  by (simp add: map_add_upt add.commute)

lemma scan_words_eq:
  "scan_words i bm f = first_some (\<lambda>s. if bm_mem bm s then f (i * 64 + s) else None) [0..<64 * length bm]"
proof (induction bm arbitrary: i)
  case (Cons w ws)
  let ?g = "\<lambda>s. if bm_mem (w # ws) s then f (i * 64 + s) else None"
  have "[0..<64 * length (w # ws)] = [0..<64] @ map (\<lambda>x. 64 + x) [0..<64 * length ws]"
    using upt_split [of 0 64 "64 + 64 * length ws"] upt_shift [of 64 "64 * length ws"] by simp
  moreover have "first_some ?g [0..<64] = scan_bits w (\<lambda>b. f (i * 64 + b))"
    unfolding scan_bits_eq first_some_filter by (rule first_some_cong) (simp add: bm_mem_Cons)
  moreover have "first_some ?g (map (\<lambda>x. 64 + x) [0..<64 * length ws]) = scan_words (Suc i) ws f"
    unfolding Cons.IH first_some_map by (rule first_some_cong) (simp add: bm_mem_Cons algebra_simps)
  ultimately show ?case by (simp only: first_some_append scan_words.simps)
qed simp

text \<open>\<open>word_bit\<close>, and the three accesses the slabs make: test, set and clear one bit.\<close>

definition word_bit :: "u16 \<Rightarrow> nat \<times> nat" where
  "word_bit slot = (unat slot div 64, unat slot mod 64)"

definition bm_test :: "bitmap \<Rightarrow> nat \<times> nat \<Rightarrow> bool" where
  "bm_test bm wb \<longleftrightarrow> bm ! fst wb AND push_bit (snd wb) 1 \<noteq> 0"

definition bm_raise :: "bitmap \<Rightarrow> nat \<times> nat \<Rightarrow> bitmap" where
  "bm_raise bm wb = bm[fst wb := bm ! fst wb OR push_bit (snd wb) 1]"

definition bm_drop :: "bitmap \<Rightarrow> nat \<times> nat \<Rightarrow> bitmap" where
  "bm_drop bm wb = bm[fst wb := bm ! fst wb AND NOT (push_bit (snd wb) 1)]"

lemma bm_length [simp]: "length (bm_raise bm wb) = length bm" "length (bm_drop bm wb) = length bm"
  by (simp_all add: bm_raise_def bm_drop_def)

lemma and_exp_nonzero: "b < 64 \<Longrightarrow> (w :: u64) AND 2 ^ b \<noteq> 0 \<longleftrightarrow> bit w b"
  by (auto simp: bit_eq_iff [of "w AND 2 ^ b" 0] bit_simps)

lemma bm_test_at: "bm_test bm (i div 64, i mod 64) = bm_mem bm i"
  by (simp add: bm_test_def bm_mem_def and_exp_nonzero)

lemma same_slot: "(i :: nat) div 64 = j div 64 \<and> i mod 64 = j mod 64 \<longleftrightarrow> i = j"
  by (metis div_mult_mod_eq)

lemma bm_raise_at:
  "i < 64 * length bm \<Longrightarrow> bm_mem (bm_raise bm (i div 64, i mod 64)) j \<longleftrightarrow> j = i \<or> bm_mem bm j"
  using same_slot [of i j] by (auto simp: bm_raise_def bm_mem_def nth_list_update bit_set_mask)

lemma bm_drop_at:
  "i < 64 * length bm \<Longrightarrow> bm_mem (bm_drop bm (i div 64, i mod 64)) j \<longleftrightarrow> j \<noteq> i \<and> bm_mem bm j"
  using same_slot [of i j] by (auto simp: bm_drop_def bm_mem_def nth_list_update bit_clear_mask)

lemma bm_slot [simp]:
  "bm_test bm (word_bit slot) = bm_mem bm (unat slot)"
  "unat slot < 64 * length bm \<Longrightarrow> bm_mem (bm_raise bm (word_bit slot)) j \<longleftrightarrow> j = unat slot \<or> bm_mem bm j"
  "unat slot < 64 * length bm \<Longrightarrow> bm_mem (bm_drop bm (word_bit slot)) j \<longleftrightarrow> j \<noteq> unat slot \<and> bm_mem bm j"
  by (simp_all add: word_bit_def bm_test_at bm_raise_at bm_drop_at)

lemma bm_mem_zero [simp]: "i < 64 * n \<Longrightarrow> \<not> bm_mem (replicate n 0) i"
  by (simp add: bm_mem_def less_mult_imp_div_less mult.commute)

section \<open>Slot numbers and generations\<close>

lemma unat_slot [simp]: "i < 65536 \<Longrightarrow> unat (of_nat i :: u16) = i"
  by (simp add: unat_of_nat)

lemma low16_matches: "(g :: u64) AND 0xFFFF = ucast (low :: u16) \<longleftrightarrow> ucast g = low"
proof -
  have m: "(0xFFFF :: u64) = mask 16" by (simp add: mask_eq_exp_minus_1)
  have "g AND 0xFFFF = ucast (ucast g :: u16)" unfolding m by (rule bit_word_eqI) (auto simp: bit_simps)
  moreover have "ucast (ucast g :: u16) = (ucast low :: u64) \<longleftrightarrow> ucast g = low"
    using unat_ucast_up [where ?'a = 16 and ?'b = 64] by (simp add: word_unat_eq_iff)
  ultimately show ?thesis by simp
qed

section \<open>The masked search for a free slot\<close>

fun first_free_in :: "nat \<Rightarrow> nat \<Rightarrow> bitmap \<Rightarrow> u16 option" where
  "first_free_in limit idx [] = None"
| "first_free_in limit idx (word # words) =
     (let last_word = limit div 64; last_bit = limit mod 64 in
      if idx < last_word \<or> (idx = last_word \<and> last_bit > 0) then
        let mask = (if idx < last_word then - 1 else push_bit last_bit 1 - 1);
            available = NOT word AND mask in
        if available \<noteq> 0
        then let raw = idx * 64 + trailing_zeros available in
             if raw < 65536 then Some (of_nat raw) else None
        else first_free_in limit (Suc idx) words
      else None)"

lemma find_hd: "find P xs = (case filter P xs of [] \<Rightarrow> None | x # ys \<Rightarrow> Some x)"
  by (induction xs) simp_all

lemma find_bits: "find (bit w) [0..<64] = (if w = 0 then None else Some (trailing_zeros (w :: u64)))"
  unfolding find_hd by (cases "w = 0") (simp_all add: set_bits_Cons)

lemma find_append: "find P (xs @ ys) = (case find P xs of Some y \<Rightarrow> Some y | None \<Rightarrow> find P ys)"
  by (induction xs) simp_all

lemma find_map: "find P (map f xs) = map_option f (find (\<lambda>x. P (f x)) xs)"
  by (induction xs) simp_all

lemma find_masked:
  assumes "n \<le> 64" and m: "m = (if n = 64 then - 1 else 2 ^ n - 1)"
  shows "find (\<lambda>s. \<not> bit w s) [0..<n]
    = (if NOT w AND m = 0 then None else Some (trailing_zeros (NOT w AND m :: u64)))"
proof -
  have bm: "bit m s \<longleftrightarrow> s < n" if "s < 64" for s
    using that assms by (auto simp: bit_simps simp flip: mask_eq_exp_minus_1)
  then have "bit (NOT w AND m) s \<longleftrightarrow> s < n \<and> \<not> bit w s" if "s < 64" for s
    using that by (auto simp: bit_simps)
  then have "find (bit (NOT w AND m)) [0..<n] = find (\<lambda>s. \<not> bit w s) [0..<n]"
    "find (bit (NOT w AND m)) [n..<64] = None"
    using assms(1) by (auto simp: find_None_iff intro!: find_cong)
  then show ?thesis using find_bits [of "NOT w AND m"] upt_split [of 0 n 64] assms(1)
    by (auto simp: find_append split: option.splits if_splits)
qed

lemma first_free_in_eq:
  assumes "64 * (idx + length bm) \<le> 65536" "limit \<le> 64 * (idx + length bm)"
  shows "first_free_in limit idx bm
    = map_option (\<lambda>s. of_nat (idx * 64 + s)) (find (\<lambda>s. \<not> bm_mem bm s) [0..<limit - idx * 64])"
  using assms
proof (induction bm arbitrary: idx)
  case (Cons w ws)
  let ?n = "min 64 (limit - idx * 64)" and ?m = "limit - Suc idx * 64"
  let ?mask = "if ?n = 64 then - 1 else 2 ^ ?n - 1 :: u64" and ?P = "\<lambda>s. \<not> bm_mem (w # ws) s"
  have split: "[0..<limit - idx * 64] = [0..<?n] @ map (\<lambda>x. 64 + x) [0..<?m]"
    using upt_split [of 0 64 "limit - idx * 64"] upt_shift [of 64 ?m] by (auto simp: min_def)
  have A: "find ?P [0..<?n] = (if NOT w AND ?mask = 0 then None else Some (trailing_zeros (NOT w AND ?mask)))"
    unfolding find_masked [of ?n ?mask w, OF min.cobounded1 refl, symmetric]
    by (rule find_cong) (auto simp: bm_mem_Cons)
  have B: "map_option (\<lambda>s. of_nat (idx * 64 + s)) (find ?P (map (\<lambda>x. 64 + x) [0..<?m])) = first_free_in limit (Suc idx) ws"
    using Cons.IH [of "Suc idx"] Cons.prems
    by (simp add: find_map bm_mem_Cons option.map_comp comp_def algebra_simps)
  have C: "first_free_in limit (Suc idx) ws = None" if "?n < 64" using B that by auto
  have D: "idx * 64 + trailing_zeros v < 65536" if "v \<noteq> 0" for v :: u64
    using trailing_zeros_bit(1) [OF that] Cons.prems(1) by simp
  consider (full) "idx < limit div 64" | (last) "idx = limit div 64" "0 < limit mod 64"
    | (past) "\<not> (idx < limit div 64 \<or> idx = limit div 64 \<and> 0 < limit mod 64)" by argo
  then show ?case
  proof cases
    case full
    then have n: "?n = 64" by (simp add: min_def)
    then have "find ?P [0..<?n] = (if NOT w = 0 then None else Some (trailing_zeros (NOT w)))" using A by simp
    then show ?thesis using B D [of "NOT w"] full Cons.prems unfolding split find_append by (simp add: Let_def)
  next
    case last
    then have n: "?n = limit mod 64" "?n < 64" by (simp_all add: minus_div_mult_eq_mod)
    then have mk: "?mask = 2 ^ (limit mod 64) - 1" by (metis less_irrefl)
    have "find ?P [0..<?n] = (let v = NOT w AND (2 ^ (limit mod 64) - 1) in if v = 0 then None else Some (trailing_zeros v))"
      using A unfolding mk by (simp only: Let_def)
    then show ?thesis using B D [of "NOT w AND (2 ^ (limit mod 64) - 1)"] last Cons.prems
      unfolding split find_append by (simp add: Let_def)
  next
    case past
    then have "limit - idx * 64 = 0" by (metis diff_is_0_eq div_mult_mod_eq leI less_eq_div_iff_mult_less_eq linorder_neqE_nat not_gr_zero add.right_neutral order.refl zero_less_numeral nat_less_le)
    then show ?thesis using past by (auto simp: Let_def)
  qed
qed simp

text \<open>
  C30. The bit-parallel searches of the slabs agree with linear searches over the slot numbers:
  the masked scan finds the lowest slot below the limit whose bit is clear, and the walk over
  the set bits (clearing the lowest one each time) finds the lowest slot whose bit is set and
  that satisfies the body's test.
\<close>

theorem bitmap_searches_equiv:
  assumes "length bm \<le> 1024" "limit \<le> 64 * length bm"
  shows "first_free_in limit 0 bm = map_option of_nat (find (\<lambda>s. \<not> bm_mem bm s) [0..<limit])
    \<and> scan_words 0 bm (\<lambda>s. if P s then Some s else None) = find (\<lambda>s. bm_mem bm s \<and> P s) [0..<64 * length bm]"
proof
  show "first_free_in limit 0 bm = map_option of_nat (find (\<lambda>s. \<not> bm_mem bm s) [0..<limit])"
    using assms first_free_in_eq [of 0 bm limit] by simp
  have "(\<lambda>s. if bm_mem bm s then if P s then Some s else None else None)
      = (\<lambda>s. if bm_mem bm s \<and> P s then Some s else None)" by auto
  then show "scan_words 0 bm (\<lambda>s. if P s then Some s else None) = find (\<lambda>s. bm_mem bm s \<and> P s) [0..<64 * length bm]"
    unfolding scan_words_eq by (simp only: mult_zero_left add_0 first_some_find)
qed

theorem bitmap_searches_equiv_witness:
  "first_free_in 10 0 [7] = Some 3 \<and>
   scan_words 0 [5] (\<lambda>s. if 0 < s then Some s else None) = Some 2"
  using bitmap_searches_equiv [of "[7]" 10 "\<lambda>s. 0 < s"] bitmap_searches_equiv [of "[5]" 10 "\<lambda>s. 0 < s"]
  by (simp add: upt_rec bm_mem_def bit_numeral_rec bit_1_0)

end
