(* ===== verification/Timer_Wheel.thy ===== *)
theory Timer_Wheel
  imports Slab Link_Chain Slot_Bitmap
begin

text \<open>
  The hierarchical timing wheel (\<open>timer/wheel\<close>): six levels of 64 slots, each slot the head
  of a doubly linked list of entries that live in a slab and refer to each other by
  non-zero index. The clock is outside the model: every operation that reads it takes the
  tick it read as an argument. Ticks are machine words; an addition that overflows panics.
\<close>

section \<open>Entries and handles\<close>

type_synonym nz = u32

record timer_entry =
  te_deadline :: u64
  te_task :: task_ref
  te_prev :: "nz option"
  te_next :: "nz option"
  te_level :: nat
  te_slot :: nat

definition slab_to_nz :: "u32 \<Rightarrow> nz exec" where
  "slab_to_nz index = (if index = 0xFFFFFFFF then Panic else Ret (index + 1))"

definition nz_to_slab :: "nz \<Rightarrow> u32" where
  "nz_to_slab n = n - 1"

type_synonym timer_handle = slab_key

definition handle_nz :: "timer_handle \<Rightarrow> nz exec" where
  "handle_nz handle = slab_to_nz (key_index handle)"

section \<open>Slots and levels\<close>

definition SLOTS_PER_LEVEL :: nat where "SLOTS_PER_LEVEL = 64"
definition LEVEL_COUNT :: nat where "LEVEL_COUNT = 6"

text \<open>A slot is its head; the slab of entries is threaded through.\<close>

definition push_front :: "nz option \<Rightarrow> nz \<Rightarrow> timer_entry slab \<Rightarrow> (nz option \<times> timer_entry slab) exec" where
  "push_front head entry_nz entries =
     exec_bind (slab_get_mut_by_index entries (nz_to_slab entry_nz) (\<lambda>e. e\<lparr>te_prev := None, te_next := head\<rparr>)) (\<lambda>r.
     case r of None \<Rightarrow> Ret (head, entries)
     | Some entries1 \<Rightarrow>
         exec_bind (case head of None \<Rightarrow> Ret entries1
           | Some old_head \<Rightarrow>
               exec_bind (slab_get_mut_by_index entries1 (nz_to_slab old_head) (\<lambda>e. e\<lparr>te_prev := Some entry_nz\<rparr>)) (\<lambda>r.
               Ret (case r of None \<Rightarrow> entries1 | Some entries2 \<Rightarrow> entries2))) (\<lambda>entries2.
         Ret (Some entry_nz, entries2)))"

definition update_if_live :: "timer_entry slab \<Rightarrow> nz \<Rightarrow> (timer_entry \<Rightarrow> timer_entry) \<Rightarrow> timer_entry slab exec" where
  "update_if_live entries n f =
     exec_bind (slab_get_mut_by_index entries (nz_to_slab n) f) (\<lambda>r. Ret (case r of None \<Rightarrow> entries | Some e \<Rightarrow> e))"

definition slot_remove :: "nz option \<Rightarrow> nz \<Rightarrow> timer_entry slab \<Rightarrow> (bool \<times> nz option \<times> timer_entry slab) exec" where
  "slot_remove head entry_nz entries =
     exec_bind (slab_get_by_index entries (nz_to_slab entry_nz)) (\<lambda>r. case r of
       None \<Rightarrow> Ret (head = None, head, entries)
     | Some entry \<Rightarrow>
         let prev = te_prev entry; next = te_next entry in
         exec_bind (case prev of
             Some prev_nz \<Rightarrow> exec_bind (update_if_live entries prev_nz (\<lambda>e. e\<lparr>te_next := next\<rparr>)) (\<lambda>e. Ret (head, e))
           | None \<Rightarrow> Ret (next, entries)) (\<lambda>(head', entries1).
         exec_bind (case next of
             Some next_nz \<Rightarrow> update_if_live entries1 next_nz (\<lambda>e. e\<lparr>te_prev := prev\<rparr>)
           | None \<Rightarrow> Ret entries1) (\<lambda>entries2.
         exec_bind (update_if_live entries2 entry_nz (\<lambda>e. e\<lparr>te_prev := None, te_next := None\<rparr>)) (\<lambda>entries3.
         Ret (head' = None, head', entries3)))))"

record wheel_level =
  wl_slots :: "nz option list"
  wl_mask :: u64

definition level_new :: wheel_level where
  "level_new = \<lparr>wl_slots = replicate SLOTS_PER_LEVEL None, wl_mask = 0\<rparr>"

section \<open>The wheel\<close>

record timer_wheel =
  tw_tick :: u64
  tw_levels :: "wheel_level list"
  tw_entries :: "timer_entry slab"

definition wheel_new :: "u64 \<Rightarrow> nat \<Rightarrow> timer_wheel exec" where
  "wheel_new now capacity = exec_bind (slab_new capacity) (\<lambda>entries.
     Ret \<lparr>tw_tick = now, tw_levels = replicate LEVEL_COUNT level_new, tw_entries = entries\<rparr>)"

text \<open>The saturating difference, the level from its leading bit, the slot from the deadline.\<close>

definition position :: "u64 \<Rightarrow> u64 \<Rightarrow> nat \<times> nat" where
  "position deadline current =
     (let delta = (if deadline < current then 0 else deadline - current) in
      if delta = 0 then (0, unat (current AND 0x3F))
      else let level = min ((63 - leading_zeros delta) div 6) 5 in
           (level, unat (drop_bit (level * 6) deadline AND 0x3F)))"

definition set_level :: "timer_wheel \<Rightarrow> nat \<Rightarrow> (wheel_level \<Rightarrow> wheel_level) \<Rightarrow> timer_wheel" where
  "set_level w l f = w\<lparr>tw_levels := (tw_levels w)[l := f (tw_levels w ! l)]\<rparr>"

definition set_head :: "nat \<Rightarrow> nz option \<Rightarrow> wheel_level \<Rightarrow> wheel_level" where
  "set_head slot head lv = lv\<lparr>wl_slots := (wl_slots lv)[slot := head]\<rparr>"

definition insert_at :: "timer_wheel \<Rightarrow> nz \<Rightarrow> nat \<Rightarrow> nat \<Rightarrow> timer_wheel exec" where
  "insert_at w entry_nz level slot =
     exec_bind (update_if_live (tw_entries w) entry_nz (\<lambda>e. e\<lparr>te_level := level, te_slot := slot\<rparr>)) (\<lambda>entries.
     if level < length (tw_levels w) \<and> slot < length (wl_slots (tw_levels w ! level)) then
       exec_bind (push_front (wl_slots (tw_levels w ! level) ! slot) entry_nz entries) (\<lambda>(head, entries').
       Ret (set_level (w\<lparr>tw_entries := entries'\<rparr>) level
         (\<lambda>lv. (set_head slot head lv)\<lparr>wl_mask := wl_mask lv OR push_bit slot 1\<rparr>)))
     else Panic)"

definition wheel_register :: "timer_wheel \<Rightarrow> task_ref \<Rightarrow> u64 \<Rightarrow> ((slab_error + timer_handle) \<times> timer_wheel) exec" where
  "wheel_register w task deadline =
     (let entry = \<lparr>te_deadline = deadline, te_task = task, te_prev = None, te_next = None, te_level = 0, te_slot = 0\<rparr> in
      exec_bind (slab_insert (tw_entries w) entry) (\<lambda>(r, entries). case r of
        Inl e \<Rightarrow> Ret (Inl e, w\<lparr>tw_entries := entries\<rparr>)
      | Inr key \<Rightarrow>
          exec_bind (slab_to_nz (key_index key)) (\<lambda>n.
          case position deadline (tw_tick w) of (level, slot) \<Rightarrow>
          exec_bind (insert_at (w\<lparr>tw_entries := entries\<rparr>) n level slot) (\<lambda>w'. Ret (Inr key, w')))))"

definition remove_from_slot :: "timer_wheel \<Rightarrow> nz \<Rightarrow> timer_wheel exec" where
  "remove_from_slot w entry_nz =
     exec_bind (slab_get_by_index (tw_entries w) (nz_to_slab entry_nz)) (\<lambda>r. case r of
       None \<Rightarrow> Ret w
     | Some entry \<Rightarrow>
         let level = te_level entry; slot = te_slot entry in
         if level < length (tw_levels w) \<and> slot < length (wl_slots (tw_levels w ! level)) then
           exec_bind (slot_remove (wl_slots (tw_levels w ! level) ! slot) entry_nz (tw_entries w)) (\<lambda>(is_empty, head, entries).
           Ret (set_level (w\<lparr>tw_entries := entries\<rparr>) level (\<lambda>lv.
             (set_head slot head lv)\<lparr>wl_mask := (if is_empty then wl_mask lv AND NOT (push_bit slot 1) else wl_mask lv)\<rparr>)))
         else Panic)"

definition wheel_cancel :: "timer_wheel \<Rightarrow> timer_handle \<Rightarrow> (bool \<times> timer_wheel) exec" where
  "wheel_cancel w handle =
     exec_bind (slab_get (tw_entries w) handle) (\<lambda>r. case r of
       None \<Rightarrow> Ret (False, w)
     | Some _ \<Rightarrow>
         exec_bind (handle_nz handle) (\<lambda>n.
         exec_bind (remove_from_slot w n) (\<lambda>w1.
         exec_bind (slab_remove (tw_entries w1) handle) (\<lambda>(_, entries).
         Ret (True, w1\<lparr>tw_entries := entries\<rparr>)))))"

text \<open>\<open>next_expiry\<close>: the lowest populated level, the distance of its first populated slot.\<close>

fun next_expiry_from :: "u64 \<Rightarrow> nat \<Rightarrow> wheel_level list \<Rightarrow> u64 option" where
  "next_expiry_from tick level [] = None"
| "next_expiry_from tick level (lv # lvs) =
     (if wl_mask lv = 0 then next_expiry_from tick (level + 1) lvs
      else let current_slot = unat (drop_bit (level * 6) tick AND 0x3F);
               rotated = word_rotr current_slot (wl_mask lv);
               distance = trailing_zeros rotated;
               slot_size = push_bit (level * 6) 1
           in Some (of_nat distance * slot_size + 1))"

definition next_expiry :: "timer_wheel \<Rightarrow> u64 option" where
  "next_expiry w = next_expiry_from (tw_tick w) 0 (tw_levels w)"

section \<open>Advancing\<close>

text \<open>The loop over the detached list of a cascaded slot.\<close>

partial_function (option) cascade_loop :: "timer_wheel \<Rightarrow> nz option \<Rightarrow> timer_wheel exec option" where
  "cascade_loop w entry_nz = (case entry_nz of None \<Rightarrow> Some (Ret w)
     | Some n \<Rightarrow> (case slab_get_by_index (tw_entries w) (nz_to_slab n) of
         Ret None \<Rightarrow> Some (Ret w)
       | Ret (Some entry) \<Rightarrow>
           (case update_if_live (tw_entries w) n (\<lambda>e. e\<lparr>te_prev := None, te_next := None\<rparr>) of
              Ret entries \<Rightarrow> (case position (te_deadline entry) (tw_tick w) of (new_level, new_slot) \<Rightarrow>
                (case insert_at (w\<lparr>tw_entries := entries\<rparr>) n new_level new_slot of
                   Ret w' \<Rightarrow> cascade_loop w' (te_next entry)
                 | Panic \<Rightarrow> Some Panic
                 | Undefined \<Rightarrow> Some Undefined))
            | Panic \<Rightarrow> Some Panic
            | Undefined \<Rightarrow> Some Undefined)
       | Panic \<Rightarrow> Some Panic
       | Undefined \<Rightarrow> Some Undefined))"

definition cascade_level :: "timer_wheel \<Rightarrow> nat \<Rightarrow> timer_wheel exec option" where
  "cascade_level w level =
     (let slot_idx = unat (drop_bit (level * 6) (tw_tick w) AND 0x3F) in
      if level < length (tw_levels w) \<and> slot_idx < length (wl_slots (tw_levels w ! level)) then
        let head = wl_slots (tw_levels w ! level) ! slot_idx in
        cascade_loop (set_level w level (\<lambda>lv.
          (set_head slot_idx None lv)\<lparr>wl_mask := wl_mask lv AND NOT (push_bit slot_idx 1)\<rparr>)) head
      else Some Panic)"

text \<open>The loop over the levels above the first: it stops at the first level that did not turn.\<close>

fun cascade_levels :: "nat \<Rightarrow> nat list \<Rightarrow> timer_wheel \<Rightarrow> timer_wheel exec option" where
  "cascade_levels tz [] w = Some (Ret w)"
| "cascade_levels tz (lvl # lvls) w =
     (if lvl * 6 \<le> tz then (case cascade_level w lvl of
         Some (Ret w') \<Rightarrow> cascade_levels tz lvls w'
       | r \<Rightarrow> r)
      else Some (Ret w))"

definition advance_one_tick :: "timer_wheel \<Rightarrow> timer_wheel exec option" where
  "advance_one_tick w =
     (if tw_tick w = - 1 then Some Panic
      else let w1 = w\<lparr>tw_tick := tw_tick w + 1\<rparr>; tz = trailing_zeros (tw_tick w1) in
        if 6 \<le> tz then (case cascade_level w1 1 of
            Some (Ret w2) \<Rightarrow> cascade_levels tz [2..<LEVEL_COUNT] w2
          | r \<Rightarrow> r)
        else Some (Ret w1))"

text \<open>\<open>ExpiredIter\<close>: the wheel, the target and the rest of the slot being drained.\<close>

record expired_iter =
  xi_wheel :: timer_wheel
  xi_target :: u64
  xi_drain :: "nz option"

definition advance_to :: "timer_wheel \<Rightarrow> u64 \<Rightarrow> expired_iter" where
  "advance_to w target = \<lparr>xi_wheel = w, xi_target = target, xi_drain = None\<rparr>"

text \<open>Detaching the slot of the current tick.\<close>

definition take_slot :: "timer_wheel \<Rightarrow> (nz option \<times> timer_wheel) exec" where
  "take_slot w =
     (let slot_idx = unat (tw_tick w AND 0x3F) in
      if 0 < length (tw_levels w) \<and> slot_idx < length (wl_slots (tw_levels w ! 0)) then
        let drain = wl_slots (tw_levels w ! 0) ! slot_idx in
        Ret (drain, set_level w 0 (\<lambda>lv. (set_head slot_idx None lv)\<lparr>wl_mask :=
          (if drain \<noteq> None then wl_mask lv AND NOT (push_bit slot_idx 1) else wl_mask lv)\<rparr>))
      else Panic)"

partial_function (option) expired_next :: "expired_iter \<Rightarrow> (task_ref option \<times> expired_iter) exec option" where
  "expired_next it = (case xi_drain it of
     Some n \<Rightarrow> (case slab_get_by_index (tw_entries (xi_wheel it)) (nz_to_slab n) of
         Ret None \<Rightarrow> expired_next (it\<lparr>xi_drain := None\<rparr>)
       | Ret (Some entry) \<Rightarrow>
           Some (exec_bind (slab_remove_by_index (tw_entries (xi_wheel it)) (nz_to_slab n)) (\<lambda>(_, entries).
             Ret (Some (te_task entry), it\<lparr>xi_drain := te_next entry, xi_wheel := (xi_wheel it)\<lparr>tw_entries := entries\<rparr>\<rparr>)))
       | Panic \<Rightarrow> Some Panic
       | Undefined \<Rightarrow> Some Undefined)
   | None \<Rightarrow>
       let w = xi_wheel it in
       if xi_target it \<le> tw_tick w then Some (Ret (None, it))
       else if tw_levels w = [] then Some Panic
       else if wl_mask (tw_levels w ! 0) = 0 \<and> (tw_tick w OR 0x3F) = - 1 then Some Panic
       else if wl_mask (tw_levels w ! 0) = 0 \<and> xi_target it < (tw_tick w OR 0x3F) + 1
         then Some (Ret (None, it\<lparr>xi_wheel := w\<lparr>tw_tick := xi_target it\<rparr>\<rparr>))
       else let w1 = (if wl_mask (tw_levels w ! 0) = 0 then w\<lparr>tw_tick := (tw_tick w OR 0x3F) + 1 - 1\<rparr> else w) in
         (case advance_one_tick w1 of
            None \<Rightarrow> None
          | Some (Ret w2) \<Rightarrow> (case take_slot w2 of
              Ret (drain, w3) \<Rightarrow> expired_next (it\<lparr>xi_wheel := w3, xi_drain := drain\<rparr>)
            | Panic \<Rightarrow> Some Panic
            | Undefined \<Rightarrow> Some Undefined)
          | Some Panic \<Rightarrow> Some Panic
          | Some Undefined \<Rightarrow> Some Undefined))"

text \<open>The iterator run to its end, as the worker's pass runs it.\<close>

partial_function (option) expired_collect :: "task_ref list \<Rightarrow> expired_iter \<Rightarrow> (task_ref list \<times> timer_wheel) exec option" where
  "expired_collect acc it = (case expired_next it of
     None \<Rightarrow> None
   | Some (Ret (None, it')) \<Rightarrow> Some (Ret (rev acc, xi_wheel it'))
   | Some (Ret (Some t, it')) \<Rightarrow> expired_collect (t # acc) it'
   | Some Panic \<Rightarrow> Some Panic
   | Some Undefined \<Rightarrow> Some Undefined)"

end
