(* ===== verification/Timer_Slots.thy ===== *)
theory Timer_Slots
  imports Timer_Wheel
begin

text \<open>
  The slots of the timer wheel as lists: the slab seen through non-zero indices, the doubly
  linked lists in it, and what \<open>push_front\<close>, \<open>slot_remove\<close> and \<open>insert_at\<close> do to them.
\<close>

section \<open>Entries by index\<close>

definition nz_view :: "'a slab \<Rightarrow> nz \<Rightarrow> 'a option" where
  "nz_view s n = (if unat (nz_to_slab n) < length (slots s) \<and> occupied (slots s ! unat (nz_to_slab n))
     then data (slots s ! unat (nz_to_slab n)) else None)"

locale indexed_store =
  fixes inv :: "'s \<Rightarrow> bool" and view :: "'s \<Rightarrow> nz \<Rightarrow> 'v option"
    and get :: "'s \<Rightarrow> u32 \<Rightarrow> 'v option exec" and upd :: "'s \<Rightarrow> u32 \<Rightarrow> ('v \<Rightarrow> 'v) \<Rightarrow> 's option exec"
    and del :: "'s \<Rightarrow> u32 \<Rightarrow> ('v option \<times> 's) exec"
  assumes get_index: "inv s \<Longrightarrow> get s (nz_to_slab n) = Ret (view s n)"
    and upd_miss: "inv s \<Longrightarrow> view s n = None \<Longrightarrow> upd s (nz_to_slab n) f = Ret None"
    and upd_hit: "inv s \<Longrightarrow> view s n = Some v \<Longrightarrow>
      \<exists>s'. upd s (nz_to_slab n) f = Ret (Some s') \<and> inv s' \<and> view s' = (view s)(n \<mapsto> f v)"
    and del_hit: "inv s \<Longrightarrow> view s n = Some v \<Longrightarrow>
      \<exists>s'. del s (nz_to_slab n) = Ret (Some v, s') \<and> inv s' \<and> view s' = (view s)(n := None)"

lemma nz_to_slab_inj: "nz_to_slab a = nz_to_slab b \<longleftrightarrow> a = b"
  by (simp add: nz_to_slab_def)

lemma nz_view_slab_view:
  assumes "slab_inv s fl"
  shows "nz_view s n = Some v \<longleftrightarrow> (\<exists>g. slab_view s (unat (nz_to_slab n), g) = Some v)"
  using assms by (auto simp: nz_view_def slab_view_def occupied_def)

lemma slab_view_gen_unique: "slab_view s (i, g) = Some v \<Longrightarrow> slab_view s (i, g') = Some v' \<Longrightarrow> g = g'"
  by (auto simp: slab_view_def split: if_splits)

lemma nz_view_upd:
  assumes "slab_inv s fl" "slab_inv s' fl'" "slab_view s (unat (nz_to_slab n), g) = Some v"
    "slab_view s' = (slab_view s)((unat (nz_to_slab n), g) := y)"
  shows "nz_view s' = (nz_view s)(n := y)"
proof
  fix m
  have *: "nz_view s' m = x \<longleftrightarrow> ((nz_view s)(n := y)) m = x" if "x \<noteq> None" for x
  proof (cases "m = n")
    case True
    have "slab_view s (unat (nz_to_slab n), g') = None" if "g' \<noteq> g" for g'
      using slab_view_gen_unique [OF assms(3)] that by fastforce
    then have "(\<exists>g'. slab_view s' (unat (nz_to_slab n), g') = x) \<longleftrightarrow> y = x" if "x \<noteq> None" for x
      using assms(4) that by auto
    then show ?thesis using nz_view_slab_view [OF assms(2)] True that by (cases x) auto
  next
    case False
    then have "unat (nz_to_slab m) \<noteq> unat (nz_to_slab n)" by (simp add: nz_to_slab_inj flip: word_unat_eq_iff)
    then have "slab_view s' (unat (nz_to_slab m), g') = slab_view s (unat (nz_to_slab m), g')" for g'
      using assms(4) by simp
    then show ?thesis using nz_view_slab_view [OF assms(2), of m] nz_view_slab_view [OF assms(1), of m] False that
      by (cases x) auto
  qed
  show "nz_view s' m = ((nz_view s)(n := y)) m"
    using * by (metis (no_types, lifting))
qed

lemma nz_get: "slab_wf s \<Longrightarrow> slab_get_by_index s (nz_to_slab n) = Ret (nz_view s n)"
proof -
  assume "slab_wf s"
  then obtain fl where inv: "slab_inv s fl" by (auto simp: slab_wf_def)
  show ?thesis
    by (rule slab_index_cases [OF inv, of "nz_to_slab n"])
      (auto simp: slab_get_by_index_def nz_view_def get_at_def occupied_def slot_data_ref_def)
qed

lemma nz_upd_miss: "slab_wf s \<Longrightarrow> nz_view s n = None \<Longrightarrow> slab_get_mut_by_index s (nz_to_slab n) f = Ret None"
proof -
  assume "slab_wf s" and *: "nz_view s n = None"
  then obtain fl where inv: "slab_inv s fl" by (auto simp: slab_wf_def)
  show ?thesis
    by (rule slab_index_cases [OF inv, of "nz_to_slab n"])
      (use * in \<open>auto simp: slab_get_mut_by_index_def nz_view_def get_at_def occupied_def\<close>)
qed

lemma nz_upd_hit:
  assumes "slab_wf s" "nz_view s n = Some v"
  shows "\<exists>s'. slab_get_mut_by_index s (nz_to_slab n) f = Ret (Some s') \<and> slab_wf s' \<and> nz_view s' = (nz_view s)(n \<mapsto> f v)"
proof -
  obtain fl where inv: "slab_inv s fl" using assms(1) by (auto simp: slab_wf_def)
  obtain r s' fl' where op: "slab_apply (OpGetMutAt (nz_to_slab n) f) s = Ret (r, s')" "slab_inv s' fl'"
    "slab_spec (OpGetMutAt (nz_to_slab n) f) r (slab_view s) (slab_view s')"
    using slab_get_mut_at_op_ok [OF inv] unfolding slab_op_ok_def by blast
  obtain g where g: "slab_view s (unat (nz_to_slab n), g) = Some v" using nz_view_slab_view [OF inv] assms(2) by blast
  then have "slab_view s' = (slab_view s)((unat (nz_to_slab n), g) \<mapsto> f v)" "r = RetBool True"
    using op(3) slab_view_gen_unique [of s _ g v] by (auto, metis option.inject)
  from nz_view_upd [OF inv op(2) g this(1)] op this(2) show ?thesis
    by (auto simp: slab_wf_def split: option.splits)
qed

lemma nz_del_hit:
  assumes "slab_wf s" "nz_view s n = Some v"
  shows "\<exists>s'. slab_remove_by_index s (nz_to_slab n) = Ret (Some v, s') \<and> slab_wf s' \<and> nz_view s' = (nz_view s)(n := None)"
proof -
  obtain fl where inv: "slab_inv s fl" using assms(1) by (auto simp: slab_wf_def)
  obtain r s' fl' where op: "slab_apply (OpRemoveAt (nz_to_slab n)) s = Ret (r, s')" "slab_inv s' fl'"
    "slab_spec (OpRemoveAt (nz_to_slab n)) r (slab_view s) (slab_view s')"
    using slab_remove_at_op_ok [OF inv] unfolding slab_op_ok_def by blast
  obtain g where g: "slab_view s (unat (nz_to_slab n), g) = Some v" using nz_view_slab_view [OF inv] assms(2) by blast
  then have "slab_view s' = (slab_view s)((unat (nz_to_slab n), g) := None)" "r = RetVal (Some v)"
    using op(3) slab_view_gen_unique [of s _ g v] by (auto, metis option.inject)
  from nz_view_upd [OF inv op(2) g this(1)] op this(2) show ?thesis
    by (auto simp: slab_wf_def)
qed

interpretation timer_store: indexed_store slab_wf nz_view slab_get_by_index slab_get_mut_by_index slab_remove_by_index
  by unfold_locales (rule nz_get nz_upd_miss nz_upd_hit nz_del_hit; assumption)+

text \<open>Inserting puts the entry at an index that was free.\<close>

lemma slab_insert_nz:
  assumes "slab_wf s" "slab_insert s v = Ret (Inr k, s')"
  obtains n where "slab_to_nz (key_index k) = Ret n" "nz_view s n = None" "slab_wf s'" "nz_view s' = (nz_view s)(n \<mapsto> v)"
    "issued_key k" "slab_view s' (key_parts k) = Some v"
proof -
  obtain fl where inv: "slab_inv s fl" using assms(1) by (auto simp: slab_wf_def)
  then obtain i fl' where fl: "fl = i # fl'" using assms(2) slab_insert_full [of s v] by (cases fl) auto
  define g where "g = generation_next (generation (slots s ! i))"
  obtain t where t: "slab_insert s v = Ret (Inr (slab_key_new (of_nat i) g), t)" "slab_inv t fl'"
    "slab_view t = (slab_view s)((i, g) \<mapsto> v)" "key_parts (slab_key_new (of_nat i) g) = (i, g)" "is_occupied g"
    "slots t = (slots s)[i := (slots s ! i)\<lparr>next_free := FREE_SENTINEL, generation := g, data := Some v\<rparr>]"
    using slab_insert_ok [OF inv [unfolded fl], of v] unfolding g_def by metis
  note H = slab_head_spec [OF inv [unfolded fl]]
  have k: "k = slab_key_new (of_nat i) g" "s' = t" using assms(2) t(1) by simp_all
  have len: "length (slots s) < 2 ^ 32" using inv by (simp add: slab_inv_def)
  let ?n = "of_nat i + 1 :: u32"
  have i: "unat (nz_to_slab ?n) = i" "(of_nat i :: u32) \<noteq> 0xFFFFFFFF"
    using H(2) len of_nat_not_sentinel [OF H(2) len] by (simp_all add: nz_to_slab_def FREE_SENTINEL_def)
  have "nz_view t = (nz_view s)(?n \<mapsto> v)"
  proof
    fix m
    show "nz_view t m = ((nz_view s)(?n \<mapsto> v)) m"
  proof (cases "m = ?n")
    case True
    then show ?thesis using i t(5,6) H(2) by (simp add: nz_view_def occupied_def)
  next
    case False
    then have "unat (nz_to_slab m) \<noteq> i" using i(1) by (metis nz_to_slab_inj word_unat_eq_iff)
    then show ?thesis using t(6) False by (simp add: nz_view_def)
  qed
  qed
  moreover have "nz_view s ?n = None" using i(1) H(5) by (simp add: nz_view_def)
  moreover have "slab_to_nz (key_index k) = Ret ?n" using k i(2) by (simp add: slab_to_nz_def)
  moreover have "issued_key k" "slab_view t (key_parts k) = Some v"
    using t k issued_key_parts [OF t(4)] by simp_all
  ultimately show ?thesis using that [of ?n] t(2) k by (auto simp: slab_wf_def)
qed

section \<open>Doubly linked lists\<close>

text \<open>An entry without its links.\<close>

definition bare :: "timer_entry \<Rightarrow> timer_entry" where
  "bare e = e\<lparr>te_prev := None, te_next := None\<rparr>"

lemma bare_simps [simp]:
  "te_deadline (bare e) = te_deadline e" "te_task (bare e) = te_task e"
  "te_level (bare e) = te_level e" "te_slot (bare e) = te_slot e" "bare (bare e) = bare e"
  "bare (e\<lparr>te_prev := p\<rparr>) = bare e" "bare (e\<lparr>te_next := p\<rparr>) = bare e"
  "bare (e\<lparr>te_level := l\<rparr>) = (bare e)\<lparr>te_level := l\<rparr>" "bare (e\<lparr>te_slot := s\<rparr>) = (bare e)\<lparr>te_slot := s\<rparr>"
  by (simp_all add: bare_def)

fun dlist :: "(nz \<Rightarrow> timer_entry option) \<Rightarrow> nz option \<Rightarrow> nz option \<Rightarrow> nz list \<Rightarrow> bool" where
  "dlist m prev p [] \<longleftrightarrow> p = None"
| "dlist m prev p (x # xs) \<longleftrightarrow> p = Some x \<and>
     (\<exists>e. m x = Some e \<and> te_prev e = prev \<and> dlist m (Some x) (te_next e) xs)"

lemma dlist_chain: "dlist m prev p xs \<Longrightarrow> chain m te_next p xs"
  by (induction xs arbitrary: prev p) auto

lemma dlist_distinct: "dlist m prev p xs \<Longrightarrow> distinct xs"
  using dlist_chain chain_distinct by blast

lemma dlist_cong:
  "(\<And>x. x \<in> set xs \<Longrightarrow> map_option (\<lambda>e. (te_prev e, te_next e)) (m x) = map_option (\<lambda>e. (te_prev e, te_next e)) (m' x)) \<Longrightarrow>
   dlist m prev p xs \<longleftrightarrow> dlist m' prev p xs"
proof (induction xs arbitrary: prev p)
  case (Cons x xs)
  have "map_option (\<lambda>e. (te_prev e, te_next e)) (m x) = map_option (\<lambda>e. (te_prev e, te_next e)) (m' x)" using Cons.prems by simp
  moreover have "dlist m q r xs = dlist m' q r xs" for q r using Cons by simp
  ultimately show ?case by (auto simp: map_option_case split: option.splits)
qed simp

lemma dlist_other: "x \<notin> set xs \<Longrightarrow> dlist (m(x := v)) prev p xs \<longleftrightarrow> dlist m prev p xs"
  by (rule dlist_cong) auto

lemma dlist_mem: "dlist m prev p xs \<Longrightarrow> x \<in> set xs \<Longrightarrow> m x \<noteq> None"
  using dlist_chain chain_mem by fastforce

lemma dlist_set_prev:
  assumes "dlist m prev p (y # ys)" "m y = Some e"
  shows "dlist (m(y \<mapsto> e\<lparr>te_prev := q\<rparr>)) q (Some y) (y # ys)"
proof -
  have "y \<notin> set ys" using dlist_distinct [OF assms(1)] by simp
  then have "dlist (m(y \<mapsto> e\<lparr>te_prev := q\<rparr>)) (Some y) (te_next e) ys" using assms by (simp add: dlist_other)
  then show ?thesis unfolding dlist.simps fun_upd_same by simp
qed

lemma push_front_ok:
  assumes "slab_wf s" "dlist (nz_view s) None head xs" "nz_view s n = Some e" "n \<notin> set xs"
  obtains s' where "push_front head n s = Ret (Some n, s')" "slab_wf s'" "dlist (nz_view s') None (Some n) (n # xs)"
    "\<And>x. x \<notin> set (n # xs) \<Longrightarrow> nz_view s' x = nz_view s x"
    "\<And>x. map_option bare (nz_view s' x) =
      map_option bare (nz_view s x)"
proof -
  obtain s1 where 1: "slab_get_mut_by_index s (nz_to_slab n) (\<lambda>e. e\<lparr>te_prev := None, te_next := head\<rparr>) = Ret (Some s1)"
    "slab_wf s1" "nz_view s1 = (nz_view s)(n \<mapsto> e\<lparr>te_prev := None, te_next := head\<rparr>)"
    using timer_store.upd_hit [OF assms(1,3)] by blast
  show ?thesis
  proof (cases xs)
    case Nil
    then have "head = None" using assms(2) by simp
    then have "push_front head n s = Ret (Some n, s1)" using 1(1) by (simp add: push_front_def)
    then show ?thesis by (rule that [OF _ 1(2)]) (use 1(3) Nil \<open>head = None\<close> assms(3) in auto)
  next
    case (Cons y ys)
    then obtain ey where y: "head = Some y" "nz_view s y = Some ey" "y \<noteq> n" using assms(2,4) by auto
    then have "nz_view s1 y = Some ey" using 1(3) by simp
    then obtain s2 where 2: "slab_get_mut_by_index s1 (nz_to_slab y) (\<lambda>e. e\<lparr>te_prev := Some n\<rparr>) = Ret (Some s2)"
      "slab_wf s2" "nz_view s2 = (nz_view s1)(y \<mapsto> ey\<lparr>te_prev := Some n\<rparr>)"
      using timer_store.upd_hit [OF 1(2)] by blast
    have "push_front head n s = Ret (Some n, s2)" using 1(1) 2(1) y by (simp add: push_front_def)
    moreover have "dlist (nz_view s2) None (Some n) (n # xs)"
    proof -
      have "dlist (nz_view s1) None head xs" using assms(2,4) 1(3) by (simp add: dlist_other)
      then have "dlist (nz_view s2) (Some n) (Some y) xs"
        unfolding 2(3) Cons using \<open>nz_view s1 y = Some ey\<close> by (intro dlist_set_prev) simp_all
      moreover have "nz_view s2 n = Some (e\<lparr>te_prev := None, te_next := head\<rparr>)" using 1(3) 2(3) y(3) by simp
      ultimately show ?thesis using y(1) by simp
    qed
    ultimately show ?thesis
      by (rule that [OF _ 2(2)]) (use 1(3) 2(3) Cons y assms(3) in auto)
  qed
qed

lemma update_if_live_ok:
  assumes "slab_wf s" "nz_view s n = Some e"
  obtains s' where "update_if_live s n f = Ret s'" "slab_wf s'" "nz_view s' = (nz_view s)(n \<mapsto> f e)"
  using timer_store.upd_hit [OF assms, of f] unfolding update_if_live_def by auto

text \<open>What unlinking an entry does to the map of entries.\<close>

definition relink :: "nz \<Rightarrow> timer_entry \<Rightarrow> (nz \<Rightarrow> timer_entry option) \<Rightarrow> nz \<Rightarrow> timer_entry option" where
  "relink n e m = (let m1 = (case te_prev e of None \<Rightarrow> m | Some q \<Rightarrow> m(q := map_option (te_next_update (\<lambda>_. te_next e)) (m q)))
     in case te_next e of None \<Rightarrow> m1 | Some r \<Rightarrow> m1(r := map_option (te_prev_update (\<lambda>_. te_prev e)) (m1 r)))"

lemma relink_other: "te_prev e \<noteq> Some x \<Longrightarrow> te_next e \<noteq> Some x \<Longrightarrow> relink n e m x = m x"
  by (simp add: relink_def Let_def split: option.split)

lemma relink_next:
  "te_next e = Some x \<Longrightarrow> te_prev e \<noteq> Some x \<Longrightarrow> relink n e m x = map_option (te_prev_update (\<lambda>_. te_prev e)) (m x)"
  by (simp add: relink_def Let_def split: option.split)

lemma relink_prev:
  "te_prev e = Some x \<Longrightarrow> te_next e \<noteq> Some x \<Longrightarrow> relink n e m x = map_option (te_next_update (\<lambda>_. te_next e)) (m x)"
  by (simp add: relink_def Let_def split: option.split)

lemma relink_bare:
  "map_option bare (relink n e m x) =
   map_option bare (m x)"
  by (cases "te_prev e"; cases "te_next e") (auto simp: relink_def Let_def option.map_comp comp_def intro: option.map_cong)

lemma dlist_last:
  "dlist m prev p (ys @ n # zs) \<Longrightarrow> m n = Some e \<Longrightarrow>
   te_prev e = (if ys = [] then prev else Some (last ys)) \<and> te_next e = (if zs = [] then None else Some (hd zs))"
proof (induction ys arbitrary: prev p)
  case Nil
  then show ?case by (cases zs) auto
next
  case (Cons y ys)
  obtain ey where "m y = Some ey" "dlist m (Some y) (te_next ey) (ys @ n # zs)" using Cons.prems(1) by auto
  from Cons.IH [OF this(2) Cons.prems(2)] show ?case by simp
qed

lemma dlist_unlink:
  assumes "dlist m prev p (ys @ n # zs)" "m n = Some e" "\<And>q. prev = Some q \<Longrightarrow> q \<notin> set (ys @ n # zs)"
  shows "dlist (relink n e m) prev (if ys = [] then te_next e else p) (ys @ zs)"
  using assms
proof (induction ys arbitrary: prev p)
  case Nil
  note L = dlist_last [OF Nil.prems(1,2)]
  have d: "distinct (n # zs)" using dlist_distinct [OF Nil.prems(1)] by simp
  show ?case
  proof (cases zs)
    case (Cons z zs')
    then obtain ez where z: "m z = Some ez" "dlist m (Some z) (te_next ez) zs'" using Nil by auto
    have nx: "te_next e = Some z" "te_prev e \<noteq> Some z" using L Cons Nil.prems(3) by auto
    have "dlist (relink n e m) (Some z) (te_next ez) zs' \<longleftrightarrow> dlist m (Some z) (te_next ez) zs'"
    proof (rule dlist_cong)
      fix x assume "x \<in> set zs'"
      then have "te_prev e \<noteq> Some x" "te_next e \<noteq> Some x" using L Nil.prems(3) nx d Cons by auto
      then show "map_option (\<lambda>e. (te_prev e, te_next e)) (relink n e m x) = map_option (\<lambda>e. (te_prev e, te_next e)) (m x)"
        by (simp add: relink_other)
    qed
    then show ?thesis using z nx L Cons by (simp add: relink_next)
  qed (use L in simp)
next
  case (Cons y ys)
  then obtain ey where y: "p = Some y" "m y = Some ey" "te_prev ey = prev" "dlist m (Some y) (te_next ey) (ys @ n # zs)" by auto
  have d: "distinct (y # ys @ n # zs)" using dlist_distinct [OF Cons.prems(1)] by simp
  note IH = Cons.IH [OF y(4) Cons.prems(2)]
  note L = dlist_last [OF y(4) Cons.prems(2)]
  have nx: "te_next e \<noteq> Some y" using L d by (cases zs) auto
  have "relink n e m y = Some (ey\<lparr>te_next := if ys = [] then te_next e else te_next ey\<rparr>)"
  proof (cases "ys = []")
    case True
    then show ?thesis using L nx y(2) by (simp add: relink_prev)
  next
    case False
    then have "te_prev e \<noteq> Some y" using L d last_in_set [OF False] by auto
    then show ?thesis using nx y(2) False by (simp add: relink_other)
  qed
  then show ?case using IH y d by auto
qed

lemma update_if_live_view:
  assumes "slab_wf s"
  obtains s' where "update_if_live s n f = Ret s'" "slab_wf s'" "nz_view s' = (nz_view s)(n := map_option f (nz_view s n))"
proof (cases "nz_view s n")
  case None
  then have "update_if_live s n f = Ret s" using timer_store.upd_miss [OF assms None] by (simp add: update_if_live_def)
  then show ?thesis using that [of s] assms None by (simp add: fun_upd_idem)
next
  case (Some e)
  then show ?thesis using update_if_live_ok [OF assms Some, of f] that by (metis option.simps(9))
qed

lemma slot_remove_eval:
  fixes head :: "nz option"
  assumes "slab_wf s" "nz_view s n = Some e" "te_prev e \<noteq> Some n" "te_next e \<noteq> Some n"
  defines "h \<equiv> (case te_prev e of None \<Rightarrow> te_next e | Some _ \<Rightarrow> head)"
  obtains s' where "slot_remove head n s = Ret (h = None, h, s')" "slab_wf s'"
    "nz_view s' = (relink n e (nz_view s))(n \<mapsto> e\<lparr>te_prev := None, te_next := None\<rparr>)"
proof -
  obtain s1 where s1: "(case te_prev e of None \<Rightarrow> Ret (te_next e, s)
      | Some q \<Rightarrow> exec_bind (update_if_live s q (\<lambda>x. x\<lparr>te_next := te_next e\<rparr>)) (\<lambda>x. Ret (head, x))) = Ret (h, s1)" "slab_wf s1"
      "nz_view s1 = (case te_prev e of None \<Rightarrow> nz_view s | Some q \<Rightarrow> (nz_view s)(q := map_option (te_next_update (\<lambda>_. te_next e)) (nz_view s q)))"
  proof (cases "te_prev e")
    case None
    show ?thesis by (rule that [of s]) (simp_all add: None h_def assms(1))
  next
    case (Some q)
    obtain s' where "update_if_live s q (\<lambda>x. x\<lparr>te_next := te_next e\<rparr>) = Ret s'" "slab_wf s'"
      "nz_view s' = (nz_view s)(q := map_option (\<lambda>x. x\<lparr>te_next := te_next e\<rparr>) (nz_view s q))"
      using update_if_live_view [OF assms(1)] by blast
    note * = this
    show ?thesis by (rule that [of s']) (simp_all add: Some h_def *)
  qed
  obtain s2 where s2: "(case te_next e of None \<Rightarrow> Ret s1
      | Some r \<Rightarrow> update_if_live s1 r (\<lambda>x. x\<lparr>te_prev := te_prev e\<rparr>)) = Ret s2" "slab_wf s2" "nz_view s2 = relink n e (nz_view s)"
  proof (cases "te_next e")
    case None
    show ?thesis by (rule that [of s1]) (simp_all add: None s1(2,3) relink_def)
  next
    case (Some r)
    obtain s' where "update_if_live s1 r (\<lambda>x. x\<lparr>te_prev := te_prev e\<rparr>) = Ret s'" "slab_wf s'"
      "nz_view s' = (nz_view s1)(r := map_option (\<lambda>x. x\<lparr>te_prev := te_prev e\<rparr>) (nz_view s1 r))"
      using update_if_live_view [OF s1(2)] by blast
    note * = this
    show ?thesis by (rule that [of s']) (simp_all add: Some * s1(3) relink_def Let_def)
  qed
  have n: "nz_view s2 n = Some e" using s2(3) assms(2-4) by (simp add: relink_other)
  obtain s3 where s3: "update_if_live s2 n (\<lambda>e. e\<lparr>te_prev := None, te_next := None\<rparr>) = Ret s3" "slab_wf s3"
    "nz_view s3 = (nz_view s2)(n \<mapsto> e\<lparr>te_prev := None, te_next := None\<rparr>)"
    using update_if_live_ok [OF s2(2) n] by blast
  have "slot_remove head n s = Ret (h = None, h, s3)"
    unfolding slot_remove_def timer_store.get_index [OF assms(1)] assms(2) by (simp add: Let_def s1(1) s2(1) s3(1))
  then show ?thesis by (rule that) (simp_all add: s3(2,3) s2(3))
qed

lemma slot_remove_ok:
  assumes "slab_wf s" "dlist (nz_view s) None head (ys @ n # zs)" "nz_view s n = Some e"
  obtains head' s' where "slot_remove head n s = Ret (ys @ zs = [], head', s')" "slab_wf s'"
    "dlist (nz_view s') None head' (ys @ zs)" "nz_view s' n = Some (e\<lparr>te_prev := None, te_next := None\<rparr>)"
    "\<And>x. x \<notin> set (ys @ n # zs) \<Longrightarrow> nz_view s' x = nz_view s x"
    "\<And>x. map_option bare (nz_view s' x) =
      map_option bare (nz_view s x)"
proof -
  note L = dlist_last [OF assms(2,3)]
  have d: "distinct (ys @ n # zs)" using dlist_distinct [OF assms(2)] .
  have mem: "te_prev e = Some x \<Longrightarrow> x \<in> set ys" "te_next e = Some x \<Longrightarrow> x \<in> set zs" for x
    using L last_in_set [of ys] hd_in_set [of zs] by (metis option.distinct(1) option.inject)+
  have nn: "te_prev e \<noteq> Some n" "te_next e \<noteq> Some n" using mem d by auto
  let ?h = "if ys = [] then te_next e else head"
  have h: "(case te_prev e of None \<Rightarrow> te_next e | Some _ \<Rightarrow> head) = ?h" using L by simp
  obtain s' where s': "slot_remove head n s = Ret (?h = None, ?h, s')" "slab_wf s'"
    "nz_view s' = (relink n e (nz_view s))(n \<mapsto> e\<lparr>te_prev := None, te_next := None\<rparr>)"
    using slot_remove_eval [OF assms(1,3) nn, of head] unfolding h by blast
  have dl: "dlist (relink n e (nz_view s)) None ?h (ys @ zs)" using dlist_unlink [OF assms(2,3)] by simp
  have dl3: "dlist (nz_view s') None ?h (ys @ zs)" unfolding s'(3) using dl d by (subst dlist_other) simp_all
  have "?h = None \<longleftrightarrow> ys @ zs = []" using dl by (cases "ys @ zs") simp_all
  then have r: "slot_remove head n s = Ret (ys @ zs = [], ?h, s')" using s'(1) by presburger
  show ?thesis
  proof (rule that [OF r s'(2) dl3])
    show "nz_view s' n = Some (e\<lparr>te_prev := None, te_next := None\<rparr>)" using s'(3) by simp
    show "nz_view s' x = nz_view s x" if "x \<notin> set (ys @ n # zs)" for x
    proof -
      have "te_prev e \<noteq> Some x" "te_next e \<noteq> Some x" "x \<noteq> n" using that mem by auto
      then show ?thesis using s'(3) by (simp add: relink_other)
    qed
    show "map_option bare (nz_view s' x) =
      map_option bare (nz_view s x)" for x
      using relink_bare [of n e "nz_view s" x] s'(3) assms(3) by (cases "x = n") simp_all
  qed
qed

end
