(* ===== verification/Timer_Rep.thy ===== *)
theory Timer_Rep
  imports Timer_Slots
begin

text \<open>
  The representation of the timer wheel: every slot's list, the occupancy masks, and the set
  of entries that are in the slab but in no slot (detached). \<open>insert_at\<close>, \<open>remove_from_slot\<close>
  and the detaching of a whole slot keep it, and never change an entry's deadline or task.
\<close>

abbreviation wview :: "timer_wheel \<Rightarrow> nz \<Rightarrow> timer_entry option" where
  "wview w \<equiv> nz_view (tw_entries w)"

definition cores :: "timer_wheel \<Rightarrow> nz \<Rightarrow> timer_entry option" where
  "cores w n = map_option bare (wview w n)"

definition wheel_slot_ok :: "timer_wheel \<Rightarrow> nz set \<Rightarrow> nat \<Rightarrow> nat \<Rightarrow> nz list \<Rightarrow> bool" where
  "wheel_slot_ok w D l s xs \<longleftrightarrow> dlist (wview w) None (wl_slots (tw_levels w ! l) ! s) xs \<and>
     (bit (wl_mask (tw_levels w ! l)) s \<longleftrightarrow> xs \<noteq> []) \<and>
     (\<forall>n\<in>set xs. n \<notin> D \<and> (\<exists>e. wview w n = Some e \<and> te_level e = l \<and> te_slot e = s))"

definition wheel_shape :: "timer_wheel \<Rightarrow> bool" where
  "wheel_shape w \<longleftrightarrow> slab_wf (tw_entries w) \<and> length (tw_levels w) = 6 \<and>
     (\<forall>l<6. length (wl_slots (tw_levels w ! l)) = 64)"

definition wheel_rep :: "timer_wheel \<Rightarrow> (nat \<Rightarrow> nat \<Rightarrow> nz list) \<Rightarrow> nz set \<Rightarrow> bool" where
  "wheel_rep w L D \<longleftrightarrow> wheel_shape w \<and> (\<forall>l<6. \<forall>s<64. wheel_slot_ok w D l s (L l s)) \<and>
     (\<forall>n\<in>D. wview w n \<noteq> None) \<and>
     (\<forall>n e. wview w n = Some e \<longrightarrow> n \<notin> D \<longrightarrow> te_level e < 6 \<and> te_slot e < 64 \<and> n \<in> set (L (te_level e) (te_slot e)))"

lemma wheel_repD:
  assumes "wheel_rep w L D"
  shows "slab_wf (tw_entries w)" "length (tw_levels w) = 6" "l < 6 \<Longrightarrow> length (wl_slots (tw_levels w ! l)) = 64"
    "l < 6 \<Longrightarrow> s < 64 \<Longrightarrow> wheel_slot_ok w D l s (L l s)" "n \<in> D \<Longrightarrow> \<exists>e. wview w n = Some e"
    "wview w n = Some e \<Longrightarrow> n \<notin> D \<Longrightarrow> te_level e < 6 \<and> te_slot e < 64 \<and> n \<in> set (L (te_level e) (te_slot e))"
  using assms by (auto simp: wheel_rep_def wheel_shape_def)

lemma rep_listed:
  assumes "wheel_rep w L D" "l < 6" "s < 64"
  shows "n \<in> set (L l s) \<longleftrightarrow> n \<notin> D \<and> (\<exists>e. wview w n = Some e \<and> te_level e = l \<and> te_slot e = s)"
  using wheel_repD(4) [OF assms] wheel_repD(6) [OF assms(1), of n] by (auto simp: wheel_slot_ok_def)

lemma wheel_slot_ok_same:
  assumes "wheel_slot_ok w D l s xs" "wl_slots (tw_levels w' ! l) ! s = wl_slots (tw_levels w ! l) ! s"
    "bit (wl_mask (tw_levels w' ! l)) s = bit (wl_mask (tw_levels w ! l)) s"
    "\<And>n. n \<in> set xs \<Longrightarrow> wview w' n = wview w n" "\<And>n. n \<in> set xs \<Longrightarrow> n \<notin> D'"
  shows "wheel_slot_ok w' D' l s xs"
proof -
  have "dlist (wview w') None p xs = dlist (wview w) None p xs" for p
    by (rule dlist_cong) (simp add: assms(4))
  then show ?thesis using assms by (simp add: wheel_slot_ok_def)
qed

text \<open>Replacing the list of one slot.\<close>

lemma rep_update:
  assumes rep: "wheel_rep w L D" and ls: "l < 6" "s < 64" and wf: "slab_wf E"
    and w': "w' = set_level (w\<lparr>tw_entries := E\<rparr>) l (\<lambda>lv. (set_head s h lv)\<lparr>wl_mask := mk lv\<rparr>)"
    and new: "dlist (nz_view E) None h xs"
      "\<And>n. n \<in> set xs \<Longrightarrow> n \<notin> D' \<and> (\<exists>e. nz_view E n = Some e \<and> te_level e = l \<and> te_slot e = s)"
    and mk: "bit (mk (tw_levels w ! l)) s \<longleftrightarrow> xs \<noteq> []"
      "\<And>i. i < 64 \<Longrightarrow> i \<noteq> s \<Longrightarrow> bit (mk (tw_levels w ! l)) i = bit (wl_mask (tw_levels w ! l)) i"
    and other: "\<And>n e. wview w n = Some e \<Longrightarrow> n \<notin> D \<Longrightarrow> (te_level e, te_slot e) \<noteq> (l, s) \<Longrightarrow> nz_view E n = Some e \<and> n \<notin> D'"
    and live: "\<And>n. n \<in> D' \<Longrightarrow> nz_view E n \<noteq> None"
    and cover: "\<And>n e. nz_view E n = Some e \<Longrightarrow> n \<notin> D' \<Longrightarrow>
      n \<in> set xs \<or> n \<notin> D \<and> wview w n = Some e \<and> (te_level e, te_slot e) \<noteq> (l, s)"
  shows "wheel_rep w' (L(l := (L l)(s := xs))) D'"
proof -
  note R = wheel_repD [OF rep]
  have lv: "tw_levels w' ! k = (if k = l then (set_head s h (tw_levels w ! l))\<lparr>wl_mask := mk (tw_levels w ! l)\<rparr> else tw_levels w ! k)"
    if "k < 6" for k using that ls(1) R(2) by (simp add: w' set_level_def)
  have E: "tw_entries w' = E" by (simp add: w' set_level_def)
  have shape: "wheel_shape w'"
    unfolding wheel_shape_def using R(2,3) wf lv by (simp add: E) (simp add: w' set_level_def set_head_def)
  have slot: "wheel_slot_ok w' D' k i ((L(l := (L l)(s := xs))) k i)" if ki: "k < 6" "i < 64" for k i
  proof (cases "(k, i) = (l, s)")
    case True
    then show ?thesis using new mk(1) lv [OF ls(1)] R(3) [OF ls(1)] ls by (auto simp: wheel_slot_ok_def E set_head_def)
  next
    case False
    have mem: "wview w' n = wview w n \<and> n \<notin> D'" if "n \<in> set (L k i)" for n
      using that other [of n] False unfolding rep_listed [OF rep ki] by (auto simp: E)
    have "wheel_slot_ok w' D' k i (L k i)"
    proof (rule wheel_slot_ok_same [OF R(4) [OF ki]])
      show "wl_slots (tw_levels w' ! k) ! i = wl_slots (tw_levels w ! k) ! i"
        using lv [OF ki(1)] False by (auto simp: set_head_def)
      show "bit (wl_mask (tw_levels w' ! k)) i = bit (wl_mask (tw_levels w ! k)) i"
        using lv [OF ki(1)] False mk(2) [OF ki(2)] by auto
    qed (use mem in auto)
    then show ?thesis using False by auto
  qed
  have "te_level e < 6 \<and> te_slot e < 64 \<and> n \<in> set ((L(l := (L l)(s := xs))) (te_level e) (te_slot e))"
    if e: "wview w' n = Some e" "n \<notin> D'" for n e
  proof (cases "n \<in> set xs")
    case True
    then show ?thesis using new(2) [OF True] e ls by (auto simp: E)
  next
    case False
    then have "n \<notin> D" "wview w n = Some e" "(te_level e, te_slot e) \<noteq> (l, s)" using cover [of n e] e by (auto simp: E)
    then show ?thesis using R(6) [of n e] by auto
  qed
  then show ?thesis using shape slot live unfolding wheel_rep_def by (auto simp: E)
qed

lemma bare_eq_fields:
  assumes "map_option bare a = map_option bare b"
  shows "a = Some e \<Longrightarrow> \<exists>e'. b = Some e' \<and> te_level e' = te_level e \<and> te_slot e' = te_slot e" "a = None \<longleftrightarrow> b = None"
proof -
  show "a = None \<longleftrightarrow> b = None" using assms by (cases a; cases b) auto
  assume "a = Some e"
  then obtain e' where "b = Some e'" "bare e' = bare e" using assms by (cases b) auto
  moreover from this(2) have "te_level e' = te_level e" "te_slot e' = te_slot e" by (metis bare_simps(3), metis bare_simps(4))
  ultimately show "\<exists>e'. b = Some e' \<and> te_level e' = te_level e \<and> te_slot e' = te_slot e" by blast
qed

lemma insert_at_ok:
  assumes rep: "wheel_rep w L D" and n: "n \<in> D" "wview w n = Some e" and ls: "l < 6" "s < 64"
  obtains w' where "insert_at w n l s = Ret w'" "wheel_rep w' (L(l := (L l)(s := n # L l s))) (D - {n})"
    "tw_tick w' = tw_tick w" "cores w' = (cores w)(n \<mapsto> (bare e)\<lparr>te_level := l, te_slot := s\<rparr>)"
    "\<And>x. x \<in> D - {n} \<Longrightarrow> wview w' x = wview w x"
proof -
  note R = wheel_repD [OF rep]
  let ?e = "e\<lparr>te_level := l, te_slot := s\<rparr>"
  obtain E1 where E1: "update_if_live (tw_entries w) n (\<lambda>e. e\<lparr>te_level := l, te_slot := s\<rparr>) = Ret E1" "slab_wf E1"
    "nz_view E1 = (wview w)(n \<mapsto> ?e)"
    using update_if_live_ok [OF R(1) n(2)] by blast
  have nl: "n \<notin> set (L l s)" using n(1) rep_listed [OF rep ls] by blast
  have d: "dlist (nz_view E1) None (wl_slots (tw_levels w ! l) ! s) (L l s)"
    using R(4) [OF ls] nl by (simp add: wheel_slot_ok_def E1(3) dlist_other)
  have ne: "nz_view E1 n = Some ?e" by (simp add: E1(3))
  obtain E where E: "push_front (wl_slots (tw_levels w ! l) ! s) n E1 = Ret (Some n, E)" "slab_wf E"
    "dlist (nz_view E) None (Some n) (n # L l s)" "\<And>x. x \<notin> set (n # L l s) \<Longrightarrow> nz_view E x = nz_view E1 x"
    "\<And>x. map_option bare (nz_view E x) = map_option bare (nz_view E1 x)"
    using push_front_ok [OF E1(2) d ne nl] by blast
  let ?w = "set_level (w\<lparr>tw_entries := E\<rparr>) l (\<lambda>lv. (set_head s (Some n) lv)\<lparr>wl_mask := wl_mask lv OR push_bit s 1\<rparr>)"
  have run: "insert_at w n l s = Ret ?w" using E1(1) E(1) R(2) R(3) [OF ls(1)] ls by (simp add: insert_at_def)
  have fr: "nz_view E x = wview w x" if "x \<noteq> n" "x \<notin> set (L l s)" for x using E(4) [of x] that E1(3) by simp
  have "wheel_rep ?w (L(l := (L l)(s := n # L l s))) (D - {n})"
  proof (rule rep_update [OF rep ls E(2) refl E(3)])
    fix x assume x: "x \<in> set (n # L l s)"
    have "\<exists>e. nz_view E1 x = Some e \<and> te_level e = l \<and> te_slot e = s"
      using x ne rep_listed [OF rep ls, of x] by (auto simp: E1(3))
    then have "\<exists>e. nz_view E x = Some e \<and> te_level e = l \<and> te_slot e = s"
      using bare_eq_fields(1) [OF E(5) [symmetric]] by metis
    then show "x \<notin> D - {n} \<and> (\<exists>e. nz_view E x = Some e \<and> te_level e = l \<and> te_slot e = s)"
      using x rep_listed [OF rep ls, of x] by auto
  next
    fix x f assume x: "wview w x = Some f" "x \<notin> D" "(te_level f, te_slot f) \<noteq> (l, s)"
    then have "x \<notin> set (L l s)" "x \<noteq> n" using rep_listed [OF rep ls, of x] n by auto
    then show "nz_view E x = Some f \<and> x \<notin> D - {n}" using fr x by simp
  next
    fix x assume "x \<in> D - {n}"
    then show "nz_view E x \<noteq> None" using fr [of x] rep_listed [OF rep ls, of x] R(5) [of x] by auto
  next
    fix x f assume x: "nz_view E x = Some f" "x \<notin> D - {n}"
    show "x \<in> set (n # L l s) \<or> x \<notin> D \<and> wview w x = Some f \<and> (te_level f, te_slot f) \<noteq> (l, s)"
    proof (cases "x \<in> set (n # L l s)")
      case False
      then have "wview w x = Some f" "x \<notin> D" using x fr [of x] by auto
      then show ?thesis using False rep_listed [OF rep ls, of x] by auto
    qed simp
  qed (use ls in \<open>auto simp: bit_set_mask\<close>)
  moreover have "cores ?w = (cores w)(n \<mapsto> (bare e)\<lparr>te_level := l, te_slot := s\<rparr>)"
    using E(5) by (auto simp: cores_def set_level_def E1(3) bare_def)
  moreover have "wview ?w x = wview w x" if "x \<in> D - {n}" for x
    using that fr [of x] rep_listed [OF rep ls, of x] by (auto simp: set_level_def)
  ultimately show ?thesis using run by (intro that [of ?w]) (simp_all add: set_level_def)
qed

text \<open>Detaching a whole slot, as cascading and draining do.\<close>

lemma detach_ok:
  assumes rep: "wheel_rep w L D" and ls: "l < 6" "s < 64"
    and mk: "bit (mk (tw_levels w ! l)) s = False"
      "\<And>i. i < 64 \<Longrightarrow> i \<noteq> s \<Longrightarrow> bit (mk (tw_levels w ! l)) i = bit (wl_mask (tw_levels w ! l)) i"
  defines "w' \<equiv> set_level w l (\<lambda>lv. (set_head s None lv)\<lparr>wl_mask := mk lv\<rparr>)"
  shows "wheel_rep w' (L(l := (L l)(s := []))) (D \<union> set (L l s))" "wview w' = wview w" "tw_tick w' = tw_tick w"
    "chain (wview w) te_next (wl_slots (tw_levels w ! l) ! s) (L l s)"
proof -
  note R = wheel_repD [OF rep]
  have w': "w' = set_level (w\<lparr>tw_entries := tw_entries w\<rparr>) l (\<lambda>lv. (set_head s None lv)\<lparr>wl_mask := mk lv\<rparr>)"
    by (simp add: w'_def)
  show "wheel_rep w' (L(l := (L l)(s := []))) (D \<union> set (L l s))"
    by (rule rep_update [OF rep ls R(1) w'])
      (use mk R(5,6) rep_listed [OF rep ls] in \<open>auto\<close>)
  show "wview w' = wview w" "tw_tick w' = tw_tick w" by (simp_all add: w' set_level_def)
  show "chain (wview w) te_next (wl_slots (tw_levels w ! l) ! s) (L l s)"
    using R(4) [OF ls] dlist_chain by (auto simp: wheel_slot_ok_def)
qed

lemma remove_from_slot_ok:
  assumes rep: "wheel_rep w L D" and n: "n \<notin> D" "wview w n = Some e"
  obtains w' L' where "remove_from_slot w n = Ret w'" "wheel_rep w' L' (insert n D)" "tw_tick w' = tw_tick w" "cores w' = cores w"
    "wview w' n \<noteq> None"
proof -
  note R = wheel_repD [OF rep]
  let ?l = "te_level e" and ?s = "te_slot e"
  have ls: "?l < 6" "?s < 64" "n \<in> set (L ?l ?s)" using R(6) [OF n(2,1)] by auto
  then obtain ys zs where yz: "L ?l ?s = ys @ n # zs" by (meson split_list)
  have d: "dlist (wview w) None (wl_slots (tw_levels w ! ?l) ! ?s) (ys @ n # zs)"
    using R(4) [OF ls(1,2)] yz by (simp add: wheel_slot_ok_def)
  have dis: "distinct (ys @ n # zs)" using dlist_distinct [OF d] .
  obtain h E where E: "slot_remove (wl_slots (tw_levels w ! ?l) ! ?s) n (tw_entries w) = Ret (ys @ zs = [], h, E)" "slab_wf E"
    "dlist (nz_view E) None h (ys @ zs)" "nz_view E n = Some (e\<lparr>te_prev := None, te_next := None\<rparr>)"
    "\<And>x. x \<notin> set (ys @ n # zs) \<Longrightarrow> nz_view E x = wview w x"
    "\<And>x. map_option bare (nz_view E x) = map_option bare (wview w x)"
    using slot_remove_ok [OF R(1) d n(2)] by blast
  let ?mk = "\<lambda>lv. if ys @ zs = [] then wl_mask lv AND NOT (push_bit ?s 1) else wl_mask lv"
  let ?w = "set_level (w\<lparr>tw_entries := E\<rparr>) ?l (\<lambda>lv. (set_head ?s h lv)\<lparr>wl_mask := ?mk lv\<rparr>)"
  have run: "remove_from_slot w n = Ret ?w"
    using E(1) R(2) R(3) [OF ls(1)] ls timer_store.get_index [OF R(1), of n] n(2) by (simp add: remove_from_slot_def Let_def)
  have mask: "bit (wl_mask (tw_levels w ! ?l)) ?s" using R(4) [OF ls(1,2)] yz by (simp add: wheel_slot_ok_def)
  have listed: "x \<in> set (ys @ n # zs) \<longleftrightarrow> x \<notin> D \<and> (\<exists>e. wview w x = Some e \<and> te_level e = ?l \<and> te_slot e = ?s)" for x
    using rep_listed [OF rep ls(1,2), of x] yz by simp
  have "wheel_rep ?w (L(?l := (L ?l)(?s := ys @ zs))) (insert n D)"
  proof (rule rep_update [OF rep ls(1,2) E(2) refl E(3)])
    fix x assume x: "x \<in> set (ys @ zs)"
    then obtain f where "wview w x = Some f" "te_level f = ?l" "te_slot f = ?s" "x \<notin> D" using listed [of x] by auto
    then show "x \<notin> insert n D \<and> (\<exists>e'. nz_view E x = Some e' \<and> te_level e' = ?l \<and> te_slot e' = ?s)"
      using bare_eq_fields(1) [OF E(6) [symmetric], of x f] dis x by auto
  next
    show "bit (?mk (tw_levels w ! ?l)) ?s \<longleftrightarrow> ys @ zs \<noteq> []" using mask ls by (simp add: bit_clear_mask)
    show "bit (?mk (tw_levels w ! ?l)) i = bit (wl_mask (tw_levels w ! ?l)) i" if "i < 64" "i \<noteq> ?s" for i
      using that ls by (simp add: bit_clear_mask)
  next
    fix x f assume x: "wview w x = Some f" "x \<notin> D" "(te_level f, te_slot f) \<noteq> (?l, ?s)"
    then have "x \<notin> set (ys @ n # zs)" using listed [of x] by auto
    then show "nz_view E x = Some f \<and> x \<notin> insert n D" using E(5) x by auto
  next
    fix x assume "x \<in> insert n D"
    then show "nz_view E x \<noteq> None" using bare_eq_fields(2) [OF E(6), of x] n R(5) [of x] by auto
  next
    fix x f assume x: "nz_view E x = Some f" "x \<notin> insert n D"
    show "x \<in> set (ys @ zs) \<or> x \<notin> D \<and> wview w x = Some f \<and> (te_level f, te_slot f) \<noteq> (?l, ?s)"
    proof (cases "x \<in> set (ys @ n # zs)")
      case False
      then have "wview w x = Some f" using x E(5) by simp
      then show ?thesis using False listed [of x] x by auto
    qed (use x in auto)
  qed
  moreover have "cores ?w = cores w" using E(6) by (auto simp: cores_def set_level_def)
  ultimately show ?thesis using run E(4) by (intro that [of ?w]) (simp_all add: set_level_def)
qed

lemma rep_drop:
  assumes rep: "wheel_rep w L D" and n: "n \<in> D" and E: "slab_wf E" "nz_view E = (wview w)(n := None)"
  shows "wheel_rep (w\<lparr>tw_entries := E\<rparr>) L (D - {n})"
proof -
  note R = wheel_repD [OF rep]
  have "wheel_slot_ok (w\<lparr>tw_entries := E\<rparr>) (D - {n}) l s (L l s)" if ls: "l < 6" "s < 64" for l s
    by (rule wheel_slot_ok_same [OF R(4) [OF ls]]) (use rep_listed [OF rep ls] n E in auto)
  then show ?thesis using R E by (auto simp: wheel_rep_def wheel_shape_def split: if_splits)
qed

end
