(* ===== verification/Timer_Place.thy ===== *)
theory Timer_Place
  imports Timer_Rep
begin

text \<open>
  Where an entry belongs: the arithmetic of \<open>position\<close>, and the placement that makes the wheel
  fire on time. An entry of level \<open>l\<close> sits in the slot of its deadline's \<open>l\<close>-th base-64 digit,
  and that slot comes up within one turn of the level.
\<close>

section \<open>The position of a deadline\<close>

definition log64 :: "u64 \<Rightarrow> nat" where
  "log64 delta = min ((63 - leading_zeros delta) div 6) 5"

lemma log64_spec:
  assumes "delta \<noteq> 0"
  shows "log64 delta < 6" "64 ^ log64 delta \<le> unat delta" "log64 delta < 5 \<Longrightarrow> unat delta < 64 ^ (log64 delta + 1)"
proof -
  note S = leading_zeros_spec [OF assms]
  let ?k = "63 - leading_zeros delta"
  show "log64 delta < 6" by (simp add: log64_def)
  have p: "(64 :: nat) ^ l = 2 ^ (6 * l)" for l by (simp add: power_mult)
  have "6 * log64 delta \<le> ?k" unfolding log64_def by (rule order.trans [of _ "6 * (?k div 6)"]) (simp_all add: min_def)
  then have "(2 :: nat) ^ (6 * log64 delta) \<le> 2 ^ ?k" by (rule power_increasing) simp
  then show "64 ^ log64 delta \<le> unat delta" unfolding p using S(2) by (rule order.trans)
  assume "log64 delta < 5"
  then have "64 - leading_zeros delta \<le> 6 * (log64 delta + 1)" using S(1) by (auto simp: log64_def min_def)
  then have "(2 :: nat) ^ (64 - leading_zeros delta) \<le> 2 ^ (6 * (log64 delta + 1))" by (rule power_increasing) simp
  then show "unat delta < 64 ^ (log64 delta + 1)" unfolding p using S(3) by linarith
qed

lemma digit64: "l < 6 \<Longrightarrow> unat (drop_bit (l * 6) w AND 0x3F :: u64) = unat w div 64 ^ l mod 64"
proof -
  have "unat (drop_bit (l * 6) w AND mask 6) = unat w div 2 ^ (l * 6) mod 2 ^ 6"
    unfolding unat_and_mask_eq unat_drop_bit_eq by (simp only: drop_bit_eq_div)
  moreover have "(0x3F :: u64) = mask 6" by (simp add: mask_eq_exp_minus_1)
  moreover have "(64 :: nat) ^ l = 2 ^ (l * 6)" by (simp add: mult.commute [of l] power_mult)
  ultimately show ?thesis by simp
qed

lemma position_range: "fst (position d c) < 6" "snd (position d c) < 64"
  using digit64 [of 0 c] digit64 [of "log64 (d - c)" d] log64_spec(1) [of "d - c"]
  by (auto simp: position_def Let_def log64_def)

lemma position_spec:
  assumes "c \<le> d" "position d c = (l, s)"
  shows "s = unat d div 64 ^ l mod 64" "1 \<le> l \<Longrightarrow> 64 ^ l \<le> unat d - unat c" "l < 5 \<Longrightarrow> unat d - unat c < 64 ^ (l + 1)"
proof -
  have u: "unat (d - c) = unat d - unat c" using assms(1) by (simp add: unat_sub)
  have "s = unat d div 64 ^ l mod 64 \<and> (1 \<le> l \<longrightarrow> 64 ^ l \<le> unat d - unat c) \<and> (l < 5 \<longrightarrow> unat d - unat c < 64 ^ (l + 1))"
  proof (cases "d = c")
    case True
    then show ?thesis using assms(2) digit64 [of 0 c] by (auto simp: position_def)
  next
    case False
    then have n0: "d - c \<noteq> 0" by simp
    have "l = log64 (d - c)" "s = unat (drop_bit (l * 6) d AND 0x3F)"
      using assms n0 by (auto simp: position_def Let_def log64_def not_less [symmetric] split: if_splits)
    then show ?thesis using log64_spec [OF n0] digit64 [of l d] u by simp
  qed
  then show "s = unat d div 64 ^ l mod 64" "1 \<le> l \<Longrightarrow> 64 ^ l \<le> unat d - unat c" "l < 5 \<Longrightarrow> unat d - unat c < 64 ^ (l + 1)" by auto
qed

section \<open>Placement\<close>

definition queued :: "nat \<Rightarrow> timer_entry \<Rightarrow> bool" where
  "queued c e \<longleftrightarrow> (let d = unat (te_deadline e); l = te_level e in
     c \<le> d \<and> l < 6 \<and> te_slot e = d div 64 ^ l mod 64 \<and> (l = 0 \<longrightarrow> d < c + 64) \<and>
     (1 \<le> l \<longrightarrow> c div 64 ^ l < d div 64 ^ l) \<and> (1 \<le> l \<longrightarrow> l < 5 \<longrightarrow> d div 64 ^ l \<le> c div 64 ^ l + 64))"

definition placed :: "nat \<Rightarrow> timer_entry \<Rightarrow> bool" where
  "placed c e \<longleftrightarrow> queued c e \<and> c < unat (te_deadline e)"

definition relocate :: "u64 \<Rightarrow> timer_entry \<Rightarrow> timer_entry" where
  "relocate c e = (case position (te_deadline e) c of (l, s) \<Rightarrow> e\<lparr>te_level := l, te_slot := s\<rparr>)"

lemma relocate_simps [simp]:
  "te_deadline (relocate c e) = te_deadline e" "te_task (relocate c e) = te_task e" "bare (relocate c e) = relocate c (bare e)"
  by (simp_all add: relocate_def split: prod.split)

lemma relocate_queued:
  assumes "c \<le> te_deadline e"
  shows "queued (unat c) (relocate c e)"
proof -
  obtain l s where p: "position (te_deadline e) c = (l, s)" by fastforce
  let ?d = "unat (te_deadline e)" and ?c = "unat c" and ?X = "64 ^ l :: nat"
  note S = position_spec [OF assms p] and B = position_range [of "te_deadline e" c]
  have le: "?c \<le> ?d" using assms by (simp add: word_le_nat_alt)
  have X: "0 < ?X" by simp
  have "?c div ?X < ?d div ?X" if "1 \<le> l"
  proof -
    have "?c + ?X \<le> ?d" using S(2) [OF that] le by linarith
    then have "(?c + ?X) div ?X \<le> ?d div ?X" by (rule div_le_mono)
    then show ?thesis unfolding div_add_self2 [OF less_imp_neq [OF X, symmetric]] by simp
  qed
  moreover have "?d div ?X \<le> ?c div ?X + 64" if "l < 5"
  proof -
    have "?d \<le> ?c + 64 * ?X" using S(3) [OF that] le by simp
    then have "?d div ?X \<le> (?c + 64 * ?X) div ?X" by (rule div_le_mono)
    then show ?thesis using X by simp
  qed
  moreover have "?d < ?c + 64" if "l = 0" using S(3) that le by simp
  ultimately show ?thesis using S(1) B le by (simp add: queued_def relocate_def p Let_def)
qed

lemma div_Suc_turn: "\<not> X dvd Suc c \<Longrightarrow> Suc c div X = c div (X :: nat)"
  by (simp add: div_Suc dvd_eq_mod_eq_0)

lemma div_Suc_turned: "X dvd Suc c \<Longrightarrow> Suc c div X = Suc (c div (X :: nat))"
  by (simp add: div_Suc dvd_eq_mod_eq_0)

text \<open>An entry whose level did not turn, or whose slot did not come up, stays placed.\<close>

lemma placed_still:
  assumes "placed c e" "\<not> 64 ^ te_level e dvd Suc c"
  shows "queued (Suc c) e"
  using assms div_Suc_turn [OF assms(2)] by (auto simp: placed_def queued_def Let_def)

lemma placed_level0: "placed c e \<Longrightarrow> te_level e = 0 \<Longrightarrow> queued (Suc c) e"
  by (auto simp: placed_def queued_def Let_def)

lemma placed_other_slot:
  assumes "placed c e" "64 ^ te_level e dvd Suc c" "1 \<le> te_level e" "te_slot e \<noteq> Suc c div 64 ^ te_level e mod 64"
  shows "queued (Suc c) e"
proof -
  let ?X = "64 ^ te_level e :: nat" and ?d = "unat (te_deadline e)"
  note T = div_Suc_turned [OF assms(2)]
  have "Suc c div ?X \<noteq> ?d div ?X" using assms(1,4) by (auto simp: placed_def queued_def Let_def)
  then show ?thesis using assms(1,3) T by (auto simp: placed_def queued_def Let_def)
qed

text \<open>The slot of the current tick at level 0 holds exactly the entries that are due.\<close>

lemma queued_due:
  assumes "queued c e"
  shows "te_level e = 0 \<and> te_slot e = c mod 64 \<longleftrightarrow> unat (te_deadline e) = c"
proof
  assume "te_level e = 0 \<and> te_slot e = c mod 64"
  then have "unat (te_deadline e) mod 64 = c mod 64" "c \<le> unat (te_deadline e)" "unat (te_deadline e) < c + 64"
    using assms by (auto simp: queued_def Let_def)
  then show "unat (te_deadline e) = c"
    by (metis add_diff_inverse_nat add_less_cancel_left linorder_not_less mod_if mod_eq_dvd_iff_nat nat_dvd_not_less
      zero_less_diff le_neq_implies_less)
next
  assume "unat (te_deadline e) = c"
  then show "te_level e = 0 \<and> te_slot e = c mod 64" using assms by (cases "te_level e") (auto simp: queued_def Let_def)
qed

text \<open>Moving the clock inside a turn of level 0 keeps every entry of the higher levels placed.\<close>

lemma placed_skip:
  assumes "placed c e" "te_level e \<noteq> 0" "c \<le> c'" "c' div 64 = c div 64"
  shows "placed c' e"
proof -
  let ?d = "unat (te_deadline e)"
  have "1 \<le> te_level e" using assms(2) by simp
  then obtain k where k: "te_level e = Suc k" by (cases "te_level e") auto
  have dv: "x div 64 ^ te_level e = x div 64 div 64 ^ k" for x :: nat by (simp add: k div_mult2_eq)
  then have "c' div 64 ^ te_level e = c div 64 ^ te_level e" using assms(4) by simp
  moreover have "c' < ?d"
  proof (rule ccontr)
    assume "\<not> c' < ?d"
    then have "?d div 64 ^ te_level e \<le> c' div 64 ^ te_level e" by (intro div_le_mono) simp
    then show False using assms(1,2) calculation by (auto simp: placed_def queued_def Let_def)
  qed
  ultimately show ?thesis using assms(1,2) by (auto simp: placed_def queued_def Let_def)
qed

end
