(* ===== verification/Timer_Advance.thy ===== *)
theory Timer_Advance
  imports Timer_Place
begin

text \<open>
  Advancing the wheel: what a cascade, a tick and a whole run of the expiry iterator do.
\<close>

section \<open>Cascading\<close>

lemma rep_detached_update:
  assumes rep: "wheel_rep w L D" and n: "n \<in> D" and E: "slab_wf E" "nz_view E = (wview w)(n \<mapsto> e)"
  shows "wheel_rep (w\<lparr>tw_entries := E\<rparr>) L D"
proof -
  note R = wheel_repD [OF rep]
  have "wheel_slot_ok (w\<lparr>tw_entries := E\<rparr>) D l s (L l s)" if ls: "l < 6" "s < 64" for l s
    by (rule wheel_slot_ok_same [OF R(4) [OF ls]]) (use rep_listed [OF rep ls] n E in auto)
  then show ?thesis using R E n by (auto simp: wheel_rep_def wheel_shape_def split: if_splits)
qed

lemma cascade_loop_ok:
  assumes "wheel_rep w L D" "chain (wview w) te_next p xs" "set xs \<subseteq> D"
  shows "\<exists>w' L'. cascade_loop w p = Some (Ret w') \<and> wheel_rep w' L' (D - set xs) \<and> tw_tick w' = tw_tick w \<and>
    cores w' = (\<lambda>n. if n \<in> set xs then map_option (relocate (tw_tick w)) (cores w n) else cores w n) \<and>
    (\<forall>x\<in>D - set xs. wview w' x = wview w x)"
  using assms
proof (induction xs arbitrary: w L D p)
  case Nil
  then show ?case by (subst cascade_loop.simps) auto
next
  case (Cons n xs)
  then obtain e where n: "p = Some n" "wview w n = Some e" "chain (wview w) te_next (te_next e) xs" "n \<in> D" by auto
  note R = wheel_repD [OF Cons.prems(1)]
  have dis: "n \<notin> set xs" using chain_distinct [OF Cons.prems(2)] by simp
  let ?e = "e\<lparr>te_prev := None, te_next := None\<rparr>"
  obtain E where E: "update_if_live (tw_entries w) n (\<lambda>e. e\<lparr>te_prev := None, te_next := None\<rparr>) = Ret E" "slab_wf E"
    "nz_view E = (wview w)(n \<mapsto> ?e)"
    using update_if_live_ok [OF R(1) n(2)] by blast
  let ?w = "w\<lparr>tw_entries := E\<rparr>"
  have rep: "wheel_rep ?w L D" by (rule rep_detached_update [OF Cons.prems(1) n(4) E(2,3)])
  have ne: "wview ?w n = Some ?e" by (simp add: E(3))
  obtain l s where ls: "position (te_deadline e) (tw_tick w) = (l, s)" by fastforce
  have b: "l < 6" "s < 64" using position_range [of "te_deadline e" "tw_tick w"] ls by auto
  obtain w1 where w1: "insert_at ?w n l s = Ret w1" "wheel_rep w1 (L(l := (L l)(s := n # L l s))) (D - {n})"
    "tw_tick w1 = tw_tick w" "cores w1 = (cores ?w)(n \<mapsto> (bare ?e)\<lparr>te_level := l, te_slot := s\<rparr>)"
    "\<And>x. x \<in> D - {n} \<Longrightarrow> wview w1 x = wview ?w x"
    using insert_at_ok [OF rep n(4) ne b] by auto
  have same: "wview w1 x = wview w x" if "x \<in> D - {n}" for x using w1(5) [OF that] that by (simp add: E(3))
  have "chain (wview w1) te_next (te_next e) xs \<longleftrightarrow> chain (wview w) te_next (te_next e) xs"
  proof (rule chain_cong)
    fix x assume "x \<in> set xs"
    then have "x \<in> D - {n}" using Cons.prems(3) dis by auto
    then show "map_option te_next (wview w1 x) = map_option te_next (wview w x)" by (simp add: same)
  qed
  then have ch: "chain (wview w1) te_next (te_next e) xs" using n(3) by simp
  have sub: "set xs \<subseteq> D - {n}" using Cons.prems(3) dis by auto
  obtain w' L' where w': "cascade_loop w1 (te_next e) = Some (Ret w')" "wheel_rep w' L' (D - {n} - set xs)" "tw_tick w' = tw_tick w1"
    "cores w' = (\<lambda>n. if n \<in> set xs then map_option (relocate (tw_tick w1)) (cores w1 n) else cores w1 n)"
    "\<forall>x\<in>D - {n} - set xs. wview w' x = wview w1 x"
    using Cons.IH [OF w1(2) ch sub] by blast
  have run: "cascade_loop w p = Some (Ret w')"
    using n E(1) ls w1(1) w'(1) timer_store.get_index [OF R(1), of n] by (subst cascade_loop.simps) simp
  have c1: "cores w1 = (cores w)(n \<mapsto> relocate (tw_tick w) (bare e))"
    using w1(4) ls by (auto simp: cores_def E(3) relocate_def)
  have "cores w' = (\<lambda>m. if m \<in> set (n # xs) then map_option (relocate (tw_tick w)) (cores w m) else cores w m)"
    using w'(4) dis n(2) by (auto simp: c1 w1(3) cores_def)
  moreover have "D - {n} - set xs = D - set (n # xs)" by auto
  ultimately show ?case using run w'(2,3,5) w1(3) same by (intro exI [of _ w'] exI [of _ L']) auto
qed

lemma cascade_level_ok:
  assumes rep: "wheel_rep w L {}" and l: "l < 6"
  obtains w' L' where "cascade_level w l = Some (Ret w')" "wheel_rep w' L' {}" "tw_tick w' = tw_tick w"
    "cores w' = (\<lambda>n. map_option (\<lambda>e. if te_level e = l \<and> te_slot e = unat (tw_tick w) div 64 ^ l mod 64
       then relocate (tw_tick w) e else e) (cores w n))"
proof -
  note R = wheel_repD [OF rep]
  let ?s = "unat (tw_tick w) div 64 ^ l mod 64"
  have s: "?s < 64" by simp
  let ?mk = "\<lambda>lv. wl_mask lv AND NOT (push_bit ?s 1)"
  let ?w = "set_level w l (\<lambda>lv. (set_head ?s None lv)\<lparr>wl_mask := ?mk lv\<rparr>)"
  have m: "bit (?mk (tw_levels w ! l)) ?s = False" "\<And>i. i < 64 \<Longrightarrow> i \<noteq> ?s \<Longrightarrow> bit (?mk (tw_levels w ! l)) i = bit (wl_mask (tw_levels w ! l)) i"
    by (simp_all add: bit_clear_mask)
  have D: "wheel_rep ?w (L(l := (L l)(?s := []))) ({} \<union> set (L l ?s))" "wview ?w = wview w" "tw_tick ?w = tw_tick w"
    "chain (wview w) te_next (wl_slots (tw_levels w ! l) ! ?s) (L l ?s)"
    using detach_ok [OF rep l s, where mk = ?mk, OF m] by blast+
  have run: "cascade_level w l = cascade_loop ?w (wl_slots (tw_levels w ! l) ! ?s)"
    using R(2) R(3) [OF l] l unfolding cascade_level_def digit64 [OF l] by (simp add: Let_def)
  obtain w' L' where w': "cascade_loop ?w (wl_slots (tw_levels w ! l) ! ?s) = Some (Ret w')"
    "wheel_rep w' L' ({} \<union> set (L l ?s) - set (L l ?s))" "tw_tick w' = tw_tick ?w"
    "cores w' = (\<lambda>n. if n \<in> set (L l ?s) then map_option (relocate (tw_tick ?w)) (cores ?w n) else cores ?w n)"
    using cascade_loop_ok [OF D(1), of "wl_slots (tw_levels w ! l) ! ?s" "L l ?s"] D(2,4) by auto
  have cw: "cores ?w = cores w" using D(2) by (auto simp: cores_def)
  have "cores w' n = map_option (\<lambda>e. if te_level e = l \<and> te_slot e = ?s then relocate (tw_tick w) e else e) (cores w n)" for n
    unfolding w'(4) D(3) rep_listed [OF rep l s] cw by (cases "wview w n") (simp_all add: cores_def)
  then show ?thesis using that [of w' L'] run w' D(3) by auto
qed

section \<open>One tick\<close>

text \<open>The timers of a wheel: deadline and task of every live entry.\<close>

definition timers :: "timer_wheel \<Rightarrow> nz \<Rightarrow> (u64 \<times> task_ref) option" where
  "timers w n = map_option (\<lambda>e. (te_deadline e, te_task e)) (wview w n)"

lemma timers_cores: "timers w n = map_option (\<lambda>e. (te_deadline e, te_task e)) (cores w n)"
  by (simp add: timers_def cores_def option.map_comp comp_def)

text \<open>Halfway through a tick to \<open>c + 1\<close>: levels below \<open>j\<close> have turned.\<close>

definition turning :: "nat \<Rightarrow> nat \<Rightarrow> timer_wheel \<Rightarrow> bool" where
  "turning c j w \<longleftrightarrow> unat (tw_tick w) = Suc c \<and>
     (\<forall>n e. cores w n = Some e \<longrightarrow> queued (Suc c) e \<or> j \<le> te_level e \<and> placed c e)"

lemma cascade_step:
  assumes rep: "wheel_rep w L {}" and t: "turning c j w" and j: "1 \<le> j" "j < 6" "64 ^ j dvd Suc c"
  obtains w' L' where "cascade_level w j = Some (Ret w')" "wheel_rep w' L' {}" "turning c (j + 1) w'"
    "tw_tick w' = tw_tick w" "timers w' = timers w"
proof -
  let ?s = "Suc c div 64 ^ j mod 64"
  have tk: "unat (tw_tick w) = Suc c" using t by (simp add: turning_def)
  obtain w' L' where w': "cascade_level w j = Some (Ret w')" "wheel_rep w' L' {}" "tw_tick w' = tw_tick w"
    "cores w' = (\<lambda>n. map_option (\<lambda>e. if te_level e = j \<and> te_slot e = ?s then relocate (tw_tick w) e else e) (cores w n))"
    using cascade_level_ok [OF rep j(2)] unfolding tk by blast
  have "queued (Suc c) e' \<or> j + 1 \<le> te_level e' \<and> placed c e'" if e': "cores w' n = Some e'" for n e'
  proof -
    obtain e where e: "cores w n = Some e" "e' = (if te_level e = j \<and> te_slot e = ?s then relocate (tw_tick w) e else e)"
      using e' unfolding w'(4) by auto
    have alt: "queued (Suc c) e \<or> j \<le> te_level e \<and> placed c e" using t e(1) by (simp add: turning_def)
    then have "Suc c \<le> unat (te_deadline e)" by (auto simp: queued_def placed_def Let_def)
    then have "tw_tick w \<le> te_deadline e" using tk by (simp add: word_le_nat_alt)
    then have "queued (Suc c) (relocate (tw_tick w) e)" using relocate_queued [of "tw_tick w" e] tk by simp
    then show ?thesis using e(2) alt placed_other_slot [of c e] j
      by (cases "te_level e = j") auto
  qed
  then have "turning c (j + 1) w'" using tk w'(3) by (simp add: turning_def)
  moreover have "timers w' = timers w"
  proof
    fix n show "timers w' n = timers w n" by (cases "cores w n") (simp_all add: timers_cores w'(4))
  qed
  ultimately show ?thesis using that w' by blast
qed

lemma turning_done:
  assumes "turning c j w" "1 \<le> j" "j = 6 \<or> \<not> 64 ^ j dvd Suc c" "cores w n = Some e"
  shows "queued (Suc c) e"
proof -
  have "queued (Suc c) e \<or> j \<le> te_level e \<and> placed c e" using assms(1,4) by (simp add: turning_def)
  moreover have "queued (Suc c) e" if "j \<le> te_level e" "placed c e"
  proof -
    have "te_level e < 6" using that(2) by (simp add: placed_def queued_def Let_def)
    then have "\<not> 64 ^ j dvd Suc c" using assms(3) that(1) by auto
    then have "\<not> 64 ^ te_level e dvd Suc c" using le_imp_power_dvd [OF that(1), of "64 :: nat"] dvd_trans by blast
    then show ?thesis by (rule placed_still [OF that(2)])
  qed
  ultimately show ?thesis by blast
qed

lemma cascade_levels_ok:
  assumes "wheel_rep w L {}" "turning c j w" "1 \<le> j" "j \<le> 6" "t = tw_tick w"
  shows "\<exists>w' L'. cascade_levels (trailing_zeros t) [j..<6] w = Some (Ret w') \<and> wheel_rep w' L' {} \<and>
    tw_tick w' = t \<and> timers w' = timers w \<and> (\<forall>n e. cores w' n = Some e \<longrightarrow> queued (Suc c) e)"
  using assms
proof (induction "6 - j" arbitrary: j w L)
  case 0
  then have "j = 6" by simp
  then show ?case using 0 turning_done [OF 0(3)] by auto
next
  case (Suc k)
  then have l: "[j..<6] = j # [j + 1..<6]" using upt_conv_Cons by simp
  have tk: "unat t = Suc c" using Suc.prems by (simp add: turning_def)
  have dv: "j * 6 \<le> trailing_zeros t \<longleftrightarrow> 64 ^ j dvd Suc c"
    using trailing_zeros_ge [of "j * 6" t] Suc.prems(4) tk by (simp add: mult.commute [of j] power_mult)
  show ?case
  proof (cases "64 ^ j dvd Suc c")
    case True
    have "j < 6" using Suc by simp
    then obtain w1 L1 where w1: "cascade_level w j = Some (Ret w1)" "wheel_rep w1 L1 {}" "turning c (j + 1) w1"
      "tw_tick w1 = tw_tick w" "timers w1 = timers w"
      using cascade_step [OF Suc.prems(1,2,3) _ True] by blast
    obtain w' L' where "cascade_levels (trailing_zeros t) [j + 1..<6] w1 = Some (Ret w')" "wheel_rep w' L' {}"
      "tw_tick w' = t" "timers w' = timers w1" "\<forall>n e. cores w' n = Some e \<longrightarrow> queued (Suc c) e"
    proof -
      have k: "k = 6 - (j + 1)" and h: "1 \<le> j + 1" "j + 1 \<le> 6" "t = tw_tick w1"
        using Suc.hyps(2) Suc.prems(5) w1(4) \<open>j < 6\<close> by simp_all
      show ?thesis using Suc.hyps(1) [OF k w1(2,3) h] that by blast
    qed
    then show ?thesis using w1 dv True by (intro exI [of _ w'] exI [of _ L']) (simp add: l)
  next
    case False
    then show ?thesis using dv Suc.prems turning_done [OF Suc.prems(2,3)] by (auto simp: l)
  qed
qed

lemma advance_one_tick_ok:
  assumes rep: "wheel_rep w L {}" and c: "unat (tw_tick w) = c" "Suc c < 2 ^ 64"
    and pl: "\<forall>n e. cores w n = Some e \<longrightarrow> placed c e"
  obtains w' L' where "advance_one_tick w = Some (Ret w')" "wheel_rep w' L' {}" "unat (tw_tick w') = Suc c"
    "timers w' = timers w" "\<And>n e. cores w' n = Some e \<Longrightarrow> queued (Suc c) e"
proof -
  let ?w = "w\<lparr>tw_tick := tw_tick w + 1\<rparr>"
  have tk: "unat (tw_tick w + 1) = Suc c" using c by (simp add: unat_word_ariths)
  have no: "tw_tick w \<noteq> - 1"
  proof
    assume "tw_tick w = - 1"
    then have "tw_tick w + 1 = 0" by simp
    then show False using tk by simp
  qed
  have repw: "wheel_rep ?w L {}"
    using rep by (simp add: wheel_rep_def wheel_shape_def wheel_slot_ok_def)
  have cs: "cores ?w = cores w" "timers ?w = timers w" by (auto simp: cores_def timers_def)
  have "queued (Suc c) e \<or> 1 \<le> te_level e \<and> placed c e" if "cores w n = Some e" for n e
    using pl that placed_level0 [of c e] by (cases "te_level e") auto
  then have turn: "turning c 1 ?w" using tk cs by (simp add: turning_def)
  obtain w' L' where w': "cascade_levels (trailing_zeros (tw_tick w + 1)) [1..<6] ?w = Some (Ret w')" "wheel_rep w' L' {}"
    "tw_tick w' = tw_tick w + 1" "timers w' = timers ?w" "\<forall>n e. cores w' n = Some e \<longrightarrow> queued (Suc c) e"
    using cascade_levels_ok [OF repw turn, of "tw_tick w + 1"] by auto
  have "[1..<6] = 1 # [2..<6]" by (simp add: upt_conv_Cons)
  then have "advance_one_tick w = cascade_levels (trailing_zeros (tw_tick w + 1)) [1..<6] ?w"
    using no by (simp add: advance_one_tick_def LEVEL_COUNT_def Let_def split: option.split exec.split)
  then show ?thesis using that [of w' L'] w' tk cs by auto
qed

section \<open>The expiry iterator\<close>

lemma or_63: "unat (w OR 0x3F :: u64) = unat w div 64 * 64 + 63"
proof -
  let ?x = "w OR mask 6 :: u64"
  have "drop_bit 6 ?x = drop_bit 6 w" by (rule bit_eqI) (simp add: bit_drop_bit_eq bit_or_iff bit_mask_iff)
  then have "unat ?x div 64 = unat w div 64" using unat_drop_bit_eq [of 6 ?x] unat_drop_bit_eq [of 6 w]
    by (simp add: drop_bit_eq_div)
  moreover have "?x AND mask 6 = mask 6" by (rule bit_eqI) (auto simp: bit_simps)
  then have "unat ?x mod 64 = 63" using unat_and_mask_eq [of ?x 6] by (simp add: mask_eq_exp_minus_1)
  moreover have "(0x3F :: u64) = mask 6" by (simp add: mask_eq_exp_minus_1)
  ultimately show ?thesis by (metis div_mult_mod_eq)
qed

lemma take_slot_ok:
  assumes rep: "wheel_rep w L {}" and q: "\<forall>n e. cores w n = Some e \<longrightarrow> queued (unat (tw_tick w)) e"
  obtains drain w' L' xs where "take_slot w = Ret (drain, w')" "wheel_rep w' L' (set xs)" "chain (wview w') te_next drain xs"
    "wview w' = wview w" "tw_tick w' = tw_tick w"
    "set xs = {n. \<exists>e. cores w n = Some e \<and> unat (te_deadline e) = unat (tw_tick w)}"
proof -
  note R = wheel_repD [OF rep]
  let ?s = "unat (tw_tick w) mod 64"
  let ?h = "wl_slots (tw_levels w ! 0) ! ?s"
  let ?mk = "\<lambda>lv. if ?h \<noteq> None then wl_mask lv AND NOT (push_bit ?s 1) else wl_mask lv"
  let ?w = "set_level w 0 (\<lambda>lv. (set_head ?s None lv)\<lparr>wl_mask := ?mk lv\<rparr>)"
  have l: "(0::nat) < 6" and s: "?s < 64" by simp_all
  have run: "take_slot w = Ret (?h, ?w)"
    using R(2) R(3) [OF l] digit64 [of 0 "tw_tick w"] by (simp add: take_slot_def Let_def)
  have "?h = None \<Longrightarrow> L 0 ?s = []" using R(4) [OF l s] by (cases "L 0 ?s") (auto simp: wheel_slot_ok_def)
  then have m: "bit (?mk (tw_levels w ! 0)) ?s = False"
    "\<And>i. i < 64 \<Longrightarrow> i \<noteq> ?s \<Longrightarrow> bit (?mk (tw_levels w ! 0)) i = bit (wl_mask (tw_levels w ! 0)) i"
    using R(4) [OF l s] by (auto simp: bit_clear_mask wheel_slot_ok_def)
  note D = detach_ok [OF rep l s, where mk = ?mk, OF m]
  have "n \<in> set (L 0 ?s) \<longleftrightarrow> (\<exists>e. cores w n = Some e \<and> unat (te_deadline e) = unat (tw_tick w))" for n
  proof (cases "wview w n")
    case None
    then show ?thesis using rep_listed [OF rep l s] by (simp add: cores_def)
  next
    case (Some e)
    then have "queued (unat (tw_tick w)) (bare e)" using q [rule_format, of n "bare e"] by (simp add: cores_def)
    from queued_due [OF this] show ?thesis using rep_listed [OF rep l s, of n] Some by (simp add: cores_def)
  qed
  then have "set (L 0 ?s) = {n. \<exists>e. cores w n = Some e \<and> unat (te_deadline e) = unat (tw_tick w)}" by blast
  then show ?thesis using that [OF run] D by simp
qed

lemma drain_ok:
  assumes "wheel_rep w L (set xs)" "chain (wview w) te_next p xs"
  shows "\<exists>w' L'. (\<forall>acc. expired_collect acc \<lparr>xi_wheel = w, xi_target = target, xi_drain = p\<rparr> =
      expired_collect (rev (map (\<lambda>n. snd (the (timers w n))) xs) @ acc) \<lparr>xi_wheel = w', xi_target = target, xi_drain = None\<rparr>) \<and>
    wheel_rep w' L' {} \<and> tw_tick w' = tw_tick w \<and> wview w' = wview w |` (- set xs)"
  using assms
proof (induction xs arbitrary: w L p)
  case Nil
  then show ?case by (intro exI [of _ w] exI [of _ L]) auto
next
  case (Cons n xs)
  then obtain e where n: "p = Some n" "wview w n = Some e" "chain (wview w) te_next (te_next e) xs" by auto
  note R = wheel_repD [OF Cons.prems(1)]
  have dis: "n \<notin> set xs" using chain_distinct [OF Cons.prems(2)] by simp
  obtain E where E: "slab_remove_by_index (tw_entries w) (nz_to_slab n) = Ret (Some e, E)" "slab_wf E" "nz_view E = (wview w)(n := None)"
    using timer_store.del_hit [OF R(1) n(2)] by blast
  let ?w = "w\<lparr>tw_entries := E\<rparr>"
  have "set (n # xs) - {n} = set xs" using dis by auto
  then have rep: "wheel_rep ?w L (set xs)" using rep_drop [OF Cons.prems(1) _ E(2,3)] by simp
  have ch: "chain (wview ?w) te_next (te_next e) xs" using n(3) dis by (simp add: E(3) chain_upd_other)
  have step: "expired_collect acc \<lparr>xi_wheel = w, xi_target = target, xi_drain = p\<rparr> =
    expired_collect (te_task e # acc) \<lparr>xi_wheel = ?w, xi_target = target, xi_drain = te_next e\<rparr>" for acc
    using n(1,2) E(1) timer_store.get_index [OF R(1), of n]
    by (subst expired_collect.simps, subst expired_next.simps) simp
  obtain w' L' where w': "\<forall>acc. expired_collect acc \<lparr>xi_wheel = ?w, xi_target = target, xi_drain = te_next e\<rparr> =
      expired_collect (rev (map (\<lambda>n. snd (the (timers ?w n))) xs) @ acc) \<lparr>xi_wheel = w', xi_target = target, xi_drain = None\<rparr>"
    "wheel_rep w' L' {}" "tw_tick w' = tw_tick ?w" "wview w' = wview ?w |` (- set xs)"
    using Cons.IH [OF rep ch] by blast
  have mp: "map (\<lambda>n. snd (the (timers ?w n))) xs = map (\<lambda>n. snd (the (timers w n))) xs"
    using dis by (auto simp: timers_def E(3))
  have tn: "snd (the (timers w n)) = te_task e" by (simp add: timers_def n(2))
  have "wview w' = wview w |` (- set (n # xs))" unfolding w'(4) by (auto simp: E(3) restrict_map_def fun_eq_iff)
  then show ?case using step w'(1-3) tn unfolding mp by (intro exI [of _ w'] exI [of _ L']) simp
qed

text \<open>A wheel between passes: nothing detached and every entry placed for the current tick.\<close>

definition wheel_ok :: "timer_wheel \<Rightarrow> bool" where
  "wheel_ok w \<longleftrightarrow> (\<exists>L. wheel_rep w L {}) \<and> (\<forall>n e. cores w n = Some e \<longrightarrow> placed (unat (tw_tick w)) e)"

text \<open>What a run to \<open>target\<close> must deliver: the indices that fire, in order.\<close>

definition fires :: "timer_wheel \<Rightarrow> u64 \<Rightarrow> nz list \<Rightarrow> timer_wheel \<Rightarrow> bool" where
  "fires w target ns w' \<longleftrightarrow> distinct ns \<and> set ns = {n. \<exists>d t. timers w n = Some (d, t) \<and> d \<le> target} \<and>
     sorted (map (\<lambda>n. fst (the (timers w n))) ns) \<and> timers w' = timers w |` (- set ns) \<and> tw_tick w' = target"

lemma set_tick_ok:
  assumes "wheel_ok w" "wl_mask (tw_levels w ! 0) = 0" "unat (tw_tick w) \<le> unat t" "unat t div 64 = unat (tw_tick w) div 64"
  shows "wheel_ok (w\<lparr>tw_tick := t\<rparr>)" "timers (w\<lparr>tw_tick := t\<rparr>) = timers w"
proof -
  obtain L where rep: "wheel_rep w L {}" using assms(1) by (auto simp: wheel_ok_def)
  have z: "te_level e \<noteq> 0" if e: "wview w n = Some e" for n e
  proof
    assume l: "te_level e = 0"
    have "te_slot e < 64" "n \<in> set (L 0 (te_slot e))" using wheel_repD(6) [OF rep e] l by auto
    then show False using wheel_repD(4) [OF rep, of 0 "te_slot e"] assms(2) by (auto simp: wheel_slot_ok_def)
  qed
  have "placed (unat t) e" if c: "cores w n = Some e" for n e
  proof -
    have "placed (unat (tw_tick w)) e" using assms(1) c by (simp add: wheel_ok_def)
    moreover have "te_level e \<noteq> 0" using c z [of n] by (auto simp: cores_def)
    ultimately show ?thesis using placed_skip assms(3,4) by blast
  qed
  moreover have "wheel_rep (w\<lparr>tw_tick := t\<rparr>) L {}" using rep by (simp add: wheel_rep_def wheel_shape_def wheel_slot_ok_def)
  moreover have "cores (w\<lparr>tw_tick := t\<rparr>) = cores w" by (auto simp: cores_def)
  ultimately show "wheel_ok (w\<lparr>tw_tick := t\<rparr>)" by (auto simp: wheel_ok_def)
  show "timers (w\<lparr>tw_tick := t\<rparr>) = timers w" by (auto simp: timers_def)
qed

text \<open>One round of the iterator's outer loop: tick, take the slot, drain it.\<close>

lemma tick_and_drain:
  assumes ok: "wheel_ok w" and c: "unat (tw_tick w) = c" "Suc c < 2 ^ 64"
  obtains w2 drain w3 w4 xs where "advance_one_tick w = Some (Ret w2)" "take_slot w2 = Ret (drain, w3)"
    "\<forall>acc. expired_collect acc \<lparr>xi_wheel = w3, xi_target = target, xi_drain = drain\<rparr> =
      expired_collect (rev (map (\<lambda>n. snd (the (timers w n))) xs) @ acc) \<lparr>xi_wheel = w4, xi_target = target, xi_drain = None\<rparr>"
    "wheel_ok w4" "unat (tw_tick w4) = Suc c" "distinct xs"
    "set xs = {n. \<exists>d t. timers w n = Some (d, t) \<and> unat d = Suc c}" "timers w4 = timers w |` (- set xs)"
proof -
  obtain L where rep: "wheel_rep w L {}" and pl: "\<forall>n e. cores w n = Some e \<longrightarrow> placed c e"
    using ok c by (auto simp: wheel_ok_def)
  obtain w2 L2 where w2: "advance_one_tick w = Some (Ret w2)" "wheel_rep w2 L2 {}" "unat (tw_tick w2) = Suc c"
    "timers w2 = timers w" "\<And>n e. cores w2 n = Some e \<Longrightarrow> queued (Suc c) e"
    using advance_one_tick_ok [OF rep c pl] by blast
  have q2: "\<forall>n e. cores w2 n = Some e \<longrightarrow> queued (unat (tw_tick w2)) e" using w2(3,5) by simp
  obtain drain w3 L3 xs where w3: "take_slot w2 = Ret (drain, w3)" "wheel_rep w3 L3 (set xs)" "chain (wview w3) te_next drain xs"
    "wview w3 = wview w2" "tw_tick w3 = tw_tick w2"
    "set xs = {n. \<exists>e. cores w2 n = Some e \<and> unat (te_deadline e) = unat (tw_tick w2)}"
    using take_slot_ok [OF w2(2) q2] by blast
  have t3: "timers w3 = timers w" using w3(4) w2(4) by (auto simp: timers_def fun_eq_iff)
  have mp: "map (\<lambda>n. snd (the (timers w3 n))) xs = map (\<lambda>n. snd (the (timers w n))) xs" by (simp add: t3)
  have "\<exists>w4 L4. wheel_rep w4 L4 {} \<and> tw_tick w4 = tw_tick w3 \<and> wview w4 = wview w3 |` (- set xs) \<and>
    (\<forall>acc. expired_collect acc \<lparr>xi_wheel = w3, xi_target = target, xi_drain = drain\<rparr> =
      expired_collect (rev (map (\<lambda>n. snd (the (timers w n))) xs) @ acc) \<lparr>xi_wheel = w4, xi_target = target, xi_drain = None\<rparr>)"
    using drain_ok [OF w3(2,3), of target] unfolding mp by blast
  then obtain w4 L4 where w4: "wheel_rep w4 L4 {}" "tw_tick w4 = tw_tick w3" "wview w4 = wview w3 |` (- set xs)"
    "\<forall>acc. expired_collect acc \<lparr>xi_wheel = w3, xi_target = target, xi_drain = drain\<rparr> =
      expired_collect (rev (map (\<lambda>n. snd (the (timers w n))) xs) @ acc) \<lparr>xi_wheel = w4, xi_target = target, xi_drain = None\<rparr>"
    by blast
  have t4: "timers w4 = timers w |` (- set xs)"
    unfolding t3 [symmetric] by (auto simp: timers_def w4(3) restrict_map_def fun_eq_iff)
  have "placed (Suc c) e" if e: "cores w4 n = Some e" for n e
  proof -
    have n: "cores w2 n = Some e" "n \<notin> set xs" using e by (auto simp: cores_def w4(3) w3(4) restrict_map_def split: if_splits)
    then have "unat (te_deadline e) \<noteq> Suc c" using w3(6) w2(3) by auto
    then show ?thesis using w2(5) [OF n(1)] by (auto simp: placed_def queued_def Let_def)
  qed
  then have "wheel_ok w4" using w4(1,2) w3(5) w2(3) by (auto simp: wheel_ok_def)
  moreover have "set xs = {n. \<exists>d t. timers w n = Some (d, t) \<and> unat d = Suc c}"
    using w3(6) w2(3) unfolding w2(4) [symmetric] timers_cores by auto
  ultimately show ?thesis
    using that [OF w2(1) w3(1) w4(4)] chain_distinct [OF w3(3)] t4 w4(2) w3(5) w2(3) by simp
qed

lemma timers_late:
  assumes "wheel_ok w" "timers w n = Some (d, t)"
  shows "unat (tw_tick w) < unat d"
proof -
  obtain e where "cores w n = Some e" "te_deadline e = d" using assms(2) by (auto simp: timers_cores)
  then show ?thesis using assms(1) by (auto simp: wheel_ok_def placed_def)
qed

lemma fires_none:
  assumes "wheel_ok w'" "timers w' = timers w" "tw_tick w' = target"
  shows "fires w target [] w'"
proof -
  have "\<not> d \<le> target" if "timers w n = Some (d, t)" for n d t
    using timers_late [OF assms(1), of n d t] that assms(2,3) by (simp add: word_le_nat_alt)
  then have "{n. \<exists>d t. timers w n = Some (d, t) \<and> d \<le> target} = {}" by auto
  then show ?thesis unfolding fires_def by (simp add: assms(2,3) restrict_map_def)
qed

lemma fires_step:
  assumes ok: "wheel_ok w" and c: "Suc c \<le> unat target" "unat (tw_tick w) \<le> c" and xs: "distinct xs" "set xs = {n. \<exists>d t. timers w n = Some (d, t) \<and> unat d = Suc c}"
    and w4: "timers w4 = timers w |` (- set xs)" "wheel_ok w4" "unat (tw_tick w4) = Suc c" and f: "fires w4 target ns w'"
  shows "fires w target (xs @ ns) w'" "map (\<lambda>n. snd (the (timers w4 n))) ns = map (\<lambda>n. snd (the (timers w n))) ns"
proof -
  have ns: "set ns = {n. \<exists>d t. timers w4 n = Some (d, t) \<and> d \<le> target}" using f by (simp add: fires_def)
  have disj: "n \<notin> set xs" "timers w4 n = timers w n" if "n \<in> set ns" for n
    using that unfolding ns w4(1) by (auto simp: restrict_map_def split: if_splits)
  show "map (\<lambda>n. snd (the (timers w4 n))) ns = map (\<lambda>n. snd (the (timers w n))) ns" using disj(2) by simp
  have srt: "map (\<lambda>n. fst (the (timers w4 n))) ns = map (\<lambda>n. fst (the (timers w n))) ns" using disj(2) by simp
  have xd: "unat (fst (the (timers w n))) = Suc c" if "n \<in> set xs" for n using that unfolding xs(2) by auto
  have "Suc c < unat (fst (the (timers w n)))" if "n \<in> set ns" for n
  proof -
    obtain d t where "timers w4 n = Some (d, t)" using \<open>n \<in> set ns\<close> ns by blast
    then show ?thesis using timers_late [OF w4(2)] w4(3) disj(2) [OF that] by fastforce
  qed
  then have late: "fst (the (timers w m)) \<le> fst (the (timers w n))" if "m \<in> set xs" "n \<in> set ns" for m n
    using that xd [of m] by (fastforce simp: word_le_nat_alt)
  have "sorted (map (\<lambda>n. fst (the (timers w n))) xs)"
    using xd by (simp add: sorted_iff_nth_mono word_le_nat_alt)
  then have "sorted (map (\<lambda>n. fst (the (timers w n))) (xs @ ns))"
    using f late unfolding fires_def srt by (auto simp: sorted_append)
  moreover have "set (xs @ ns) = {n. \<exists>d t. timers w n = Some (d, t) \<and> d \<le> target}"
    unfolding set_append ns xs(2) w4(1) using c by (auto simp: restrict_map_def word_le_nat_alt)
  moreover have "timers w' = timers w |` (- set (xs @ ns))" "tw_tick w' = target" "distinct ns"
    using f w4(1) by (simp_all add: fires_def restrict_restrict Compl_Un)
  moreover have "distinct (xs @ ns)" using xs(1) \<open>distinct ns\<close> disj(1) by auto
  ultimately show "fires w target (xs @ ns) w'" unfolding fires_def by blast
qed

lemma or_63_next:
  assumes "unat t < 2 ^ 64 - 64"
  shows "unat (t OR 0x3F :: u64) = unat t div 64 * 64 + 63" "unat ((t OR 0x3F :: u64) + 1) = unat t div 64 * 64 + 64" "(t OR 0x3F :: u64) \<noteq> - 1"
proof -
  have "unat t div 64 * 64 \<le> unat t" by (rule div_times_less_eq_dividend)
  then have o: "unat t div 64 * 64 + 64 < 2 ^ 64" using assms by linarith
  show u: "unat (t OR 0x3F :: u64) = unat t div 64 * 64 + 63" by (rule or_63)
  then show v: "unat ((t OR 0x3F :: u64) + 1) = unat t div 64 * 64 + 64" using o by (simp add: unat_word_ariths)
  show "(t OR 0x3F :: u64) \<noteq> - 1"
  proof
    assume "(t OR 0x3F :: u64) = - 1"
    then have "unat ((t OR 0x3F :: u64) + 1) = 0" by simp
    then show False using v by simp
  qed
qed

lemma collect_idle:
  "tw_tick w = target \<Longrightarrow> expired_collect acc \<lparr>xi_wheel = w, xi_target = target, xi_drain = None\<rparr> = Some (Ret (rev acc, w))"
  by (subst expired_collect.simps, subst expired_next.simps) simp

lemma collect_skip:
  assumes "wheel_ok w" "wl_mask (tw_levels w ! 0) = 0" "target < (tw_tick w OR 0x3F) + 1" "tw_tick w < target" "unat target < 2 ^ 64 - 64"
  shows "expired_collect acc \<lparr>xi_wheel = w, xi_target = target, xi_drain = None\<rparr> = Some (Ret (rev acc, w\<lparr>tw_tick := target\<rparr>))"
    "wheel_ok (w\<lparr>tw_tick := target\<rparr>)" "timers (w\<lparr>tw_tick := target\<rparr>) = timers w"
proof -
  have lv: "tw_levels w \<noteq> []" using assms(1) wheel_repD(2) by (fastforce simp: wheel_ok_def)
  have lt: "unat (tw_tick w) < unat target" using assms(4) by (simp add: word_less_nat_alt)
  then have t: "unat (tw_tick w) < 2 ^ 64 - 64" using assms(5) by simp
  note O = or_63_next [OF t]
  have "unat target div 64 = unat (tw_tick w) div 64"
    using assms(3) O(2) lt by (simp add: word_less_nat_alt div_nat_eqI)
  then show "wheel_ok (w\<lparr>tw_tick := target\<rparr>)" "timers (w\<lparr>tw_tick := target\<rparr>) = timers w"
    using set_tick_ok [OF assms(1,2)] lt by simp_all
  show "expired_collect acc \<lparr>xi_wheel = w, xi_target = target, xi_drain = None\<rparr> = Some (Ret (rev acc, w\<lparr>tw_tick := target\<rparr>))"
    using assms(2,3,4) lv O(3) by (subst expired_collect.simps, subst expired_next.simps) (simp add: not_le)
qed

lemma collect_turn:
  assumes ok: "wheel_ok w" and lt: "tw_tick w < target" "unat target < 2 ^ 64 - 64"
    and ns: "\<not> (wl_mask (tw_levels w ! 0) = 0 \<and> target < (tw_tick w OR 0x3F) + 1)"
  obtains w4 xs c where
    "\<forall>acc. expired_collect acc \<lparr>xi_wheel = w, xi_target = target, xi_drain = None\<rparr> =
      expired_collect (rev (map (\<lambda>n. snd (the (timers w n))) xs) @ acc) \<lparr>xi_wheel = w4, xi_target = target, xi_drain = None\<rparr>"
    "unat (tw_tick w) \<le> c" "Suc c \<le> unat target" "distinct xs" "set xs = {n. \<exists>d t. timers w n = Some (d, t) \<and> unat d = Suc c}"
    "timers w4 = timers w |` (- set xs)" "wheel_ok w4" "unat (tw_tick w4) = Suc c"
proof -
  let ?t = "tw_tick w"
  define w1 where "w1 = (if wl_mask (tw_levels w ! 0) = 0 then w\<lparr>tw_tick := (?t OR 0x3F) + 1 - 1\<rparr> else w)"
  have lv: "tw_levels w \<noteq> []" using ok wheel_repD(2) by (fastforce simp: wheel_ok_def)
  have t: "unat ?t < 2 ^ 64 - 64" using lt by (simp add: word_less_nat_alt)
  note O = or_63_next [OF t]
  have W1: "wheel_ok w1" "timers w1 = timers w" "unat ?t \<le> unat (tw_tick w1)" "unat (tw_tick w1) < unat target"
    using ok set_tick_ok [OF ok, of "?t OR 0x3F"] O(1,2) ns lt(1)
    by (auto simp: w1_def word_le_nat_alt word_less_nat_alt)
  have c: "Suc (unat (tw_tick w1)) < 2 ^ 64" using W1(4) lt(2) by simp
  obtain w2 drain w3 w4 xs where W: "advance_one_tick w1 = Some (Ret w2)" "take_slot w2 = Ret (drain, w3)"
    "\<forall>acc. expired_collect acc \<lparr>xi_wheel = w3, xi_target = target, xi_drain = drain\<rparr> =
      expired_collect (rev (map (\<lambda>n. snd (the (timers w1 n))) xs) @ acc) \<lparr>xi_wheel = w4, xi_target = target, xi_drain = None\<rparr>"
    "wheel_ok w4" "unat (tw_tick w4) = Suc (unat (tw_tick w1))" "distinct xs"
    "set xs = {n. \<exists>d t. timers w1 n = Some (d, t) \<and> unat d = Suc (unat (tw_tick w1))}" "timers w4 = timers w1 |` (- set xs)"
    by (rule tick_and_drain [OF W1(1) refl c, of target]) (rule that; assumption)
  have nx: "expired_next \<lparr>xi_wheel = w, xi_target = target, xi_drain = None\<rparr> =
    expired_next \<lparr>xi_wheel = w3, xi_target = target, xi_drain = drain\<rparr>"
    using lt lv ns O(3) W(1,2) by (subst expired_next.simps) (auto simp: Let_def not_le w1_def [symmetric])
  have "expired_collect acc \<lparr>xi_wheel = w, xi_target = target, xi_drain = None\<rparr> =
      expired_collect acc \<lparr>xi_wheel = w3, xi_target = target, xi_drain = drain\<rparr>" for acc
    unfolding expired_collect.simps [of acc "\<lparr>xi_wheel = w, xi_target = target, xi_drain = None\<rparr>"] nx
    by (rule expired_collect.simps [symmetric])
  note C = this
  show ?thesis
    by (rule that [of xs w4 "unat (tw_tick w1)"]) (use C W(3-8) W1(2-4) in simp_all)
qed

lemma collect_ok:
  assumes "wheel_ok w" "unat (tw_tick w) \<le> unat target" "unat target < 2 ^ 64 - 64"
  shows "\<exists>ns w'. expired_collect acc \<lparr>xi_wheel = w, xi_target = target, xi_drain = None\<rparr> =
      Some (Ret (rev acc @ map (\<lambda>n. snd (the (timers w n))) ns, w')) \<and> fires w target ns w' \<and> wheel_ok w'"
  using assms
proof (induction "unat target - unat (tw_tick w)" arbitrary: w acc rule: less_induct)
  case less
  consider (idle) "tw_tick w = target"
    | (skip) "tw_tick w < target" "wl_mask (tw_levels w ! 0) = 0" "target < (tw_tick w OR 0x3F) + 1"
    | (turn) "tw_tick w < target" "\<not> (wl_mask (tw_levels w ! 0) = 0 \<and> target < (tw_tick w OR 0x3F) + 1)"
    using less.prems(2) by (fastforce simp: word_le_nat_alt [symmetric])
  then show ?case
  proof cases
    case idle
    then show ?thesis using fires_none [OF less.prems(1) refl idle] collect_idle [OF idle] less.prems(1)
      by (intro exI [of _ "[]"]) simp
  next
    case skip
    note K = collect_skip [OF less.prems(1) skip(2,3,1) less.prems(3)]
    then show ?thesis using fires_none [OF K(2,3)] by (intro exI [of _ "[]"]) simp
  next
    case turn
    obtain w4 xs c where W: "\<forall>acc. expired_collect acc \<lparr>xi_wheel = w, xi_target = target, xi_drain = None\<rparr> =
        expired_collect (rev (map (\<lambda>n. snd (the (timers w n))) xs) @ acc) \<lparr>xi_wheel = w4, xi_target = target, xi_drain = None\<rparr>"
      "unat (tw_tick w) \<le> c" "Suc c \<le> unat target" "distinct xs" "set xs = {n. \<exists>d t. timers w n = Some (d, t) \<and> unat d = Suc c}"
      "timers w4 = timers w |` (- set xs)" "wheel_ok w4" "unat (tw_tick w4) = Suc c"
      by (rule collect_turn [OF less.prems(1) turn(1) less.prems(3) turn(2)]) (rule that; assumption)
    have h: "unat target - unat (tw_tick w4) < unat target - unat (tw_tick w)" "unat (tw_tick w4) \<le> unat target"
      using W(2,3,8) by linarith+
    let ?acc = "rev (map (\<lambda>n. snd (the (timers w n))) xs) @ acc"
    obtain ns w' where F: "expired_collect ?acc \<lparr>xi_wheel = w4, xi_target = target, xi_drain = None\<rparr> =
        Some (Ret (rev ?acc @ map (\<lambda>n. snd (the (timers w4 n))) ns, w'))" "fires w4 target ns w'" "wheel_ok w'"
      using less.hyps [OF h(1) W(7) h(2) less.prems(3), of ?acc] by blast
    note S = fires_step [OF less.prems(1) W(3,2,4,5,6,7,8) F(2)]
    show ?thesis using W(1) F(1,3) S by (intro exI [of _ "xs @ ns"]) simp
  qed
qed

end
