(* ===== verification/Timer_Ops.thy ===== *)
theory Timer_Ops
  imports Timer_Advance
begin

text \<open>
  The operations of the timer wheel as the runtime calls them: creation, registration,
  cancellation, and a pass to a target tick, with the properties they have together.
\<close>

section \<open>Generations\<close>

text \<open>Relinking entries never touches a generation, so it never changes which handles are live.\<close>

definition gens :: "'a slab \<Rightarrow> generation list" where
  "gens s = map generation (slots s)"

lemma key_live:
  assumes "slab_wf s" "issued_key k"
  shows "slab_view s (key_parts k) \<noteq> None \<longleftrightarrow> unat (key_index k) < length (gens s) \<and> gens s ! unat (key_index k) = key_generation k"
proof -
  obtain fl where "slab_inv s fl" using assms(1) by (auto simp: slab_wf_def)
  then have "data (slots s ! unat (key_index k)) \<noteq> None"
    if "unat (key_index k) < length (slots s)" "generation (slots s ! unat (key_index k)) = key_generation k"
    using that slab_inv_data assms(2) by (metis issued_key_def option.distinct(1))
  then show ?thesis using assms(2) by (auto simp: slab_view_def key_parts_def gens_def issued_key_def)
qed

lemma get_mut_gens: "slab_get_mut_by_index s i f = Ret (Some s') \<Longrightarrow> gens s' = gens s"
  by (auto simp: slab_get_mut_by_index_def gens_def get_at_def slot_data_ref_def map_update list_update_same_conv
    split: if_splits option.splits)

lemma update_if_live_gens: "update_if_live s n f = Ret s' \<Longrightarrow> gens s' = gens s"
  by (cases "slab_get_mut_by_index s (nz_to_slab n) f") (auto simp: update_if_live_def get_mut_gens split: option.splits)

lemma push_front_gens:
  assumes "push_front h n s = Ret (h', s')"
  shows "gens s' = gens s"
proof -
  obtain r where r: "slab_get_mut_by_index s (nz_to_slab n) (\<lambda>e. e\<lparr>te_prev := None, te_next := h\<rparr>) = Ret r"
    using assms by (auto simp: push_front_def)
  show ?thesis
  proof (cases r)
    case (Some s1)
    have g: "gens s1 = gens s" using get_mut_gens r Some by blast
    show ?thesis
    proof (cases h)
      case (Some x)
      then obtain q where q: "slab_get_mut_by_index s1 (nz_to_slab x) (\<lambda>e. e\<lparr>te_prev := Some n\<rparr>) = Ret q"
        "s' = (case q of None \<Rightarrow> s1 | Some s2 \<Rightarrow> s2)" using assms r \<open>r = Some s1\<close> by (auto simp: push_front_def)
      then show ?thesis using g get_mut_gens [of s1] by (cases q) auto
    qed (use assms r Some g in \<open>simp add: push_front_def\<close>)
  qed (use assms r in \<open>simp add: push_front_def\<close>)
qed

lemma slot_remove_gens:
  assumes "slot_remove h n s = Ret (b, h', s')"
  shows "gens s' = gens s"
proof -
  obtain r where r: "slab_get_by_index s (nz_to_slab n) = Ret r" using assms by (auto simp: slot_remove_def)
  show ?thesis
  proof (cases r)
    case (Some e)
    then show ?thesis using assms r
      by (cases "te_prev e"; cases "te_next e") (auto simp: slot_remove_def Let_def dest!: update_if_live_gens)
  qed (use assms r in \<open>simp add: slot_remove_def\<close>)
qed

lemma insert_at_gens: "insert_at w n l s = Ret w' \<Longrightarrow> gens (tw_entries w') = gens (tw_entries w)"
  by (auto simp: insert_at_def set_level_def dest!: update_if_live_gens push_front_gens
    split: option.splits if_splits)

lemma remove_from_slot_gens: "remove_from_slot w n = Ret w' \<Longrightarrow> gens (tw_entries w') = gens (tw_entries w)"
  by (auto simp: remove_from_slot_def set_level_def Let_def dest!: slot_remove_gens
    split: option.splits if_splits)

section \<open>Creating and registering\<close>

lemma rep_add:
  assumes rep: "wheel_rep w L {}" and n: "wview w n = None" and E: "slab_wf E" "nz_view E = (wview w)(n \<mapsto> e)"
  shows "wheel_rep (w\<lparr>tw_entries := E\<rparr>) L {n}"
proof -
  note R = wheel_repD [OF rep]
  have nl: "n \<notin> set (L l s)" if ls: "l < 6" "s < 64" for l s using n rep_listed [OF rep ls] by auto
  have "wheel_slot_ok (w\<lparr>tw_entries := E\<rparr>) {n} l s (L l s)" if ls: "l < 6" "s < 64" for l s
    by (rule wheel_slot_ok_same [OF R(4) [OF ls]]) (use nl [OF ls] E in auto)
  then show ?thesis using R E by (auto simp: wheel_rep_def wheel_shape_def split: if_splits)
qed

lemma wheel_new_ok:
  assumes "capacity < 2 ^ 32"
  obtains w where "wheel_new now capacity = Ret w" "wheel_ok w" "timers w = Map.empty" "tw_tick w = now"
    "slab_inv (tw_entries w) [0..<capacity]"
proof -
  obtain E :: "timer_entry slab" where E: "slab_new capacity = Ret E" "slab_inv E [0..<capacity]" "slab_view E = Map.empty"
    using slab_new_spec [OF assms] by metis
  let ?w = "\<lparr>tw_tick = now, tw_levels = replicate LEVEL_COUNT level_new, tw_entries = E\<rparr>"
  have v: "nz_view E = Map.empty"
  proof
    fix n show "nz_view E n = None" using nz_view_slab_view [OF E(2), of n] E(3) by (cases "nz_view E n") auto
  qed
  have "wheel_rep ?w (\<lambda>_ _. []) {}"
    using E(2) v by (auto simp: wheel_rep_def wheel_shape_def wheel_slot_ok_def slab_wf_def level_new_def
      LEVEL_COUNT_def SLOTS_PER_LEVEL_def)
  moreover have "cores ?w = Map.empty" "timers ?w = Map.empty" using v by (auto simp: cores_def timers_def)
  ultimately show ?thesis using E(1,2) by (intro that [of ?w]) (auto simp: wheel_new_def wheel_ok_def)
qed

lemma wheel_register_ok:
  assumes ok: "wheel_ok w" and d: "tw_tick w < deadline"
  shows "(wheel_register w task deadline = Ret (Inl Full, w) \<and> slab_inv (tw_entries w) []) \<or>
    (\<exists>h n w'. wheel_register w task deadline = Ret (Inr h, w') \<and> issued_key h \<and> handle_nz h = Ret n \<and>
      slab_view (tw_entries w') (key_parts h) \<noteq> None \<and>
      timers w n = None \<and> timers w' = (timers w)(n \<mapsto> (deadline, task)) \<and> tw_tick w' = tw_tick w \<and> wheel_ok w')"
proof -
  obtain L where rep: "wheel_rep w L {}" using ok by (auto simp: wheel_ok_def)
  note R = wheel_repD [OF rep]
  obtain fl where inv: "slab_inv (tw_entries w) fl" using R(1) by (auto simp: slab_wf_def)
  let ?e = "\<lparr>te_deadline = deadline, te_task = task, te_prev = None, te_next = None, te_level = 0, te_slot = 0\<rparr>"
  show ?thesis
  proof (cases fl)
    case Nil
    then show ?thesis using slab_insert_full [of "tw_entries w" ?e] inv by (simp add: wheel_register_def)
  next
    case (Cons i fl')
    obtain k E where ins: "slab_insert (tw_entries w) ?e = Ret (Inr k, E)" using slab_insert_ok [OF inv [unfolded Cons]] by metis
    obtain n where n: "slab_to_nz (key_index k) = Ret n" "wview w n = None" "slab_wf E" "nz_view E = (wview w)(n \<mapsto> ?e)"
      "issued_key k" "slab_view E (key_parts k) = Some ?e"
      using slab_insert_nz [OF R(1) ins] by metis
    let ?w = "w\<lparr>tw_entries := E\<rparr>"
    have rep1: "wheel_rep ?w L {n}" by (rule rep_add [OF rep n(2,3,4)])
    obtain l s where ls: "position deadline (tw_tick w) = (l, s)" by fastforce
    have b: "l < 6" "s < 64" using position_range [of deadline "tw_tick w"] ls by auto
    have ne: "wview ?w n = Some ?e" by (simp add: n(4))
    obtain w' where w': "insert_at ?w n l s = Ret w'" "wheel_rep w' (L(l := (L l)(s := n # L l s))) ({n} - {n})"
      "tw_tick w' = tw_tick ?w" "cores w' = (cores ?w)(n \<mapsto> (bare ?e)\<lparr>te_level := l, te_slot := s\<rparr>)"
      using insert_at_ok [OF rep1 _ ne b] by (metis singletonI)
    have e: "(bare ?e)\<lparr>te_level := l, te_slot := s\<rparr> = relocate (tw_tick w) (bare ?e)" using ls by (simp add: relocate_def)
    have "queued (unat (tw_tick w)) (relocate (tw_tick w) (bare ?e))" using d by (intro relocate_queued) simp
    then have "placed (unat (tw_tick w)) (relocate (tw_tick w) (bare ?e))" using d by (simp add: placed_def word_less_nat_alt)
    then have ok': "wheel_ok w'" using ok w' unfolding e by (auto simp: wheel_ok_def cores_def n(4))
    have t: "timers w' = (timers w)(n \<mapsto> (deadline, task))"
      unfolding timers_cores [abs_def] w'(4) e by (auto simp: cores_def n(4) bare_def)
    have wf': "slab_wf (tw_entries w')" using wheel_repD(1) [OF w'(2)] .
    have "slab_view (tw_entries w') (key_parts k) \<noteq> None"
      using key_live [OF wf' n(5)] key_live [OF n(3,5)] n(6) insert_at_gens [OF w'(1)] by simp
    moreover have "wheel_register w task deadline = Ret (Inr k, w')"
      using ins n(1) ls w'(1) by (simp add: wheel_register_def)
    ultimately show ?thesis using n(1,2,5) t ok' w'(3) by (intro disjI2) (auto simp: handle_nz_def timers_def)
  qed
qed

section \<open>Cancelling\<close>

lemma slab_remove_nz:
  assumes "slab_wf s" "issued_key k" "slab_view s (key_parts k) \<noteq> None"
  obtains v s' n where "handle_nz k = Ret n" "slab_remove s k = Ret (Some v, s')" "slab_wf s'" "nz_view s n = Some v"
    "nz_view s' = (nz_view s)(n := None)"
proof -
  obtain fl where inv: "slab_inv s fl" using assms(1) by (auto simp: slab_wf_def)
  obtain v where v: "slab_view s (key_parts k) = Some v" using assms(3) by blast
  let ?n = "key_index k + 1"
  have nz: "nz_to_slab ?n = key_index k" by (simp add: nz_to_slab_def)
  have i: "unat (key_index k) < length (slots s)" "length (slots s) < 2 ^ 32"
    using v inv by (auto simp: slab_view_def key_parts_def slab_inv_def split: if_splits)
  have "key_index k \<noteq> 0xFFFFFFFF"
    using of_nat_not_sentinel [OF i] by (simp add: FREE_SENTINEL_def)
  then have h: "handle_nz k = Ret ?n" by (simp add: handle_nz_def slab_to_nz_def)
  have "slab_op_ok (OpRemove k) s" using slab_remove_op_ok [OF inv assms(2)] .
  then obtain s' fl' where op: "slab_remove s k = Ret (Some v, s')" "slab_inv s' fl'"
    "slab_view s' = (slab_view s)(key_parts k := None)"
    using v unfolding slab_op_ok_def by (cases "slab_remove s k") auto
  have v': "slab_view s (unat (nz_to_slab ?n), key_generation k) = Some v" using v unfolding nz key_parts_def .
  have "nz_view s' = (nz_view s)(?n := None)"
    by (rule nz_view_upd [OF inv op(2) v']) (use op(3) in \<open>simp add: nz key_parts_def\<close>)
  moreover have "nz_view s ?n = Some v" using nz_view_slab_view [OF inv] v' by blast
  ultimately show ?thesis using that [OF h op(1)] op(2) by (auto simp: slab_wf_def)
qed

lemma wheel_cancel_ok:
  assumes ok: "wheel_ok w" and k: "issued_key h"
  shows "if slab_view (tw_entries w) (key_parts h) = None then wheel_cancel w h = Ret (False, w)
    else \<exists>n w'. wheel_cancel w h = Ret (True, w') \<and> handle_nz h = Ret n \<and> timers w n \<noteq> None \<and>
      timers w' = (timers w)(n := None) \<and> tw_tick w' = tw_tick w \<and> wheel_ok w'"
proof -
  obtain L where rep: "wheel_rep w L {}" using ok by (auto simp: wheel_ok_def)
  note R = wheel_repD [OF rep]
  obtain fl where inv: "slab_inv (tw_entries w) fl" using R(1) by (auto simp: slab_wf_def)
  have g: "slab_get (tw_entries w) h = Ret (slab_view (tw_entries w) (key_parts h))" using slab_get_view [OF inv k] .
  show ?thesis
  proof (cases "slab_view (tw_entries w) (key_parts h)")
    case None
    then show ?thesis using g by (simp add: wheel_cancel_def)
  next
    case (Some v)
    obtain e n where n: "handle_nz h = Ret n" "wview w n = Some e"
      using slab_remove_nz [OF R(1) k] Some by (metis option.distinct(1))
    obtain w1 L1 where w1: "remove_from_slot w n = Ret w1" "wheel_rep w1 L1 {n}" "tw_tick w1 = tw_tick w" "cores w1 = cores w"
      using remove_from_slot_ok [OF rep _ n(2)] by (metis empty_iff)
    have wf1: "slab_wf (tw_entries w1)" using wheel_repD(1) [OF w1(2)] .
    have "slab_view (tw_entries w1) (key_parts h) \<noteq> None"
      using key_live [OF wf1 k] key_live [OF R(1) k] Some remove_from_slot_gens [OF w1(1)] by simp
    from slab_remove_nz [OF wf1 k this] obtain v1 E where E: "slab_remove (tw_entries w1) h = Ret (Some v1, E)" "slab_wf E"
      "nz_view E = (wview w1)(n := None)" using n(1) by (metis exec.inject(1))
    let ?w = "w1\<lparr>tw_entries := E\<rparr>"
    have run: "wheel_cancel w h = Ret (True, ?w)" using g Some n(1) w1(1) E(1) by (simp add: wheel_cancel_def)
    have rep': "wheel_rep ?w L1 {}" using rep_drop [OF w1(2) _ E(2,3)] by simp
    have c: "cores ?w = (cores w)(n := None)" using w1(4) by (auto simp: cores_def E(3) fun_eq_iff)
    then have "timers ?w = (timers w)(n := None)" by (auto simp: timers_cores fun_eq_iff)
    moreover have "wheel_ok ?w" using ok rep' c w1(3) by (auto simp: wheel_ok_def split: if_splits)
    moreover have "timers w n \<noteq> None" using n(2) by (simp add: timers_def)
    ultimately show ?thesis using run n(1) Some w1(3) by auto
  qed
qed

section \<open>The next expiry\<close>

lemma rep_mask:
  assumes rep: "wheel_rep w L {}" and ls: "l < 6" "s < 64"
  shows "bit (wl_mask (tw_levels w ! l)) s \<longleftrightarrow> (\<exists>n e. cores w n = Some e \<and> te_level e = l \<and> te_slot e = s)"
proof -
  have "bit (wl_mask (tw_levels w ! l)) s \<longleftrightarrow> (\<exists>n. n \<in> set (L l s))"
    using wheel_repD(4) [OF rep ls] by (cases "L l s") (auto simp: wheel_slot_ok_def)
  also have "\<dots> \<longleftrightarrow> (\<exists>n e. wview w n = Some e \<and> te_level e = l \<and> te_slot e = s)" using rep_listed [OF rep ls] by auto
  also have "\<dots> \<longleftrightarrow> (\<exists>n e. cores w n = Some e \<and> te_level e = l \<and> te_slot e = s)" by (fastforce simp: cores_def)
  finally show ?thesis .
qed

lemma mask_zero:
  assumes rep: "wheel_rep w L {}" and l: "l < 6"
  shows "wl_mask (tw_levels w ! l) = 0 \<longleftrightarrow> (\<nexists>n e. cores w n = Some e \<and> te_level e = l)"
proof -
  have "te_slot e < 64" if "cores w n = Some e" for n e
    using that wheel_repD(6) [OF rep, of n] by (auto simp: cores_def)
  moreover have "wl_mask (tw_levels w ! l) = 0 \<longleftrightarrow> (\<forall>s<64. \<not> bit (wl_mask (tw_levels w ! l)) s)"
    by (auto simp: bit_eq_iff)
  ultimately show ?thesis using rep_mask [OF rep l] by blast
qed

lemma next_expiry_from_none: "next_expiry_from t l lvs = None \<longleftrightarrow> (\<forall>lv\<in>set lvs. wl_mask lv = 0)"
  by (induction lvs arbitrary: l) (auto simp: Let_def)

lemma list6: "length xs = 6 \<Longrightarrow> xs = [xs ! 0, xs ! 1, xs ! 2, xs ! 3, xs ! 4, xs ! 5]"
  by (rule nth_equalityI) (auto simp: less_Suc_eq numeral_eq_Suc)

lemma tz_four: "trailing_zeros (4 :: u64) = 2"
proof -
  have "2 \<le> trailing_zeros (4 :: u64)" "\<not> 3 \<le> trailing_zeros (4 :: u64)" by (simp_all add: trailing_zeros_ge)
  then show ?thesis by simp
qed

lemma rotr_zero: "word_rotr 0 (w :: u64) = w"
  by (rule bit_word_eqI) (simp add: bit_word_rotr_iff)

text \<open>A fresh wheel with one timer, for the witnesses.\<close>

lemma one_timer:
  assumes "now < deadline"
  obtains w n where "wheel_ok w" "tw_tick w = now" "timers w = [n \<mapsto> (deadline, task)]"
proof -
  obtain w0 where w0: "wheel_ok w0" "timers w0 = Map.empty" "tw_tick w0 = now" "slab_inv (tw_entries w0) [0..<1]"
    using wheel_new_ok [of 1 now] by auto
  have "\<not> slab_inv (tw_entries w0) []"
    using slab_head_spec(4) [of "tw_entries w0" 0 "[]"] w0(4) by (auto simp: slab_inv_def)
  then show ?thesis using wheel_register_ok [OF w0(1), of deadline task] w0 assms that by fastforce
qed

text \<open>Where the entry of a wheel at tick 4095 with one timer at 9095 is.\<close>

lemma placed_9095:
  assumes "placed 4095 e" "te_deadline e = 9095"
  shows "te_level e = 2 \<and> te_slot e = 2"
proof -
  have "te_level e < 6" using assms(1) by (simp add: placed_def queued_def Let_def)
  then consider "te_level e = 0" | "te_level e = 1" | "te_level e = 2" | "te_level e = 3" | "te_level e = 4" | "te_level e = 5"
    by linarith
  then show ?thesis using assms by cases (simp_all add: placed_def queued_def Let_def)
qed

section \<open>Properties\<close>

text \<open>
  C12. A pass of the wheel to any target ends and fires exactly the timers that are due: the
  iterator yields the task of every timer with a deadline at most the target, each once, in
  the order of the deadlines; the others stay registered, and the wheel is again in order at
  the target tick. No cascade loses, duplicates or delays a timer.
\<close>

theorem wheel_fires_exact:
  assumes "wheel_ok w" "unat (tw_tick w) \<le> unat target" "unat target < 2 ^ 64 - 64"
  shows "\<exists>ns w'. expired_collect [] (advance_to w target) = Some (Ret (map (\<lambda>n. snd (the (timers w n))) ns, w')) \<and>
    distinct ns \<and> set ns = {n. \<exists>d t. timers w n = Some (d, t) \<and> d \<le> target} \<and>
    sorted (map (\<lambda>n. fst (the (timers w n))) ns) \<and>
    timers w' = timers w |` (- set ns) \<and> tw_tick w' = target \<and> wheel_ok w'"
  using collect_ok [OF assms, of "[]"] unfolding fires_def advance_to_def by auto

theorem wheel_fires_exact_witness:
  "\<exists>w n w'. wheel_ok w \<and> timers w = [n \<mapsto> (9095, 7)] \<and>
     expired_collect [] (advance_to w 9100) = Some (Ret ([7], w')) \<and> timers w' = Map.empty"
proof -
  obtain w n where w: "wheel_ok w" "tw_tick w = 4095" "timers w = [n \<mapsto> (9095, 7)]"
    using one_timer [of 4095 9095 7] by auto
  have "{m. \<exists>d t. timers w m = Some (d, t) \<and> d \<le> 9100} = {n}" using w(3) by auto
  then obtain ns w' where F: "expired_collect [] (advance_to w 9100) = Some (Ret (map (\<lambda>n. snd (the (timers w n))) ns, w'))"
    "distinct ns" "set ns = {n}" "timers w' = timers w |` (- set ns)"
    using wheel_fires_exact [OF w(1), of 9100] w(2) by auto
  then have "ns = [n]" by (metis (no_types, lifting) distinct_card card_1_singleton_iff length_Suc_conv length_0_conv One_nat_def list.simps(15) set_empty2 singleton_insert_inj_eq empty_set)
  then show ?thesis using F w by (intro exI [of _ w] exI [of _ n] exI [of _ w']) (auto simp: restrict_map_def)
qed

text \<open>
  C13. Registering a deadline in the future fails only when the slab of entries is full, and
  otherwise adds exactly that timer under a fresh live handle; cancelling through an issued
  handle removes exactly the timer the handle names, and reports \<open>false\<close>, changing nothing,
  when that timer has fired or was cancelled before. Both keep the wheel in order.
\<close>

theorem wheel_register_cancel:
  assumes "wheel_ok w"
  shows "(tw_tick w < deadline \<longrightarrow>
      (wheel_register w task deadline = Ret (Inl Full, w) \<and> slab_inv (tw_entries w) []) \<or>
      (\<exists>h n w'. wheel_register w task deadline = Ret (Inr h, w') \<and> issued_key h \<and> handle_nz h = Ret n \<and>
        slab_view (tw_entries w') (key_parts h) \<noteq> None \<and>
        timers w n = None \<and> timers w' = (timers w)(n \<mapsto> (deadline, task)) \<and> tw_tick w' = tw_tick w \<and> wheel_ok w')) \<and>
    (issued_key k \<longrightarrow>
      (if slab_view (tw_entries w) (key_parts k) = None then wheel_cancel w k = Ret (False, w)
       else \<exists>n w'. wheel_cancel w k = Ret (True, w') \<and> handle_nz k = Ret n \<and> timers w n \<noteq> None \<and>
         timers w' = (timers w)(n := None) \<and> tw_tick w' = tw_tick w \<and> wheel_ok w'))"
  using wheel_register_ok [OF assms, of deadline task] wheel_cancel_ok [OF assms, of k] by blast

theorem wheel_register_cancel_witness:
  "\<exists>w h w' n. wheel_new 10 1 = Ret w \<and> wheel_register w 7 20 = Ret (Inr h, w') \<and> timers w' = [n \<mapsto> (20, 7)]"
proof -
  obtain w where w: "wheel_new 10 1 = Ret w" "wheel_ok w" "timers w = Map.empty" "tw_tick w = 10" "slab_inv (tw_entries w) [0..<1]"
    using wheel_new_ok [of 1 10] by auto
  have "\<not> slab_inv (tw_entries w) []"
    using slab_head_spec(4) [of "tw_entries w" 0 "[]"] w(5) by (auto simp: slab_inv_def)
  then show ?thesis using wheel_register_cancel [OF w(2), of 20 7 0] w by auto
qed

text \<open>
  The wheel reports no next expiry exactly when no timer is registered, so the runtime
  never parks without a deadline while a timer is pending.
\<close>

lemma next_expiry_none_iff:
  assumes "wheel_ok w"
  shows "next_expiry w = None \<longleftrightarrow> timers w = Map.empty"
proof -
  obtain L where rep: "wheel_rep w L {}" using assms by (auto simp: wheel_ok_def)
  have "next_expiry w = None \<longleftrightarrow> (\<forall>l<6. wl_mask (tw_levels w ! l) = 0)"
    using wheel_repD(2) [OF rep] by (simp add: next_expiry_def next_expiry_from_none all_set_conv_all_nth)
  also have "\<dots> \<longleftrightarrow> (\<nexists>n e. cores w n = Some e \<and> te_level e < 6)" using mask_zero [OF rep] by blast
  also have "\<dots> \<longleftrightarrow> (\<nexists>n e. cores w n = Some e)" using assms by (auto simp: wheel_ok_def placed_def queued_def Let_def)
  also have "\<dots> \<longleftrightarrow> timers w = Map.empty" by (auto simp: timers_cores fun_eq_iff)
  finally show ?thesis .
qed


text \<open>
  C14. The reported expiry can be far too late: with one timer at tick 9095 and the wheel at tick
  4095 the timer is due in 5000 ticks, and the wheel answers 8193, because the offset of the
  current tick inside its slot is not subtracted. A worker that parks for that long fires the
  timer more than 3000 ticks late.
\<close>

theorem next_expiry_late:
  assumes "wheel_ok w" "tw_tick w = 4095" "timers w = [n \<mapsto> (9095, t)]"
  shows "next_expiry w = Some 8193 \<and> tw_tick w + 5000 = 9095"
proof -
  obtain L where rep: "wheel_rep w L {}" and pl: "\<And>m e. cores w m = Some e \<Longrightarrow> placed 4095 e"
    using assms(1,2) by (auto simp: wheel_ok_def)
  have one: "m = n \<and> te_deadline e = 9095" if "cores w m = Some e" for m e
    using fun_cong [OF assms(3), of m] that by (auto simp: timers_cores split: if_splits)
  obtain e0 where e0: "cores w n = Some e0" using fun_cong [OF assms(3), of n] by (auto simp: timers_cores)
  have at: "te_level e = 2 \<and> te_slot e = 2" if "cores w m = Some e" for m e
    using placed_9095 [OF pl [OF that]] one [OF that] by simp
  have z: "wl_mask (tw_levels w ! 0) = 0" "wl_mask (tw_levels w ! 1) = 0" using mask_zero [OF rep] at by fastforce+
  have m2: "wl_mask (tw_levels w ! 2) = 4"
  proof (rule bit_word_eqI)
    fix s assume "s < LENGTH(64)"
    then show "bit (wl_mask (tw_levels w ! 2)) s = bit (4 :: u64) s"
      using rep_mask [OF rep, of 2 s] at e0 bit_exp_iff [of 2 s, where ?'a = u64] by auto
  qed
  have "next_expiry w = next_expiry_from 4095 0 [tw_levels w ! 0, tw_levels w ! 1, tw_levels w ! 2, tw_levels w ! 3, tw_levels w ! 4, tw_levels w ! 5]"
    using list6 [OF wheel_repD(2) [OF rep]] assms(2) by (simp add: next_expiry_def)
  also have "\<dots> = Some 8193" using z m2 digit64 [of 2 4095] by (simp add: Let_def tz_four rotr_zero)
  finally show ?thesis using assms(2) by simp
qed

theorem next_expiry_late_witness:
  "\<exists>w n. wheel_ok w \<and> tw_tick w = 4095 \<and> timers w = [n \<mapsto> (9095, 7)] \<and> next_expiry w = Some 8193"
proof -
  obtain w n where w: "wheel_ok w" "tw_tick w = 4095" "timers w = [n \<mapsto> (9095, 7)]"
    using one_timer [of 4095 9095 7] by auto
  then show ?thesis using next_expiry_late [OF w] by blast
qed

end
