(* ===== verification/Mpsc_Ring.thy ===== *)
theory Mpsc_Ring
  imports Kwokka_Prelude "HOL-Library.Sublist"
begin

text \<open>
  The multi-producer single-consumer ring (\<open>sync/mpsc.rs\<close>): every load, exchange and store of
  \<open>push\<close> and \<open>pop\<close> is one step, and any number of producers interleave with the consumer.
  The model is sequentially consistent: the orderings of the source are not weakened further.
  Moving a value out of a cell empties it, so a second read of it would be visible.
\<close>

section \<open>The ring\<close>

record 'a mpsc_slot =
  sl_sequence :: u64
  sl_cell :: "'a option"

record 'a mpsc_ring =
  mr_enqueue_pos :: u64
  mr_dequeue_pos :: u64
  mr_slots :: "'a mpsc_slot list"

definition mpsc_new :: "nat \<Rightarrow> 'a mpsc_ring" where
  "mpsc_new n = \<lparr>mr_enqueue_pos = 0, mr_dequeue_pos = 0,
     mr_slots = map (\<lambda>i. \<lparr>sl_sequence = of_nat i, sl_cell = None\<rparr>) [0..<n]\<rparr>"

definition mpsc_index :: "'a mpsc_ring \<Rightarrow> u64 \<Rightarrow> nat" where
  "mpsc_index r pos = unat (pos AND (of_nat (length (mr_slots r)) - 1))"

definition set_sequence :: "'a mpsc_ring \<Rightarrow> u64 \<Rightarrow> u64 \<Rightarrow> 'a mpsc_ring" where
  "set_sequence r pos s = (let i = mpsc_index r pos in
     r\<lparr>mr_slots := (mr_slots r)[i := (mr_slots r ! i)\<lparr>sl_sequence := s\<rparr>]\<rparr>)"

definition set_cell :: "'a mpsc_ring \<Rightarrow> u64 \<Rightarrow> 'a option \<Rightarrow> 'a mpsc_ring" where
  "set_cell r pos v = (let i = mpsc_index r pos in
     r\<lparr>mr_slots := (mr_slots r)[i := (mr_slots r ! i)\<lparr>sl_cell := v\<rparr>]\<rparr>)"

text \<open>\<open>push\<close>: where a producer is, and its next atomic action; the weak exchange may fail spuriously.\<close>

datatype 'a push_pc =
    PushIdle
  | PushLoad 'a
  | PushSeq 'a u64
  | PushCas 'a u64
  | PushWrite 'a u64
  | PushPublish 'a u64
  | PushRet "'a + unit"

definition push_step :: "bool \<Rightarrow> 'a mpsc_ring \<Rightarrow> 'a push_pc \<Rightarrow> 'a mpsc_ring \<times> 'a push_pc" where
  "push_step spurious r pc = (case pc of
     PushIdle \<Rightarrow> (r, PushIdle)
   | PushLoad v \<Rightarrow> (r, PushSeq v (mr_enqueue_pos r))
   | PushSeq v pos \<Rightarrow>
       (let gap = sl_sequence (mr_slots r ! mpsc_index r pos) - pos in
        if gap = 0 then (r, PushCas v pos)
        else if 0x7FFFFFFFFFFFFFFF < gap then (r, PushRet (Inl v))
        else (r, PushLoad v))
   | PushCas v pos \<Rightarrow>
       if mr_enqueue_pos r = pos \<and> \<not> spurious then (r\<lparr>mr_enqueue_pos := pos + 1\<rparr>, PushWrite v pos)
       else (r, PushSeq v (mr_enqueue_pos r))
   | PushWrite v pos \<Rightarrow> (set_cell r pos (Some v), PushPublish v pos)
   | PushPublish v pos \<Rightarrow> (set_sequence r pos (pos + 1), PushRet (Inr ()))
   | PushRet x \<Rightarrow> (r, PushRet x))"

text \<open>\<open>pop\<close>, run by the one consumer. Reading an empty cell is \<open>Undefined\<close>.\<close>

datatype 'a pop_pc =
    PopIdle
  | PopLoad
  | PopSeq u64
  | PopRead u64
  | PopRelease u64 'a
  | PopAdvance u64 'a
  | PopRet "'a option"

definition pop_step :: "'a mpsc_ring \<Rightarrow> 'a pop_pc \<Rightarrow> ('a mpsc_ring \<times> 'a pop_pc) exec" where
  "pop_step r pc = (case pc of
     PopIdle \<Rightarrow> Ret (r, PopIdle)
   | PopLoad \<Rightarrow> Ret (r, PopSeq (mr_dequeue_pos r))
   | PopSeq pos \<Rightarrow>
       if 0x7FFFFFFFFFFFFFFF < sl_sequence (mr_slots r ! mpsc_index r pos) - (pos + 1) then Ret (r, PopRet None)
       else Ret (r, PopRead pos)
   | PopRead pos \<Rightarrow> (case sl_cell (mr_slots r ! mpsc_index r pos) of
         None \<Rightarrow> Undefined
       | Some v \<Rightarrow> Ret (set_cell r pos None, PopRelease pos v))
   | PopRelease pos v \<Rightarrow> Ret (set_sequence r pos (pos + of_nat (length (mr_slots r))), PopAdvance pos v)
   | PopAdvance pos v \<Rightarrow> Ret (r\<lparr>mr_dequeue_pos := pos + 1\<rparr>, PopRet (Some v))
   | PopRet x \<Rightarrow> Ret (r, PopRet x))"

definition mpsc_len :: "'a mpsc_ring \<Rightarrow> u64" where
  "mpsc_len r = mr_enqueue_pos r - mr_dequeue_pos r"

definition mpsc_is_empty :: "'a mpsc_ring \<Rightarrow> bool" where
  "mpsc_is_empty r \<longleftrightarrow> mpsc_len r = 0"

text \<open>\<open>drop\<close>: the loop that drops what was published and not popped; it returns the dropped values.\<close>

partial_function (option) mpsc_drop_loop :: "'a mpsc_ring \<Rightarrow> 'a list \<Rightarrow> u64 \<Rightarrow> 'a list exec option" where
  "mpsc_drop_loop r acc pos = (if pos = mr_enqueue_pos r then Some (Ret (rev acc))
     else case sl_cell (mr_slots r ! mpsc_index r pos) of
       None \<Rightarrow> Some Undefined
     | Some v \<Rightarrow> mpsc_drop_loop r (v # acc) (pos + 1))"

definition mpsc_drop :: "'a mpsc_ring \<Rightarrow> 'a list exec option" where
  "mpsc_drop r = mpsc_drop_loop r [] (mr_dequeue_pos r)"

section \<open>Interleavings\<close>

text \<open>
  A configuration: the ring, the producers, the consumer, and what happened so far: the values
  in the order their positions were claimed, the values popped, and for every refused push the
  number of positions claimed and released at that moment.
\<close>

record ('t, 'a) mpsc_conf =
  mc_ring :: "'a mpsc_ring"
  mc_prod :: "'t \<Rightarrow> 'a push_pc"
  mc_cons :: "'a pop_pc"
  mc_claimed :: "'a list"
  mc_popped :: "'a list"
  mc_refused :: "(nat \<times> nat) list"
  mc_fault :: bool

definition mpsc_init :: "nat \<Rightarrow> ('t, 'a) mpsc_conf" where
  "mpsc_init n = \<lparr>mc_ring = mpsc_new n, mc_prod = (\<lambda>_. PushIdle), mc_cons = PopIdle, mc_claimed = [],
     mc_popped = [], mc_refused = [], mc_fault = False\<rparr>"

definition released :: "('t, 'a) mpsc_conf \<Rightarrow> nat" where
  "released c = length (mc_popped c) + (case mc_cons c of PopAdvance _ _ \<Rightarrow> 1 | _ \<Rightarrow> 0)"

definition push_act :: "'t \<Rightarrow> bool \<Rightarrow> ('t, 'a) mpsc_conf \<Rightarrow> ('t, 'a) mpsc_conf" where
  "push_act t spurious c = (case push_step spurious (mc_ring c) (mc_prod c t) of (r, pc) \<Rightarrow>
     c\<lparr>mc_ring := r, mc_prod := (mc_prod c)(t := pc),
       mc_claimed := (case (mc_prod c t, pc) of (PushCas _ _, PushWrite v _) \<Rightarrow> mc_claimed c @ [v] | _ \<Rightarrow> mc_claimed c),
       mc_refused := (case (mc_prod c t, pc) of
           (PushSeq _ _, PushRet _) \<Rightarrow> mc_refused c @ [(length (mc_claimed c), released c)] | _ \<Rightarrow> mc_refused c)\<rparr>)"

definition pop_act :: "('t, 'a) mpsc_conf \<Rightarrow> ('t, 'a) mpsc_conf" where
  "pop_act c = (case pop_step (mc_ring c) (mc_cons c) of
     Ret (r, pc) \<Rightarrow> c\<lparr>mc_ring := r, mc_cons := pc,
       mc_popped := (case mc_cons c of PopAdvance _ v \<Rightarrow> mc_popped c @ [v] | _ \<Rightarrow> mc_popped c)\<rparr>
   | _ \<Rightarrow> c\<lparr>mc_fault := True\<rparr>)"

inductive mpsc_step :: "('t, 'a) mpsc_conf \<Rightarrow> ('t, 'a) mpsc_conf \<Rightarrow> bool" where
  call_push: "mc_prod c t = PushIdle \<or> mc_prod c t = PushRet x \<Longrightarrow>
     mpsc_step c (c\<lparr>mc_prod := (mc_prod c)(t := PushLoad v)\<rparr>)"
| in_push: "mpsc_step c (push_act t spurious c)"
| call_pop: "mc_cons c = PopIdle \<or> mc_cons c = PopRet y \<Longrightarrow> mpsc_step c (c\<lparr>mc_cons := PopLoad\<rparr>)"
| in_pop: "mpsc_step c (pop_act c)"

section \<open>The invariant\<close>

text \<open>
  Positions are unbounded here: position \<open>p\<close> lives in slot \<open>p mod n\<close>. The window of positions
  the slots currently stand for starts at the number of released positions.
\<close>

definition posw :: "nat \<Rightarrow> u64" where
  "posw p = of_nat p"

lemma posw_Suc: "posw p + 1 = posw (Suc p)"
  by (simp add: posw_def)

lemma posw_add: "posw p + of_nat n = posw (p + n)"
  by (simp add: posw_def)

definition rseq :: "'a mpsc_ring \<Rightarrow> nat \<Rightarrow> u64" where
  "rseq r p = sl_sequence (mr_slots r ! (p mod length (mr_slots r)))"

definition rcell :: "'a mpsc_ring \<Rightarrow> nat \<Rightarrow> 'a option" where
  "rcell r p = sl_cell (mr_slots r ! (p mod length (mr_slots r)))"

lemma ring_pos_simps [simp]:
  "rseq (r\<lparr>mr_enqueue_pos := x\<rparr>) = rseq r" "rcell (r\<lparr>mr_enqueue_pos := x\<rparr>) = rcell r"
  "rseq (r\<lparr>mr_dequeue_pos := x\<rparr>) = rseq r" "rcell (r\<lparr>mr_dequeue_pos := x\<rparr>) = rcell r"
  by (auto simp: rseq_def rcell_def)

abbreviation seq_at :: "('t, 'a) mpsc_conf \<Rightarrow> nat \<Rightarrow> u64" where
  "seq_at c \<equiv> rseq (mc_ring c)"

abbreviation cell_at :: "('t, 'a) mpsc_conf \<Rightarrow> nat \<Rightarrow> 'a option" where
  "cell_at c \<equiv> rcell (mc_ring c)"

definition writes :: "('t \<Rightarrow> 'a push_pc) \<Rightarrow> 't \<Rightarrow> nat \<Rightarrow> bool" where
  "writes f t p \<longleftrightarrow> (\<exists>v. f t = PushWrite v (posw p) \<or> f t = PushPublish v (posw p))"

definition taken :: "'a pop_pc \<Rightarrow> nat \<Rightarrow> bool" where
  "taken pc p \<longleftrightarrow> (\<exists>v. pc = PopRelease (posw p) v)"

lemma released_simps [simp]:
  "released (c\<lparr>mc_ring := a\<rparr>) = released c" "released (c\<lparr>mc_prod := b\<rparr>) = released c"
  "released (c\<lparr>mc_claimed := d\<rparr>) = released c" "released (c\<lparr>mc_refused := e\<rparr>) = released c"
  by (auto simp: released_def)

definition slot_inv :: "('t, 'a) mpsc_conf \<Rightarrow> nat \<Rightarrow> bool" where
  "slot_inv c p \<longleftrightarrow>
     (if length (mc_claimed c) \<le> p \<or> (\<exists>t. writes (mc_prod c) t p) then seq_at c p = posw p
      else seq_at c p = posw (Suc p) \<and> (\<not> taken (mc_cons c) p \<longrightarrow> cell_at c p = Some (mc_claimed c ! p)))"

definition prod_inv :: "('t, 'a) mpsc_conf \<Rightarrow> 't \<Rightarrow> bool" where
  "prod_inv c t \<longleftrightarrow> (let e = length (mc_claimed c) in case mc_prod c t of
     PushSeq v pos \<Rightarrow> (\<exists>p\<le>e. pos = posw p)
   | PushCas v pos \<Rightarrow> (\<exists>p\<le>e. pos = posw p \<and> (p = e \<longrightarrow> e < released c + length (mr_slots (mc_ring c))))
   | PushWrite v pos \<Rightarrow> (\<exists>p. pos = posw p \<and> released c \<le> p \<and> p < e \<and> mc_claimed c ! p = v)
   | PushPublish v pos \<Rightarrow> (\<exists>p. pos = posw p \<and> released c \<le> p \<and> p < e \<and> mc_claimed c ! p = v \<and> cell_at c p = Some v)
   | _ \<Rightarrow> True)"

definition cons_inv :: "('t, 'a) mpsc_conf \<Rightarrow> bool" where
  "cons_inv c \<longleftrightarrow> (let d = length (mc_popped c); e = length (mc_claimed c) in case mc_cons c of
     PopSeq pos \<Rightarrow> pos = posw d
   | PopRead pos \<Rightarrow> pos = posw d \<and> d < e \<and> (\<forall>t. \<not> writes (mc_prod c) t d)
   | PopRelease pos v \<Rightarrow> pos = posw d \<and> d < e \<and> (\<forall>t. \<not> writes (mc_prod c) t d) \<and> v = mc_claimed c ! d
   | PopAdvance pos v \<Rightarrow> pos = posw d \<and> d < e \<and> v = mc_claimed c ! d
   | _ \<Rightarrow> True)"

definition mpsc_inv :: "nat \<Rightarrow> ('t, 'a) mpsc_conf \<Rightarrow> bool" where
  "mpsc_inv k c \<longleftrightarrow> \<not> mc_fault c \<and> length (mr_slots (mc_ring c)) = 2 ^ k \<and>
     mr_enqueue_pos (mc_ring c) = posw (length (mc_claimed c)) \<and> mr_dequeue_pos (mc_ring c) = posw (length (mc_popped c)) \<and>
     released c \<le> length (mc_claimed c) \<and> length (mc_claimed c) \<le> released c + 2 ^ k \<and>
     prefix (mc_popped c) (mc_claimed c) \<and>
     (\<forall>p. released c \<le> p \<longrightarrow> p < released c + 2 ^ k \<longrightarrow> slot_inv c p) \<and>
     (\<forall>t. prod_inv c t) \<and> cons_inv c \<and>
     (\<forall>t t' p. p < length (mc_claimed c) \<longrightarrow> writes (mc_prod c) t p \<longrightarrow> writes (mc_prod c) t' p \<longrightarrow> t = t') \<and>
     (\<forall>(a, b) \<in> set (mc_refused c). a = b + 2 ^ k)"

text \<open>Positions small enough for the 64-bit counters to be compared without wrapping.\<close>

definition small :: "nat \<Rightarrow> bool" where
  "small p \<longleftrightarrow> p < 2 ^ 63"

lemma small_le: "small q \<Longrightarrow> p \<le> q \<Longrightarrow> small p"
  by (simp add: small_def)

lemma unat_small: "small p \<Longrightarrow> unat (posw p) = p"
  by (simp add: small_def posw_def)

lemma small_eq: "small p \<Longrightarrow> small q \<Longrightarrow> (posw p) = posw q \<longleftrightarrow> p = q"
  using unat_small by metis

definition mpsc_room :: "nat \<Rightarrow> ('t, 'a) mpsc_conf \<Rightarrow> bool" where
  "mpsc_room k c \<longleftrightarrow> 1 \<le> k \<and> small (length (mc_claimed c) + 2 ^ k + 1)"

lemma mpsc_invD:
  assumes "mpsc_inv k c"
  shows "\<not> mc_fault c" "length (mr_slots (mc_ring c)) = 2 ^ k"
    "mr_enqueue_pos (mc_ring c) = posw (length (mc_claimed c))" "mr_dequeue_pos (mc_ring c) = posw (length (mc_popped c))"
    "released c \<le> length (mc_claimed c)" "length (mc_claimed c) \<le> released c + 2 ^ k"
    "prefix (mc_popped c) (mc_claimed c)"
    "released c \<le> p \<Longrightarrow> p < released c + 2 ^ k \<Longrightarrow> slot_inv c p" "prod_inv c t" "cons_inv c"
    "p < length (mc_claimed c) \<Longrightarrow> writes (mc_prod c) t p \<Longrightarrow> writes (mc_prod c) t' p \<Longrightarrow> t = t'" "(a, b) \<in> set (mc_refused c) \<Longrightarrow> a = b + 2 ^ k"
  using assms unfolding mpsc_inv_def by blast+

lemma mpsc_index_mod:
  assumes "length (mr_slots r) = 2 ^ k" "k < 63" "small p"
  shows "mpsc_index r (posw p) = p mod 2 ^ k"
proof -
  have "(of_nat (2 ^ k) - 1 :: u64) = mask k" by (simp add: mask_eq_exp_minus_1)
  then show ?thesis using assms unfolding mpsc_index_def by (simp add: unat_and_mask_eq unat_small)
qed

lemma mod_window:
  assumes "(r::nat) \<le> p" "p < r + n" "r \<le> q" "q < r + n" "p mod n = q mod n"
  shows "p = q"
proof -
  have *: "\<not> i < j" if "r \<le> i" "j < r + n" "i mod n = j mod n" for i j :: nat
  proof
    assume "i < j"
    then have "n dvd j - i" using that(3) mod_eq_dvd_iff_nat [of i j n] by (metis less_imp_le)
    then show False using \<open>i < j\<close> that by (auto dest: dvd_imp_le)
  qed
  show ?thesis using *[of p q] *[of q p] assms by linarith
qed

lemma gap_negative:
  assumes "small s" "small p"
  shows "0x7FFFFFFFFFFFFFFF < posw s - posw p \<longleftrightarrow> s < p"
proof (cases "p \<le> s")
  case True
  then have "unat (posw s - posw p) = s - p"
    using unat_small [OF assms(1)] unat_small [OF assms(2)] by (simp add: unat_sub word_le_nat_alt)
  then show ?thesis using True assms by (simp add: word_less_nat_alt small_def)
next
  case False
  then have "unat (posw s - posw p) = 2 ^ 64 + s - p"
    using assms unat_small [OF assms(1)] unat_small [OF assms(2)] by (simp add: unat_sub_if_size word_size word_le_nat_alt)
  then show ?thesis using False assms by (simp add: word_less_nat_alt small_def)
qed

lemma gap_zero: "small s \<Longrightarrow> small p \<Longrightarrow> posw s - posw p = 0 \<longleftrightarrow> s = p"
  using small_eq by simp

text \<open>Steps that move one producer or the consumer and change nothing else.\<close>

definition quiet_push :: "'a push_pc \<Rightarrow> bool" where
  "quiet_push pc \<longleftrightarrow> (\<forall>v p. pc \<noteq> PushWrite v p \<and> pc \<noteq> PushPublish v p)"

definition quiet_pop :: "'a pop_pc \<Rightarrow> bool" where
  "quiet_pop pc \<longleftrightarrow> (\<forall>v p. pc \<noteq> PopRelease p v \<and> pc \<noteq> PopAdvance p v)"

lemma push_local:
  assumes inv: "mpsc_inv k c" and q: "quiet_push (mc_prod c t)" "quiet_push pc"
    and pc: "prod_inv (c\<lparr>mc_prod := (mc_prod c)(t := pc)\<rparr>) t" and rf: "\<forall>(a, b)\<in>set rf. a = b + 2 ^ k"
  shows "mpsc_inv k (c\<lparr>mc_prod := (mc_prod c)(t := pc), mc_refused := rf\<rparr>)"
proof -
  let ?c = "c\<lparr>mc_prod := (mc_prod c)(t := pc), mc_refused := rf\<rparr>"
  have w: "writes ((mc_prod c)(t := pc)) u p = writes (mc_prod c) u p" for u p using q by (auto simp: writes_def quiet_push_def)
  have "slot_inv ?c p = slot_inv c p" for p by (simp add: slot_inv_def w)
  moreover have "cons_inv ?c = cons_inv c" by (simp add: cons_inv_def w cong: pop_pc.case_cong)
  moreover have "\<forall>u. prod_inv ?c u"
  proof (rule allI)
    fix u show "prod_inv ?c u"
  proof (cases "u = t")
    case True
    then show ?thesis using pc by (simp add: prod_inv_def released_def cong: push_pc.case_cong)
  next
    case False
    then show ?thesis using mpsc_invD(9) [OF inv, of u] by (simp add: prod_inv_def cong: push_pc.case_cong)
  qed
  qed
  ultimately show ?thesis using inv rf unfolding mpsc_inv_def by (simp add: w)
qed

lemma pop_local:
  assumes inv: "mpsc_inv k c" and q: "quiet_pop (mc_cons c)" "quiet_pop pc" and pc: "cons_inv (c\<lparr>mc_cons := pc\<rparr>)"
  shows "mpsc_inv k (c\<lparr>mc_cons := pc\<rparr>)"
proof -
  let ?c = "c\<lparr>mc_cons := pc\<rparr>"
  have r: "released ?c = released c" "taken pc = taken (mc_cons c)"
    using q by (auto simp: released_def taken_def quiet_pop_def fun_eq_iff split: pop_pc.splits)
  have "slot_inv ?c p = slot_inv c p" for p by (simp add: slot_inv_def r)
  moreover have "\<forall>t. prod_inv ?c t" using mpsc_invD(9) [OF inv] by (simp add: prod_inv_def r cong: push_pc.case_cong)
  ultimately show ?thesis using inv pc unfolding mpsc_inv_def by (simp add: r)
qed

text \<open>What the sequence number of a slot says about a position that is not ahead of the queue.\<close>

lemma window_pos:
  assumes "p \<le> r + n" "(0::nat) < n"
  obtains q where "r \<le> q" "q < r + n" "q mod n = p mod n" "p \<le> q \<or> p = r + n \<and> q = r"
proof (cases "p = r + n")
  case True
  then show ?thesis using that [of r] assms by simp
next
  case False
  show ?thesis
  proof (cases "r \<le> p")
    case True
    then show ?thesis using that [of p] False assms by simp
  next
    case f: False
    let ?j = "(r + n - 1 - p) div n" and ?q = "p + (r + n - 1 - p) div n * n"
    have "?j * n \<le> r + n - 1 - p" by (rule div_times_less_eq_dividend)
    moreover have "r + n - 1 - p < ?j * n + n" using assms(2) dividend_less_div_times [of n "r + n - 1 - p"] by simp
    ultimately have "r \<le> ?q" "?q < r + n" using f assms(2) by linarith+
    moreover have "?q mod n = p mod n" by simp
    ultimately show ?thesis using that [of ?q] by simp
  qed
qed

lemma seq_of_pos:
  assumes inv: "mpsc_inv k c" and p: "p \<le> length (mc_claimed c)"
  obtains s q where "seq_at c p = posw s" "s = q \<or> s = Suc q" "q < released c + 2 ^ k"
    "p \<le> q \<or> p = length (mc_claimed c) \<and> p = released c + 2 ^ k \<and> q = released c"
proof -
  note D = mpsc_invD [OF inv]
  obtain q where q: "released c \<le> q" "q < released c + 2 ^ k" "q mod 2 ^ k = p mod 2 ^ k" "p \<le> q \<or> p = released c + 2 ^ k \<and> q = released c"
    using window_pos [of p "released c" "2 ^ k"] D(6) p by auto
  have "seq_at c p = seq_at c q" using q(3) D(2) by (simp add: rseq_def)
  moreover have "seq_at c q = posw q \<or> seq_at c q = posw (Suc q)" using D(8) [OF q(1,2)] by (auto simp: slot_inv_def split: if_splits)
  moreover have "p = released c + 2 ^ k \<Longrightarrow> p = length (mc_claimed c)" using D(6) p by simp
  ultimately show ?thesis using that q by metis
qed

section \<open>Steps that change the ring\<close>

lemma set_sequence_simps:
  assumes "length (mr_slots r) = 2 ^ k" "k < 63" "small p"
  shows "length (mr_slots (set_sequence r (posw p) s)) = 2 ^ k"
    "mr_enqueue_pos (set_sequence r (posw p) s) = mr_enqueue_pos r" "mr_dequeue_pos (set_sequence r (posw p) s) = mr_dequeue_pos r"
    "rseq (set_sequence r (posw p) s) q = (if q mod 2 ^ k = p mod 2 ^ k then s else rseq r q)"
    "rcell (set_sequence r (posw p) s) q = rcell r q"
  using assms mpsc_index_mod [OF assms] by (auto simp: set_sequence_def Let_def rseq_def rcell_def nth_list_update)

lemma set_cell_simps:
  assumes "length (mr_slots r) = 2 ^ k" "k < 63" "small p"
  shows "length (mr_slots (set_cell r (posw p) x)) = 2 ^ k"
    "mr_enqueue_pos (set_cell r (posw p) x) = mr_enqueue_pos r" "mr_dequeue_pos (set_cell r (posw p) x) = mr_dequeue_pos r"
    "rseq (set_cell r (posw p) x) q = rseq r q"
    "rcell (set_cell r (posw p) x) q = (if q mod 2 ^ k = p mod 2 ^ k then x else rcell r q)"
  using assms mpsc_index_mod [OF assms] by (auto simp: set_cell_def Let_def rseq_def rcell_def nth_list_update)

lemma mpsc_room_bounds:
  assumes "mpsc_inv k c" "mpsc_room k c"
  shows "k < 63" "small (length (mc_claimed c))" "small (released c + 2 ^ k)" "length (mc_popped c) \<le> released c"
proof -
  have "(2::nat) ^ k < 2 ^ 63" using assms(2) by (simp add: mpsc_room_def small_def)
  then show "k < 63" by (rule power_less_imp_less_exp [rotated]) simp
  show "small (length (mc_claimed c))" "small (released c + 2 ^ k)" "length (mc_popped c) \<le> released c"
    using assms mpsc_invD(5) [OF assms(1)] by (auto simp: mpsc_room_def released_def small_def)
qed

lemma writes_bound:
  assumes "mpsc_inv k c" "mpsc_room k c" "writes (mc_prod c) t p" "small p"
  shows "released c \<le> p" "p < length (mc_claimed c)"
proof -
  note B = mpsc_room_bounds [OF assms(1,2)]
  obtain q where q: "(posw p) = posw q" "released c \<le> q" "q < length (mc_claimed c)"
    using assms(3) mpsc_invD(9) [OF assms(1), of t] unfolding writes_def prod_inv_def Let_def by fastforce
  have "p = q" using small_eq [OF assms(4), of q] small_le [OF B(2), of q] q by simp
  then show "released c \<le> p" "p < length (mc_claimed c)" using q by simp_all
qed

lemma cas_inv:
  assumes inv: "mpsc_inv k c" and pc: "mc_prod c t = PushCas v pos" "pos = mr_enqueue_pos (mc_ring c)"
    and rm: "mpsc_room k c"
  shows "mpsc_inv k (c\<lparr>mc_ring := (mc_ring c)\<lparr>mr_enqueue_pos := pos + 1\<rparr>,
    mc_prod := (mc_prod c)(t := PushWrite v pos), mc_claimed := mc_claimed c @ [v]\<rparr>)" (is "mpsc_inv k ?c")
proof -
  note D = mpsc_invD [OF inv]
  note B = mpsc_room_bounds [OF inv rm]
  let ?e = "length (mc_claimed c)" and ?r = "released c"
  have pos: "pos = posw ?e" using pc(2) D(3) by simp
  obtain p where p: "p \<le> ?e" "pos = posw p" "p = ?e \<longrightarrow> ?e < ?r + 2 ^ k"
    using D(9) [of t] pc(1) D(2) by (auto simp: prod_inv_def Let_def)
  have "p = ?e" using small_eq [OF small_le [OF B(2) p(1)] B(2)] p(2) pos by blast
  then have lt: "?e < ?r + 2 ^ k" using p(3) by blast
  have w: "writes ((mc_prod c)(t := PushWrite v pos)) u p \<longleftrightarrow> (if u = t then p = ?e else writes (mc_prod c) u p)" if "small p" for u p
    using small_eq [OF that B(2)] pos by (auto simp: writes_def)
  have wt: "\<not> writes (mc_prod c) t p" for p using pc(1) by (simp add: writes_def)
  have ne: "\<not> writes (mc_prod c) u ?e" for u using writes_bound [OF inv rm _ B(2), of u] by blast
  have old: "writes ((mc_prod c)(t := PushWrite v pos)) u p \<longleftrightarrow> writes (mc_prod c) u p" if "p < ?e" for u p
    using that w [of p u] wt [of p] small_le [OF B(2), of p] by auto
  have slots: "slot_inv ?c p" if p: "?r \<le> p" "p < ?r + 2 ^ k" for p
  proof (cases p ?e rule: linorder_cases)
    case less
    then show ?thesis using D(8) [OF p] by (simp add: slot_inv_def nth_append old)
  next
    case equal
    then show ?thesis using D(8) [OF p] w [of p t] B(2) by (auto simp: slot_inv_def)
  next
    case greater
    then show ?thesis using D(8) [OF p] by (simp add: slot_inv_def)
  qed
  have prods: "prod_inv ?c u" for u
  proof (cases "u = t")
    case True
    then show ?thesis using pos D(5) by (auto simp: prod_inv_def Let_def)
  next
    case False
    then show ?thesis using D(9) [of u] D(2)
      by (cases "mc_prod c u") (auto simp: prod_inv_def nth_append Let_def intro: le_SucI)
  qed
  have cons: "cons_inv ?c"
    using D(10) old [of "length (mc_popped c)"] by (cases "mc_cons c") (auto simp: cons_inv_def Let_def nth_append)
  have uniq: "u = u'" if "p < Suc ?e" "writes ((mc_prod c)(t := PushWrite v pos)) u p" "writes ((mc_prod c)(t := PushWrite v pos)) u' p" for u u' p
  proof (cases "p = ?e")
    case True
    then show ?thesis using that(2,3) w [of p] B(2) ne by (metis (full_types))
  next
    case False
    then show ?thesis using that old [of p] D(11) [of p u u'] by simp
  qed
  show ?thesis
    unfolding mpsc_inv_def using D(1,2,4,5,7,12) lt pos slots prods cons uniq by (auto simp: posw_Suc)
qed

lemma write_inv:
  assumes inv: "mpsc_inv k c" and pc: "mc_prod c t = PushWrite v (posw p)" and rm: "mpsc_room k c"
    and p: "released c \<le> p" "p < length (mc_claimed c)" "mc_claimed c ! p = v"
  shows "mpsc_inv k (c\<lparr>mc_ring := set_cell (mc_ring c) (posw p) (Some v), mc_prod := (mc_prod c)(t := PushPublish v (posw p))\<rparr>)" (is "mpsc_inv k ?c")
proof -
  note D = mpsc_invD [OF inv] and B = mpsc_room_bounds [OF inv rm]
  have sp: "small p" using small_le [OF B(2)] p(2) by simp
  note S = set_cell_simps [OF D(2) B(1) sp, of "Some v"]
  have w: "writes ((mc_prod c)(t := PushPublish v (posw p))) = writes (mc_prod c)" using pc by (auto simp: writes_def fun_eq_iff)
  have wt: "writes (mc_prod c) t p" using pc by (simp add: writes_def)
  have other: "q mod 2 ^ k \<noteq> p mod 2 ^ k" if "released c \<le> q" "q < released c + 2 ^ k" "q \<noteq> p" for q
    using mod_window [of "released c" q "2 ^ k" p] that p(1,2) D(6) by auto
  have slots: "slot_inv ?c q" if q: "released c \<le> q" "q < released c + 2 ^ k" for q
    using D(8) [OF q] other [OF q] wt by (cases "q = p") (auto simp: slot_inv_def w S)
  have prods: "prod_inv ?c u" for u
  proof (cases "u = t")
    case True
    then show ?thesis using p by (auto simp: prod_inv_def Let_def S)
  next
    case False
    have "q \<noteq> p" if "mc_prod c u = PushPublish x (posw q)" for x q
      using False D(11) [OF p(2) wt, of u] that by (auto simp: writes_def)
    then show ?thesis using D(9) [of u] False other D(6)
      by (cases "mc_prod c u") (fastforce simp: prod_inv_def Let_def S D(2))+
  qed
  have cons: "cons_inv ?c" using D(10) by (cases "mc_cons c") (auto simp: cons_inv_def Let_def w)
  show ?thesis unfolding mpsc_inv_def using D(1,3-7,11,12) slots prods cons by (auto simp: S w)
qed

lemma publish_inv:
  assumes inv: "mpsc_inv k c" and pc: "mc_prod c t = PushPublish v (posw p)" and rm: "mpsc_room k c"
    and p: "released c \<le> p" "p < length (mc_claimed c)" "mc_claimed c ! p = v" "cell_at c p = Some v"
  shows "mpsc_inv k (c\<lparr>mc_ring := set_sequence (mc_ring c) (posw p) (posw (Suc p)), mc_prod := (mc_prod c)(t := PushRet (Inr ()))\<rparr>)" (is "mpsc_inv k ?c")
proof -
  note D = mpsc_invD [OF inv] and B = mpsc_room_bounds [OF inv rm]
  have sp: "small p" using small_le [OF B(2)] p(2) by simp
  note S = set_sequence_simps [OF D(2) B(1) sp, of "posw (Suc p)"]
  have wt: "writes (mc_prod c) t p" using pc by (simp add: writes_def)
  have w: "writes ((mc_prod c)(t := PushRet (Inr ()))) u q \<longleftrightarrow> u \<noteq> t \<and> writes (mc_prod c) u q" for u q by (auto simp: writes_def)
  have wq: "\<not> writes (mc_prod c) t q" if "small q" "q \<noteq> p" for q
    using pc small_eq [OF that(1) sp] that(2) by (auto simp: writes_def)
  have other: "q mod 2 ^ k \<noteq> p mod 2 ^ k" if "released c \<le> q" "q < released c + 2 ^ k" "q \<noteq> p" for q
    using mod_window [of "released c" q "2 ^ k" p] that p(1,2) D(6) by auto
  have slots: "slot_inv ?c q" if q: "released c \<le> q" "q < released c + 2 ^ k" for q
  proof (cases "q = p")
    case True
    then have "\<not> (\<exists>u. u \<noteq> t \<and> writes (mc_prod c) u q)" using D(11) [OF p(2) _ wt] by blast
    then show ?thesis using True p by (auto simp: slot_inv_def S w)
  next
    case False
    have "small q" using small_le [OF B(3)] q by simp
    then have "(\<exists>u. u \<noteq> t \<and> writes (mc_prod c) u q) \<longleftrightarrow> (\<exists>u. writes (mc_prod c) u q)" using wq [OF _ False] by metis
    then show ?thesis using D(8) [OF q] other [OF q False] by (simp add: slot_inv_def S w)
  qed
  have prods: "prod_inv ?c u" for u
    using D(9) [of u] by (cases "u = t"; cases "mc_prod c u") (auto simp: prod_inv_def Let_def S D(2))
  have cons: "cons_inv ?c" using D(10) by (cases "mc_cons c") (auto simp: cons_inv_def Let_def w)
  have uniq: "u = u'" if "q < length (mc_claimed c)" "u \<noteq> t \<and> writes (mc_prod c) u q" "u' \<noteq> t \<and> writes (mc_prod c) u' q" for u u' q
    using D(11) that by blast
  show ?thesis unfolding mpsc_inv_def using D(1,3-7,12) slots prods cons uniq by (auto simp: S w)
qed

lemma read_inv:
  assumes inv: "mpsc_inv k c" and pc: "mc_cons c = PopRead pos" and rm: "mpsc_room k c"
  defines "d \<equiv> length (mc_popped c)"
  shows "pos = posw d" "cell_at c d = Some (mc_claimed c ! d)"
    "mpsc_inv k (c\<lparr>mc_ring := set_cell (mc_ring c) (posw d) None, mc_cons := PopRelease (posw d) (mc_claimed c ! d)\<rparr>)" (is "mpsc_inv k ?c")
proof -
  note D = mpsc_invD [OF inv] and B = mpsc_room_bounds [OF inv rm]
  have r: "released c = d" "released ?c = d" using pc by (simp_all add: released_def d_def)
  have d: "pos = posw d" "d < length (mc_claimed c)" "\<forall>t. \<not> writes (mc_prod c) t d"
    using D(10) pc by (simp_all add: cons_inv_def d_def Let_def)
  show "pos = posw d" by (rule d(1))
  have sd: "small d" using small_le [OF B(2)] d(2) by simp
  note S = set_cell_simps [OF D(2) B(1) sd, of None]
  have dw: "d < released c + 2 ^ k" "released c \<le> d" using r by simp_all
  show "cell_at c d = Some (mc_claimed c ! d)"
    using D(8) [OF dw(2,1)] d pc by (auto simp: slot_inv_def taken_def)
  have other: "q mod 2 ^ k \<noteq> d mod 2 ^ k" if "released c \<le> q" "q < released c + 2 ^ k" "q \<noteq> d" for q
    using mod_window [of "released c" q "2 ^ k" d] that dw by auto
  have tk: "taken (PopRelease (posw d) x) d" "\<not> taken (mc_cons c) q" for x :: 'b and q using pc by (simp_all add: taken_def)
  have slots: "slot_inv ?c q" if q: "released c \<le> q" "q < released c + 2 ^ k" for q
    using D(8) [OF q] other [OF q] tk by (cases "q = d") (auto simp: slot_inv_def S)
  have prods: "prod_inv ?c u" for u
  proof -
    have "q mod 2 ^ k \<noteq> d mod 2 ^ k" if "mc_prod c u = PushPublish x (posw q)" "released c \<le> q" "q < length (mc_claimed c)" for x q
    proof -
      have "q \<noteq> d" using that(1) d(3) by (auto simp: writes_def)
      then show ?thesis using other [OF that(2)] that(3) D(6) by simp
    qed
    then show ?thesis using D(9) [of u] r
      by (cases "mc_prod c u") (auto simp: prod_inv_def Let_def S D(2))
  qed
  have cons: "cons_inv ?c" using d by (simp add: cons_inv_def d_def Let_def)
  show "mpsc_inv k ?c" unfolding mpsc_inv_def using D(1,3-7,11,12) slots prods cons r by (auto simp: S)
qed

lemma release_inv:
  assumes inv: "mpsc_inv k c" and pc: "mc_cons c = PopRelease pos v" and rm: "mpsc_room k c"
  defines "d \<equiv> length (mc_popped c)"
  shows "pos = posw d"
    "mpsc_inv k (c\<lparr>mc_ring := set_sequence (mc_ring c) (posw d) (posw (d + 2 ^ k)), mc_cons := PopAdvance (posw d) v\<rparr>)" (is "mpsc_inv k ?c")
proof -
  note D = mpsc_invD [OF inv] and B = mpsc_room_bounds [OF inv rm]
  have r: "released c = d" "released ?c = Suc d" using pc by (simp_all add: released_def d_def)
  have d: "pos = posw d" "d < length (mc_claimed c)" "\<forall>t. \<not> writes (mc_prod c) t d" "v = mc_claimed c ! d"
    using D(10) pc by (simp_all add: cons_inv_def d_def Let_def)
  show "pos = posw d" by (rule d(1))
  have sd: "small d" using small_le [OF B(2)] d(2) by simp
  note S = set_sequence_simps [OF D(2) B(1) sd, of "posw (d + 2 ^ k)"]
  have dw: "d < released c + 2 ^ k" "released c \<le> d" using r by simp_all
  have other: "q mod 2 ^ k \<noteq> d mod 2 ^ k" if "Suc d \<le> q" "q < d + 2 ^ k" for q
    using mod_window [of "released c" q "2 ^ k" d] that dw r by auto
  have slots: "slot_inv ?c q" if q: "Suc d \<le> q" "q < Suc d + 2 ^ k" for q
  proof (cases "q = d + 2 ^ k")
    case True
    then show ?thesis using D(6) r by (simp add: slot_inv_def S)
  next
    case False
    have "small q" using small_le [OF B(3)] q r by simp
    then have "\<not> taken (mc_cons c) q" using pc d(1) small_eq [OF _ sd, of q] q(1) by (auto simp: taken_def)
    then show ?thesis using D(8) [of q] other [of q] q False r by (auto simp: slot_inv_def S taken_def)
  qed
  have prods: "prod_inv ?c u" for u
  proof -
    have "Suc d \<le> q" if "mc_prod c u = PushPublish x (posw q) \<or> mc_prod c u = PushWrite x (posw q)" "d \<le> q" for x q
    proof -
      have "writes (mc_prod c) u q" using that(1) by (auto simp: writes_def)
      then show ?thesis using d(3) that(2) by (cases "q = d") auto
    qed
    then show ?thesis using D(9) [of u] r
      by (cases "mc_prod c u") (auto simp: prod_inv_def Let_def S D(2))
  qed
  have cons: "cons_inv ?c" using d by (simp add: cons_inv_def d_def Let_def)
  show "mpsc_inv k ?c" unfolding mpsc_inv_def using D(1,3,4,6,7,11,12) d(2) slots prods cons r by (auto simp: S)
qed

lemma advance_inv:
  assumes inv: "mpsc_inv k c" and pc: "mc_cons c = PopAdvance pos v"
  shows "pos + 1 = posw (Suc (length (mc_popped c)))"
    "mpsc_inv k (c\<lparr>mc_ring := (mc_ring c)\<lparr>mr_dequeue_pos := posw (Suc (length (mc_popped c)))\<rparr>, mc_cons := PopRet (Some v), mc_popped := mc_popped c @ [v]\<rparr>)"
    (is "mpsc_inv k ?c")
proof -
  note D = mpsc_invD [OF inv]
  let ?d = "length (mc_popped c)"
  have r: "released ?c = released c" using pc by (simp add: released_def)
  have d: "pos = posw ?d" "?d < length (mc_claimed c)" "v = mc_claimed c ! ?d"
    using D(10) pc by (simp_all add: cons_inv_def Let_def)
  show "pos + 1 = posw (Suc ?d)" by (simp add: d(1) posw_Suc)
  have slots: "slot_inv ?c q = slot_inv c q" for q using pc by (simp add: slot_inv_def taken_def)
  have prods: "prod_inv ?c u" for u using D(9) [of u] by (cases "mc_prod c u") (auto simp: prod_inv_def Let_def r)
  have pre: "prefix (mc_popped c @ [v]) (mc_claimed c)"
  proof -
    obtain ys where "mc_claimed c = mc_popped c @ ys" using D(7) by (auto simp: prefix_def)
    then show ?thesis using d(2,3) by (cases ys) auto
  qed
  show "mpsc_inv k ?c" unfolding mpsc_inv_def using D(1-6,8,11,12) slots prods pre
    by (auto simp: r cons_inv_def)
qed

section \<open>Preservation\<close>

lemma push_act_quiet:
  assumes "push_step sp (mc_ring c) (mc_prod c t) = (mc_ring c, pc)" "quiet_push (mc_prod c t)" "quiet_push pc"
  shows "push_act t sp c = c\<lparr>mc_prod := (mc_prod c)(t := pc), mc_refused := (case (mc_prod c t, pc) of
    (PushSeq _ _, PushRet _) \<Rightarrow> mc_refused c @ [(length (mc_claimed c), released c)] | _ \<Rightarrow> mc_refused c)\<rparr>"
proof -
  have cl: "(case (mc_prod c t, pc) of (PushCas _ _, PushWrite v _) \<Rightarrow> mc_claimed c @ [v] | _ \<Rightarrow> mc_claimed c) = mc_claimed c"
    using assms(3) by (auto simp: quiet_push_def split: push_pc.split)
  show ?thesis using cl by (simp add: push_act_def assms(1))
qed

lemma seq_gap:
  assumes inv: "mpsc_inv k c" and rm: "mpsc_room k c" and p: "p \<le> length (mc_claimed c)"
  shows "seq_at c p - posw p = 0 \<Longrightarrow> p = length (mc_claimed c) \<Longrightarrow> p < released c + 2 ^ k"
    "0x7FFFFFFFFFFFFFFF < seq_at c p - posw p \<Longrightarrow> length (mc_claimed c) = released c + 2 ^ k"
proof -
  note B = mpsc_room_bounds [OF inv rm]
  obtain s q where s: "seq_at c p = posw s" "s = q \<or> s = Suc q" "q < released c + 2 ^ k"
    "p \<le> q \<or> p = length (mc_claimed c) \<and> p = released c + 2 ^ k \<and> q = released c"
    using seq_of_pos [OF inv p] by blast
  have sm: "small s" "small p" using small_le [OF B(3), of s] small_le [OF B(2), of p] s(2,3) p by auto
  have two: "(2::nat) \<le> 2 ^ k" using rm self_le_power [of 2 k] by (simp add: mpsc_room_def)
  show "p < released c + 2 ^ k" if "seq_at c p - posw p = 0" "p = length (mc_claimed c)"
  proof -
    have "s = p" using that(1) gap_zero [OF sm] s(1) by simp
    then show ?thesis using s(2-4) two that(2) mpsc_invD(6) [OF inv] by auto
  qed
  show "length (mc_claimed c) = released c + 2 ^ k" if "0x7FFFFFFFFFFFFFFF < seq_at c p - posw p"
    using that gap_negative [OF sm] s by auto
qed

lemma mpsc_index_at: "mpsc_inv k c \<Longrightarrow> mpsc_room k c \<Longrightarrow> small p \<Longrightarrow>
  mr_slots (mc_ring c) ! mpsc_index (mc_ring c) (posw p) = mr_slots (mc_ring c) ! (p mod length (mr_slots (mc_ring c)))"
  using mpsc_index_mod [of "mc_ring c" k p] mpsc_invD(2) [of k c] mpsc_room_bounds(1) [of k c] by simp

lemma push_act_inv:
  assumes inv: "mpsc_inv k c" and rm: "mpsc_room k c"
  shows "mpsc_inv k (push_act t sp c)"
proof -
  note D = mpsc_invD [OF inv] and B = mpsc_room_bounds [OF inv rm]
  have quiet: ?thesis if st: "push_step sp (mc_ring c) (mc_prod c t) = (mc_ring c, pc)" and q: "quiet_push (mc_prod c t)" "quiet_push pc"
    and pi: "prod_inv (c\<lparr>mc_prod := (mc_prod c)(t := pc)\<rparr>) t"
    and full: "\<And>v p x. mc_prod c t = PushSeq v p \<Longrightarrow> pc = PushRet x \<Longrightarrow> length (mc_claimed c) = released c + 2 ^ k" for pc
    unfolding push_act_quiet [OF st q]
    by (rule push_local [OF inv q pi]) (use D(12) full in \<open>auto split: push_pc.splits\<close>)
  note qd = quiet_push_def push_step_def prod_inv_def Let_def
  show ?thesis
  proof (cases "mc_prod c t")
    case PushIdle
    then show ?thesis by (intro quiet [of PushIdle]) (simp_all add: qd)
  next
    case (PushLoad v)
    then show ?thesis using D(3) by (intro quiet [of "PushSeq v (mr_enqueue_pos (mc_ring c))"]) (auto simp: qd)
  next
    case (PushSeq v pos)
    then obtain p where p: "p \<le> length (mc_claimed c)" "pos = posw p" using D(9) [of t] by (auto simp: prod_inv_def Let_def)
    have sp: "small p" using small_le [OF B(2) p(1)] .
    have sl: "sl_sequence (mr_slots (mc_ring c) ! mpsc_index (mc_ring c) pos) = seq_at c p"
      using mpsc_index_at [OF inv rm sp] p(2) by (simp add: rseq_def)
    note G = seq_gap [OF inv rm p(1)]
    consider (cas) "seq_at c p - pos = 0" | (full) "seq_at c p - pos \<noteq> 0" "0x7FFFFFFFFFFFFFFF < seq_at c p - pos"
      | (again) "seq_at c p - pos \<noteq> 0" "\<not> 0x7FFFFFFFFFFFFFFF < seq_at c p - pos" by blast
    then show ?thesis
    proof cases
      case cas
      then show ?thesis using PushSeq sl p G(1) D(2) by (intro quiet [of "PushCas v pos"]) (auto simp: qd)
    next
      case full
      then show ?thesis using PushSeq sl p G(2) by (intro quiet [of "PushRet (Inl v)"]) (auto simp: qd)
    next
      case again
      then show ?thesis using PushSeq sl by (intro quiet [of "PushLoad v"]) (auto simp: qd)
    qed
  next
    case (PushCas v pos)
    show ?thesis
    proof (cases "mr_enqueue_pos (mc_ring c) = pos \<and> \<not> sp")
      case True
      then show ?thesis using cas_inv [OF inv PushCas _ rm] PushCas by (simp add: push_act_def push_step_def)
    next
      case False
      then show ?thesis using PushCas D(3) by (intro quiet [of "PushSeq v (mr_enqueue_pos (mc_ring c))"]) (auto simp: qd)
    qed
  next
    case (PushWrite v pos)
    then obtain p where "pos = posw p" "released c \<le> p" "p < length (mc_claimed c)" "mc_claimed c ! p = v"
      using D(9) [of t] by (auto simp: prod_inv_def Let_def)
    then show ?thesis using write_inv [OF inv _ rm, of t v p] PushWrite by (simp add: push_act_def push_step_def)
  next
    case (PushPublish v pos)
    then obtain p where "pos = posw p" "released c \<le> p" "p < length (mc_claimed c)" "mc_claimed c ! p = v" "cell_at c p = Some v"
      using D(9) [of t] by (auto simp: prod_inv_def Let_def)
    then show ?thesis using publish_inv [OF inv _ rm, of t v p] PushPublish by (simp add: push_act_def push_step_def posw_Suc)
  next
    case (PushRet x)
    then show ?thesis by (intro quiet [of "PushRet x"]) (simp_all add: qd)
  qed
qed

lemma pop_act_inv:
  assumes inv: "mpsc_inv k c" and rm: "mpsc_room k c"
  shows "mpsc_inv k (pop_act c)"
proof -
  note D = mpsc_invD [OF inv] and B = mpsc_room_bounds [OF inv rm]
  have quiet: ?thesis if "pop_step (mc_ring c) (mc_cons c) = Ret (mc_ring c, pc)" "quiet_pop (mc_cons c)" "quiet_pop pc"
    "cons_inv (c\<lparr>mc_cons := pc\<rparr>)" for pc
  proof -
    have "pop_act c = c\<lparr>mc_cons := pc\<rparr>" using that(1,2) unfolding pop_act_def
      by (cases "mc_cons c") (simp_all add: quiet_pop_def)
    then show ?thesis using pop_local [OF inv that(2-4)] by simp
  qed
  let ?d = "length (mc_popped c)"
  have sd: "small ?d" using small_le [OF B(2), of ?d] B(4) D(5) by simp
  have at: "mr_slots (mc_ring c) ! mpsc_index (mc_ring c) (posw ?d) = mr_slots (mc_ring c) ! (?d mod length (mr_slots (mc_ring c)))"
    by (rule mpsc_index_at [OF inv rm sd])
  note qd = quiet_pop_def pop_step_def cons_inv_def Let_def
  show ?thesis
  proof (cases "mc_cons c")
    case PopIdle
    then show ?thesis by (intro quiet [of PopIdle]) (simp_all add: qd)
  next
    case PopLoad
    then show ?thesis using D(4) by (intro quiet [of "PopSeq (posw ?d)"]) (simp_all add: qd)
  next
    case (PopSeq pos)
    then have pos: "pos = posw ?d" using D(10) by (simp add: cons_inv_def)
    have sl: "sl_sequence (mr_slots (mc_ring c) ! mpsc_index (mc_ring c) pos) = seq_at c ?d" using at pos by (simp add: rseq_def)
    show ?thesis
    proof (cases "0x7FFFFFFFFFFFFFFF < seq_at c ?d - (pos + 1)")
      case True
      then show ?thesis using PopSeq sl by (intro quiet [of "PopRet None"]) (simp_all add: qd)
    next
      case False
      have r: "released c = ?d" using PopSeq by (simp add: released_def)
      have "slot_inv c ?d" using D(8) [of ?d] r by simp
      moreover have "\<not> 0x7FFFFFFFFFFFFFFF < seq_at c ?d - posw (Suc ?d)" using False pos by (simp add: posw_Suc)
      moreover have "small (Suc ?d)" using small_le [OF B(3), of "Suc ?d"] r by simp
      ultimately have "?d < length (mc_claimed c)" "\<forall>t. \<not> writes (mc_prod c) t ?d"
        using gap_negative [OF sd \<open>small (Suc ?d)\<close>] by (auto simp: slot_inv_def split: if_splits)
      then show ?thesis using PopSeq sl False pos by (intro quiet [of "PopRead pos"]) (simp_all add: qd)
    qed
  next
    case (PopRead pos)
    note R = read_inv [OF inv PopRead rm]
    have "sl_cell (mr_slots (mc_ring c) ! mpsc_index (mc_ring c) pos) = Some (mc_claimed c ! ?d)"
      using R(1,2) at by (simp add: rcell_def)
    then show ?thesis using R(1,3) PopRead by (simp add: pop_act_def pop_step_def)
  next
    case (PopRelease pos v)
    note R = release_inv [OF inv PopRelease rm]
    have "posw ?d + of_nat (length (mr_slots (mc_ring c))) = posw (?d + 2 ^ k)" unfolding D(2) by (rule posw_add)
    then show ?thesis using R PopRelease by (simp add: pop_act_def pop_step_def)
  next
    case (PopAdvance pos v)
    then show ?thesis using advance_inv [OF inv PopAdvance] by (simp add: pop_act_def pop_step_def)
  next
    case (PopRet x)
    then show ?thesis by (intro quiet [of "PopRet x"]) (simp_all add: qd)
  qed
qed

lemma mpsc_step_claimed: "mpsc_step c c' \<Longrightarrow> length (mc_claimed c) \<le> length (mc_claimed c')"
  by (erule mpsc_step.cases)
    (auto simp: push_act_def pop_act_def split: prod.splits exec.splits push_pc.splits)

lemma mpsc_step_inv:
  assumes "mpsc_step c c'" "mpsc_inv k c" "mpsc_room k c'"
  shows "mpsc_inv k c'"
proof -
  have rm: "mpsc_room k c"
    using assms(3) mpsc_step_claimed [OF assms(1)] small_le by (auto simp: mpsc_room_def)
  from assms(1) show ?thesis
  proof cases
    case (call_push t x v)
    then have "c' = c\<lparr>mc_prod := (mc_prod c)(t := PushLoad v), mc_refused := mc_refused c\<rparr>" by simp
    moreover have "mpsc_inv k (c\<lparr>mc_prod := (mc_prod c)(t := PushLoad v), mc_refused := mc_refused c\<rparr>)"
      by (rule push_local [OF assms(2)])
        (use call_push mpsc_invD(12) [OF assms(2)] in \<open>auto simp: quiet_push_def prod_inv_def\<close>)
    ultimately show ?thesis by simp
  next
    case (call_pop y)
    then show ?thesis using pop_local [OF assms(2), of PopLoad] by (auto simp: quiet_pop_def cons_inv_def)
  qed (use push_act_inv [OF assms(2) rm] pop_act_inv [OF assms(2) rm] in auto)
qed

lemma mpsc_init_inv: "mpsc_inv k (mpsc_init (2 ^ k))"
  by (auto simp: mpsc_inv_def mpsc_init_def mpsc_new_def released_def slot_inv_def prod_inv_def cons_inv_def writes_def
    rseq_def posw_def)

lemma mpsc_reachable_inv:
  assumes "mpsc_step\<^sup>*\<^sup>* (mpsc_init (2 ^ k)) c" "mpsc_room k c"
  shows "mpsc_inv k c"
  using assms
proof (induction rule: rtranclp_induct)
  case base
  then show ?case by (simp add: mpsc_init_inv)
next
  case (step c c')
  then have "mpsc_room k c" using mpsc_step_claimed [OF step(2)] small_le by (auto simp: mpsc_room_def)
  then show ?case using step mpsc_step_inv by blast
qed

section \<open>Quiescence, progress and the smallest ring\<close>

definition mpsc_quiet :: "('t, 'a) mpsc_conf \<Rightarrow> bool" where
  "mpsc_quiet c \<longleftrightarrow> (\<forall>t. mc_prod c t = PushIdle \<or> (\<exists>x. mc_prod c t = PushRet x)) \<and>
     (mc_cons c = PopIdle \<or> (\<exists>y. mc_cons c = PopRet y))"

lemma quiet_cell:
  assumes "mpsc_inv k c" "mpsc_quiet c" "length (mc_popped c) \<le> p" "p < length (mc_claimed c)"
  shows "cell_at c p = Some (mc_claimed c ! p)"
proof -
  have r: "released c = length (mc_popped c)" using assms(2) by (auto simp: mpsc_quiet_def released_def)
  have "\<not> writes (mc_prod c) t p" "\<not> taken (mc_cons c) p" for t
    using assms(2) by (auto simp: mpsc_quiet_def writes_def taken_def dest!: spec [of _ t])
  then show ?thesis using mpsc_invD(8) [OF assms(1), of p] mpsc_invD(6) [OF assms(1)] assms(3,4) r by (auto simp: slot_inv_def)
qed

lemma drop_loop_rest:
  assumes inv: "mpsc_inv k c" and rm: "mpsc_room k c" and q: "mpsc_quiet c"
  shows "length (mc_popped c) \<le> p \<Longrightarrow> p \<le> length (mc_claimed c) \<Longrightarrow>
    mpsc_drop_loop (mc_ring c) acc (posw p) = Some (Ret (rev acc @ drop p (mc_claimed c)))"
proof (induction "length (mc_claimed c) - p" arbitrary: p acc)
  case 0
  then show ?case using mpsc_invD(3) [OF inv] by (subst mpsc_drop_loop.simps) simp
next
  case (Suc n)
  note B = mpsc_room_bounds [OF inv rm]
  have lt: "p < length (mc_claimed c)" using Suc by simp
  have sp: "small p" using small_le [OF B(2)] lt by simp
  have ne: "posw p \<noteq> mr_enqueue_pos (mc_ring c)" using small_eq [OF sp B(2)] mpsc_invD(3) [OF inv] lt by simp
  have "sl_cell (mr_slots (mc_ring c) ! mpsc_index (mc_ring c) (posw p)) = Some (mc_claimed c ! p)"
    using quiet_cell [OF inv q Suc.prems(1) lt] mpsc_index_at [OF inv rm sp] by (simp add: rcell_def)
  moreover have "drop p (mc_claimed c) = mc_claimed c ! p # drop (Suc p) (mc_claimed c)" using lt by (simp add: Cons_nth_drop_Suc)
  ultimately show ?case using ne Suc.hyps(1) [of "Suc p" "mc_claimed c ! p # acc"] Suc.hyps(2) Suc.prems lt
    by (subst mpsc_drop_loop.simps) (simp add: posw_Suc)
qed

text \<open>
  A producer that runs alone. The list tells, step by step, whether the weak exchange fails
  although it could succeed; the other steps ignore it.
\<close>

fun push_iter :: "bool list \<Rightarrow> 'a mpsc_ring \<Rightarrow> 'a push_pc \<Rightarrow> 'a mpsc_ring \<times> 'a push_pc" where
  "push_iter [] r pc = (r, pc)"
| "push_iter (spurious # rest) r pc = (case push_step spurious r pc of (r', pc') \<Rightarrow> push_iter rest r' pc')"

lemma push_iter_ret [simp]: "push_iter fl r (PushRet x) = (r, PushRet x)"
  by (induction fl) (simp_all add: push_step_def)

text \<open>
  The push returns after \<open>n\<close> steps and two more for every spurious failure: a failed exchange is
  a step that gains nothing, and the sequence number is read again.
\<close>

definition push_ends :: "nat \<Rightarrow> 'a mpsc_ring \<Rightarrow> 'a push_pc \<Rightarrow> bool" where
  "push_ends n r pc \<longleftrightarrow> (\<forall>fl. n + 2 * count_list fl True \<le> length fl \<longrightarrow> (\<exists>r' x. push_iter fl r pc = (r', PushRet x)))"

lemma push_ends_ret [simp]: "push_ends n r (PushRet x)"
  by (simp add: push_ends_def)

lemma push_ends_mono: "push_ends m r pc \<Longrightarrow> m \<le> n \<Longrightarrow> push_ends n r pc"
  unfolding push_ends_def by (meson add_le_mono1 order_trans)

lemma push_ends_step:
  assumes "\<And>spurious. case push_step spurious r pc of (r', pc') \<Rightarrow> push_ends n r' pc'"
  shows "push_ends (Suc n) r pc"
  unfolding push_ends_def
proof (intro allI impI)
  fix fl :: "bool list" assume fl: "Suc n + 2 * count_list fl True \<le> length fl"
  then obtain b rest where c: "fl = b # rest" by (cases fl) auto
  then have "n + 2 * count_list rest True \<le> length rest" using fl by (auto split: if_splits)
  then show "\<exists>r' x. push_iter fl r pc = (r', PushRet x)"
    using assms [of b] by (auto simp: c push_ends_def split: prod.splits)
qed

lemma push_ends_written: "push_ends 2 r (PushWrite v pos)" "push_ends 1 r (PushPublish v pos)"
proof -
  show p: "push_ends 1 r (PushPublish v pos)" for r
    using push_ends_step [where r = r and pc = "PushPublish v pos" and n = 0] by (simp add: push_step_def)
  show "push_ends 2 r (PushWrite v pos)"
    using push_ends_step [where r = r and pc = "PushWrite v pos" and n = 1] p by (simp add: push_step_def numeral_2_eq_2)
qed

text \<open>From the current position the sequence number allows the exchange or refuses the push.\<close>

lemma push_seq_fresh:
  assumes inv: "mpsc_inv k c" and rm: "mpsc_room k c"
  shows "push_step sp (mc_ring c) (PushSeq v (mr_enqueue_pos (mc_ring c))) \<in>
    {(mc_ring c, PushCas v (mr_enqueue_pos (mc_ring c))), (mc_ring c, PushRet (Inl v))}"
proof -
  note D = mpsc_invD [OF inv] and B = mpsc_room_bounds [OF inv rm]
  let ?e = "length (mc_claimed c)" and ?pos = "mr_enqueue_pos (mc_ring c)"
  let ?g = "sl_sequence (mr_slots (mc_ring c) ! mpsc_index (mc_ring c) ?pos) - ?pos"
  have g: "?g = seq_at c ?e - posw ?e" using mpsc_index_at [OF inv rm B(2)] D(3) by (simp add: rseq_def)
  obtain s q where s: "seq_at c ?e = posw s" "s = q \<or> s = Suc q" "q < released c + 2 ^ k"
    "?e \<le> q \<or> ?e = released c + 2 ^ k \<and> q = released c" using seq_of_pos [OF inv order_refl] by blast
  have sm: "small s" using small_le [OF B(3), of s] s(2,3) by auto
  show ?thesis
  proof (cases "?e < released c + 2 ^ k")
    case True
    then have "slot_inv c ?e" using D(8) D(5) by blast
    then have "?g = 0" using g by (simp add: slot_inv_def)
    then show ?thesis by (simp add: push_step_def)
  next
    case False
    then have "?e = released c + 2 ^ k" using D(6) by simp
    moreover have "(2::nat) \<le> 2 ^ k" using rm self_le_power [of 2 k] by (simp add: mpsc_room_def)
    ultimately have "s < ?e" using s by auto
    then have "0x7FFFFFFFFFFFFFFF < ?g" "?g \<noteq> 0" using g s(1) gap_negative [OF sm B(2)] gap_zero [OF sm B(2)] by simp_all
    then show ?thesis by (simp add: push_step_def Let_def)
  qed
qed

lemma push_from_fresh:
  assumes inv: "mpsc_inv k c" and rm: "mpsc_room k c"
  shows "push_ends 4 (mc_ring c) (PushSeq v (mr_enqueue_pos (mc_ring c)))"
    "push_ends 3 (mc_ring c) (PushCas v (mr_enqueue_pos (mc_ring c)))"
proof -
  let ?r = "mc_ring c" let ?pos = "mr_enqueue_pos ?r"
  have "(4 + 2 * count_list fl True \<le> length fl \<longrightarrow> (\<exists>r' x. push_iter fl ?r (PushSeq v ?pos) = (r', PushRet x))) \<and>
    (3 + 2 * count_list fl True \<le> length fl \<longrightarrow> (\<exists>r' x. push_iter fl ?r (PushCas v ?pos) = (r', PushRet x)))" for fl
  proof (induction fl)
    case (Cons b fl)
    have "\<exists>r' x. push_iter (b # fl) ?r (PushSeq v ?pos) = (r', PushRet x)" if "4 + 2 * count_list (b # fl) True \<le> length (b # fl)"
    proof -
      have "3 + 2 * count_list fl True \<le> length fl" using that by (auto split: if_splits)
      then show ?thesis using push_seq_fresh [OF inv rm, of b v] Cons.IH by auto
    qed
    moreover have "\<exists>r' x. push_iter (b # fl) ?r (PushCas v ?pos) = (r', PushRet x)" if "3 + 2 * count_list (b # fl) True \<le> length (b # fl)"
    proof (cases b)
      case True
      then have "4 + 2 * count_list fl True \<le> length fl" using that by simp
      then show ?thesis using True Cons.IH by (simp add: push_step_def)
    next
      case False
      then have "2 + 2 * count_list fl True \<le> length fl" using that by simp
      then have "\<exists>r' x. push_iter fl r'' (PushWrite v ?pos) = (r', PushRet x)" for r''
        by (rule push_ends_written(1) [unfolded push_ends_def, rule_format])
      then show ?thesis using False by (simp add: push_step_def)
    qed
    ultimately show ?case by blast
  qed simp
  then show "push_ends 4 ?r (PushSeq v ?pos)" "push_ends 3 ?r (PushCas v ?pos)" by (simp_all add: push_ends_def)
qed

lemma push_solo:
  assumes inv: "mpsc_inv k c" and rm: "mpsc_room k c" and pc: "mc_prod c t \<noteq> PushIdle"
  shows "push_ends 6 (mc_ring c) (mc_prod c t)"
proof -
  let ?r = "mc_ring c"
  note fresh = push_from_fresh [OF inv rm]
  have load: "push_ends 5 ?r (PushLoad v)" for v
    using push_ends_step [where r = ?r and pc = "PushLoad v" and n = 4] fresh(1) by (simp add: push_step_def)
  have cas: "push_ends 5 ?r (PushCas v pos)" for v pos
  proof (cases "mr_enqueue_pos ?r = pos")
    case True
    then show ?thesis using push_ends_mono [OF fresh(2), of 5] by auto
  next
    case False
    then show ?thesis using push_ends_step [where r = ?r and pc = "PushCas v pos" and n = 4] fresh(1) by (simp add: push_step_def)
  qed
  have sq: "push_ends 6 ?r (PushSeq v pos)" for v pos
    using push_ends_step [where r = ?r and pc = "PushSeq v pos" and n = 5] cas load by (simp add: push_step_def Let_def)
  show ?thesis using pc sq push_ends_mono [OF load, of 6] push_ends_mono [OF cas, of 6]
      push_ends_mono [OF push_ends_written(1), of 6] push_ends_mono [OF push_ends_written(2), of 6]
    by (cases "mc_prod c t") simp_all
qed

text \<open>One whole uncontended push, and its run as steps.\<close>

definition push_whole :: "'t \<Rightarrow> 'a \<Rightarrow> ('t, 'a) mpsc_conf \<Rightarrow> ('t, 'a) mpsc_conf" where
  "push_whole t v c = (push_act t False ^^ 5) (c\<lparr>mc_prod := (mc_prod c)(t := PushLoad v)\<rparr>)"

lemma push_acts_steps: "mpsc_step\<^sup>*\<^sup>* c ((push_act t False ^^ n) c)"
  by (induction n) (auto intro: rtranclp.rtrancl_into_rtrancl mpsc_step.in_push)

lemma push_whole_steps:
  assumes "mpsc_step\<^sup>*\<^sup>* c0 c" "mc_prod c t = PushIdle \<or> mc_prod c t = PushRet x"
  shows "mpsc_step\<^sup>*\<^sup>* c0 (push_whole t v c)"
  using assms(1) mpsc_step.call_push [OF assms(2), of v] push_acts_steps unfolding push_whole_def
  by (meson rtranclp.rtrancl_into_rtrancl rtranclp_trans)

definition demo_pushed :: "(nat, nat) mpsc_conf" where
  "demo_pushed = push_whole 0 7 (mpsc_init (2 ^ 1))"

lemma mpsc_eval: "push_whole 0 7 (mpsc_init 2) = (mpsc_init 2 :: (nat, nat) mpsc_conf)\<lparr>
    mc_ring := \<lparr>mr_enqueue_pos = 1, mr_dequeue_pos = 0, mr_slots = [\<lparr>sl_sequence = 1, sl_cell = Some 7\<rparr>, \<lparr>sl_sequence = 1, sl_cell = None\<rparr>]\<rparr>,
    mc_prod := (\<lambda>_. PushIdle)(0 := PushRet (Inr ())), mc_claimed := [7]\<rparr>"
  by (simp add: push_whole_def numeral_eq_Suc push_act_def push_step_def mpsc_init_def mpsc_new_def mpsc_index_def
    set_cell_def set_sequence_def Let_def upt_rec)

lemma demo_pushed_reached: "mpsc_step\<^sup>*\<^sup>* (mpsc_init (2 ^ 1)) demo_pushed"
  unfolding demo_pushed_def by (rule push_whole_steps) (auto simp: mpsc_init_def)

lemma demo_pushed_fields:
  "mc_claimed demo_pushed = [7]" "mc_popped demo_pushed = []" "mc_cons demo_pushed = PopIdle"
  "mc_prod demo_pushed = (\<lambda>_. PushIdle)(0 := PushRet (Inr ()))"
  unfolding demo_pushed_def power_one_right mpsc_eval by (simp_all add: mpsc_init_def)

section \<open>Properties\<close>

text \<open>
  C15. Under every interleaving of any number of producers with the consumer, a ring of at least
  two slots is a bounded queue without loss or duplication: no cell is read before it was
  written, the values popped are the first values claimed, in the order their positions were
  claimed, never more than the capacity is claimed and not yet released, and a push is refused
  only when exactly the capacity is.
\<close>

theorem mpsc_ring_fifo:
  assumes "mpsc_step\<^sup>*\<^sup>* (mpsc_init (2 ^ k)) c" "1 \<le> k" "length (mc_claimed c) + 2 ^ k + 1 < 2 ^ 63"
  shows "\<not> mc_fault c \<and> prefix (mc_popped c) (mc_claimed c) \<and> length (mc_claimed c) \<le> released c + 2 ^ k \<and>
    (\<forall>(a, b)\<in>set (mc_refused c). a = b + 2 ^ k)"
proof -
  have "mpsc_room k c" using assms(2,3) by (simp add: mpsc_room_def small_def)
  from mpsc_reachable_inv [OF assms(1) this] show ?thesis by (simp add: mpsc_inv_def)
qed

theorem mpsc_ring_fifo_witness:
  "mpsc_step\<^sup>*\<^sup>* (mpsc_init (2 ^ 1)) demo_pushed \<and> mc_claimed demo_pushed = [7] \<and> prefix (mc_popped demo_pushed) [7]"
  using mpsc_ring_fifo [OF demo_pushed_reached] demo_pushed_reached by (simp add: demo_pushed_fields)

text \<open>
  C16. Dropping a ring no thread is inside of ends and drops exactly the values that were pushed
  and not popped, each once; its length is their number.
\<close>

theorem mpsc_drop_exact:
  assumes "mpsc_step\<^sup>*\<^sup>* (mpsc_init (2 ^ k)) c" "1 \<le> k" "length (mc_claimed c) + 2 ^ k + 1 < 2 ^ 63" "mpsc_quiet c"
  shows "mpsc_drop (mc_ring c) = Some (Ret (drop (length (mc_popped c)) (mc_claimed c))) \<and>
    unat (mpsc_len (mc_ring c)) = length (mc_claimed c) - length (mc_popped c)"
proof -
  have rm: "mpsc_room k c" using assms(2,3) by (simp add: mpsc_room_def small_def)
  have inv: "mpsc_inv k c" by (rule mpsc_reachable_inv [OF assms(1) rm])
  note D = mpsc_invD [OF inv] and B = mpsc_room_bounds [OF inv rm]
  have le: "length (mc_popped c) \<le> length (mc_claimed c)" using B(4) D(5) by simp
  have "unat (posw (length (mc_claimed c)) - posw (length (mc_popped c))) = length (mc_claimed c) - length (mc_popped c)"
    using le unat_small [OF B(2)] unat_small [OF small_le [OF B(2) le]] by (simp add: unat_sub word_le_nat_alt)
  then show ?thesis using drop_loop_rest [OF inv rm assms(4) order_refl le, of "[]"] D(3,4) by (simp add: mpsc_drop_def mpsc_len_def)
qed

theorem mpsc_drop_exact_witness:
  "mpsc_drop (mc_ring demo_pushed) = Some (Ret [7])"
  using mpsc_drop_exact [OF demo_pushed_reached] by (simp add: demo_pushed_fields mpsc_quiet_def)

text \<open>
  C17. A push is obstruction-free: from any reachable configuration a producer inside \<open>push\<close>
  that runs alone returns within six steps of its own and two more for every spurious failure of
  the weak compare-exchange, whenever these failures happen.
\<close>

theorem mpsc_push_solo:
  assumes "mpsc_step\<^sup>*\<^sup>* (mpsc_init (2 ^ k)) c" "1 \<le> k" "length (mc_claimed c) + 2 ^ k + 1 < 2 ^ 63"
    "mc_prod c t \<noteq> PushIdle" "6 + 2 * count_list spurious True \<le> length spurious"
  shows "\<exists>r x. push_iter spurious (mc_ring c) (mc_prod c t) = (r, PushRet x)"
proof -
  have rm: "mpsc_room k c" using assms(2,3) by (simp add: mpsc_room_def small_def)
  from push_solo [OF mpsc_reachable_inv [OF assms(1) rm] rm assms(4)] show ?thesis using assms(5) by (simp add: push_ends_def)
qed

text \<open>Producer 1 is about to push beside the value of producer 0; its first exchange fails spuriously.\<close>

definition demo_pushing :: "(nat, nat) mpsc_conf" where
  "demo_pushing = demo_pushed\<lparr>mc_prod := (mc_prod demo_pushed)(1 := PushLoad 8)\<rparr>"

lemma demo_pushing_reached: "mpsc_step\<^sup>*\<^sup>* (mpsc_init (2 ^ 1)) demo_pushing"
proof -
  have "mpsc_step demo_pushed demo_pushing"
    unfolding demo_pushing_def by (rule mpsc_step.call_push) (simp add: demo_pushed_fields)
  then show ?thesis using demo_pushed_reached by (rule rtranclp.rtrancl_into_rtrancl [rotated])
qed

theorem mpsc_push_solo_witness:
  "mc_prod demo_pushing 1 = PushLoad 8 \<and>
   (\<exists>r x. push_iter [False, False, True, False, False, False, False, False] (mc_ring demo_pushing) (PushLoad 8) = (r, PushRet x))"
  using mpsc_push_solo [OF demo_pushing_reached, of 1 "[False, False, True, False, False, False, False, False]"]
  by (simp add: demo_pushing_def demo_pushed_fields del: push_iter.simps)

text \<open>
  C18. The constructor accepts a ring of one slot, which is not a queue: the sequence number of
  a full slot is then the one that means free, and a second push without any pop reports
  success and overwrites the first value.
\<close>

theorem mpsc_ring_one_overwrites:
  "let c = push_whole 0 b (push_whole 0 a (mpsc_init 1)) :: (nat, 'a) mpsc_conf in
   mpsc_step\<^sup>*\<^sup>* (mpsc_init 1) c \<and> mc_prod c 0 = PushRet (Inr ()) \<and> mc_claimed c = [a, b] \<and>
   mc_popped c = [] \<and> mc_refused c = [] \<and> map sl_cell (mr_slots (mc_ring c)) = [Some b]"
proof -
  let ?c1 = "push_whole 0 a (mpsc_init 1) :: (nat, 'a) mpsc_conf"
  have c1: "?c1 = (mpsc_init 1)\<lparr>
    mc_ring := \<lparr>mr_enqueue_pos = 1, mr_dequeue_pos = 0, mr_slots = [\<lparr>sl_sequence = 1, sl_cell = Some a\<rparr>]\<rparr>,
    mc_prod := (\<lambda>_. PushIdle)(0 := PushRet (Inr ())), mc_claimed := [a]\<rparr>"
    by (simp add: push_whole_def numeral_eq_Suc push_act_def push_step_def mpsc_init_def mpsc_new_def mpsc_index_def
      set_cell_def set_sequence_def Let_def upt_rec)
  have r1: "mpsc_step\<^sup>*\<^sup>* (mpsc_init 1) ?c1" by (rule push_whole_steps) (auto simp: mpsc_init_def)
  have "mpsc_step\<^sup>*\<^sup>* (mpsc_init 1) (push_whole 0 b ?c1)"
    by (rule push_whole_steps [OF r1, where x = "Inr ()"]) (unfold c1, simp)
  moreover have "mc_prod (push_whole 0 b ?c1) 0 = PushRet (Inr ()) \<and> mc_claimed (push_whole 0 b ?c1) = [a, b] \<and>
    mc_popped (push_whole 0 b ?c1) = [] \<and> mc_refused (push_whole 0 b ?c1) = [] \<and>
    map sl_cell (mr_slots (mc_ring (push_whole 0 b ?c1))) = [Some b]"
    unfolding c1 by (simp add: push_whole_def numeral_eq_Suc push_act_def push_step_def mpsc_init_def mpsc_index_def
      set_cell_def set_sequence_def Let_def)
  ultimately show ?thesis unfolding Let_def by blast
qed

end
