(* ===== verification/Inflight_Slab.thy ===== *)
theory Inflight_Slab
  imports Slot_Bitmap Ir_Bytes
begin

text \<open>
  The in-flight buffer slab of \<open>kwokka-io\<close> (\<open>buffer/oneshot/inflight.rs\<close>): fixed-stride
  buffers in one memory region, lent to operations the kernel is working on. A slot is occupied,
  may be awaiting retirement, may wait for the second completion of a zero-copy send, and may
  carry a deferred operation with the descriptor it retains. The operations are followed by the
  invariant they keep.
\<close>

section \<open>Data\<close>

type_synonym i32 = "32 word"

datatype op_code =
    OpRead | OpWrite | OpSend | OpSendZc | OpRecv | OpRecvProvided | OpSendmsg | OpRecvmsg
  | OpAccept | OpConnect | OpOpen | OpClose | OpFsync | OpFallocate | OpFadvise | OpStatx
  | OpMkdir | OpRename | OpUnlink | OpSymlink | OpLink | OpSplice | OpTee | OpShutdown
  | OpSocket | OpTimeout | OpCancel | OpMsgRing | OpPoll

record inflight_key =
  ik_slot :: u16
  ik_generation :: u64
  ik_worker :: u8
  ik_token :: u64

record deferred_op =
  do_fd :: i32
  do_len :: u32
  do_opcode :: op_code

record reclaimed =
  was_freed :: bool
  rc_deferred :: "deferred_op option"

record inflight_slab =
  ib_storage :: bytes
  ib_occupied :: bitmap
  ib_retire_pending :: bitmap
  ib_notif_expected :: bitmap
  ib_notif_ready :: bitmap
  ib_generation :: "u64 list"
  ib_op_token :: "u64 list"
  ib_deferred :: "deferred_op option list"
  ib_worker :: u8
  ib_cap :: u16
  ib_stride :: u32

section \<open>The memory region\<close>

text \<open>
  \<open>mmap\<close> is the operating system's: it fails with an error, returns a null pointer or maps
  memory. What it maps is given as the bytes of the region.
\<close>

datatype io_error = InvalidInput | OsError i32 | OtherError

datatype mmap_outcome = MapFailed i32 | MapNull | Mapped bytes

definition mmap_region_new :: "(nat \<Rightarrow> mmap_outcome) \<Rightarrow> nat \<Rightarrow> io_error + bytes" where
  "mmap_region_new mmap len =
     (if len = 0 then Inl InvalidInput
      else case mmap len of
          MapFailed e \<Rightarrow> Inl (OsError e)
        | MapNull \<Rightarrow> Inl OtherError
        | Mapped bytes \<Rightarrow> Inr bytes)"

text \<open>What the code relies on: an anonymous private mapping is \<open>len\<close> zero bytes.\<close>

definition mmap_zeroed :: "(nat \<Rightarrow> mmap_outcome) \<Rightarrow> bool" where
  "mmap_zeroed mmap \<longleftrightarrow> (\<forall>len bytes. mmap len = Mapped bytes \<longrightarrow> bytes = replicate len 0)"

text \<open>A mapping that always succeeds.\<close>

definition zero_map :: "nat \<Rightarrow> mmap_outcome" where
  "zero_map n = Mapped (replicate n 0)"

lemma zero_map_zeroed: "mmap_zeroed zero_map"
  by (simp add: mmap_zeroed_def zero_map_def)

section \<open>Operations\<close>

definition INFLIGHT_BUF_STRIDE :: u32 where "INFLIGHT_BUF_STRIDE = 4096"
definition DEFAULT_INFLIGHT_CAP :: u16 where "DEFAULT_INFLIGHT_CAP = 256"
definition MAX_INFLIGHT_SLOTS :: nat where "MAX_INFLIGHT_SLOTS = unat DEFAULT_INFLIGHT_CAP"
definition BITMAP_WORDS :: nat where "BITMAP_WORDS = MAX_INFLIGHT_SLOTS div 64"

definition inflight_new :: "(nat \<Rightarrow> mmap_outcome) \<Rightarrow> u8 \<Rightarrow> u16 \<Rightarrow> io_error + inflight_slab" where
  "inflight_new mmap worker_id cap0 =
     (let cap = min cap0 DEFAULT_INFLIGHT_CAP; stride = INFLIGHT_BUF_STRIDE in
      res_bind (mmap_region_new mmap (unat cap * unat stride)) (\<lambda>storage.
        Inr \<lparr>ib_storage = storage,
             ib_occupied = replicate BITMAP_WORDS 0,
             ib_retire_pending = replicate BITMAP_WORDS 0,
             ib_notif_expected = replicate BITMAP_WORDS 0,
             ib_notif_ready = replicate BITMAP_WORDS 0,
             ib_generation = replicate MAX_INFLIGHT_SLOTS 0,
             ib_op_token = replicate MAX_INFLIGHT_SLOTS 0,
             ib_deferred = replicate MAX_INFLIGHT_SLOTS None,
             ib_worker = worker_id, ib_cap = cap, ib_stride = stride\<rparr>))"

definition inflight_first_free :: "inflight_slab \<Rightarrow> u16 option" where
  "inflight_first_free s = first_free_in (unat (ib_cap s)) 0 (ib_occupied s)"

definition inflight_is_live :: "inflight_slab \<Rightarrow> inflight_key \<Rightarrow> bool" where
  "inflight_is_live s key \<longleftrightarrow>
     ik_worker key = ib_worker s \<and> ik_slot key < ib_cap s \<and>
     bm_test (ib_occupied s) (word_bit (ik_slot key)) \<and>
     ib_generation s ! unat (ik_slot key) = ik_generation key"

definition inflight_allocate :: "inflight_slab \<Rightarrow> u64 \<Rightarrow> inflight_key option \<times> inflight_slab" where
  "inflight_allocate s op_token =
     (case inflight_first_free s of
        None \<Rightarrow> (None, s)
      | Some slot \<Rightarrow>
          (Some \<lparr>ik_slot = slot, ik_generation = ib_generation s ! unat slot,
                 ik_worker = ib_worker s, ik_token = op_token\<rparr>,
           s\<lparr>ib_occupied := bm_raise (ib_occupied s) (word_bit slot),
             ib_op_token := (ib_op_token s)[unat slot := op_token]\<rparr>))"

definition clear_deferred :: "inflight_slab \<Rightarrow> u16 \<Rightarrow> deferred_op option \<times> inflight_slab" where
  "clear_deferred s slot = (ib_deferred s ! unat slot, s\<lparr>ib_deferred := (ib_deferred s)[unat slot := None]\<rparr>)"

text \<open>The statements that the three release paths share: clear the four bits, take the deferred
  operation, bump the generation.\<close>

definition inflight_release :: "inflight_slab \<Rightarrow> u16 \<Rightarrow> deferred_op option \<times> inflight_slab" where
  "inflight_release s slot =
     (let wb = word_bit slot;
          s1 = s\<lparr>ib_occupied := bm_drop (ib_occupied s) wb,
                 ib_retire_pending := bm_drop (ib_retire_pending s) wb,
                 ib_notif_expected := bm_drop (ib_notif_expected s) wb,
                 ib_notif_ready := bm_drop (ib_notif_ready s) wb\<rparr>;
          (deferred, s2) = clear_deferred s1 slot in
      (deferred, s2\<lparr>ib_generation := (ib_generation s2)[unat slot := ib_generation s2 ! unat slot + 1]\<rparr>))"

definition inflight_free :: "inflight_slab \<Rightarrow> inflight_key \<Rightarrow> deferred_op option \<times> inflight_slab" where
  "inflight_free s key = (if \<not> inflight_is_live s key then (None, s) else inflight_release s (ik_slot key))"

definition mark_retire_pending :: "inflight_slab \<Rightarrow> inflight_key \<Rightarrow> inflight_slab" where
  "mark_retire_pending s key =
     (if \<not> inflight_is_live s key then s
      else s\<lparr>ib_retire_pending := bm_raise (ib_retire_pending s) (word_bit (ik_slot key))\<rparr>)"

definition is_retire_pending :: "inflight_slab \<Rightarrow> u16 \<Rightarrow> bool" where
  "is_retire_pending s slot \<longleftrightarrow> slot < ib_cap s \<and> bm_test (ib_retire_pending s) (word_bit slot)"

text \<open>The body of the search of \<open>free_by_op_token\<close> reads the token and the occupied bit of a slot.\<close>

definition free_by_op_token :: "inflight_slab \<Rightarrow> u64 \<Rightarrow> reclaimed \<times> inflight_slab" where
  "free_by_op_token s op_token =
     (case scan_words 0 (ib_retire_pending s) (\<lambda>slot.
          if ib_op_token s ! slot = op_token \<and> bm_test (ib_occupied s) (slot div 64, slot mod 64)
          then Some slot else None) of
        None \<Rightarrow> (\<lparr>was_freed = False, rc_deferred = None\<rparr>, s)
      | Some slot \<Rightarrow>
          if 65536 \<le> slot then (\<lparr>was_freed = False, rc_deferred = None\<rparr>, s)
          else let (deferred, s') = inflight_release s (of_nat slot) in
               (\<lparr>was_freed = True, rc_deferred = deferred\<rparr>, s'))"

definition free_if_retire_pending :: "inflight_slab \<Rightarrow> u16 \<Rightarrow> u16 \<Rightarrow> deferred_op option \<times> inflight_slab" where
  "free_if_retire_pending s slot generation_low16 =
     (if ib_cap s \<le> slot then (None, s)
      else let wb = word_bit slot;
               is_occupied = bm_test (ib_occupied s) wb;
               is_pending = bm_test (ib_retire_pending s) wb;
               matches_generation = ib_generation s ! unat slot AND 0xFFFF = ucast generation_low16;
               is_notif_expected = bm_test (ib_notif_expected s) wb;
               is_notif_ready = bm_test (ib_notif_ready s) wb in
           if \<not> is_occupied \<or> \<not> is_pending \<or> \<not> matches_generation \<or> (is_notif_expected \<and> \<not> is_notif_ready)
           then (None, s)
           else inflight_release s slot)"

text \<open>The slot the \<open>_by_op_token\<close> searches over the occupied slots stop at.\<close>

definition occupied_by_token :: "inflight_slab \<Rightarrow> u64 \<Rightarrow> nat option" where
  "occupied_by_token s op_token =
     scan_words 0 (ib_occupied s) (\<lambda>slot. if ib_op_token s ! slot = op_token then Some slot else None)"

definition mark_deferred_by_op_token :: "inflight_slab \<Rightarrow> u64 \<Rightarrow> deferred_op \<Rightarrow> bool \<times> inflight_slab" where
  "mark_deferred_by_op_token s op_token op =
     (case occupied_by_token s op_token of
        None \<Rightarrow> (False, s)
      | Some slot \<Rightarrow> (True, s\<lparr>ib_deferred := (ib_deferred s)[slot := Some op]\<rparr>))"

definition deferred_key_by_fd :: "inflight_slab \<Rightarrow> i32 \<Rightarrow> inflight_key option" where
  "deferred_key_by_fd s fd =
     (case scan_words 0 (ib_occupied s) (\<lambda>slot.
          case ib_deferred s ! slot of
            None \<Rightarrow> None
          | Some deferred \<Rightarrow> if do_fd deferred = fd then Some slot else None) of
        None \<Rightarrow> None
      | Some slot \<Rightarrow>
          if 65536 \<le> slot then None
          else Some \<lparr>ik_slot = of_nat slot, ik_generation = ib_generation s ! slot,
                     ik_worker = ib_worker s, ik_token = ib_op_token s ! slot\<rparr>)"

text \<open>A slice of the region, with the panic of slice indexing; the pointers and mutable slices
  the code hands out are offsets into the region.\<close>

definition slot_offset :: "inflight_slab \<Rightarrow> u16 \<Rightarrow> nat" where
  "slot_offset s slot = unat slot * unat (ib_stride s)"

definition storage_range :: "inflight_slab \<Rightarrow> nat \<Rightarrow> nat \<Rightarrow> bytes exec" where
  "storage_range s a b = (case get_range (ib_storage s) a b of None \<Rightarrow> Panic | Some bs \<Rightarrow> Ret bs)"

text \<open>The mutable slice is its offset and its current bytes; \<open>storage_write\<close> stores bytes through it.\<close>

definition retry_parts :: "inflight_slab \<Rightarrow> inflight_key \<Rightarrow> (i32 \<times> (nat \<times> bytes) \<times> op_code) option exec" where
  "retry_parts s key =
     (if \<not> inflight_is_live s key then Ret None
      else case ib_deferred s ! unat (ik_slot key) of
          None \<Rightarrow> Ret None
        | Some deferred \<Rightarrow>
            let len = unat (min (do_len deferred) (ib_stride s)); offset = slot_offset s (ik_slot key) in
            exec_bind (storage_range s offset (offset + len)) (\<lambda>bs.
              Ret (Some (do_fd deferred, (offset, bs), do_opcode deferred))))"

definition storage_write :: "inflight_slab \<Rightarrow> nat \<Rightarrow> bytes \<Rightarrow> inflight_slab" where
  "storage_write s offset bs =
     s\<lparr>ib_storage := overwrite (ib_storage s) offset bs\<rparr>"

definition retire_deferred :: "inflight_slab \<Rightarrow> inflight_key \<Rightarrow> deferred_op option \<times> inflight_slab" where
  "retire_deferred s key = (if \<not> inflight_is_live s key then (None, s) else clear_deferred s (ik_slot key))"

definition mark_notif_expected_by_op_token :: "inflight_slab \<Rightarrow> u64 \<Rightarrow> inflight_slab" where
  "mark_notif_expected_by_op_token s op_token =
     (case occupied_by_token s op_token of
        None \<Rightarrow> s
      | Some slot \<Rightarrow> s\<lparr>ib_notif_expected := bm_raise (ib_notif_expected s) (slot div 64, slot mod 64)\<rparr>)"

definition mark_notif_ready_by_op_token :: "inflight_slab \<Rightarrow> u64 \<Rightarrow> inflight_slab" where
  "mark_notif_ready_by_op_token s op_token =
     (case occupied_by_token s op_token of
        None \<Rightarrow> s
      | Some slot \<Rightarrow> s\<lparr>ib_notif_ready := bm_raise (ib_notif_ready s) (slot div 64, slot mod 64)\<rparr>)"

definition is_notif_ready :: "inflight_slab \<Rightarrow> inflight_key \<Rightarrow> bool" where
  "is_notif_ready s key \<longleftrightarrow> inflight_is_live s key \<and> bm_test (ib_notif_ready s) (word_bit (ik_slot key))"

text \<open>\<open>slot_ptr\<close> as the offset of the pointer in the region.\<close>

definition slot_ptr :: "inflight_slab \<Rightarrow> inflight_key \<Rightarrow> nat option" where
  "slot_ptr s key = (if \<not> inflight_is_live s key then None else Some (slot_offset s (ik_slot key)))"

definition slot_slice :: "inflight_slab \<Rightarrow> inflight_key \<Rightarrow> nat \<Rightarrow> bytes option exec" where
  "slot_slice s key len =
     (if \<not> inflight_is_live s key then Ret None
      else let offset = slot_offset s (ik_slot key); stop = offset + min len (unat (ib_stride s)) in
           exec_bind (storage_range s offset stop) (\<lambda>bs. Ret (Some bs)))"

text \<open>\<open>slot_array\<close> and \<open>slot_array_mut\<close>: the whole slot, converted to an array of the stride.\<close>

definition slot_array :: "inflight_slab \<Rightarrow> inflight_key \<Rightarrow> bytes option exec" where
  "slot_array s key =
     (if \<not> inflight_is_live s key then Ret None
      else let offset = slot_offset s (ik_slot key); stop = offset + unat (ib_stride s) in
           exec_bind (storage_range s offset stop) (\<lambda>bs.
             Ret (if length bs = unat INFLIGHT_BUF_STRIDE then Some bs else None)))"

definition slot_array_mut :: "inflight_slab \<Rightarrow> inflight_key \<Rightarrow> (nat \<times> bytes) option exec" where
  "slot_array_mut s key =
     (if \<not> inflight_is_live s key then Ret None
      else let offset = slot_offset s (ik_slot key); stop = offset + unat (ib_stride s) in
           exec_bind (storage_range s offset stop) (\<lambda>bs.
             Ret (if length bs = unat INFLIGHT_BUF_STRIDE then Some (offset, bs) else None)))"

end
