(* ===== verification/Call_Refinement.thy ===== *)
theory Call_Refinement
  imports Kwokka_Prelude
begin

text \<open>
  Sequences of calls on a component, and the contract by which a detailed component implements an
  abstract one, call by call.
\<close>

section \<open>Sequences of calls\<close>

fun run_exec :: "('s \<Rightarrow> 'c \<Rightarrow> ('r \<times> 's) exec) \<Rightarrow> 's \<Rightarrow> 'c list \<Rightarrow> ('r list \<times> 's) exec" where
  "run_exec ex s [] = Ret ([], s)"
| "run_exec ex s (c # cs) = exec_bind (ex s c) (\<lambda>(r, s'). exec_bind (run_exec ex s' cs) (\<lambda>(rs, s''). Ret (r # rs, s'')))"

fun run_calls :: "('s \<Rightarrow> 'c \<Rightarrow> 'r \<times> 's) \<Rightarrow> 's \<Rightarrow> 'c list \<Rightarrow> 'r list \<times> 's" where
  "run_calls ex s [] = ([], s)"
| "run_calls ex s (c # cs) = (case ex s c of (r, s') \<Rightarrow> case run_calls ex s' cs of (rs, s'') \<Rightarrow> (r # rs, s''))"

lemma run_exec_Ret: "run_exec (\<lambda>s c. Ret (f s c)) s cs = Ret (run_calls f s cs)"
  by (induction cs arbitrary: s) (simp_all split: prod.splits)

section \<open>Refinement\<close>

text \<open>
  A component that implements a specification: from a well-formed state every call returns, keeps
  well-formedness and answers as the specification does on the abstract state.
\<close>

locale call_refinement =
  fixes wf :: "'s \<Rightarrow> bool" and abs :: "'s \<Rightarrow> 'a"
    and impl :: "'s \<Rightarrow> 'c \<Rightarrow> ('r \<times> 's) exec" and spec :: "'a \<Rightarrow> 'c \<Rightarrow> 'r \<times> 'a"
  assumes refines: "wf s \<Longrightarrow> \<exists>r s'. impl s c = Ret (r, s') \<and> wf s' \<and> spec (abs s) c = (r, abs s')"
begin

lemma run_refines:
  assumes "wf s"
  shows "\<exists>rs s'. run_exec impl s cs = Ret (rs, s') \<and> wf s' \<and> run_calls spec (abs s) cs = (rs, abs s')"
  using assms
proof (induction cs arbitrary: s)
  case (Cons c cs)
  obtain r s' where a: "impl s c = Ret (r, s')" "wf s'" "spec (abs s) c = (r, abs s')"
    using refines [OF Cons.prems] by blast
  obtain rs s'' where b: "run_exec impl s' cs = Ret (rs, s'')" "wf s''" "run_calls spec (abs s') cs = (rs, abs s'')"
    using Cons.IH [OF a(2)] by blast
  show ?case using a b by simp
qed simp

end

end
