(* ===== verification/Inflight_Spec.thy ===== *)
theory Inflight_Spec
  imports Inflight_Slab Call_Refinement
begin

text \<open>
  What the in-flight slab promises: a table of slots, each vacant or held with its token and
  flags, and one private buffer per slot. The bitmap and byte-offset operations of
  \<open>Inflight_Slab\<close> implement it; the table is what callers reason about.
\<close>

section \<open>The specification\<close>

datatype islot =
    Vacant (is_gen: u64)
  | Held (is_gen: u64) (is_tok: u64) (is_pending: bool) (is_expected: bool) (is_ready: bool)
      "deferred_op option"

fun vacant :: "islot \<Rightarrow> bool" where
  "vacant (Vacant g) = True"
| "vacant (Held g t p e r d) = False"

fun held_by :: "u64 \<Rightarrow> islot \<Rightarrow> bool" where
  "held_by tok (Vacant g) = False"
| "held_by tok (Held g t p e r d) = (t = tok)"

fun retiring :: "islot \<Rightarrow> bool" where
  "retiring (Vacant g) = False"
| "retiring (Held g t p e r d) = p"

fun awaits_fd :: "i32 \<Rightarrow> islot \<Rightarrow> bool" where
  "awaits_fd fd (Vacant g) = False"
| "awaits_fd fd (Held g t p e r d) = (case d of None \<Rightarrow> False | Some op \<Rightarrow> do_fd op = fd)"

fun held_deferred :: "islot \<Rightarrow> deferred_op option" where
  "held_deferred (Vacant g) = None"
| "held_deferred (Held g t p e r d) = d"

fun with_pending :: "islot \<Rightarrow> islot" where
  "with_pending (Vacant g) = Vacant g"
| "with_pending (Held g t p e r d) = Held g t True e r d"

fun with_deferred :: "deferred_op option \<Rightarrow> islot \<Rightarrow> islot" where
  "with_deferred d' (Vacant g) = Vacant g"
| "with_deferred d' (Held g t p e r d) = Held g t p e r d'"

fun with_expected :: "islot \<Rightarrow> islot" where
  "with_expected (Vacant g) = Vacant g"
| "with_expected (Held g t p e r d) = Held g t p True r d"

fun with_ready :: "islot \<Rightarrow> islot" where
  "with_ready (Vacant g) = Vacant g"
| "with_ready (Held g t p e r d) = Held g t p e True d"

record inflight_spec =
  sp_worker :: u8
  sp_table :: "islot list"
  sp_bufs :: "bytes list"

definition first_slot :: "(islot \<Rightarrow> bool) \<Rightarrow> inflight_spec \<Rightarrow> nat option" where
  "first_slot P sp = find (\<lambda>i. P (sp_table sp ! i)) [0..<length (sp_table sp)]"

definition sp_live :: "inflight_spec \<Rightarrow> inflight_key \<Rightarrow> bool" where
  "sp_live sp key \<longleftrightarrow> ik_worker key = sp_worker sp \<and> unat (ik_slot key) < length (sp_table sp) \<and>
     \<not> vacant (sp_table sp ! unat (ik_slot key)) \<and> is_gen (sp_table sp ! unat (ik_slot key)) = ik_generation key"

definition sp_put :: "inflight_spec \<Rightarrow> nat \<Rightarrow> islot \<Rightarrow> inflight_spec" where
  "sp_put sp i e = sp\<lparr>sp_table := (sp_table sp)[i := e]\<rparr>"

definition sp_release :: "inflight_spec \<Rightarrow> nat \<Rightarrow> deferred_op option \<times> inflight_spec" where
  "sp_release sp i = (held_deferred (sp_table sp ! i), sp_put sp i (Vacant (is_gen (sp_table sp ! i) + 1)))"

section \<open>Calls\<close>

datatype inflight_call =
    CAllocate u64
  | CFree inflight_key
  | CMarkRetire inflight_key
  | CFreeByToken u64
  | CFreeIfPending u16 u16
  | CMarkDeferred u64 deferred_op
  | CKeyByFd i32
  | CRetireDeferred inflight_key
  | CNotifExpected u64
  | CNotifReady u64
  | CIsNotifReady inflight_key
  | CWrite inflight_key bytes
  | CSlice inflight_key nat

datatype inflight_reply =
    RUnit
  | RKey "inflight_key option"
  | RDeferred "deferred_op option"
  | RReclaimed reclaimed
  | RBool bool
  | RBytes "bytes option exec"

text \<open>A write stores at most a stride of bytes through the pointer \<open>slot_ptr\<close> returns.\<close>

fun inflight_exec :: "inflight_slab \<Rightarrow> inflight_call \<Rightarrow> inflight_reply \<times> inflight_slab" where
  "inflight_exec s (CAllocate tok) = map_prod RKey id (inflight_allocate s tok)"
| "inflight_exec s (CFree key) = map_prod RDeferred id (inflight_free s key)"
| "inflight_exec s (CMarkRetire key) = (RUnit, mark_retire_pending s key)"
| "inflight_exec s (CFreeByToken tok) = map_prod RReclaimed id (free_by_op_token s tok)"
| "inflight_exec s (CFreeIfPending slot low) = map_prod RDeferred id (free_if_retire_pending s slot low)"
| "inflight_exec s (CMarkDeferred tok op) = map_prod RBool id (mark_deferred_by_op_token s tok op)"
| "inflight_exec s (CKeyByFd fd) = (RKey (deferred_key_by_fd s fd), s)"
| "inflight_exec s (CRetireDeferred key) = map_prod RDeferred id (retire_deferred s key)"
| "inflight_exec s (CNotifExpected tok) = (RUnit, mark_notif_expected_by_op_token s tok)"
| "inflight_exec s (CNotifReady tok) = (RUnit, mark_notif_ready_by_op_token s tok)"
| "inflight_exec s (CIsNotifReady key) = (RBool (is_notif_ready s key), s)"
| "inflight_exec s (CWrite key bs) =
     (case slot_ptr s key of
        None \<Rightarrow> (RBool False, s)
      | Some offset \<Rightarrow> if length bs > unat INFLIGHT_BUF_STRIDE then (RBool False, s)
                       else (RBool True, storage_write s offset bs))"
| "inflight_exec s (CSlice key len) = (RBytes (slot_slice s key len), s)"

fun spec_exec :: "inflight_spec \<Rightarrow> inflight_call \<Rightarrow> inflight_reply \<times> inflight_spec" where
  "spec_exec sp (CAllocate tok) =
     (case first_slot vacant sp of
        None \<Rightarrow> (RKey None, sp)
      | Some i \<Rightarrow> let g = is_gen (sp_table sp ! i) in
          (RKey (Some \<lparr>ik_slot = of_nat i, ik_generation = g, ik_worker = sp_worker sp, ik_token = tok\<rparr>),
           sp_put sp i (Held g tok False False False None)))"
| "spec_exec sp (CFree key) =
     (if sp_live sp key then map_prod RDeferred id (sp_release sp (unat (ik_slot key))) else (RDeferred None, sp))"
| "spec_exec sp (CMarkRetire key) =
     (RUnit, if sp_live sp key
        then sp_put sp (unat (ik_slot key)) (with_pending (sp_table sp ! unat (ik_slot key)))
        else sp)"
| "spec_exec sp (CFreeByToken tok) =
     (case first_slot (\<lambda>e. retiring e \<and> held_by tok e) sp of
        None \<Rightarrow> (RReclaimed \<lparr>was_freed = False, rc_deferred = None\<rparr>, sp)
      | Some i \<Rightarrow> map_prod (\<lambda>d. RReclaimed \<lparr>was_freed = True, rc_deferred = d\<rparr>) id (sp_release sp i))"
| "spec_exec sp (CFreeIfPending slot low) =
     (if unat slot < length (sp_table sp) \<and> retiring (sp_table sp ! unat slot)
         \<and> ucast (is_gen (sp_table sp ! unat slot)) = low
         \<and> (is_expected (sp_table sp ! unat slot) \<longrightarrow> is_ready (sp_table sp ! unat slot))
      then map_prod RDeferred id (sp_release sp (unat slot)) else (RDeferred None, sp))"
| "spec_exec sp (CMarkDeferred tok op) =
     (case first_slot (held_by tok) sp of
        None \<Rightarrow> (RBool False, sp)
      | Some i \<Rightarrow> (RBool True, sp_put sp i (with_deferred (Some op) (sp_table sp ! i))))"
| "spec_exec sp (CKeyByFd fd) =
     (RKey (map_option (\<lambda>i. \<lparr>ik_slot = of_nat i, ik_generation = is_gen (sp_table sp ! i),
        ik_worker = sp_worker sp, ik_token = is_tok (sp_table sp ! i)\<rparr>) (first_slot (awaits_fd fd) sp)), sp)"
| "spec_exec sp (CRetireDeferred key) =
     (if sp_live sp key
      then (RDeferred (held_deferred (sp_table sp ! unat (ik_slot key))),
            sp_put sp (unat (ik_slot key)) (with_deferred None (sp_table sp ! unat (ik_slot key))))
      else (RDeferred None, sp))"
| "spec_exec sp (CNotifExpected tok) =
     (RUnit, case first_slot (held_by tok) sp of
        None \<Rightarrow> sp
      | Some i \<Rightarrow> sp_put sp i (with_expected (sp_table sp ! i)))"
| "spec_exec sp (CNotifReady tok) =
     (RUnit, case first_slot (held_by tok) sp of
        None \<Rightarrow> sp
      | Some i \<Rightarrow> sp_put sp i (with_ready (sp_table sp ! i)))"
| "spec_exec sp (CIsNotifReady key) = (RBool (sp_live sp key \<and> is_ready (sp_table sp ! unat (ik_slot key))), sp)"
| "spec_exec sp (CWrite key bs) =
     (if sp_live sp key \<and> length bs \<le> 4096
      then (RBool True, sp\<lparr>sp_bufs := (sp_bufs sp)[unat (ik_slot key) := bs @ drop (length bs) (sp_bufs sp ! unat (ik_slot key))]\<rparr>)
      else (RBool False, sp))"
| "spec_exec sp (CSlice key len) =
     (RBytes (Ret (if sp_live sp key then Some (take len (sp_bufs sp ! unat (ik_slot key))) else None)), sp)"

definition spec_new :: "u8 \<Rightarrow> nat \<Rightarrow> inflight_spec" where
  "spec_new worker_id cap =
     \<lparr>sp_worker = worker_id, sp_table = replicate cap (Vacant 0), sp_bufs = replicate cap (replicate 4096 0)\<rparr>"

section \<open>The abstraction\<close>

definition islot_of :: "inflight_slab \<Rightarrow> nat \<Rightarrow> islot" where
  "islot_of s i =
     (if bm_mem (ib_occupied s) i
      then Held (ib_generation s ! i) (ib_op_token s ! i) (bm_mem (ib_retire_pending s) i)
             (bm_mem (ib_notif_expected s) i) (bm_mem (ib_notif_ready s) i) (ib_deferred s ! i)
      else Vacant (ib_generation s ! i))"

definition inflight_abs :: "inflight_slab \<Rightarrow> inflight_spec" where
  "inflight_abs s =
     \<lparr>sp_worker = ib_worker s, sp_table = map (islot_of s) [0..<unat (ib_cap s)],
      sp_bufs = map (chunk 4096 (ib_storage s)) [0..<unat (ib_cap s)]\<rparr>"

text \<open>Well-formedness: array sizes, and no flag on a slot that is not occupied.\<close>

definition inflight_wf :: "inflight_slab \<Rightarrow> bool" where
  "inflight_wf s \<longleftrightarrow>
     length (ib_occupied s) = 4 \<and> length (ib_retire_pending s) = 4 \<and>
     length (ib_notif_expected s) = 4 \<and> length (ib_notif_ready s) = 4 \<and>
     length (ib_generation s) = 256 \<and> length (ib_op_token s) = 256 \<and> length (ib_deferred s) = 256 \<and>
     unat (ib_cap s) \<le> 256 \<and> ib_stride s = 4096 \<and> length (ib_storage s) = unat (ib_cap s) * 4096 \<and>
     (\<forall>i<256. bm_mem (ib_occupied s) i \<longrightarrow> i < unat (ib_cap s)) \<and>
     (\<forall>i<256. bm_mem (ib_retire_pending s) i \<or> bm_mem (ib_notif_expected s) i \<or> bm_mem (ib_notif_ready s) i
        \<or> ib_deferred s ! i \<noteq> None \<longrightarrow> bm_mem (ib_occupied s) i)"

lemma inflight_abs_simps [simp]:
  "length (sp_table (inflight_abs s)) = unat (ib_cap s)"
  "length (sp_bufs (inflight_abs s)) = unat (ib_cap s)"
  "i < unat (ib_cap s) \<Longrightarrow> sp_table (inflight_abs s) ! i = islot_of s i"
  "i < unat (ib_cap s) \<Longrightarrow> sp_bufs (inflight_abs s) ! i = chunk 4096 (ib_storage s) i"
  "sp_worker (inflight_abs s) = ib_worker s"
  by (simp_all add: inflight_abs_def)

lemma islot_of_cases [simp]:
  "vacant (islot_of s i) \<longleftrightarrow> \<not> bm_mem (ib_occupied s) i"
  "is_gen (islot_of s i) = ib_generation s ! i"
  "held_by tok (islot_of s i) \<longleftrightarrow> bm_mem (ib_occupied s) i \<and> ib_op_token s ! i = tok"
  "retiring (islot_of s i) \<longleftrightarrow> bm_mem (ib_occupied s) i \<and> bm_mem (ib_retire_pending s) i"
  "awaits_fd fd (islot_of s i) \<longleftrightarrow> bm_mem (ib_occupied s) i \<and> (\<exists>op. ib_deferred s ! i = Some op \<and> do_fd op = fd)"
  by (auto simp: islot_of_def split: option.splits)

lemma sp_live_abs: "inflight_wf s \<Longrightarrow> sp_live (inflight_abs s) key \<longleftrightarrow> inflight_is_live s key"
  by (auto simp: sp_live_def inflight_is_live_def word_less_nat_alt)

lemma inflight_live_slot:
  "inflight_wf s \<Longrightarrow> inflight_is_live s key \<Longrightarrow> unat (ik_slot key) < unat (ib_cap s) \<and> unat (ik_slot key) < 256
     \<and> bm_mem (ib_occupied s) (unat (ik_slot key))"
  by (auto simp: inflight_wf_def inflight_is_live_def word_less_nat_alt)

text \<open>A change to one slot is an update of the table there.\<close>

lemma inflight_abs_put:
  assumes "ib_worker s' = ib_worker s" "ib_cap s' = ib_cap s" "ib_storage s' = ib_storage s"
    and "\<forall>j. j \<noteq> i \<longrightarrow> islot_of s' j = islot_of s j"
  shows "inflight_abs s' = sp_put (inflight_abs s) i (islot_of s' i)"
  using assms map_upt_put [of "unat (ib_cap s)" i "islot_of s'" "islot_of s"]
  by (simp add: inflight_abs_def sp_put_def)

section \<open>The searches\<close>

lemma find_upt_bound:
  assumes "\<forall>i<m. P i \<longrightarrow> i < n" "n \<le> m"
  shows "find P [0..<m] = find P [0..<n]"
  using assms upt_split [of 0 n m] find_None_iff [of P "[n..<m]"]
  by (fastforce simp: find_append split: option.splits)

lemma first_slot_scan:
  assumes "inflight_wf s" "length bm = 4"
    and "\<And>i. i < 256 \<Longrightarrow> bm_mem bm i \<and> f i \<noteq> None \<longleftrightarrow> bm_mem (ib_occupied s) i \<and> P (islot_of s i)"
    and "\<And>i. f i = None \<or> f i = Some i" and "\<And>i. P (islot_of s i) \<Longrightarrow> bm_mem (ib_occupied s) i"
  shows "scan_words 0 bm f = first_slot P (inflight_abs s)"
proof -
  let ?Q = "\<lambda>i. P (islot_of s i)"
  have "64 * length bm = 256" using assms(2) by simp
  then have "scan_words 0 bm f = first_some (\<lambda>i. if bm_mem bm i then f i else None) [0..<256]"
    unfolding scan_words_eq by (simp only: mult_zero_left add_0)
  also have "\<dots> = first_some (\<lambda>i. if ?Q i then Some i else None) [0..<256]"
  proof (rule first_some_cong)
    fix i
    assume "i \<in> set [0..<256 :: nat]"
    then show "(if bm_mem bm i then f i else None) = (if ?Q i then Some i else None)"
      using assms(3,4) [of i] assms(5) [of i] by auto
  qed
  also have "\<dots> = find ?Q [0..<unat (ib_cap s)]"
    unfolding first_some_find using assms(1,5) by (intro find_upt_bound) (auto simp: inflight_wf_def)
  also have "\<dots> = first_slot P (inflight_abs s)"
    unfolding first_slot_def by (rule find_cong) simp_all
  finally show ?thesis .
qed

end
