(* ===== verification/Inflight_Refine.thy ===== *)
theory Inflight_Refine
  imports Inflight_Spec
begin

text \<open>
  Every operation of the in-flight slab keeps its well-formedness and acts on the table of
  slots as the specification says.
\<close>

section \<open>One operation at a time\<close>

lemma wf_caps:
  "inflight_wf s \<Longrightarrow> length (ib_occupied s) = 4 \<and> length (ib_retire_pending s) = 4 \<and> length (ib_notif_expected s) = 4
     \<and> length (ib_notif_ready s) = 4 \<and> length (ib_generation s) = 256 \<and> length (ib_op_token s) = 256
     \<and> length (ib_deferred s) = 256 \<and> unat (ib_cap s) \<le> 256 \<and> ib_stride s = 4096"
  by (simp add: inflight_wf_def)

lemma wf_occupied: "inflight_wf s \<Longrightarrow> i < 256 \<Longrightarrow> bm_mem (ib_occupied s) i \<Longrightarrow> i < unat (ib_cap s)"
  by (simp add: inflight_wf_def)

lemma wf_flags:
  assumes "inflight_wf s" "i < 256" "\<not> bm_mem (ib_occupied s) i"
  shows "\<not> bm_mem (ib_retire_pending s) i" "\<not> bm_mem (ib_notif_expected s) i" "\<not> bm_mem (ib_notif_ready s) i"
    "ib_deferred s ! i = None"
  using assms unfolding inflight_wf_def by metis+

lemma release_refines:
  assumes wf: "inflight_wf s" and slot: "unat slot < 256" "bm_mem (ib_occupied s) (unat slot)"
    and rel: "inflight_release s slot = (d, s')"
  shows "inflight_wf s'" and "sp_release (inflight_abs s) (unat slot) = (d, inflight_abs s')"
proof -
  note L = wf_caps [OF wf]
  have s': "s' = s\<lparr>ib_occupied := bm_drop (ib_occupied s) (word_bit slot),
      ib_retire_pending := bm_drop (ib_retire_pending s) (word_bit slot),
      ib_notif_expected := bm_drop (ib_notif_expected s) (word_bit slot),
      ib_notif_ready := bm_drop (ib_notif_ready s) (word_bit slot),
      ib_deferred := (ib_deferred s)[unat slot := None],
      ib_generation := (ib_generation s)[unat slot := ib_generation s ! unat slot + 1]\<rparr>"
    and d: "d = ib_deferred s ! unat slot"
    using rel by (auto simp: inflight_release_def clear_deferred_def Let_def)
  show "inflight_wf s'" using wf slot unfolding inflight_wf_def s' by (auto simp: nth_list_update)
  have "\<forall>j. j \<noteq> unat slot \<longrightarrow> islot_of s' j = islot_of s j"
    using L slot by (auto simp: islot_of_def s')
  then have "inflight_abs s' = sp_put (inflight_abs s) (unat slot) (islot_of s' (unat slot))"
    by (intro inflight_abs_put) (simp_all add: s')
  moreover have "islot_of s' (unat slot) = Vacant (ib_generation s ! unat slot + 1)"
    using L slot by (simp add: islot_of_def s')
  moreover have "held_deferred (islot_of s (unat slot)) = d" using slot d by (simp add: islot_of_def)
  ultimately show "sp_release (inflight_abs s) (unat slot) = (d, inflight_abs s')"
    using wf_occupied [OF wf slot] by (simp add: sp_release_def)
qed

lemma first_free_refines:
  assumes "inflight_wf s"
  shows "inflight_first_free s = map_option of_nat (first_slot vacant (inflight_abs s))"
proof -
  have "find (\<lambda>i. vacant (sp_table (inflight_abs s) ! i)) [0..<unat (ib_cap s)]
      = find (\<lambda>i. \<not> bm_mem (ib_occupied s) i) [0..<unat (ib_cap s)]"
    by (rule find_cong) simp_all
  then show ?thesis using wf_caps [OF assms]
    by (simp add: inflight_first_free_def first_free_in_eq first_slot_def)
qed

lemma first_slot_SomeD:
  "first_slot P (inflight_abs s) = Some i \<Longrightarrow> i < unat (ib_cap s) \<and> P (islot_of s i)"
  by (auto simp: first_slot_def find_Some_iff)

lemma allocate_refines:
  assumes wf: "inflight_wf s" and al: "inflight_allocate s tok = (k, s')"
  shows "inflight_wf s'" and "spec_exec (inflight_abs s) (CAllocate tok) = (RKey k, inflight_abs s')"
proof -
  note L = wf_caps [OF wf]
  have "inflight_wf s' \<and> spec_exec (inflight_abs s) (CAllocate tok) = (RKey k, inflight_abs s')"
  proof (cases "first_slot vacant (inflight_abs s)")
    case None
    then show ?thesis using al wf by (simp add: inflight_allocate_def first_free_refines)
  next
    case (Some i)
    then have i: "i < unat (ib_cap s)" "i < 256" "\<not> bm_mem (ib_occupied s) i" "unat (of_nat i :: u16) = i"
      using first_slot_SomeD [OF Some] L by auto
    have s': "s' = s\<lparr>ib_occupied := bm_raise (ib_occupied s) (word_bit (of_nat i)), ib_op_token := (ib_op_token s)[i := tok]\<rparr>"
      and k: "k = Some \<lparr>ik_slot = of_nat i, ik_generation = ib_generation s ! i, ik_worker = ib_worker s, ik_token = tok\<rparr>"
      using al Some i wf by (simp_all add: inflight_allocate_def first_free_refines)
    have "inflight_wf s'" using wf i unfolding inflight_wf_def s' by auto
    moreover have "\<forall>j. j \<noteq> i \<longrightarrow> islot_of s' j = islot_of s j" using L i by (auto simp: islot_of_def s')
    then have "inflight_abs s' = sp_put (inflight_abs s) i (islot_of s' i)"
      by (intro inflight_abs_put) (simp_all add: s')
    moreover have "islot_of s' i = Held (ib_generation s ! i) tok False False False None"
      using L i wf_flags [OF wf i(2,3)] by (simp add: islot_of_def s')
    ultimately show ?thesis using Some i k by (simp add: Let_def)
  qed
  then show "inflight_wf s'" and "spec_exec (inflight_abs s) (CAllocate tok) = (RKey k, inflight_abs s')" by simp_all
qed

lemma free_refines:
  assumes wf: "inflight_wf s" and fr: "inflight_free s key = (d, s')"
  shows "inflight_wf s'" and "spec_exec (inflight_abs s) (CFree key) = (RDeferred d, inflight_abs s')"
  using assms release_refines [OF wf, of "ik_slot key" d s'] inflight_live_slot [OF wf, of key]
  by (auto simp: inflight_free_def sp_live_abs split: if_splits)

lemma free_by_token_refines:
  assumes wf: "inflight_wf s" and fr: "free_by_op_token s tok = (rc, s')"
  shows "inflight_wf s'" and "spec_exec (inflight_abs s) (CFreeByToken tok) = (RReclaimed rc, inflight_abs s')"
proof -
  note L = wf_caps [OF wf]
  let ?P = "\<lambda>e. retiring e \<and> held_by tok e"
  have scan: "scan_words 0 (ib_retire_pending s) (\<lambda>slot.
      if ib_op_token s ! slot = tok \<and> bm_test (ib_occupied s) (slot div 64, slot mod 64) then Some slot else None)
    = first_slot ?P (inflight_abs s)"
    using L by (intro first_slot_scan [OF wf]) (auto simp: bm_test_at)
  have "inflight_wf s' \<and> spec_exec (inflight_abs s) (CFreeByToken tok) = (RReclaimed rc, inflight_abs s')"
  proof (cases "first_slot ?P (inflight_abs s)")
    case None
    then show ?thesis using fr wf unfolding free_by_op_token_def scan by simp
  next
    case (Some i)
    then have i: "i < 256" "bm_mem (ib_occupied s) i" "unat (of_nat i :: u16) = i"
      using first_slot_SomeD [OF Some] L by auto
    obtain d t where r: "inflight_release s (of_nat i) = (d, t)" by fastforce
    have "rc = \<lparr>was_freed = True, rc_deferred = d\<rparr>" "s' = t"
      using fr Some i r unfolding free_by_op_token_def scan by simp_all
    then show ?thesis using release_refines [OF wf _ _ r] i Some by simp
  qed
  then show "inflight_wf s'" and "spec_exec (inflight_abs s) (CFreeByToken tok) = (RReclaimed rc, inflight_abs s')"
    by simp_all
qed

text \<open>The operations that only change flags of a held slot.\<close>

lemma held_update:
  assumes wf: "inflight_wf s" and i: "i < 256" "bm_mem (ib_occupied s) i"
    and same: "ib_worker s' = ib_worker s" "ib_cap s' = ib_cap s" "ib_storage s' = ib_storage s"
      "ib_stride s' = ib_stride s" "ib_occupied s' = ib_occupied s" "ib_generation s' = ib_generation s"
      "ib_op_token s' = ib_op_token s"
    and len: "length (ib_retire_pending s') = 4" "length (ib_notif_expected s') = 4" "length (ib_notif_ready s') = 4"
      "length (ib_deferred s') = 256"
    and other: "\<And>j. j \<noteq> i \<Longrightarrow> bm_mem (ib_retire_pending s') j = bm_mem (ib_retire_pending s) j
      \<and> bm_mem (ib_notif_expected s') j = bm_mem (ib_notif_expected s) j
      \<and> bm_mem (ib_notif_ready s') j = bm_mem (ib_notif_ready s) j \<and> ib_deferred s' ! j = ib_deferred s ! j"
  shows "inflight_wf s' \<and> inflight_abs s' = sp_put (inflight_abs s) i (islot_of s' i)"
proof
  have "bm_mem (ib_occupied s) j" if "j < 256" "bm_mem (ib_retire_pending s') j \<or> bm_mem (ib_notif_expected s') j
      \<or> bm_mem (ib_notif_ready s') j \<or> ib_deferred s' ! j \<noteq> None" for j
    using that i other [of j] wf_flags [OF wf that(1)] by (cases "j = i") metis+
  then show "inflight_wf s'" using wf len unfolding inflight_wf_def same by blast
  show "inflight_abs s' = sp_put (inflight_abs s) i (islot_of s' i)"
    using same other by (intro inflight_abs_put) (simp_all add: islot_of_def)
qed

lemma mark_retire_refines:
  assumes wf: "inflight_wf s"
  shows "inflight_wf (mark_retire_pending s key) \<and>
    spec_exec (inflight_abs s) (CMarkRetire key) = (RUnit, inflight_abs (mark_retire_pending s key))"
proof (cases "inflight_is_live s key")
  case True
  note k = inflight_live_slot [OF wf True]
  let ?s = "mark_retire_pending s key"
  have "inflight_wf ?s \<and> inflight_abs ?s = sp_put (inflight_abs s) (unat (ik_slot key)) (islot_of ?s (unat (ik_slot key)))"
    using True k wf_caps [OF wf] by (intro held_update [OF wf]) (auto simp: mark_retire_pending_def)
  then show ?thesis using True k wf_caps [OF wf]
    by (simp add: sp_live_abs [OF wf] mark_retire_pending_def islot_of_def)
qed (simp add: wf mark_retire_pending_def sp_live_abs)

lemma occupied_by_token_refines:
  "inflight_wf s \<Longrightarrow> occupied_by_token s tok = first_slot (held_by tok) (inflight_abs s)"
  unfolding occupied_by_token_def by (rule first_slot_scan) (auto dest: wf_caps)

lemma held_slotD:
  assumes "inflight_wf s" "first_slot (held_by tok) (inflight_abs s) = Some i"
  shows "i < 256" "i < unat (ib_cap s)" "bm_mem (ib_occupied s) i"
  using first_slot_SomeD [OF assms(2)] wf_caps [OF assms(1)] by auto

lemma mark_deferred_refines:
  assumes wf: "inflight_wf s" and md: "mark_deferred_by_op_token s tok op = (b, s')"
  shows "inflight_wf s' \<and> spec_exec (inflight_abs s) (CMarkDeferred tok op) = (RBool b, inflight_abs s')"
proof (cases "first_slot (held_by tok) (inflight_abs s)")
  case None
  then show ?thesis using assms by (simp add: mark_deferred_by_op_token_def occupied_by_token_refines)
next
  case (Some i)
  note k = held_slotD [OF wf Some]
  have s': "b" "s' = s\<lparr>ib_deferred := (ib_deferred s)[i := Some op]\<rparr>"
    using assms Some by (simp_all add: mark_deferred_by_op_token_def occupied_by_token_refines)
  have "inflight_wf s' \<and> inflight_abs s' = sp_put (inflight_abs s) i (islot_of s' i)"
    using k wf_caps [OF wf] by (intro held_update [OF wf]) (auto simp: s')
  then show ?thesis using s' Some k wf_caps [OF wf] by (simp add: islot_of_def)
qed

lemma notif_refines:
  assumes wf: "inflight_wf s"
  shows "inflight_wf (mark_notif_expected_by_op_token s tok) \<and> spec_exec (inflight_abs s) (CNotifExpected tok)
      = (RUnit, inflight_abs (mark_notif_expected_by_op_token s tok))" (is ?E)
    and "inflight_wf (mark_notif_ready_by_op_token s tok) \<and> spec_exec (inflight_abs s) (CNotifReady tok)
      = (RUnit, inflight_abs (mark_notif_ready_by_op_token s tok))" (is ?R)
proof -
  have "?E \<and> ?R"
  proof (cases "first_slot (held_by tok) (inflight_abs s)")
    case None
    then show ?thesis using wf
      by (simp add: mark_notif_expected_by_op_token_def mark_notif_ready_by_op_token_def occupied_by_token_refines)
  next
    case (Some i)
    note k = held_slotD [OF wf Some]
    let ?e = "s\<lparr>ib_notif_expected := bm_raise (ib_notif_expected s) (i div 64, i mod 64)\<rparr>"
    let ?r = "s\<lparr>ib_notif_ready := bm_raise (ib_notif_ready s) (i div 64, i mod 64)\<rparr>"
    have "inflight_wf ?e \<and> inflight_abs ?e = sp_put (inflight_abs s) i (islot_of ?e i)"
      using k wf_caps [OF wf] by (intro held_update [OF wf]) (auto simp: bm_raise_at)
    moreover have "inflight_wf ?r \<and> inflight_abs ?r = sp_put (inflight_abs s) i (islot_of ?r i)"
      using k wf_caps [OF wf] by (intro held_update [OF wf]) (auto simp: bm_raise_at)
    moreover have "mark_notif_expected_by_op_token s tok = ?e" "mark_notif_ready_by_op_token s tok = ?r"
      using Some wf by (simp_all add: mark_notif_expected_by_op_token_def mark_notif_ready_by_op_token_def occupied_by_token_refines)
    ultimately show ?thesis using Some k wf_caps [OF wf] by (simp add: islot_of_def bm_raise_at)
  qed
  then show ?E and ?R by simp_all
qed

lemma free_if_pending_refines:
  assumes wf: "inflight_wf s" and fr: "free_if_retire_pending s slot low = (d, s')"
  shows "inflight_wf s' \<and> spec_exec (inflight_abs s) (CFreeIfPending slot low) = (RDeferred d, inflight_abs s')"
proof (cases "slot < ib_cap s")
  case False
  then show ?thesis using wf fr by (simp add: free_if_retire_pending_def word_less_nat_alt word_le_nat_alt)
next
  case True
  then have c: "unat slot < unat (ib_cap s)" "unat slot < 256" using wf_caps [OF wf] by (auto simp: word_less_nat_alt)
  show ?thesis
  proof (cases "bm_mem (ib_occupied s) (unat slot)")
    case occ: True
    then have "islot_of s (unat slot) = Held (ib_generation s ! unat slot) (ib_op_token s ! unat slot)
        (bm_mem (ib_retire_pending s) (unat slot)) (bm_mem (ib_notif_expected s) (unat slot))
        (bm_mem (ib_notif_ready s) (unat slot)) (ib_deferred s ! unat slot)" by (simp add: islot_of_def)
    then show ?thesis using True c occ wf fr release_refines [OF wf c(2) occ, of d s']
      by (auto simp: free_if_retire_pending_def Let_def low16_matches split: if_splits)
  qed (use True c wf fr in \<open>auto simp: free_if_retire_pending_def Let_def split: if_splits\<close>)
qed

lemma key_by_fd_refines:
  assumes wf: "inflight_wf s"
  shows "spec_exec (inflight_abs s) (CKeyByFd fd) = (RKey (deferred_key_by_fd s fd), inflight_abs s)"
proof -
  have scan: "scan_words 0 (ib_occupied s) (\<lambda>slot. case ib_deferred s ! slot of None \<Rightarrow> None
      | Some deferred \<Rightarrow> if do_fd deferred = fd then Some slot else None) = first_slot (awaits_fd fd) (inflight_abs s)"
    using wf_caps [OF wf] by (intro first_slot_scan [OF wf]) (auto split: option.splits)
  show ?thesis
  proof (cases "first_slot (awaits_fd fd) (inflight_abs s)")
    case (Some i)
    then show ?thesis using first_slot_SomeD [OF Some] wf_caps [OF wf]
      by (auto simp: deferred_key_by_fd_def scan islot_of_def)
  qed (simp add: deferred_key_by_fd_def scan)
qed

lemma retire_deferred_refines:
  assumes wf: "inflight_wf s" and rd: "retire_deferred s key = (d, s')"
  shows "inflight_wf s' \<and> spec_exec (inflight_abs s) (CRetireDeferred key) = (RDeferred d, inflight_abs s')"
proof (cases "inflight_is_live s key")
  case True
  note k = inflight_live_slot [OF wf True]
  let ?i = "unat (ik_slot key)"
  have s': "s' = s\<lparr>ib_deferred := (ib_deferred s)[?i := None]\<rparr>" "d = ib_deferred s ! ?i"
    using rd True by (auto simp: retire_deferred_def clear_deferred_def)
  have "inflight_wf s' \<and> inflight_abs s' = sp_put (inflight_abs s) ?i (islot_of s' ?i)"
    using k wf_caps [OF wf] by (intro held_update [OF wf]) (auto simp: s')
  then show ?thesis using True k s' wf_caps [OF wf] by (simp add: sp_live_abs [OF wf] islot_of_def)
qed (use wf rd in \<open>simp add: retire_deferred_def sp_live_abs\<close>)

lemma notif_ready_refines:
  assumes wf: "inflight_wf s"
  shows "is_notif_ready s key \<longleftrightarrow> sp_live (inflight_abs s) key \<and> is_ready (sp_table (inflight_abs s) ! unat (ik_slot key))"
  using inflight_live_slot [OF wf, of key] by (auto simp: is_notif_ready_def sp_live_abs [OF wf] islot_of_def)

lemma slice_refines:
  assumes wf: "inflight_wf s"
  shows "slot_slice s key len
    = Ret (if sp_live (inflight_abs s) key then Some (take len (sp_bufs (inflight_abs s) ! unat (ik_slot key))) else None)"
proof (cases "inflight_is_live s key")
  case True
  let ?i = "unat (ik_slot key)"
  have st: "length (ib_storage s) = unat (ib_cap s) * 4096" "?i < unat (ib_cap s)"
    using wf inflight_live_slot [OF wf True] by (simp_all add: inflight_wf_def)
  then have "?i * 4096 + min len 4096 \<le> length (ib_storage s)" using stride_le [of ?i "unat (ib_cap s)" 4096] by simp
  then show ?thesis using True st wf_caps [OF wf]
    by (simp add: slot_slice_def sp_live_abs [OF wf] slot_offset_def storage_range_def get_range_def chunk_def Let_def)
qed (simp add: slot_slice_def sp_live_abs [OF wf])

lemma chunk_overwrite:
  assumes "length buf = m * n" "i < m" "length bs \<le> n" "j < m"
  shows "chunk n (overwrite buf (i * n) bs) j = (if j = i then bs @ drop (length bs) (chunk n buf i) else chunk n buf j)"
proof -
  have b: "i * n + length bs \<le> length buf" using stride_le [OF assms(2), of n] assms(1,3) by simp
  show ?thesis
  proof (cases "j = i")
    case True
    then show ?thesis using assms stride_le [OF assms(2), of n]
      by (simp add: chunk_def overwrite_def drop_take min_def add.commute)
  next
    case False
    then have "j * n + n \<le> i * n \<or> i * n + n \<le> j * n" using stride_le [of j i n] stride_le [of i j n] by linarith
    then show ?thesis using False read_overwrite_other [OF b, of "j * n" n] assms(3) by (auto simp: chunk_def)
  qed
qed

lemma write_refines:
  assumes wf: "inflight_wf s" and w: "inflight_exec s (CWrite key bs) = (r, s')"
  shows "inflight_wf s' \<and> spec_exec (inflight_abs s) (CWrite key bs) = (r, inflight_abs s')"
proof (cases "inflight_is_live s key \<and> length bs \<le> 4096")
  case True
  let ?i = "unat (ik_slot key)" and ?m = "unat (ib_cap s)"
  have st: "length (ib_storage s) = ?m * 4096" "?i < ?m"
    using wf inflight_live_slot [OF wf] True by (simp_all add: inflight_wf_def)
  have b: "?i * 4096 + length bs \<le> length (ib_storage s)"
    using stride_le [OF st(2), of 4096] st(1) True by simp
  have s': "r = RBool True" "s' = s\<lparr>ib_storage := overwrite (ib_storage s) (?i * 4096) bs\<rparr>"
    using w True wf_caps [OF wf]
    by (simp_all add: slot_ptr_def slot_offset_def storage_write_def INFLIGHT_BUF_STRIDE_def split: if_splits)
  have "inflight_wf s'" using wf b by (simp add: inflight_wf_def s')
  moreover have "islot_of s' = islot_of s" by (auto simp: islot_of_def s')
  moreover have "map (chunk 4096 (overwrite (ib_storage s) (?i * 4096) bs)) [0..<?m]
      = (map (chunk 4096 (ib_storage s)) [0..<?m])[?i := bs @ drop (length bs) (chunk 4096 (ib_storage s) ?i)]"
    using chunk_overwrite [OF st(1,2) conjunct2 [OF True]]
    by (intro nth_equalityI) (auto simp: nth_list_update)
  then have "inflight_abs s' = (inflight_abs s)\<lparr>sp_bufs :=
      (sp_bufs (inflight_abs s))[?i := bs @ drop (length bs) (sp_bufs (inflight_abs s) ! ?i)]\<rparr>"
    using st \<open>islot_of s' = islot_of s\<close> by (simp add: inflight_abs_def s')
  ultimately show ?thesis using True s' by (simp add: sp_live_abs [OF wf])
qed (use wf w in \<open>auto simp: slot_ptr_def INFLIGHT_BUF_STRIDE_def sp_live_abs split: if_splits\<close>)

section \<open>All operations\<close>

lemma inflight_exec_refines:
  assumes wf: "inflight_wf s" and ex: "inflight_exec s c = (r, s')"
  shows "inflight_wf s' \<and> spec_exec (inflight_abs s) c = (r, inflight_abs s')"
proof (cases c)
  case (CAllocate tok)
  obtain k t where a: "inflight_allocate s tok = (k, t)" by fastforce
  show ?thesis using allocate_refines [OF wf a] ex CAllocate a by simp
next
  case (CFree key)
  obtain d t where a: "inflight_free s key = (d, t)" by fastforce
  show ?thesis using free_refines [OF wf a] ex CFree a by simp
next
  case (CFreeByToken tok)
  obtain d t where a: "free_by_op_token s tok = (d, t)" by fastforce
  show ?thesis using free_by_token_refines [OF wf a] ex CFreeByToken a by simp
next
  case (CFreeIfPending slot low)
  obtain d t where a: "free_if_retire_pending s slot low = (d, t)" by fastforce
  show ?thesis using free_if_pending_refines [OF wf a] ex CFreeIfPending a by simp
next
  case (CMarkDeferred tok op)
  obtain d t where a: "mark_deferred_by_op_token s tok op = (d, t)" by fastforce
  show ?thesis using mark_deferred_refines [OF wf a] ex CMarkDeferred a by simp
next
  case (CRetireDeferred key)
  obtain d t where a: "retire_deferred s key = (d, t)" by fastforce
  show ?thesis using retire_deferred_refines [OF wf a] ex CRetireDeferred a by simp
next
  case (CWrite key bs)
  then show ?thesis using write_refines [OF wf] ex by simp
qed (use wf ex mark_retire_refines [OF wf] key_by_fd_refines [OF wf] notif_refines [OF wf]
      notif_ready_refines [OF wf] slice_refines [OF wf] in auto)

interpretation inflight: call_refinement inflight_wf inflight_abs "\<lambda>s c. Ret (inflight_exec s c)" spec_exec
  by unfold_locales (metis inflight_exec_refines surj_pair)

lemma inflight_run_refines:
  assumes "inflight_wf s" "run_calls inflight_exec s cs = (rs, s')"
  shows "inflight_wf s' \<and> run_calls spec_exec (inflight_abs s) cs = (rs, inflight_abs s')"
  using inflight.run_refines [OF assms(1), of cs] assms(2) by (simp add: run_exec_Ret)

lemma inflight_new_wf:
  assumes "mmap_zeroed mmap" "inflight_new mmap w cap = Inr s"
  shows "inflight_wf s" and "inflight_abs s = spec_new w (min (unat cap) 256)"
proof -
  let ?c = "min cap 256"
  have c: "unat ?c = min (unat cap) 256" by (simp add: min_def word_le_nat_alt)
  have "mmap (unat ?c * 4096) = Mapped (ib_storage s)"
    using assms(2) by (auto simp: inflight_new_def mmap_region_new_def Let_def DEFAULT_INFLIGHT_CAP_def
        INFLIGHT_BUF_STRIDE_def split: if_splits mmap_outcome.splits)
  then have st: "ib_storage s = replicate (unat ?c * 4096) 0" using assms(1) by (simp add: mmap_zeroed_def)
  have s: "s = \<lparr>ib_storage = ib_storage s, ib_occupied = replicate 4 0, ib_retire_pending = replicate 4 0,
      ib_notif_expected = replicate 4 0, ib_notif_ready = replicate 4 0, ib_generation = replicate 256 0,
      ib_op_token = replicate 256 0, ib_deferred = replicate 256 None, ib_worker = w, ib_cap = ?c, ib_stride = 4096\<rparr>"
    using assms(2) by (auto simp: inflight_new_def Let_def DEFAULT_INFLIGHT_CAP_def INFLIGHT_BUF_STRIDE_def
        BITMAP_WORDS_def MAX_INFLIGHT_SLOTS_def)
  show "inflight_wf s" using st c by (subst s) (simp add: inflight_wf_def)
  have "map (islot_of s) [0..<unat ?c] = replicate (unat ?c) (Vacant 0)"
    using c by (subst s) (auto simp: islot_of_def intro!: nth_equalityI)
  moreover have "map (chunk 4096 (ib_storage s)) [0..<unat ?c] = replicate (unat ?c) (replicate 4096 0)"
    unfolding st by (intro nth_equalityI) (simp_all add: chunk_replicate)
  moreover have "ib_worker s = w" "ib_cap s = ?c" by (subst s, simp)+
  ultimately show "inflight_abs s = spec_new w (min (unat cap) 256)"
    unfolding inflight_abs_def spec_new_def by (simp only: c)
qed

section \<open>Generations\<close>

lemma with_gen [simp]:
  "is_gen (with_pending e) = is_gen e" "is_gen (with_deferred d e) = is_gen e"
  "is_gen (with_expected e) = is_gen e" "is_gen (with_ready e) = is_gen e"
  by (cases e; simp)+

definition gen_step :: "u64 \<Rightarrow> u64 \<Rightarrow> bool" where
  "gen_step g g' \<longleftrightarrow> g' = g \<or> g' = g + 1"

lemma gen_step_simps [simp]: "gen_step g g" "gen_step g (g + 1)"
  by (simp_all add: gen_step_def)

lemma put_gen:
  "gen_step (is_gen (tbl ! j)) (is_gen e) \<Longrightarrow> i < length tbl \<Longrightarrow> gen_step (is_gen (tbl ! i)) (is_gen (tbl[j := e] ! i))"
  by (cases "i = j") simp_all

lemma spec_exec_gen:
  assumes "spec_exec sp c = (r, sp')" "i < length (sp_table sp)"
  shows "length (sp_table sp') = length (sp_table sp) \<and> gen_step (is_gen (sp_table sp ! i)) (is_gen (sp_table sp' ! i))"
  using assms
  by (cases c) (auto simp: sp_put_def sp_release_def Let_def intro!: put_gen split: option.splits if_splits)

lemma spec_run_gen:
  assumes "run_calls spec_exec sp cs = (rs, sp')" "i < length (sp_table sp)"
  shows "\<exists>k \<le> length cs. is_gen (sp_table sp' ! i) = is_gen (sp_table sp ! i) + of_nat k"
  using assms
proof (induction cs arbitrary: sp rs)
  case (Cons c cs)
  obtain r t where a: "spec_exec sp c = (r, t)" by fastforce
  obtain rs' where b: "run_calls spec_exec t cs = (rs', sp')" using Cons.prems(1) a by (auto split: prod.splits)
  note g = spec_exec_gen [OF a Cons.prems(2)]
  obtain k where k: "k \<le> length cs" "is_gen (sp_table sp' ! i) = is_gen (sp_table t ! i) + of_nat k"
    using Cons.IH [OF b] g Cons.prems(2) by auto
  from g have "is_gen (sp_table t ! i) = is_gen (sp_table sp ! i) \<or> is_gen (sp_table t ! i) = is_gen (sp_table sp ! i) + 1"
    by (simp add: gen_step_def)
  then show ?case
  proof
    assume "is_gen (sp_table t ! i) = is_gen (sp_table sp ! i) + 1"
    then show ?thesis using k by (intro exI [of _ "Suc k"]) simp
  qed (use k in \<open>auto intro!: exI [of _ k]\<close>)
qed simp

lemma gen_not_back: "k + 1 < 2 ^ 64 \<Longrightarrow> (g :: u64) + 1 + of_nat k \<noteq> g"
proof
  assume "k + 1 < 2 ^ 64" "g + 1 + of_nat k = g"
  then have "(of_nat (k + 1) :: u64) = 0" by (simp add: add.commute add.left_commute)
  then have "unat (of_nat (k + 1) :: u64) = 0" by simp
  then show False using \<open>k + 1 < 2 ^ 64\<close> unat_of_nat_u64 [of "k + 1"] by simp
qed

section \<open>What the slab guarantees\<close>

text \<open>
  C21. The in-flight slab implements its specification: from \<open>new\<close> on, every sequence of calls
  returns what the table of slots with private buffers returns. A slot is found by searching the
  table from the lowest slot; a release gives back the deferred operation of exactly that slot
  and bumps its generation; a write through a live key changes that slot's buffer only.
\<close>

theorem inflight_refines_table:
  assumes "mmap_zeroed mmap" "inflight_new mmap w cap = Inr s" "run_calls inflight_exec s cs = (rs, s')"
  shows "run_calls spec_exec (spec_new w (min (unat cap) 256)) cs = (rs, inflight_abs s')"
  using inflight_run_refines [OF inflight_new_wf(1) [OF assms(1,2)] assms(3)] inflight_new_wf(2) [OF assms(1,2)] by simp

lemma zero_map_new:
  "0 < cap \<Longrightarrow> \<exists>s. inflight_new zero_map w cap = Inr s"
  by (auto simp: zero_map_def inflight_new_def mmap_region_new_def Let_def
      DEFAULT_INFLIGHT_CAP_def INFLIGHT_BUF_STRIDE_def min_def word_less_nat_alt)

theorem inflight_refines_table_witness:
  "\<exists>s s'. inflight_new zero_map 3 2 = Inr s \<and>
     run_calls inflight_exec s [CAllocate 7, CAllocate 8, CAllocate 9]
     = ([RKey (Some \<lparr>ik_slot = 0, ik_generation = 0, ik_worker = 3, ik_token = 7\<rparr>),
         RKey (Some \<lparr>ik_slot = 1, ik_generation = 0, ik_worker = 3, ik_token = 8\<rparr>), RKey None], s')"
proof -
  obtain s where s: "inflight_new zero_map 3 2 = Inr s" using zero_map_new [of 2 3] by auto
  obtain rs s' where r: "run_calls inflight_exec s [CAllocate 7, CAllocate 8, CAllocate 9] = (rs, s')" by fastforce
  have n: "spec_new 3 (min (unat (2 :: u16)) 256)
      = \<lparr>sp_worker = 3, sp_table = [Vacant 0, Vacant 0], sp_bufs = replicate 2 (replicate 4096 0)\<rparr>"
    by (simp add: spec_new_def) (simp add: numeral_2_eq_2)
  have "rs = [RKey (Some \<lparr>ik_slot = 0, ik_generation = 0, ik_worker = 3, ik_token = 7\<rparr>),
         RKey (Some \<lparr>ik_slot = 1, ik_generation = 0, ik_worker = 3, ik_token = 8\<rparr>), RKey None]"
    using inflight_refines_table [OF zero_map_zeroed s r] unfolding n
    by (auto simp: first_slot_def sp_put_def upt_rec)
  then show ?thesis using s r by blast
qed

lemma inflight_key_laws:
  assumes "inflight_wf s" "inflight_is_live s key"
  shows "inflight_allocate s tok = (Some key', s') \<Longrightarrow> inflight_is_live s' key' \<and> inflight_is_live s' key
      \<and> ik_slot key' \<noteq> ik_slot key
      \<and> slot_offset s' (ik_slot key') + 4096 \<le> length (ib_storage s')
      \<and> (slot_offset s' (ik_slot key) + 4096 \<le> slot_offset s' (ik_slot key')
         \<or> slot_offset s' (ik_slot key') + 4096 \<le> slot_offset s' (ik_slot key))"
    and "inflight_free s key = (d, t) \<Longrightarrow> run_calls inflight_exec t cs = (rs, t') \<Longrightarrow> length cs < 2 ^ 64 - 1
      \<Longrightarrow> \<not> inflight_is_live t' key"
proof -
  note k = inflight_live_slot [OF assms]
  let ?i = "unat (ik_slot key)"
  {
    assume al: "inflight_allocate s tok = (Some key', s')"
    then obtain i where i: "first_slot vacant (inflight_abs s) = Some i"
      and key': "key' = \<lparr>ik_slot = of_nat i, ik_generation = ib_generation s ! i, ik_worker = ib_worker s, ik_token = tok\<rparr>"
      and ab: "inflight_abs s' = sp_put (inflight_abs s) i (Held (ib_generation s ! i) tok False False False None)"
      using allocate_refines(2) [OF assms(1) al] first_slot_SomeD [of vacant s]
      by (auto simp: Let_def split: option.splits)
    have wf': "inflight_wf s'" using allocate_refines(1) [OF assms(1) al] .
    have b: "i < unat (ib_cap s)" "i < 256" "i \<noteq> ?i" "?i < unat (ib_cap s)"
      using first_slot_SomeD [OF i] wf_caps [OF assms(1)] k by auto
    have "sp_live (inflight_abs s') key'" "sp_live (inflight_abs s') key"
      using b key' assms k by (auto simp: ab sp_put_def sp_live_def simp flip: sp_live_abs)
    moreover have "slot_offset s' (ik_slot key') = i * 4096" "slot_offset s' (ik_slot key) = ?i * 4096"
      using b key' wf_caps [OF wf'] by (simp_all add: slot_offset_def)
    moreover have "length (ib_storage s') = unat (ib_cap s) * 4096"
      using wf' arg_cong [OF ab, of "\<lambda>sp. length (sp_table sp)"] by (simp add: inflight_wf_def sp_put_def)
    ultimately show "inflight_is_live s' key' \<and> inflight_is_live s' key
      \<and> ik_slot key' \<noteq> ik_slot key
      \<and> slot_offset s' (ik_slot key') + 4096 \<le> length (ib_storage s')
      \<and> (slot_offset s' (ik_slot key) + 4096 \<le> slot_offset s' (ik_slot key')
         \<or> slot_offset s' (ik_slot key') + 4096 \<le> slot_offset s' (ik_slot key))"
      using b key' stride_le [OF b(1), of 4096] stride_le [of i ?i 4096] stride_le [of ?i i 4096]
      by (auto simp: sp_live_abs [OF wf'])
  next
    assume f: "inflight_free s key = (d, t)" and r: "run_calls inflight_exec t cs = (rs, t')" and n: "length cs < 2 ^ 64 - 1"
    have wt: "inflight_wf t" and sp: "spec_exec (inflight_abs s) (CFree key) = (RDeferred d, inflight_abs t)"
      using free_refines [OF assms(1) f] by simp_all
    have "inflight_abs t = sp_put (inflight_abs s) ?i (Vacant (ik_generation key + 1))"
      using sp k assms by (auto simp: sp_live_abs [OF assms(1)] sp_release_def inflight_is_live_def)
    then have g: "is_gen (sp_table (inflight_abs t) ! ?i) = ik_generation key + 1" "?i < length (sp_table (inflight_abs t))"
      using k unfolding sp_put_def by (simp_all only:) simp_all
    obtain j where "j \<le> length cs" "is_gen (sp_table (inflight_abs t') ! ?i) = ik_generation key + 1 + of_nat j"
      using spec_run_gen [OF conjunct2 [OF inflight_run_refines [OF wt r]] g(2)] g(1) by auto
    then have "\<not> sp_live (inflight_abs t') key" using gen_not_back [of j "ik_generation key"] n by (auto simp: sp_live_def)
    then show "\<not> inflight_is_live t' key" using sp_live_abs inflight_run_refines [OF wt r] by blast
  }
qed

text \<open>
  C28. Keys are exclusive and do not come back: a key \<open>allocate\<close> returns is live and names a slot
  no live key names, the live keys stay live, and the byte ranges of two live keys of different
  slots are disjoint ranges of the region. A freed key is dead after every further sequence of
  fewer than \<open>2 ^ 64 - 1\<close> calls.
\<close>

theorem inflight_keys_exclusive:
  assumes "inflight_wf s" "inflight_is_live s key"
  shows "(\<forall>key' s'. inflight_allocate s tok = (Some key', s') \<longrightarrow>
        inflight_is_live s' key' \<and> inflight_is_live s' key \<and> ik_slot key' \<noteq> ik_slot key
        \<and> slot_offset s' (ik_slot key') + 4096 \<le> length (ib_storage s')
        \<and> (slot_offset s' (ik_slot key) + 4096 \<le> slot_offset s' (ik_slot key')
           \<or> slot_offset s' (ik_slot key') + 4096 \<le> slot_offset s' (ik_slot key)))
    \<and> (length cs < 2 ^ 64 - 1 \<longrightarrow>
        \<not> inflight_is_live (snd (run_calls inflight_exec (snd (inflight_free s key)) cs)) key)"
proof (intro conjI allI impI)
  fix key' s'
  assume "inflight_allocate s tok = (Some key', s')"
  note * = inflight_key_laws(1) [OF assms this]
  show "inflight_is_live s' key'" "inflight_is_live s' key" "ik_slot key' \<noteq> ik_slot key"
    "slot_offset s' (ik_slot key') + 4096 \<le> length (ib_storage s')"
    "slot_offset s' (ik_slot key) + 4096 \<le> slot_offset s' (ik_slot key')
       \<or> slot_offset s' (ik_slot key') + 4096 \<le> slot_offset s' (ik_slot key)"
    using * by blast+
next
  assume "length cs < 2 ^ 64 - 1"
  then show "\<not> inflight_is_live (snd (run_calls inflight_exec (snd (inflight_free s key)) cs)) key"
    using inflight_key_laws(2) [OF assms, of "fst (inflight_free s key)" "snd (inflight_free s key)" cs
        "fst (run_calls inflight_exec (snd (inflight_free s key)) cs)"] by simp
qed

lemma alloc_from_new:
  assumes s: "inflight_new zero_map 3 2 = Inr s"
  shows "\<exists>t. inflight_allocate s 7 = (Some \<lparr>ik_slot = 0, ik_generation = 0, ik_worker = 3, ik_token = 7\<rparr>, t) \<and> inflight_wf t
    \<and> inflight_abs t = \<lparr>sp_worker = 3, sp_table = [Held 0 7 False False False None, Vacant 0], sp_bufs = replicate 2 (replicate 4096 0)\<rparr>"
proof -
  note n = inflight_new_wf [OF zero_map_zeroed s]
  have ab: "inflight_abs s = \<lparr>sp_worker = 3, sp_table = [Vacant 0, Vacant 0], sp_bufs = replicate 2 (replicate 4096 0)\<rparr>"
    unfolding n(2) by (simp add: spec_new_def) (simp add: numeral_2_eq_2)
  obtain k t where a: "inflight_allocate s 7 = (k, t)" by fastforce
  show ?thesis using allocate_refines [OF n(1) a] a unfolding ab by (auto simp: first_slot_def sp_put_def upt_rec)
qed

theorem inflight_keys_exclusive_witness:
  "\<exists>s0 s key s' key'. inflight_new zero_map 3 2 = Inr s0 \<and> inflight_allocate s0 7 = (Some key, s)
     \<and> inflight_allocate s 8 = (Some key', s') \<and> ik_slot key' \<noteq> ik_slot key \<and> inflight_is_live s' key
     \<and> \<not> inflight_is_live (snd (inflight_free s key)) key"
proof -
  obtain s0 where s0: "inflight_new zero_map 3 2 = Inr s0" using zero_map_new [of 2 3] by auto
  let ?k = "\<lparr>ik_slot = 0, ik_generation = 0, ik_worker = 3, ik_token = 7\<rparr>"
  obtain s where a: "inflight_allocate s0 7 = (Some ?k, s)" and wf: "inflight_wf s"
    and ab: "inflight_abs s = \<lparr>sp_worker = 3, sp_table = [Held 0 7 False False False None, Vacant 0], sp_bufs = replicate 2 (replicate 4096 0)\<rparr>"
    using alloc_from_new [OF s0] by blast
  have live: "inflight_is_live s ?k" using wf ab by (simp add: sp_live_def flip: sp_live_abs)
  obtain k' s' where b: "inflight_allocate s 8 = (k', s')" by fastforce
  then obtain key' where key': "k' = Some key'"
    using allocate_refines(2) [OF wf b] unfolding ab by (auto simp: first_slot_def upt_rec Let_def)
  obtain d t where f: "inflight_free s ?k = (d, t)" by fastforce
  have "\<not> inflight_is_live t ?k" "ik_slot key' \<noteq> ik_slot ?k \<and> inflight_is_live s' ?k"
    using inflight_keys_exclusive [OF wf live, of 8 "[]"] b key' f by auto
  then show ?thesis using s0 a b key' f by fastforce
qed

text \<open>
  C29. From \<open>new\<close> on, every sequence of calls leaves the slab well formed: no slot at or above the
  capacity is occupied and no vacant slot carries a flag or a deferred operation. No accessor
  then indexes out of the region: \<open>slot_slice\<close>, \<open>slot_array\<close> and \<open>retry_parts\<close> return, and a
  live key has its array of one stride.
\<close>

theorem inflight_well_typed:
  assumes "mmap_zeroed mmap" "inflight_new mmap w cap = Inr s0" "run_calls inflight_exec s0 cs = (rs, s)"
  shows "inflight_wf s \<and> (\<exists>r. slot_slice s key len = Ret r) \<and> (\<exists>r. retry_parts s key = Ret r)
    \<and> (\<exists>r. slot_array s key = Ret r \<and> (inflight_is_live s key \<longrightarrow> (\<exists>bs. r = Some bs \<and> length bs = 4096)))"
proof (intro conjI)
  show wf: "inflight_wf s" using inflight_run_refines [OF inflight_new_wf(1) [OF assms(1,2)] assms(3)] by simp
  show "\<exists>r. slot_slice s key len = Ret r" using slice_refines [OF wf] by blast
  have b: "unat (ik_slot key) * 4096 + n \<le> length (ib_storage s)" if "inflight_is_live s key" "n \<le> 4096" for n
    using inflight_live_slot [OF wf that(1)] wf stride_le [of "unat (ik_slot key)" "unat (ib_cap s)" 4096] that(2)
    by (simp add: inflight_wf_def)
  have "unat (min x 4096 :: u32) \<le> 4096" for x by (simp add: min_def word_le_nat_alt)
  then show "\<exists>r. retry_parts s key = Ret r" using b wf_caps [OF wf]
    by (auto simp: retry_parts_def Let_def slot_offset_def storage_range_def get_range_def split: option.splits)
  show "\<exists>r. slot_array s key = Ret r \<and> (inflight_is_live s key \<longrightarrow> (\<exists>bs. r = Some bs \<and> length bs = 4096))"
    using b [of 4096] wf_caps [OF wf]
    by (auto simp: slot_array_def Let_def slot_offset_def storage_range_def get_range_def INFLIGHT_BUF_STRIDE_def)
qed

theorem inflight_well_typed_witness:
  "\<exists>s0. inflight_new zero_map 3 2 = Inr s0 \<and> inflight_wf s0"
proof -
  obtain s0 where s0: "inflight_new zero_map 3 2 = Inr s0" using zero_map_new [of 2 3] by auto
  show ?thesis using s0 inflight_well_typed [OF zero_map_zeroed s0, of "[]" "[]" s0] by simp
qed

end
