(* ===== verification/Stream_Spec.thy ===== *)
theory Stream_Spec
  imports Inflight_Slab Call_Refinement
begin

text \<open>
  What the two multishot slabs of \<open>kwokka-io\<close> promise: a table of slots, each vacant or held by
  a stream with its owner token, the completions queued for it, and whether the stream has ended
  or is being cancelled. The slab of multishot receives also keeps the last completion of a
  stream aside until its queue is drained.
\<close>

section \<open>Keys and outcomes\<close>

text \<open>\<open>MultishotSlotKey\<close> and \<open>RecvMultishotSlotKey\<close> have the same three fields.\<close>

record stream_key =
  sk_slot :: u16
  sk_generation :: u64
  sk_worker :: u8

datatype stream_push = Queued | Terminal | Overflowed | Stale

definition MULTISHOT_FIFO_DEPTH :: u16 where "MULTISHOT_FIFO_DEPTH = 64"

text \<open>Addition on \<open>u16\<close>, which panics on overflow in a checked build.\<close>

definition add_u16 :: "u16 \<Rightarrow> u16 \<Rightarrow> u16 exec" where
  "add_u16 a b = (if unat a + unat b < 65536 then Ret (a + b) else Panic)"

lemma add_u16_small [simp]: "unat a + unat b < 65536 \<Longrightarrow> add_u16 a b = Ret (a + b)"
  by (simp add: add_u16_def)

section \<open>The specification\<close>

record 'e stream =
  st_owner :: u64
  st_queue :: "'e list"
  st_stash :: "'e option"
  st_ended :: bool
  st_cancel :: bool

text \<open>A slot: its generation, and the stream that holds it.\<close>

type_synonym 'e sslot = "u64 \<times> 'e stream option"

record 'e stream_spec =
  ss_worker :: u8
  ss_table :: "'e sslot list"

datatype 'e stream_call =
    SAllocate u64
  | SPush u16 u16 'e bool
  | SPop stream_key
  | STakeTerminal stream_key
  | SOwner u16 u16
  | SIsTerminated stream_key
  | SMarkCancel stream_key
  | SFree stream_key
  | SIsCancelPending u16 u16
  | SFreeBySlot u16 u16

datatype 'e stream_reply =
    SUnit
  | SKey "stream_key option"
  | SPushed stream_push
  | SItem "'e option"
  | SToken "u64 option"
  | SBool bool

definition held_key :: "'e stream_spec \<Rightarrow> stream_key \<Rightarrow> 'e stream option" where
  "held_key sp key =
     (if sk_worker key = ss_worker sp \<and> unat (sk_slot key) < length (ss_table sp)
         \<and> fst (ss_table sp ! unat (sk_slot key)) = sk_generation key
      then snd (ss_table sp ! unat (sk_slot key)) else None)"

definition held_slot :: "'e stream_spec \<Rightarrow> u16 \<Rightarrow> u16 \<Rightarrow> 'e stream option" where
  "held_slot sp slot low =
     (if unat slot < length (ss_table sp) \<and> ucast (fst (ss_table sp ! unat slot)) = low
      then snd (ss_table sp ! unat slot) else None)"

definition ss_put :: "'e stream_spec \<Rightarrow> nat \<Rightarrow> 'e stream option \<Rightarrow> 'e stream_spec" where
  "ss_put sp i st = sp\<lparr>ss_table := (ss_table sp)[i := (fst (ss_table sp ! i), st)]\<rparr>"

definition ss_release :: "'e stream_spec \<Rightarrow> nat \<Rightarrow> 'e stream_spec" where
  "ss_release sp i = sp\<lparr>ss_table := (ss_table sp)[i := (fst (ss_table sp ! i) + 1, None)]\<rparr>"

text \<open>A completion for a stream: \<open>stash\<close> says whether a final one is kept aside.\<close>

definition stream_take :: "bool \<Rightarrow> 'e stream \<Rightarrow> 'e \<Rightarrow> bool \<Rightarrow> stream_push \<times> 'e stream" where
  "stream_take stash st e is_more =
     (if stash \<and> \<not> is_more then (Terminal, st\<lparr>st_stash := Some e, st_ended := True\<rparr>)
      else let st' = (if is_more then st else st\<lparr>st_ended := True\<rparr>) in
           if 64 \<le> length (st_queue st') then (Overflowed, st')
           else (Queued, st'\<lparr>st_queue := st_queue st' @ [e]\<rparr>))"

fun stream_spec_exec :: "bool \<Rightarrow> 'e stream_spec \<Rightarrow> 'e stream_call \<Rightarrow> 'e stream_reply \<times> 'e stream_spec" where
  "stream_spec_exec stash sp (SAllocate owner) =
     (case find (\<lambda>i. snd (ss_table sp ! i) = None) [0..<length (ss_table sp)] of
        None \<Rightarrow> (SKey None, sp)
      | Some i \<Rightarrow>
          (SKey (Some \<lparr>sk_slot = of_nat i, sk_generation = fst (ss_table sp ! i), sk_worker = ss_worker sp\<rparr>),
           ss_put sp i (Some \<lparr>st_owner = owner, st_queue = [], st_stash = None, st_ended = False, st_cancel = False\<rparr>)))"
| "stream_spec_exec stash sp (SPush slot low e is_more) =
     (case held_slot sp slot low of
        None \<Rightarrow> (SPushed Stale, sp)
      | Some st \<Rightarrow> let (r, st') = stream_take stash st e is_more in (SPushed r, ss_put sp (unat slot) (Some st')))"
| "stream_spec_exec stash sp (SPop key) =
     (case held_key sp key of
        None \<Rightarrow> (SItem None, sp)
      | Some st \<Rightarrow> (case st_queue st of
            [] \<Rightarrow> (SItem None, sp)
          | e # es \<Rightarrow> (SItem (Some e), ss_put sp (unat (sk_slot key)) (Some (st\<lparr>st_queue := es\<rparr>)))))"
| "stream_spec_exec stash sp (STakeTerminal key) =
     (case held_key sp key of
        None \<Rightarrow> (SItem None, sp)
      | Some st \<Rightarrow> (SItem (st_stash st), ss_put sp (unat (sk_slot key)) (Some (st\<lparr>st_stash := None\<rparr>))))"
| "stream_spec_exec stash sp (SOwner slot low) = (SToken (map_option st_owner (held_slot sp slot low)), sp)"
| "stream_spec_exec stash sp (SIsTerminated key) =
     (SBool (case held_key sp key of None \<Rightarrow> False | Some st \<Rightarrow> st_ended st), sp)"
| "stream_spec_exec stash sp (SMarkCancel key) =
     (SUnit, case held_key sp key of
        None \<Rightarrow> sp
      | Some st \<Rightarrow> ss_put sp (unat (sk_slot key)) (Some (st\<lparr>st_cancel := True\<rparr>)))"
| "stream_spec_exec stash sp (SFree key) =
     (SUnit, case held_key sp key of None \<Rightarrow> sp | Some st \<Rightarrow> ss_release sp (unat (sk_slot key)))"
| "stream_spec_exec stash sp (SIsCancelPending slot low) =
     (SBool (case held_slot sp slot low of None \<Rightarrow> False | Some st \<Rightarrow> st_cancel st), sp)"
| "stream_spec_exec stash sp (SFreeBySlot slot low) =
     (SUnit, case held_slot sp slot low of None \<Rightarrow> sp | Some st \<Rightarrow> ss_release sp (unat slot))"

definition stream_spec_new :: "u8 \<Rightarrow> nat \<Rightarrow> 'e stream_spec" where
  "stream_spec_new worker_id cap = \<lparr>ss_worker = worker_id, ss_table = replicate cap (0, None)\<rparr>"

lemma ss_put_same [simp]: "i < length (ss_table sp) \<Longrightarrow> ss_put sp i (snd (ss_table sp ! i)) = sp"
  by (simp add: ss_put_def)

lemma unat_u16_arith:
  "unat (a :: u16) + unat b < 65536 \<Longrightarrow> unat (a + b) = unat a + unat b"
  "unat (a mod 64 :: u16) = unat a mod 64" "a \<noteq> 0 \<Longrightarrow> unat (a - 1 :: u16) = unat a - 1"
  by (simp_all add: unat_word_ariths unat_mod_distrib unat_minus_one)

end
