(* ===== verification/Recv_Slab.thy ===== *)
theory Recv_Slab
  imports Stream_Spec
begin

text \<open>
  The slab of multishot receives (\<open>buffer/multishot/recv.rs\<close>). Queued completions and the
  per-slot fields live as little-endian bytes in two memory regions; the flags of the slots are
  bitmaps.
\<close>

section \<open>State\<close>

record recv_slab =
  rv_storage :: bytes
  rv_metadata :: bytes
  rv_occupied :: bitmap
  rv_terminated :: bitmap
  rv_terminal_stashed :: bitmap
  rv_cancel_pending :: bitmap
  rv_worker :: u8
  rv_cap :: u16

definition DEFAULT_RECV_MULTISHOT_CAP :: u16 where "DEFAULT_RECV_MULTISHOT_CAP = 256"
definition ENTRY_LEN :: nat where "ENTRY_LEN = 6"
definition META_ENTRY_LEN :: nat where "META_ENTRY_LEN = 26"
definition META_LEN_OFFSET :: nat where "META_LEN_OFFSET = 2"
definition META_GENERATION_OFFSET :: nat where "META_GENERATION_OFFSET = 4"
definition META_OWNER_TOKEN_OFFSET :: nat where "META_OWNER_TOKEN_OFFSET = 12"
definition META_TERMINAL_RESULT_OFFSET :: nat where "META_TERMINAL_RESULT_OFFSET = 20"
definition META_TERMINAL_BUF_ID_OFFSET :: nat where "META_TERMINAL_BUF_ID_OFFSET = 24"
definition MAX_RECV_MULTISHOT_SLOTS :: nat where "MAX_RECV_MULTISHOT_SLOTS = unat DEFAULT_RECV_MULTISHOT_CAP"
definition RECV_BITMAP_WORDS :: nat where "RECV_BITMAP_WORDS = MAX_RECV_MULTISHOT_SLOTS div 64"
definition NO_BUFFER :: u16 where "NO_BUFFER = 0xFFFF"

lemmas recv_consts = ENTRY_LEN_def META_ENTRY_LEN_def META_LEN_OFFSET_def META_GENERATION_OFFSET_def
  META_OWNER_TOKEN_OFFSET_def META_TERMINAL_RESULT_OFFSET_def META_TERMINAL_BUF_ID_OFFSET_def
  MAX_RECV_MULTISHOT_SLOTS_def DEFAULT_RECV_MULTISHOT_CAP_def MULTISHOT_FIFO_DEPTH_def

section \<open>Fields in the metadata region\<close>

definition region_read_u16 :: "bytes \<Rightarrow> nat \<Rightarrow> u16" where
  "region_read_u16 region off = (case get_range region off (off + 2) of None \<Rightarrow> 0 | Some bs \<Rightarrow> le_word bs)"

definition region_write_u16 :: "bytes \<Rightarrow> nat \<Rightarrow> u16 \<Rightarrow> bytes" where
  "region_write_u16 region off v =
     (case get_range region off (off + 2) of None \<Rightarrow> region | Some bs \<Rightarrow> overwrite region off (le_bytes 2 v))"

definition region_read_u64 :: "bytes \<Rightarrow> nat \<Rightarrow> u64" where
  "region_read_u64 region off = (case get_range region off (off + 8) of None \<Rightarrow> 0 | Some bs \<Rightarrow> le_word bs)"

definition region_write_u64 :: "bytes \<Rightarrow> nat \<Rightarrow> u64 \<Rightarrow> bytes" where
  "region_write_u64 region off v =
     (case get_range region off (off + 8) of None \<Rightarrow> region | Some bs \<Rightarrow> overwrite region off (le_bytes 8 v))"

definition region_read_i32 :: "bytes \<Rightarrow> nat \<Rightarrow> i32" where
  "region_read_i32 region off = (case get_range region off (off + 4) of None \<Rightarrow> 0 | Some bs \<Rightarrow> le_word bs)"

definition region_write_i32 :: "bytes \<Rightarrow> nat \<Rightarrow> i32 \<Rightarrow> bytes" where
  "region_write_i32 region off v =
     (case get_range region off (off + 4) of None \<Rightarrow> region | Some bs \<Rightarrow> overwrite region off (le_bytes 4 v))"

definition entry_offset :: "u16 \<Rightarrow> u16 \<Rightarrow> nat" where
  "entry_offset slot ring_index = (unat slot * unat MULTISHOT_FIFO_DEPTH + unat ring_index) * ENTRY_LEN"

definition meta_offset :: "u16 \<Rightarrow> nat" where
  "meta_offset slot = unat slot * META_ENTRY_LEN"

definition slot_head :: "recv_slab \<Rightarrow> u16 \<Rightarrow> u16" where
  "slot_head s slot = region_read_u16 (rv_metadata s) (meta_offset slot)"

definition set_slot_head :: "recv_slab \<Rightarrow> u16 \<Rightarrow> u16 \<Rightarrow> recv_slab" where
  "set_slot_head s slot v = s\<lparr>rv_metadata := region_write_u16 (rv_metadata s) (meta_offset slot) v\<rparr>"

definition slot_len :: "recv_slab \<Rightarrow> u16 \<Rightarrow> u16" where
  "slot_len s slot = region_read_u16 (rv_metadata s) (meta_offset slot + META_LEN_OFFSET)"

definition set_slot_len :: "recv_slab \<Rightarrow> u16 \<Rightarrow> u16 \<Rightarrow> recv_slab" where
  "set_slot_len s slot v = s\<lparr>rv_metadata := region_write_u16 (rv_metadata s) (meta_offset slot + META_LEN_OFFSET) v\<rparr>"

definition slot_generation :: "recv_slab \<Rightarrow> u16 \<Rightarrow> u64" where
  "slot_generation s slot = region_read_u64 (rv_metadata s) (meta_offset slot + META_GENERATION_OFFSET)"

definition set_slot_generation :: "recv_slab \<Rightarrow> u16 \<Rightarrow> u64 \<Rightarrow> recv_slab" where
  "set_slot_generation s slot v =
     s\<lparr>rv_metadata := region_write_u64 (rv_metadata s) (meta_offset slot + META_GENERATION_OFFSET) v\<rparr>"

definition slot_owner_token :: "recv_slab \<Rightarrow> u16 \<Rightarrow> u64" where
  "slot_owner_token s slot = region_read_u64 (rv_metadata s) (meta_offset slot + META_OWNER_TOKEN_OFFSET)"

definition set_slot_owner_token :: "recv_slab \<Rightarrow> u16 \<Rightarrow> u64 \<Rightarrow> recv_slab" where
  "set_slot_owner_token s slot v =
     s\<lparr>rv_metadata := region_write_u64 (rv_metadata s) (meta_offset slot + META_OWNER_TOKEN_OFFSET) v\<rparr>"

definition slot_terminal :: "recv_slab \<Rightarrow> u16 \<Rightarrow> i32 \<times> u16" where
  "slot_terminal s slot =
     (let base = meta_offset slot in
      (region_read_i32 (rv_metadata s) (base + META_TERMINAL_RESULT_OFFSET),
       region_read_u16 (rv_metadata s) (base + META_TERMINAL_BUF_ID_OFFSET)))"

definition set_slot_terminal :: "recv_slab \<Rightarrow> u16 \<Rightarrow> i32 \<Rightarrow> u16 \<Rightarrow> recv_slab" where
  "set_slot_terminal s slot result buf_id =
     (let base = meta_offset slot;
          m1 = region_write_i32 (rv_metadata s) (base + META_TERMINAL_RESULT_OFFSET) result in
      s\<lparr>rv_metadata := region_write_u16 m1 (base + META_TERMINAL_BUF_ID_OFFSET) buf_id\<rparr>)"

section \<open>Operations\<close>

definition recv_new :: "(nat \<Rightarrow> mmap_outcome) \<Rightarrow> u8 \<Rightarrow> u16 \<Rightarrow> io_error + recv_slab" where
  "recv_new mmap worker_id cap0 =
     (let cap = min cap0 DEFAULT_RECV_MULTISHOT_CAP; depth = unat MULTISHOT_FIFO_DEPTH in
      res_bind (mmap_region_new mmap (MAX_RECV_MULTISHOT_SLOTS * depth * ENTRY_LEN)) (\<lambda>storage.
      res_bind (mmap_region_new mmap (MAX_RECV_MULTISHOT_SLOTS * META_ENTRY_LEN)) (\<lambda>metadata.
        Inr \<lparr>rv_storage = storage, rv_metadata = metadata,
             rv_occupied = replicate RECV_BITMAP_WORDS 0, rv_terminated = replicate RECV_BITMAP_WORDS 0,
             rv_terminal_stashed = replicate RECV_BITMAP_WORDS 0, rv_cancel_pending = replicate RECV_BITMAP_WORDS 0,
             rv_worker = worker_id, rv_cap = cap\<rparr>)))"

definition recv_first_free :: "recv_slab \<Rightarrow> u16 option" where
  "recv_first_free s = first_free_in (unat (rv_cap s)) 0 (rv_occupied s)"

definition recv_is_live :: "recv_slab \<Rightarrow> stream_key \<Rightarrow> bool" where
  "recv_is_live s key \<longleftrightarrow>
     sk_worker key = rv_worker s \<and> sk_slot key < rv_cap s \<and>
     bm_test (rv_occupied s) (word_bit (sk_slot key)) \<and> slot_generation s (sk_slot key) = sk_generation key"

definition recv_is_slot_live :: "recv_slab \<Rightarrow> u16 \<Rightarrow> u16 \<Rightarrow> bool" where
  "recv_is_slot_live s slot generation_low16 \<longleftrightarrow>
     slot < rv_cap s \<and> bm_test (rv_occupied s) (word_bit slot) \<and>
     slot_generation s slot AND 0xFFFF = ucast generation_low16"

definition recv_allocate :: "recv_slab \<Rightarrow> u64 \<Rightarrow> stream_key option \<times> recv_slab" where
  "recv_allocate s owner_token =
     (case recv_first_free s of
        None \<Rightarrow> (None, s)
      | Some slot \<Rightarrow>
          let wb = word_bit slot;
              s1 = s\<lparr>rv_occupied := bm_raise (rv_occupied s) wb,
                     rv_terminated := bm_drop (rv_terminated s) wb,
                     rv_terminal_stashed := bm_drop (rv_terminal_stashed s) wb,
                     rv_cancel_pending := bm_drop (rv_cancel_pending s) wb\<rparr>;
              s2 = set_slot_owner_token (set_slot_len (set_slot_head s1 slot 0) slot 0) slot owner_token in
          (Some \<lparr>sk_slot = slot, sk_generation = slot_generation s2 slot, sk_worker = rv_worker s2\<rparr>, s2))"

definition recv_push :: "recv_slab \<Rightarrow> u16 \<Rightarrow> u16 \<Rightarrow> i32 \<Rightarrow> u16 \<Rightarrow> bool \<Rightarrow> (stream_push \<times> recv_slab) exec" where
  "recv_push s slot generation_low16 result buf_id is_more =
     (if \<not> recv_is_slot_live s slot generation_low16 then Ret (Stale, s)
      else if \<not> is_more then
        let wb = word_bit slot;
            s1 = set_slot_terminal (s\<lparr>rv_terminated := bm_raise (rv_terminated s) wb\<rparr>) slot result buf_id in
        Ret (Terminal, s1\<lparr>rv_terminal_stashed := bm_raise (rv_terminal_stashed s1) wb\<rparr>)
      else
        let len = slot_len s slot in
        if MULTISHOT_FIFO_DEPTH \<le> len then Ret (Overflowed, s)
        else let head = slot_head s slot in
          exec_bind (add_u16 head len) (\<lambda>sum.
          let ring_index = sum mod MULTISHOT_FIFO_DEPTH; offset = entry_offset slot ring_index in
          exec_bind (put_slice (rv_storage s) offset (le_bytes 4 result)) (\<lambda>b1.
          exec_bind (put_slice b1 (offset + 4) (le_bytes 2 buf_id)) (\<lambda>b2.
          exec_bind (add_u16 len 1) (\<lambda>len'.
          Ret (Queued, set_slot_len (s\<lparr>rv_storage := b2\<rparr>) slot len'))))))"

text \<open>The two slices have the length of their arrays, so the conversions do not fail.\<close>

definition recv_pop :: "recv_slab \<Rightarrow> stream_key \<Rightarrow> ((i32 \<times> u16) option \<times> recv_slab) exec" where
  "recv_pop s key =
     (if \<not> recv_is_live s key then Ret (None, s)
      else let len = slot_len s (sk_slot key) in
        if len = 0 then Ret (None, s)
        else let head = slot_head s (sk_slot key); offset = entry_offset (sk_slot key) head in
          (case get_range (rv_storage s) offset (offset + 4) of None \<Rightarrow> Panic | Some result_bytes \<Rightarrow>
           case get_range (rv_storage s) (offset + 4) (offset + ENTRY_LEN) of None \<Rightarrow> Panic | Some buf_id_bytes \<Rightarrow>
           exec_bind (add_u16 head 1) (\<lambda>head'.
           let s1 = set_slot_head s (sk_slot key) (head' mod MULTISHOT_FIFO_DEPTH);
               s2 = set_slot_len s1 (sk_slot key) (len - 1) in
           Ret (Some (le_word result_bytes, le_word buf_id_bytes), s2))))"

definition recv_take_terminal :: "recv_slab \<Rightarrow> stream_key \<Rightarrow> (i32 \<times> u16) option \<times> recv_slab" where
  "recv_take_terminal s key =
     (if \<not> recv_is_live s key then (None, s)
      else let wb = word_bit (sk_slot key) in
        if \<not> bm_test (rv_terminal_stashed s) wb then (None, s)
        else let s1 = s\<lparr>rv_terminal_stashed := bm_drop (rv_terminal_stashed s) wb\<rparr> in
             (Some (slot_terminal s1 (sk_slot key)), s1))"

definition recv_owner :: "recv_slab \<Rightarrow> u16 \<Rightarrow> u16 \<Rightarrow> u64 option" where
  "recv_owner s slot generation_low16 =
     (if \<not> recv_is_slot_live s slot generation_low16 then None else Some (slot_owner_token s slot))"

definition recv_is_terminated :: "recv_slab \<Rightarrow> stream_key \<Rightarrow> bool" where
  "recv_is_terminated s key \<longleftrightarrow> recv_is_live s key \<and> bm_test (rv_terminated s) (word_bit (sk_slot key))"

definition recv_mark_cancel_pending :: "recv_slab \<Rightarrow> stream_key \<Rightarrow> recv_slab" where
  "recv_mark_cancel_pending s key =
     (if \<not> recv_is_live s key then s
      else s\<lparr>rv_cancel_pending := bm_raise (rv_cancel_pending s) (word_bit (sk_slot key))\<rparr>)"

text \<open>The statements \<open>free\<close> and \<open>free_by_slot\<close> share.\<close>

definition recv_release :: "recv_slab \<Rightarrow> u16 \<Rightarrow> recv_slab" where
  "recv_release s slot =
     (let wb = word_bit slot;
          s1 = s\<lparr>rv_occupied := bm_drop (rv_occupied s) wb,
                 rv_terminated := bm_drop (rv_terminated s) wb,
                 rv_terminal_stashed := bm_drop (rv_terminal_stashed s) wb,
                 rv_cancel_pending := bm_drop (rv_cancel_pending s) wb\<rparr>;
          s2 = set_slot_len s1 slot 0;
          generation = slot_generation s2 slot + 1 in
      set_slot_generation s2 slot generation)"

definition recv_free :: "recv_slab \<Rightarrow> stream_key \<Rightarrow> recv_slab" where
  "recv_free s key = (if \<not> recv_is_live s key then s else recv_release s (sk_slot key))"

definition recv_is_cancel_pending :: "recv_slab \<Rightarrow> u16 \<Rightarrow> u16 \<Rightarrow> bool" where
  "recv_is_cancel_pending s slot generation_low16 \<longleftrightarrow>
     recv_is_slot_live s slot generation_low16 \<and> bm_test (rv_cancel_pending s) (word_bit slot)"

definition recv_free_by_slot :: "recv_slab \<Rightarrow> u16 \<Rightarrow> u16 \<Rightarrow> recv_slab" where
  "recv_free_by_slot s slot generation_low16 =
     (if \<not> recv_is_slot_live s slot generation_low16 then s else recv_release s slot)"

fun recv_exec :: "recv_slab \<Rightarrow> (i32 \<times> u16) stream_call \<Rightarrow> ((i32 \<times> u16) stream_reply \<times> recv_slab) exec" where
  "recv_exec s (SAllocate owner) = Ret (map_prod SKey id (recv_allocate s owner))"
| "recv_exec s (SPush slot low e is_more) =
     exec_bind (recv_push s slot low (fst e) (snd e) is_more) (\<lambda>p. Ret (map_prod SPushed id p))"
| "recv_exec s (SPop key) = exec_bind (recv_pop s key) (\<lambda>p. Ret (map_prod SItem id p))"
| "recv_exec s (STakeTerminal key) = Ret (map_prod SItem id (recv_take_terminal s key))"
| "recv_exec s (SOwner slot low) = Ret (SToken (recv_owner s slot low), s)"
| "recv_exec s (SIsTerminated key) = Ret (SBool (recv_is_terminated s key), s)"
| "recv_exec s (SMarkCancel key) = Ret (SUnit, recv_mark_cancel_pending s key)"
| "recv_exec s (SFree key) = Ret (SUnit, recv_free s key)"
| "recv_exec s (SIsCancelPending slot low) = Ret (SBool (recv_is_cancel_pending s slot low), s)"
| "recv_exec s (SFreeBySlot slot low) = Ret (SUnit, recv_free_by_slot s slot low)"

section \<open>The fields of a slot\<close>

text \<open>The metadata of a slot as the bytes of its entry.\<close>

definition meta_ok :: "bytes \<Rightarrow> bool" where
  "meta_ok m \<longleftrightarrow> length m = 256 * 26"

definition field :: "nat \<Rightarrow> nat \<Rightarrow> bytes \<Rightarrow> nat \<Rightarrow> 'a::len word" where
  "field n f m i = le_word (take n (drop f (chunk 26 m i)))"

lemma field_range:
  assumes "meta_ok m" "i < 256" "f + n \<le> 26"
  shows "get_range m (i * 26 + f) (i * 26 + f + n) = Some (take n (drop f (chunk 26 m i)))"
proof -
  have "i * 26 + 26 \<le> 256 * 26" using stride_le [OF assms(2), of 26] .
  then show ?thesis using assms by (simp add: meta_ok_def get_range_def chunk_def drop_take min_def add.commute)
qed

lemma write_field_ok: "meta_ok m \<Longrightarrow> i < 256 \<Longrightarrow> f + length bs \<le> 26 \<Longrightarrow> meta_ok (overwrite m (i * 26 + f) bs)"
  using stride_le [of i 256 26] by (simp add: meta_ok_def)

lemma field_write:
  assumes "meta_ok m" "i < 256" "j < 256" "g + length bs \<le> 26" "f + n \<le> 26"
  shows "j = i \<Longrightarrow> g = f \<Longrightarrow> n = length bs \<Longrightarrow> field n f (overwrite m (i * 26 + g) bs) j = le_word bs"
    and "j \<noteq> i \<or> f + n \<le> g \<or> g + length bs \<le> f \<Longrightarrow> field n f (overwrite m (i * 26 + g) bs) j = field n f m j"
proof -
  have l: "length m = 256 * 26" "length (chunk 26 m i) = 26"
    using assms(1,2) length_chunk [of i 256 m 26] by (simp_all add: meta_ok_def)
  note c = chunk_overwrite_in [OF l(1) assms(2,4,3)]
  show "j = i \<Longrightarrow> g = f \<Longrightarrow> n = length bs \<Longrightarrow> field n f (overwrite m (i * 26 + g) bs) j = le_word bs"
    using l assms(4) c by (simp add: field_def read_overwrite_same)
  show "j \<noteq> i \<or> f + n \<le> g \<or> g + length bs \<le> f \<Longrightarrow> field n f (overwrite m (i * 26 + g) bs) j = field n f m j"
    using l assms(4) read_overwrite_other [of g bs "chunk 26 m i" f n] by (auto simp: field_def c)
qed

end
