(* ===== verification/Recv_Refine.thy ===== *)
theory Recv_Refine
  imports Recv_Slab
begin

text \<open>
  The slab of multishot receives implements the table of streams: the bytes of the two regions
  decode to per-slot fields that do not interfere, and every operation acts on the decoded table
  as the specification says, without panicking.
\<close>

section \<open>Decoding the metadata\<close>

definition put_field :: "bytes \<Rightarrow> nat \<Rightarrow> nat \<Rightarrow> bytes \<Rightarrow> bytes" where
  "put_field m i f bs = overwrite m (i * 26 + f) bs"

lemma field_put_same [simp]:
  assumes "meta_ok m" "i < 256" "j < 256" "f + n \<le> 26" "8 * n = LENGTH('a)"
  shows "field n f (put_field m i f (le_bytes n (v :: 'a::len word))) j = (if j = i then v else field n f m j)"
  using assms by (cases "j = i") (simp_all add: put_field_def field_write)

lemma field_put_other [simp]:
  assumes "meta_ok m" "i < 256" "j < 256" "f + n \<le> 26" "g + k \<le> 26" "f + n \<le> g \<or> g + k \<le> f"
  shows "field n f (put_field m i g (le_bytes k v)) j = field n f m j"
  using assms field_write(2) [of m i j g "le_bytes k v" f n] by (simp add: put_field_def)

lemma meta_ok_put [simp]: "meta_ok m \<Longrightarrow> i < 256 \<Longrightarrow> f + k \<le> 26 \<Longrightarrow> meta_ok (put_field m i f (le_bytes k v))"
  using write_field_ok [of m i f "le_bytes k v"] by (simp add: put_field_def)

lemma recv_getters [simp]:
  assumes "meta_ok (rv_metadata s)" "unat slot < 256"
  shows "slot_head s slot = field 2 0 (rv_metadata s) (unat slot)"
    and "slot_len s slot = field 2 2 (rv_metadata s) (unat slot)"
    and "slot_generation s slot = field 8 4 (rv_metadata s) (unat slot)"
    and "slot_owner_token s slot = field 8 12 (rv_metadata s) (unat slot)"
    and "slot_terminal s slot = (field 4 20 (rv_metadata s) (unat slot), field 2 24 (rv_metadata s) (unat slot))"
  using field_range [OF assms, of 0 2] field_range [OF assms, of 2 2] field_range [OF assms, of 4 8]
    field_range [OF assms, of 12 8] field_range [OF assms, of 20 4] field_range [OF assms, of 24 2]
  by (simp_all add: slot_head_def slot_len_def slot_generation_def slot_owner_token_def slot_terminal_def
      region_read_u16_def region_read_u64_def region_read_i32_def meta_offset_def recv_consts field_def add.assoc)

lemma recv_setters [simp]:
  assumes "meta_ok (rv_metadata s)" "unat slot < 256"
  shows "set_slot_head s slot v = s\<lparr>rv_metadata := put_field (rv_metadata s) (unat slot) 0 (le_bytes 2 v)\<rparr>"
    and "set_slot_len s slot v = s\<lparr>rv_metadata := put_field (rv_metadata s) (unat slot) 2 (le_bytes 2 v)\<rparr>"
    and "set_slot_generation s slot w = s\<lparr>rv_metadata := put_field (rv_metadata s) (unat slot) 4 (le_bytes 8 w)\<rparr>"
    and "set_slot_owner_token s slot w = s\<lparr>rv_metadata := put_field (rv_metadata s) (unat slot) 12 (le_bytes 8 w)\<rparr>"
    and "set_slot_terminal s slot r v = s\<lparr>rv_metadata :=
      put_field (put_field (rv_metadata s) (unat slot) 20 (le_bytes 4 r)) (unat slot) 24 (le_bytes 2 v)\<rparr>"
proof -
  let ?m = "rv_metadata s" and ?i = "unat slot"
  have ok: "meta_ok (put_field ?m ?i 20 (le_bytes 4 r))" using assms by simp
  show "set_slot_head s slot v = s\<lparr>rv_metadata := put_field ?m ?i 0 (le_bytes 2 v)\<rparr>"
    "set_slot_len s slot v = s\<lparr>rv_metadata := put_field ?m ?i 2 (le_bytes 2 v)\<rparr>"
    "set_slot_generation s slot w = s\<lparr>rv_metadata := put_field ?m ?i 4 (le_bytes 8 w)\<rparr>"
    "set_slot_owner_token s slot w = s\<lparr>rv_metadata := put_field ?m ?i 12 (le_bytes 8 w)\<rparr>"
    using field_range [OF assms, of 0 2] field_range [OF assms, of 2 2] field_range [OF assms, of 4 8]
      field_range [OF assms, of 12 8]
    by (simp_all add: set_slot_head_def set_slot_len_def set_slot_generation_def set_slot_owner_token_def
        region_write_u16_def region_write_u64_def meta_offset_def recv_consts put_field_def add.assoc)
  show "set_slot_terminal s slot r v = s\<lparr>rv_metadata :=
      put_field (put_field ?m ?i 20 (le_bytes 4 r)) ?i 24 (le_bytes 2 v)\<rparr>"
    using field_range [OF assms, of 20 4] field_range [OF ok assms(2), of 24 2]
    by (simp add: set_slot_terminal_def region_write_u16_def region_write_i32_def meta_offset_def recv_consts put_field_def add.assoc Let_def)
qed

section \<open>The table of streams\<close>

definition recv_cell :: "bytes \<Rightarrow> nat \<Rightarrow> nat \<Rightarrow> i32 \<times> u16" where
  "recv_cell st i k =
     (le_word (take 4 (chunk 6 st (i * 64 + k))), le_word (take 2 (drop 4 (chunk 6 st (i * 64 + k)))))"

definition recv_stream :: "recv_slab \<Rightarrow> nat \<Rightarrow> (i32 \<times> u16) stream" where
  "recv_stream s i =
     (let m = rv_metadata s in
      \<lparr>st_owner = field 8 12 m i,
       st_queue = ring_queue 64 (recv_cell (rv_storage s) i) (unat (field 2 0 m i :: u16)) (unat (field 2 2 m i :: u16)),
       st_stash = (if bm_mem (rv_terminal_stashed s) i then Some (field 4 20 m i, field 2 24 m i) else None),
       st_ended = bm_mem (rv_terminated s) i,
       st_cancel = bm_mem (rv_cancel_pending s) i\<rparr>)"

definition recv_slot :: "recv_slab \<Rightarrow> nat \<Rightarrow> (i32 \<times> u16) sslot" where
  "recv_slot s i = (field 8 4 (rv_metadata s) i, if bm_mem (rv_occupied s) i then Some (recv_stream s i) else None)"

definition recv_abs :: "recv_slab \<Rightarrow> (i32 \<times> u16) stream_spec" where
  "recv_abs s = \<lparr>ss_worker = rv_worker s, ss_table = map (recv_slot s) [0..<unat (rv_cap s)]\<rparr>"

definition recv_wf :: "recv_slab \<Rightarrow> bool" where
  "recv_wf s \<longleftrightarrow>
     length (rv_occupied s) = 4 \<and> length (rv_terminated s) = 4 \<and> length (rv_terminal_stashed s) = 4 \<and>
     length (rv_cancel_pending s) = 4 \<and> unat (rv_cap s) \<le> 256 \<and> meta_ok (rv_metadata s) \<and>
     length (rv_storage s) = 256 * 64 * 6 \<and>
     (\<forall>i<256. bm_mem (rv_occupied s) i \<longrightarrow>
        i < unat (rv_cap s) \<and> unat (field 2 0 (rv_metadata s) i :: u16) < 64 \<and> unat (field 2 2 (rv_metadata s) i :: u16) \<le> 64)"

lemma recv_wfD:
  assumes "recv_wf s"
  shows "length (rv_occupied s) = 4" "length (rv_terminated s) = 4" "length (rv_terminal_stashed s) = 4"
    "length (rv_cancel_pending s) = 4" "unat (rv_cap s) \<le> 256" "meta_ok (rv_metadata s)"
    "length (rv_storage s) = 256 * 64 * 6"
  using assms by (simp_all add: recv_wf_def)

lemma recv_abs_simps [simp]:
  "length (ss_table (recv_abs s)) = unat (rv_cap s)"
  "i < unat (rv_cap s) \<Longrightarrow> ss_table (recv_abs s) ! i = recv_slot s i"
  "ss_worker (recv_abs s) = rv_worker s"
  by (simp_all add: recv_abs_def)

lemma recv_abs_put:
  assumes "rv_worker s' = rv_worker s" "rv_cap s' = rv_cap s" "unat (rv_cap s) \<le> 256"
    and "\<And>j. j < 256 \<Longrightarrow> j \<noteq> i \<Longrightarrow> recv_slot s' j = recv_slot s j"
  shows "recv_abs s' = (recv_abs s)\<lparr>ss_table := (ss_table (recv_abs s))[i := recv_slot s' i]\<rparr>"
  using assms map_upt_put [of "unat (rv_cap s)" i "recv_slot s'" "recv_slot s"] by (simp add: recv_abs_def)

lemma held_key_recv:
  assumes "recv_wf s"
  shows "held_key (recv_abs s) key = (if recv_is_live s key then Some (recv_stream s (unat (sk_slot key))) else None)"
  using recv_wfD [OF assms] by (auto simp: held_key_def recv_is_live_def recv_slot_def word_less_nat_alt)

lemma held_slot_recv:
  assumes "recv_wf s"
  shows "held_slot (recv_abs s) slot low = (if recv_is_slot_live s slot low then Some (recv_stream s (unat slot)) else None)"
  using recv_wfD [OF assms] by (auto simp: held_slot_def recv_is_slot_live_def recv_slot_def word_less_nat_alt low16_matches)

lemma recv_live_slot:
  assumes "recv_wf s" "recv_is_live s key"
  shows "unat (sk_slot key) < unat (rv_cap s)" "unat (sk_slot key) < 256" "bm_mem (rv_occupied s) (unat (sk_slot key))"
  using assms by (auto simp: recv_wf_def recv_is_live_def word_less_nat_alt)

lemma recv_slot_live_slot:
  assumes "recv_wf s" "recv_is_slot_live s slot low"
  shows "unat slot < unat (rv_cap s)" "unat slot < 256" "bm_mem (rv_occupied s) (unat slot)"
  using assms by (auto simp: recv_wf_def recv_is_slot_live_def word_less_nat_alt)

section \<open>Operations on one slot\<close>

lemma recv_release_refines:
  assumes wf: "recv_wf s" and slot: "unat slot < 256" "unat slot < unat (rv_cap s)"
  shows "recv_wf (recv_release s slot)" and "recv_abs (recv_release s slot) = ss_release (recv_abs s) (unat slot)"
proof -
  note W = recv_wfD [OF wf]
  let ?s = "recv_release s slot" and ?i = "unat slot"
  have eq: "?s = s\<lparr>rv_occupied := bm_drop (rv_occupied s) (word_bit slot),
      rv_terminated := bm_drop (rv_terminated s) (word_bit slot),
      rv_terminal_stashed := bm_drop (rv_terminal_stashed s) (word_bit slot),
      rv_cancel_pending := bm_drop (rv_cancel_pending s) (word_bit slot),
      rv_metadata := put_field (put_field (rv_metadata s) ?i 2 (le_bytes 2 (0 :: u16))) ?i 4
        (le_bytes 8 (field 8 4 (rv_metadata s) ?i + 1 :: u64))\<rparr>"
    using W slot by (simp add: recv_release_def Let_def)
  show "recv_wf ?s" using wf W slot unfolding recv_wf_def eq by auto
  have "recv_slot ?s j = recv_slot s j" if "j < 256" "j \<noteq> ?i" for j
    using W slot that unfolding eq by (simp add: recv_slot_def recv_stream_def Let_def)
  then have "recv_abs ?s = (recv_abs s)\<lparr>ss_table := (ss_table (recv_abs s))[?i := recv_slot ?s ?i]\<rparr>"
    using W by (intro recv_abs_put) (simp_all add: eq)
  moreover have "recv_slot ?s ?i = (field 8 4 (rv_metadata s) ?i + 1, None)"
    using W slot unfolding eq by (simp add: recv_slot_def)
  ultimately show "recv_abs ?s = ss_release (recv_abs s) ?i"
    using slot by (simp add: ss_release_def) (simp add: recv_slot_def)
qed

lemma recv_put_slot:
  assumes wf: "recv_wf s" and i: "i < 256" "i < unat (rv_cap s)"
    and "rv_worker s' = rv_worker s" "rv_cap s' = rv_cap s"
    and "\<And>j. j < 256 \<Longrightarrow> j \<noteq> i \<Longrightarrow> recv_slot s' j = recv_slot s j"
    and "recv_slot s' i = (field 8 4 (rv_metadata s) i, st)"
  shows "recv_abs s' = ss_put (recv_abs s) i st"
proof -
  have "recv_abs s' = (recv_abs s)\<lparr>ss_table := (ss_table (recv_abs s))[i := recv_slot s' i]\<rparr>"
    using assms recv_wfD [OF wf] by (intro recv_abs_put) simp_all
  then show ?thesis using assms by (simp add: ss_put_def) (simp add: recv_slot_def)
qed

lemma recv_allocate_refines:
  assumes wf: "recv_wf s" and al: "recv_allocate s owner = (k, s')"
  shows "recv_wf s' \<and> stream_spec_exec True (recv_abs s) (SAllocate owner) = (SKey k, recv_abs s')"
proof -
  note W = recv_wfD [OF wf]
  have ff: "recv_first_free s = map_option of_nat (find (\<lambda>i. snd (ss_table (recv_abs s) ! i) = None) [0..<unat (rv_cap s)])"
  proof -
    have "find (\<lambda>i. snd (ss_table (recv_abs s) ! i) = None) [0..<unat (rv_cap s)]
        = find (\<lambda>i. \<not> bm_mem (rv_occupied s) i) [0..<unat (rv_cap s)]"
      by (rule find_cong) (simp_all add: recv_slot_def)
    then show ?thesis using W by (simp add: recv_first_free_def first_free_in_eq)
  qed
  show ?thesis
  proof (cases "find (\<lambda>i. snd (ss_table (recv_abs s) ! i) = None) [0..<unat (rv_cap s)]")
    case None
    then show ?thesis using al wf ff by (simp add: recv_allocate_def)
  next
    case (Some i)
    then have i: "i < unat (rv_cap s)" "i < 256" "unat (of_nat i :: u16) = i"
      using W by (auto simp: find_Some_iff)
    let ?wb = "word_bit (of_nat i)"
    have s': "s' = s\<lparr>rv_occupied := bm_raise (rv_occupied s) ?wb, rv_terminated := bm_drop (rv_terminated s) ?wb,
        rv_terminal_stashed := bm_drop (rv_terminal_stashed s) ?wb, rv_cancel_pending := bm_drop (rv_cancel_pending s) ?wb,
        rv_metadata := put_field (put_field (put_field (rv_metadata s) i 0 (le_bytes 2 (0 :: u16)))
          i 2 (le_bytes 2 (0 :: u16))) i 12 (le_bytes 8 owner)\<rparr>"
      and k: "k = Some \<lparr>sk_slot = of_nat i, sk_generation = field 8 4 (rv_metadata s) i, sk_worker = rv_worker s\<rparr>"
      using al Some i W by (auto simp: recv_allocate_def ff Let_def)
    have "recv_wf s'" using wf W i unfolding recv_wf_def s' by auto
    moreover have "recv_abs s' = ss_put (recv_abs s) i
        (Some \<lparr>st_owner = owner, st_queue = [], st_stash = None, st_ended = False, st_cancel = False\<rparr>)"
      using W i by (intro recv_put_slot [OF wf i(2,1)]) (simp_all add: s' recv_slot_def recv_stream_def Let_def)
    ultimately show ?thesis using Some i k by (simp add: recv_slot_def)
  qed
qed

section \<open>The queue of a slot\<close>

lemma cell_index: "p < 64 \<Longrightarrow> k < 64 \<Longrightarrow> j * 64 + k = i * 64 + p \<longleftrightarrow> j = i \<and> k = (p :: nat)"
  by auto presburger+

lemma recv_cell_write:
  assumes st: "length st = 256 * 64 * 6" and i: "i < 256" "p < 64" and o: "o' = (i * 64 + p) * 6"
  shows "\<exists>b1 b2. put_slice st o' (le_bytes 4 r) = Ret b1 \<and> put_slice b1 (o' + 4) (le_bytes 2 b) = Ret b2 \<and>
    length b2 = 256 * 64 * 6 \<and>
    (\<forall>j k. j < 256 \<longrightarrow> k < 64 \<longrightarrow> recv_cell b2 j k = (if j = i \<and> k = p then (r, b) else recv_cell st j k))"
proof -
  let ?q = "i * 64 + p" and ?m = "256 * 64 :: nat"
  let ?b1 = "overwrite st o' (le_bytes 4 r)" and ?b2 = "overwrite (overwrite st o' (le_bytes 4 r)) (o' + 4) (le_bytes 2 b)"
  have q: "?q < ?m" using i by simp
  have b: "?q * 6 + 6 \<le> ?m * 6" using stride_le [OF q, of 6] .
  have l1: "length ?b1 = ?m * 6" using st b by (simp add: o)
  then have l2: "length ?b2 = ?m * 6" using b by (simp add: o)
  have c: "chunk 6 ?b2 q' = (if q' = ?q then le_bytes 4 r @ le_bytes 2 b else chunk 6 st q')" if "q' < ?m" for q'
  proof -
    have "chunk 6 ?b1 q' = (if q' = ?q then overwrite (chunk 6 st ?q) 0 (le_bytes 4 r) else chunk 6 st q')"
      using chunk_overwrite_in [of st ?m 6 ?q 0 "le_bytes 4 r" q'] st q that by (simp add: o)
    moreover have "length (chunk 6 st ?q) = 6" using length_chunk [OF q] st by simp
    ultimately show ?thesis
      using chunk_overwrite_in [of ?b1 ?m 6 ?q 4 "le_bytes 2 b" q'] l1 q that by (auto simp: o overwrite_def)
  qed
  have "recv_cell ?b2 j k = (if j = i \<and> k = p then (r, b) else recv_cell st j k)" if "j < 256" "k < 64" for j k
    using c [of "j * 64 + k"] that cell_index [OF i(2) that(2), of j i] by (simp add: recv_cell_def)
  moreover have "put_slice st o' (le_bytes 4 r) = Ret ?b1" using st b by (simp add: put_slice_def overwrite_def o)
  moreover have "put_slice ?b1 (o' + 4) (le_bytes 2 b) = Ret ?b2" using l1 b
    unfolding put_slice_def by (simp add: o) (simp add: overwrite_def)
  ultimately show ?thesis using l2 by auto
qed

lemma recv_cell_read:
  assumes st: "length st = 256 * 64 * 6" and i: "i < 256" "p < 64" and o: "o' = (i * 64 + p) * 6"
  shows "get_range st o' (o' + 4) = Some (take 4 (chunk 6 st (i * 64 + p)))"
    and "get_range st (o' + 4) (o' + 6) = Some (take 2 (drop 4 (chunk 6 st (i * 64 + p))))"
proof -
  have "i * 64 + p < 256 * 64" using i by simp
  then have "(i * 64 + p) * 6 + 6 \<le> length st" using stride_le [of "i * 64 + p" "256 * 64" 6] st by simp
  then show "get_range st o' (o' + 4) = Some (take 4 (chunk 6 st (i * 64 + p)))"
    "get_range st (o' + 4) (o' + 6) = Some (take 2 (drop 4 (chunk 6 st (i * 64 + p))))"
    unfolding o by (simp_all add: get_range_def chunk_def drop_take add.commute)
qed

lemma recv_stream_bounds:
  assumes "recv_wf s" "i < 256" "bm_mem (rv_occupied s) i"
  shows "unat (field 2 0 (rv_metadata s) i :: u16) < 64" "unat (field 2 2 (rv_metadata s) i :: u16) \<le> 64"
  using assms by (simp_all add: recv_wf_def)

lemma recv_push_queued:
  assumes wf: "recv_wf s" and lv: "recv_is_slot_live s slot low" and n: "unat (slot_len s slot) < 64"
  shows "\<exists>s'. recv_push s slot low r b True = Ret (Queued, s') \<and> recv_wf s' \<and>
    recv_abs s' = ss_put (recv_abs s) (unat slot)
      (Some ((recv_stream s (unat slot))\<lparr>st_queue := st_queue (recv_stream s (unat slot)) @ [(r, b)]\<rparr>))"
proof -
  note W = recv_wfD [OF wf] and L = recv_slot_live_slot [OF wf lv]
  note B = recv_stream_bounds [OF wf L(2,3)]
  let ?i = "unat slot" and ?m = "rv_metadata s"
  let ?h = "field 2 0 ?m ?i :: u16" and ?n = "field 2 2 ?m ?i :: u16"
  let ?p = "(unat ?h + unat ?n) mod 64" and ?cell = "recv_cell (rv_storage s) ?i"
  have n': "unat ?n < 64" "\<not> 64 \<le> ?n" using n W L by (simp_all add: word_le_nat_alt)
  have p: "unat ((?h + ?n) mod 64) = ?p" "?p < 64" using B n' by (simp_all add: unat_u16_arith)
  have o: "entry_offset slot ((?h + ?n) mod 64) = (?i * 64 + ?p) * 6" using p by (simp add: entry_offset_def recv_consts)
  obtain b1 b2 where w: "put_slice (rv_storage s) ((?i * 64 + ?p) * 6) (le_bytes 4 r) = Ret b1"
      "put_slice b1 ((?i * 64 + ?p) * 6 + 4) (le_bytes 2 b) = Ret b2" "length b2 = 256 * 64 * 6"
      "\<And>j k. j < 256 \<Longrightarrow> k < 64 \<Longrightarrow> recv_cell b2 j k = (if j = ?i \<and> k = ?p then (r, b) else recv_cell (rv_storage s) j k)"
    using recv_cell_write [OF W(7) L(2) p(2) refl, of r b] by blast
  let ?s = "s\<lparr>rv_storage := b2, rv_metadata := put_field ?m ?i 2 (le_bytes 2 (?n + 1))\<rparr>"
  have "recv_push s slot low r b True = Ret (Queued, ?s)"
    using lv W L B n' w(1,2) o by (simp add: recv_push_def Let_def MULTISHOT_FIFO_DEPTH_def add_u16_def)
  moreover have n1: "unat (?n + 1) = Suc (unat ?n)" using n' by (simp add: unat_u16_arith)
  then have "recv_wf ?s" using wf W L n' w(3) unfolding recv_wf_def by auto
  moreover have "recv_abs ?s = ss_put (recv_abs s) ?i
      (Some ((recv_stream s ?i)\<lparr>st_queue := st_queue (recv_stream s ?i) @ [(r, b)]\<rparr>))"
  proof (rule recv_put_slot [OF wf L(2,1)])
    fix j :: nat
    assume j: "j < 256" "j \<noteq> ?i"
    have "ring_queue 64 (recv_cell b2 j) h n = ring_queue 64 (recv_cell (rv_storage s) j) h n" for h n
      using w(4) j by (intro ring_queue_cong) simp_all
    then show "recv_slot ?s j = recv_slot s j" using W L j by (simp add: recv_slot_def recv_stream_def Let_def)
  next
    have "ring_queue 64 (recv_cell b2 ?i) (unat ?h) (Suc (unat ?n)) = ring_queue 64 ?cell (unat ?h) (unat ?n) @ [(r, b)]"
      using w(4) L n' by (intro ring_queue_push) simp_all
    then show "recv_slot ?s ?i = (field 8 4 ?m ?i, Some ((recv_stream s ?i)\<lparr>st_queue := st_queue (recv_stream s ?i) @ [(r, b)]\<rparr>))"
      using W L n1 by (simp add: recv_slot_def recv_stream_def Let_def)
  qed simp_all
  ultimately show ?thesis by blast
qed

lemma recv_push_terminal:
  assumes wf: "recv_wf s" and lv: "recv_is_slot_live s slot low"
  shows "\<exists>s'. recv_push s slot low r b False = Ret (Terminal, s') \<and> recv_wf s' \<and>
    recv_abs s' = ss_put (recv_abs s) (unat slot)
      (Some ((recv_stream s (unat slot))\<lparr>st_stash := Some (r, b), st_ended := True\<rparr>))"
proof -
  note W = recv_wfD [OF wf] and L = recv_slot_live_slot [OF wf lv]
  let ?i = "unat slot" and ?wb = "word_bit slot"
  let ?s = "s\<lparr>rv_terminated := bm_raise (rv_terminated s) ?wb,
    rv_metadata := put_field (put_field (rv_metadata s) ?i 20 (le_bytes 4 r)) ?i 24 (le_bytes 2 b),
    rv_terminal_stashed := bm_raise (rv_terminal_stashed s) ?wb\<rparr>"
  have "recv_push s slot low r b False = Ret (Terminal, ?s)" using lv W L by (simp add: recv_push_def Let_def)
  moreover have "recv_wf ?s" using wf W L unfolding recv_wf_def by auto
  moreover have "recv_abs ?s = ss_put (recv_abs s) ?i (Some ((recv_stream s ?i)\<lparr>st_stash := Some (r, b), st_ended := True\<rparr>))"
    using W L by (intro recv_put_slot [OF wf L(2,1)]) (simp_all add: recv_slot_def recv_stream_def Let_def)
  ultimately show ?thesis by blast
qed

lemma recv_put_unchanged:
  assumes "recv_wf s" "i < unat (rv_cap s)" "bm_mem (rv_occupied s) i"
  shows "ss_put (recv_abs s) i (Some (recv_stream s i)) = recv_abs s"
  using assms ss_put_same [of i "recv_abs s"] by (simp add: recv_slot_def)

lemma recv_push_refines:
  assumes wf: "recv_wf s"
  shows "\<exists>p s'. recv_push s slot low (fst e) (snd e) is_more = Ret (p, s') \<and> recv_wf s' \<and>
    stream_spec_exec True (recv_abs s) (SPush slot low e is_more) = (SPushed p, recv_abs s')"
proof (cases "recv_is_slot_live s slot low")
  case False
  then show ?thesis using wf by (simp add: recv_push_def held_slot_recv)
next
  case lv: True
  note L = recv_slot_live_slot [OF wf lv] and W = recv_wfD [OF wf]
  consider (last) "\<not> is_more" | (full) "is_more" "64 \<le> unat (slot_len s slot)" | (room) "is_more" "unat (slot_len s slot) < 64"
    by linarith
  then show ?thesis
  proof cases
    case last
    then show ?thesis using recv_push_terminal [OF wf lv, of "fst e" "snd e"] lv wf
      by (auto simp: held_slot_recv stream_take_def)
  next
    case full
    then have "64 \<le> length (st_queue (recv_stream s (unat slot)))" using L W by (simp add: recv_stream_def Let_def)
    then show ?thesis using full lv wf L recv_put_unchanged [OF wf L(1,3)]
      by (simp add: recv_push_def held_slot_recv stream_take_def MULTISHOT_FIFO_DEPTH_def word_le_nat_alt)
  next
    case room
    then have "length (st_queue (recv_stream s (unat slot))) < 64" using L W by (simp add: recv_stream_def Let_def)
    then show ?thesis using recv_push_queued [OF wf lv room(2), of "fst e" "snd e"] room lv wf
      by (auto simp: held_slot_recv stream_take_def Let_def)
  qed
qed

lemma recv_pop_refines:
  assumes wf: "recv_wf s"
  shows "\<exists>x s'. recv_pop s key = Ret (x, s') \<and> recv_wf s' \<and>
    stream_spec_exec True (recv_abs s) (SPop key) = (SItem x, recv_abs s')"
proof (cases "recv_is_live s key")
  case False
  then show ?thesis using wf by (simp add: recv_pop_def held_key_recv)
next
  case lv: True
  note L = recv_live_slot [OF wf lv] and W = recv_wfD [OF wf]
  note B = recv_stream_bounds [OF wf L(2,3)]
  let ?i = "unat (sk_slot key)" and ?m = "rv_metadata s"
  let ?h = "field 2 0 ?m ?i :: u16" and ?n = "field 2 2 ?m ?i :: u16" and ?cell = "recv_cell (rv_storage s) ?i"
  show ?thesis
  proof (cases "?n = 0")
    case True
    then show ?thesis using lv wf L W by (simp add: recv_pop_def held_key_recv recv_stream_def Let_def)
  next
    case False
    then have n: "0 < unat ?n" by (simp add: unat_gt_0)
    let ?s = "s\<lparr>rv_metadata := put_field (put_field ?m ?i 0 (le_bytes 2 ((?h + 1) mod 64))) ?i 2 (le_bytes 2 (?n - 1))\<rparr>"
    have q: "ring_queue 64 ?cell (unat ?h) (unat ?n) = ?cell (unat ?h) # ring_queue 64 ?cell ((unat ?h + 1) mod 64) (unat ?n - 1)"
      using ring_queue_pop [OF n B(1)] .
    have u: "unat ((?h + 1) mod 64) = (unat ?h + 1) mod 64" "unat (?n - 1) = unat ?n - 1"
      using B False by (simp_all add: unat_u16_arith)
    have o: "entry_offset (sk_slot key) ?h = (?i * 64 + unat ?h) * 6" by (simp add: entry_offset_def recv_consts)
    have "recv_pop s key = Ret (Some (?cell (unat ?h)), ?s)"
      using lv False W L B recv_cell_read [OF W(7) L(2) B(1) o]
      by (simp add: recv_pop_def Let_def recv_consts recv_cell_def)
    moreover have "recv_wf ?s" using wf W L u B unfolding recv_wf_def by auto
    moreover have "recv_abs ?s = ss_put (recv_abs s) ?i
        (Some ((recv_stream s ?i)\<lparr>st_queue := ring_queue 64 ?cell ((unat ?h + 1) mod 64) (unat ?n - 1)\<rparr>))"
      using W L u by (intro recv_put_slot [OF wf L(2,1)]) (simp_all add: recv_slot_def recv_stream_def Let_def)
    moreover have "st_queue (recv_stream s ?i) = ?cell (unat ?h) # ring_queue 64 ?cell ((unat ?h + 1) mod 64) (unat ?n - 1)"
      using q by (simp add: recv_stream_def Let_def)
    ultimately show ?thesis using lv wf by (simp add: held_key_recv)
  qed
qed

lemma recv_take_terminal_refines:
  assumes wf: "recv_wf s" and tt: "recv_take_terminal s key = (x, s')"
  shows "recv_wf s' \<and> stream_spec_exec True (recv_abs s) (STakeTerminal key) = (SItem x, recv_abs s')"
proof (cases "recv_is_live s key")
  case False
  then show ?thesis using assms by (simp add: recv_take_terminal_def held_key_recv)
next
  case lv: True
  note L = recv_live_slot [OF wf lv] and W = recv_wfD [OF wf]
  let ?i = "unat (sk_slot key)"
  show ?thesis
  proof (cases "bm_mem (rv_terminal_stashed s) ?i")
    case False
    then have e: "st_stash (recv_stream s ?i) = None" "(recv_stream s ?i)\<lparr>st_stash := None\<rparr> = recv_stream s ?i"
      by (simp_all add: recv_stream_def Let_def)
    have "x = None" "s' = s" using tt False lv by (simp_all add: recv_take_terminal_def)
    then show ?thesis using wf lv recv_put_unchanged [OF wf L(1,3)] by (simp add: held_key_recv e)
  next
    case True
    have s': "s' = s\<lparr>rv_terminal_stashed := bm_drop (rv_terminal_stashed s) (word_bit (sk_slot key))\<rparr>"
      and x: "x = st_stash (recv_stream s ?i)"
      using tt True lv W L by (auto simp: recv_take_terminal_def Let_def recv_stream_def)
    have "recv_wf s'" using wf unfolding recv_wf_def s' by auto
    moreover have "recv_abs s' = ss_put (recv_abs s) ?i (Some ((recv_stream s ?i)\<lparr>st_stash := None\<rparr>))"
      using W L by (intro recv_put_slot [OF wf L(2,1)]) (simp_all add: s' recv_slot_def recv_stream_def Let_def)
    ultimately show ?thesis using lv wf x by (simp add: held_key_recv)
  qed
qed

lemma recv_mark_cancel_refines:
  assumes wf: "recv_wf s"
  shows "recv_wf (recv_mark_cancel_pending s key) \<and>
    stream_spec_exec True (recv_abs s) (SMarkCancel key) = (SUnit, recv_abs (recv_mark_cancel_pending s key))"
proof (cases "recv_is_live s key")
  case lv: True
  note L = recv_live_slot [OF wf lv] and W = recv_wfD [OF wf]
  let ?i = "unat (sk_slot key)" and ?s = "recv_mark_cancel_pending s key"
  have s': "?s = s\<lparr>rv_cancel_pending := bm_raise (rv_cancel_pending s) (word_bit (sk_slot key))\<rparr>"
    using lv by (simp add: recv_mark_cancel_pending_def)
  have "recv_wf ?s" using wf unfolding recv_wf_def s' by auto
  moreover have "recv_abs ?s = ss_put (recv_abs s) ?i (Some ((recv_stream s ?i)\<lparr>st_cancel := True\<rparr>))"
    using W L by (intro recv_put_slot [OF wf L(2,1)]) (simp_all add: s' recv_slot_def recv_stream_def Let_def)
  ultimately show ?thesis using lv wf by (simp add: held_key_recv)
qed (use wf in \<open>simp add: recv_mark_cancel_pending_def held_key_recv\<close>)

section \<open>All operations\<close>

lemma recv_exec_refines:
  assumes wf: "recv_wf s"
  shows "\<exists>r s'. recv_exec s c = Ret (r, s') \<and> recv_wf s' \<and> stream_spec_exec True (recv_abs s) c = (r, recv_abs s')"
proof (cases c)
  case (SAllocate owner)
  obtain k t where a: "recv_allocate s owner = (k, t)" by fastforce
  show ?thesis using recv_allocate_refines [OF wf a] SAllocate a by simp
next
  case (SPush slot low e is_more)
  show ?thesis using recv_push_refines [OF wf, of slot low e is_more] SPush by auto
next
  case (SPop key)
  show ?thesis using recv_pop_refines [OF wf, of key] SPop by auto
next
  case (STakeTerminal key)
  obtain x t where a: "recv_take_terminal s key = (x, t)" by fastforce
  show ?thesis using recv_take_terminal_refines [OF wf a] STakeTerminal a by simp
next
  case (SOwner slot low)
  then show ?thesis using wf recv_wfD(6) [OF wf] recv_slot_live_slot [OF wf]
    by (auto simp: held_slot_recv recv_owner_def recv_stream_def Let_def)
next
  case (SIsTerminated key)
  then show ?thesis using wf by (simp add: held_key_recv recv_is_terminated_def recv_stream_def Let_def)
next
  case (SMarkCancel key)
  then show ?thesis using recv_mark_cancel_refines [OF wf, of key] by simp
next
  case (SFree key)
  then show ?thesis using wf recv_release_refines [OF wf, of "sk_slot key"] recv_live_slot [OF wf, of key]
    by (auto simp: held_key_recv recv_free_def)
next
  case (SIsCancelPending slot low)
  then show ?thesis using wf by (simp add: held_slot_recv recv_is_cancel_pending_def recv_stream_def Let_def)
next
  case (SFreeBySlot slot low)
  then show ?thesis using wf recv_release_refines [OF wf, of slot] recv_slot_live_slot [OF wf, of slot low]
    by (auto simp: held_slot_recv recv_free_by_slot_def)
qed

interpretation recv: call_refinement recv_wf recv_abs recv_exec "stream_spec_exec True"
  by unfold_locales (rule recv_exec_refines)

lemma field_zero: "i < 256 \<Longrightarrow> f + n \<le> 26 \<Longrightarrow> field n f (replicate 6656 0) i = 0"
proof -
  assume "i < 256" "f + n \<le> 26"
  moreover have "le_word (replicate k 0) = 0" for k by (induction k) simp_all
  moreover have "chunk 26 (replicate 6656 0) i = replicate 26 0" if "i < 256" for i
    using chunk_replicate [OF that, of 26 0] by simp
  ultimately show ?thesis unfolding field_def by simp
qed

lemma recv_new_wf:
  assumes "mmap_zeroed mmap" "recv_new mmap w cap = Inr s"
  shows "recv_wf s" and "recv_abs s = stream_spec_new w (min (unat cap) 256)"
proof -
  let ?c = "min cap 256"
  have c: "unat ?c = min (unat cap) 256" by (simp add: min_def word_le_nat_alt)
  have "mmap (256 * 64 * 6) = Mapped (rv_storage s)" "mmap (256 * 26) = Mapped (rv_metadata s)"
    using assms(2) by (auto simp: recv_new_def mmap_region_new_def Let_def recv_consts split: mmap_outcome.splits)
  then have m: "rv_storage s = replicate (256 * 64 * 6) 0" "rv_metadata s = replicate (256 * 26) 0"
    using assms(1) unfolding mmap_zeroed_def by blast+
  have b: "rv_occupied s = replicate 4 0" "rv_terminated s = replicate 4 0" "rv_terminal_stashed s = replicate 4 0"
      "rv_cancel_pending s = replicate 4 0" "rv_worker s = w" "rv_cap s = ?c"
    using assms(2) by (auto simp: recv_new_def Let_def recv_consts RECV_BITMAP_WORDS_def)
  show "recv_wf s" unfolding recv_wf_def b m using c by (simp add: meta_ok_def)
  have "map (recv_slot s) [0..<unat ?c] = replicate (unat ?c) (0, None)"
    using c b unfolding recv_slot_def m by (intro nth_equalityI) (simp_all add: field_zero)
  then show "recv_abs s = stream_spec_new w (min (unat cap) 256)"
    unfolding recv_abs_def stream_spec_new_def b by (simp only: c)
qed

text \<open>
  C22. The slab of multishot receives implements the table of streams: from \<open>new\<close> on, every
  sequence of calls returns (no slice access or addition panics) and answers as the table does.
  Each stream is a FIFO of at most 64 completions, a final completion is kept aside and its
  buffer is delivered once, a call with a stale key or generation changes nothing, and the bytes
  of one slot never disturb another.
\<close>

theorem recv_refines_streams:
  assumes "mmap_zeroed mmap" "recv_new mmap w cap = Inr s"
  shows "\<exists>rs s'. run_exec recv_exec s cs = Ret (rs, s') \<and>
    run_calls (stream_spec_exec True) (stream_spec_new w (min (unat cap) 256)) cs = (rs, recv_abs s')"
  using recv.run_refines [OF recv_new_wf(1) [OF assms], of cs] recv_new_wf(2) [OF assms] by auto

theorem recv_refines_streams_witness:
  "\<exists>s s'. recv_new zero_map 3 2 = Inr s \<and>
     run_exec recv_exec s [SAllocate 5, SPush 0 0 (10, 4) True, SPush 0 0 (0, 9) False,
       SPop \<lparr>sk_slot = 0, sk_generation = 0, sk_worker = 3\<rparr>, STakeTerminal \<lparr>sk_slot = 0, sk_generation = 0, sk_worker = 3\<rparr>]
     = Ret ([SKey (Some \<lparr>sk_slot = 0, sk_generation = 0, sk_worker = 3\<rparr>), SPushed Queued, SPushed Terminal,
         SItem (Some (10, 4)), SItem (Some (0, 9))], s')"
proof -
  obtain s where s: "recv_new zero_map 3 2 = Inr s"
    by (auto simp: recv_new_def zero_map_def mmap_region_new_def Let_def recv_consts)
  have n: "stream_spec_new 3 (min (unat (2 :: u16)) 256) = \<lparr>ss_worker = 3, ss_table = [(0, None), (0, None)]\<rparr>"
    by (simp add: stream_spec_new_def) (simp add: numeral_2_eq_2)
  show ?thesis
    using s recv_refines_streams [OF zero_map_zeroed s, of "[SAllocate 5, SPush 0 0 (10, 4) True, SPush 0 0 (0, 9) False,
       SPop \<lparr>sk_slot = 0, sk_generation = 0, sk_worker = 3\<rparr>, STakeTerminal \<lparr>sk_slot = 0, sk_generation = 0, sk_worker = 3\<rparr>]"]
    unfolding n by (auto simp: upt_rec ss_put_def held_slot_def held_key_def stream_take_def Let_def)
qed

end
