(* ===== verification/Accept_Slab.thy ===== *)
theory Accept_Slab
  imports Stream_Spec
begin

text \<open>
  The slab of multishot accepts (\<open>buffer/multishot/accept.rs\<close>): eight slots, each a ring of 64
  results in an array. A final completion is queued like any other and ends the stream. The slab
  implements the table of streams.
\<close>

section \<open>State and operations\<close>

record accept_slab =
  ac_results :: "i32 list list"
  ac_head :: "u16 list"
  ac_len :: "u16 list"
  ac_occupied :: bitmap
  ac_terminated :: bitmap
  ac_cancel_pending :: bitmap
  ac_generation :: "u64 list"
  ac_owner_token :: "u64 list"
  ac_worker :: u8
  ac_cap :: u16

definition DEFAULT_MULTISHOT_CAP :: u16 where "DEFAULT_MULTISHOT_CAP = 8"
definition MAX_MULTISHOT_SLOTS :: nat where "MAX_MULTISHOT_SLOTS = unat DEFAULT_MULTISHOT_CAP"

text \<open>\<open>div_ceil\<close> by 64.\<close>

definition ACCEPT_BITMAP_WORDS :: nat where "ACCEPT_BITMAP_WORDS = (MAX_MULTISHOT_SLOTS + 63) div 64"

definition accept_new :: "u8 \<Rightarrow> u16 \<Rightarrow> accept_slab" where
  "accept_new worker_id cap =
     \<lparr>ac_results = replicate MAX_MULTISHOT_SLOTS (replicate (unat MULTISHOT_FIFO_DEPTH) 0),
      ac_head = replicate MAX_MULTISHOT_SLOTS 0, ac_len = replicate MAX_MULTISHOT_SLOTS 0,
      ac_occupied = replicate ACCEPT_BITMAP_WORDS 0, ac_terminated = replicate ACCEPT_BITMAP_WORDS 0,
      ac_cancel_pending = replicate ACCEPT_BITMAP_WORDS 0,
      ac_generation = replicate MAX_MULTISHOT_SLOTS 0, ac_owner_token = replicate MAX_MULTISHOT_SLOTS 0,
      ac_worker = worker_id, ac_cap = min cap DEFAULT_MULTISHOT_CAP\<rparr>"

text \<open>\<open>while slot < self.cap\<close>, from slot \<open>slot\<close> on.\<close>

function accept_free_from :: "accept_slab \<Rightarrow> nat \<Rightarrow> u16 option" where
  "accept_free_from s slot =
     (if slot < unat (ac_cap s)
      then if \<not> bm_test (ac_occupied s) (word_bit (of_nat slot)) then Some (of_nat slot)
           else accept_free_from s (slot + 1)
      else None)"
  by auto

termination
  by (relation "measure (\<lambda>(s, slot). unat (ac_cap s) - slot)") auto

declare accept_free_from.simps [simp del]

definition accept_first_free :: "accept_slab \<Rightarrow> u16 option" where
  "accept_first_free s = accept_free_from s 0"

definition accept_is_live :: "accept_slab \<Rightarrow> stream_key \<Rightarrow> bool" where
  "accept_is_live s key \<longleftrightarrow>
     sk_worker key = ac_worker s \<and> sk_slot key < ac_cap s \<and>
     bm_test (ac_occupied s) (word_bit (sk_slot key)) \<and> ac_generation s ! unat (sk_slot key) = sk_generation key"

definition accept_is_slot_live :: "accept_slab \<Rightarrow> u16 \<Rightarrow> u16 \<Rightarrow> bool" where
  "accept_is_slot_live s slot generation_low16 \<longleftrightarrow>
     slot < ac_cap s \<and> bm_test (ac_occupied s) (word_bit slot) \<and>
     ac_generation s ! unat slot AND 0xFFFF = ucast generation_low16"

definition accept_allocate :: "accept_slab \<Rightarrow> u64 \<Rightarrow> stream_key option \<times> accept_slab" where
  "accept_allocate s owner_token =
     (case accept_first_free s of
        None \<Rightarrow> (None, s)
      | Some slot \<Rightarrow>
          let wb = word_bit slot; i = unat slot;
              s1 = s\<lparr>ac_occupied := bm_raise (ac_occupied s) wb,
                     ac_terminated := bm_drop (ac_terminated s) wb,
                     ac_cancel_pending := bm_drop (ac_cancel_pending s) wb,
                     ac_head := (ac_head s)[i := 0], ac_len := (ac_len s)[i := 0],
                     ac_owner_token := (ac_owner_token s)[i := owner_token]\<rparr> in
          (Some \<lparr>sk_slot = slot, sk_generation = ac_generation s1 ! i, sk_worker = ac_worker s1\<rparr>, s1))"

definition accept_push :: "accept_slab \<Rightarrow> u16 \<Rightarrow> u16 \<Rightarrow> i32 \<Rightarrow> bool \<Rightarrow> (stream_push \<times> accept_slab) exec" where
  "accept_push s0 slot generation_low16 result is_more =
     (if \<not> accept_is_slot_live s0 slot generation_low16 then Ret (Stale, s0)
      else
        let s = (if is_more then s0 else s0\<lparr>ac_terminated := bm_raise (ac_terminated s0) (word_bit slot)\<rparr>);
            i = unat slot in
        if MULTISHOT_FIFO_DEPTH \<le> ac_len s ! i then Ret (Overflowed, s)
        else exec_bind (add_u16 (ac_head s ! i) (ac_len s ! i)) (\<lambda>sum.
          let index = sum mod MULTISHOT_FIFO_DEPTH;
              s1 = s\<lparr>ac_results := (ac_results s)[i := (ac_results s ! i)[unat index := result]]\<rparr> in
          exec_bind (add_u16 (ac_len s1 ! i) 1) (\<lambda>len'. Ret (Queued, s1\<lparr>ac_len := (ac_len s1)[i := len']\<rparr>))))"

text \<open>Reading the ring at \<open>head\<close> is a checked index.\<close>

definition accept_pop :: "accept_slab \<Rightarrow> stream_key \<Rightarrow> (i32 option \<times> accept_slab) exec" where
  "accept_pop s key =
     (if \<not> accept_is_live s key \<or> ac_len s ! unat (sk_slot key) = 0 then Ret (None, s)
      else let i = unat (sk_slot key); head = ac_head s ! i in
        (case get_at (ac_results s ! i) (unat head) of None \<Rightarrow> Panic | Some result \<Rightarrow>
         exec_bind (add_u16 head 1) (\<lambda>head'.
         Ret (Some result,
           s\<lparr>ac_head := (ac_head s)[i := head' mod MULTISHOT_FIFO_DEPTH], ac_len := (ac_len s)[i := ac_len s ! i - 1]\<rparr>))))"

definition accept_owner :: "accept_slab \<Rightarrow> u16 \<Rightarrow> u16 \<Rightarrow> u64 option" where
  "accept_owner s slot generation_low16 =
     (if \<not> accept_is_slot_live s slot generation_low16 then None else Some (ac_owner_token s ! unat slot))"

definition accept_is_terminated :: "accept_slab \<Rightarrow> stream_key \<Rightarrow> bool" where
  "accept_is_terminated s key \<longleftrightarrow> accept_is_live s key \<and> bm_test (ac_terminated s) (word_bit (sk_slot key))"

definition accept_mark_cancel_pending :: "accept_slab \<Rightarrow> stream_key \<Rightarrow> accept_slab" where
  "accept_mark_cancel_pending s key =
     (if \<not> accept_is_live s key then s
      else s\<lparr>ac_cancel_pending := bm_raise (ac_cancel_pending s) (word_bit (sk_slot key))\<rparr>)"

text \<open>The statements \<open>free\<close> and \<open>free_by_slot\<close> share.\<close>

definition accept_release :: "accept_slab \<Rightarrow> u16 \<Rightarrow> accept_slab" where
  "accept_release s slot =
     (let wb = word_bit slot; i = unat slot in
      s\<lparr>ac_occupied := bm_drop (ac_occupied s) wb, ac_terminated := bm_drop (ac_terminated s) wb,
        ac_cancel_pending := bm_drop (ac_cancel_pending s) wb, ac_len := (ac_len s)[i := 0],
        ac_generation := (ac_generation s)[i := ac_generation s ! i + 1]\<rparr>)"

definition accept_free :: "accept_slab \<Rightarrow> stream_key \<Rightarrow> accept_slab" where
  "accept_free s key = (if \<not> accept_is_live s key then s else accept_release s (sk_slot key))"

definition accept_is_cancel_pending :: "accept_slab \<Rightarrow> u16 \<Rightarrow> u16 \<Rightarrow> bool" where
  "accept_is_cancel_pending s slot generation_low16 \<longleftrightarrow>
     accept_is_slot_live s slot generation_low16 \<and> bm_test (ac_cancel_pending s) (word_bit slot)"

definition accept_free_by_slot :: "accept_slab \<Rightarrow> u16 \<Rightarrow> u16 \<Rightarrow> accept_slab" where
  "accept_free_by_slot s slot generation_low16 =
     (if \<not> accept_is_slot_live s slot generation_low16 then s else accept_release s slot)"

text \<open>The slab keeps nothing aside: the call that would take a kept completion finds none.\<close>

fun accept_exec :: "accept_slab \<Rightarrow> i32 stream_call \<Rightarrow> (i32 stream_reply \<times> accept_slab) exec" where
  "accept_exec s (SAllocate owner) = Ret (map_prod SKey id (accept_allocate s owner))"
| "accept_exec s (SPush slot low e is_more) =
     exec_bind (accept_push s slot low e is_more) (\<lambda>p. Ret (map_prod SPushed id p))"
| "accept_exec s (SPop key) = exec_bind (accept_pop s key) (\<lambda>p. Ret (map_prod SItem id p))"
| "accept_exec s (STakeTerminal key) = Ret (SItem None, s)"
| "accept_exec s (SOwner slot low) = Ret (SToken (accept_owner s slot low), s)"
| "accept_exec s (SIsTerminated key) = Ret (SBool (accept_is_terminated s key), s)"
| "accept_exec s (SMarkCancel key) = Ret (SUnit, accept_mark_cancel_pending s key)"
| "accept_exec s (SFree key) = Ret (SUnit, accept_free s key)"
| "accept_exec s (SIsCancelPending slot low) = Ret (SBool (accept_is_cancel_pending s slot low), s)"
| "accept_exec s (SFreeBySlot slot low) = Ret (SUnit, accept_free_by_slot s slot low)"

section \<open>The table of streams\<close>

definition accept_stream :: "accept_slab \<Rightarrow> nat \<Rightarrow> i32 stream" where
  "accept_stream s i =
     \<lparr>st_owner = ac_owner_token s ! i,
      st_queue = ring_queue 64 (\<lambda>k. ac_results s ! i ! k) (unat (ac_head s ! i)) (unat (ac_len s ! i)),
      st_stash = None, st_ended = bm_mem (ac_terminated s) i, st_cancel = bm_mem (ac_cancel_pending s) i\<rparr>"

definition accept_slot :: "accept_slab \<Rightarrow> nat \<Rightarrow> i32 sslot" where
  "accept_slot s i = (ac_generation s ! i, if bm_mem (ac_occupied s) i then Some (accept_stream s i) else None)"

definition accept_abs :: "accept_slab \<Rightarrow> i32 stream_spec" where
  "accept_abs s = \<lparr>ss_worker = ac_worker s, ss_table = map (accept_slot s) [0..<unat (ac_cap s)]\<rparr>"

definition accept_wf :: "accept_slab \<Rightarrow> bool" where
  "accept_wf s \<longleftrightarrow>
     length (ac_occupied s) = 1 \<and> length (ac_terminated s) = 1 \<and> length (ac_cancel_pending s) = 1 \<and>
     length (ac_results s) = 8 \<and> length (ac_head s) = 8 \<and> length (ac_len s) = 8 \<and>
     length (ac_generation s) = 8 \<and> length (ac_owner_token s) = 8 \<and> unat (ac_cap s) \<le> 8 \<and>
     (\<forall>i<8. length (ac_results s ! i) = 64 \<and> unat (ac_head s ! i) < 64 \<and> unat (ac_len s ! i) \<le> 64)"

lemma accept_wfD:
  assumes "accept_wf s"
  shows "length (ac_occupied s) = 1" "length (ac_terminated s) = 1" "length (ac_cancel_pending s) = 1"
    "length (ac_results s) = 8" "length (ac_head s) = 8" "length (ac_len s) = 8"
    "length (ac_generation s) = 8" "length (ac_owner_token s) = 8" "unat (ac_cap s) \<le> 8"
  using assms by (simp_all add: accept_wf_def)

lemma accept_wf_slot:
  assumes "accept_wf s" "i < 8"
  shows "length (ac_results s ! i) = 64" "unat (ac_head s ! i) < 64" "unat (ac_len s ! i) \<le> 64"
  using assms by (simp_all add: accept_wf_def)

lemma accept_abs_simps [simp]:
  "length (ss_table (accept_abs s)) = unat (ac_cap s)"
  "i < unat (ac_cap s) \<Longrightarrow> ss_table (accept_abs s) ! i = accept_slot s i"
  "ss_worker (accept_abs s) = ac_worker s"
  by (simp_all add: accept_abs_def)

lemma held_key_accept:
  assumes "accept_wf s"
  shows "held_key (accept_abs s) key = (if accept_is_live s key then Some (accept_stream s (unat (sk_slot key))) else None)"
  by (auto simp: held_key_def accept_is_live_def accept_slot_def word_less_nat_alt)

lemma held_slot_accept:
  assumes "accept_wf s"
  shows "held_slot (accept_abs s) slot low = (if accept_is_slot_live s slot low then Some (accept_stream s (unat slot)) else None)"
  by (auto simp: held_slot_def accept_is_slot_live_def accept_slot_def word_less_nat_alt low16_matches)

lemma accept_live_slot:
  assumes "accept_wf s" "accept_is_live s key"
  shows "unat (sk_slot key) < unat (ac_cap s)" "unat (sk_slot key) < 8" "bm_mem (ac_occupied s) (unat (sk_slot key))"
  using assms by (auto simp: accept_wf_def accept_is_live_def word_less_nat_alt)

lemma accept_slot_live_slot:
  assumes "accept_wf s" "accept_is_slot_live s slot low"
  shows "unat slot < unat (ac_cap s)" "unat slot < 8" "bm_mem (ac_occupied s) (unat slot)"
  using assms by (auto simp: accept_wf_def accept_is_slot_live_def word_less_nat_alt)

lemma accept_put_slot:
  assumes "i < unat (ac_cap s)" "unat (ac_cap s) \<le> 8" "ac_worker s' = ac_worker s" "ac_cap s' = ac_cap s"
    and "\<And>j. j < 8 \<Longrightarrow> j \<noteq> i \<Longrightarrow> accept_slot s' j = accept_slot s j"
  shows "accept_abs s' = (accept_abs s)\<lparr>ss_table := (ss_table (accept_abs s))[i := accept_slot s' i]\<rparr>"
  using assms map_upt_put [of "unat (ac_cap s)" i "accept_slot s'" "accept_slot s"] by (simp add: accept_abs_def)

lemma accept_put_stream:
  assumes "accept_wf s" "i < unat (ac_cap s)" "ac_worker s' = ac_worker s" "ac_cap s' = ac_cap s"
    and "\<And>j. j < 8 \<Longrightarrow> j \<noteq> i \<Longrightarrow> accept_slot s' j = accept_slot s j"
    and "accept_slot s' i = (ac_generation s ! i, st)"
  shows "accept_abs s' = ss_put (accept_abs s) i st"
  using accept_put_slot [of i s s'] assms accept_wfD(9) [OF assms(1)]
  by (simp add: ss_put_def) (simp add: accept_slot_def)

section \<open>Refinement\<close>

lemma accept_free_from_find:
  "accept_free_from s k = map_option of_nat (find (\<lambda>i. \<not> bm_mem (ac_occupied s) i) [k..<unat (ac_cap s)])"
proof (induction s k rule: accept_free_from.induct)
  case (1 s k)
  show ?case
  proof (cases "k < unat (ac_cap s)")
    case True
    then have "k < 65536" using unat_u16_less [of "ac_cap s"] by simp
    then show ?thesis using 1 True by (subst accept_free_from.simps) (simp add: upt_conv_Cons)
  qed (simp add: accept_free_from.simps)
qed

lemma accept_release_refines:
  assumes wf: "accept_wf s" and i: "unat slot < unat (ac_cap s)"
  shows "accept_wf (accept_release s slot)" and "accept_abs (accept_release s slot) = ss_release (accept_abs s) (unat slot)"
proof -
  note W = accept_wfD [OF wf]
  have i8: "unat slot < 8" using i W by simp
  show "accept_wf (accept_release s slot)"
    using wf W i8 unfolding accept_wf_def by (auto simp: accept_release_def Let_def nth_list_update)
  have "accept_abs (accept_release s slot) = (accept_abs s)\<lparr>ss_table :=
      (ss_table (accept_abs s))[unat slot := accept_slot (accept_release s slot) (unat slot)]\<rparr>"
    using W i i8 by (intro accept_put_slot) (simp_all add: accept_release_def Let_def accept_slot_def accept_stream_def)
  then show "accept_abs (accept_release s slot) = ss_release (accept_abs s) (unat slot)"
    using W i i8 by (simp add: ss_release_def) (simp add: accept_release_def Let_def accept_slot_def)
qed

lemma accept_allocate_refines:
  assumes wf: "accept_wf s" and al: "accept_allocate s owner = (k, s')"
  shows "accept_wf s' \<and> stream_spec_exec False (accept_abs s) (SAllocate owner) = (SKey k, accept_abs s')"
proof -
  note W = accept_wfD [OF wf]
  let ?f = "find (\<lambda>i. snd (ss_table (accept_abs s) ! i) = None) [0..<unat (ac_cap s)]"
  have "?f = find (\<lambda>i. \<not> bm_mem (ac_occupied s) i) [0..<unat (ac_cap s)]"
    by (rule find_cong) (simp_all add: accept_slot_def)
  then have ff: "accept_first_free s = map_option of_nat ?f" by (simp add: accept_first_free_def accept_free_from_find)
  show ?thesis
  proof (cases ?f)
    case None
    then show ?thesis using al wf ff by (simp add: accept_allocate_def)
  next
    case (Some i)
    then have i: "i < unat (ac_cap s)" "i < 8" "unat (of_nat i :: u16) = i" using W by (auto simp: find_Some_iff)
    let ?wb = "word_bit (of_nat i)"
    have s': "s' = s\<lparr>ac_occupied := bm_raise (ac_occupied s) ?wb, ac_terminated := bm_drop (ac_terminated s) ?wb,
        ac_cancel_pending := bm_drop (ac_cancel_pending s) ?wb, ac_head := (ac_head s)[i := 0], ac_len := (ac_len s)[i := 0],
        ac_owner_token := (ac_owner_token s)[i := owner]\<rparr>"
      and k: "k = Some \<lparr>sk_slot = of_nat i, sk_generation = ac_generation s ! i, sk_worker = ac_worker s\<rparr>"
      using al Some i by (auto simp: accept_allocate_def ff Let_def)
    have "accept_wf s'" using wf W i unfolding accept_wf_def s' by (auto simp: nth_list_update)
    moreover have "accept_abs s' = ss_put (accept_abs s) i
        (Some \<lparr>st_owner = owner, st_queue = [], st_stash = None, st_ended = False, st_cancel = False\<rparr>)"
      using W i by (intro accept_put_stream [OF wf i(1)]) (simp_all add: s' accept_slot_def accept_stream_def)
    ultimately show ?thesis using Some i k by (simp add: accept_slot_def)
  qed
qed

lemma accept_put_unchanged:
  assumes "accept_wf s" "i < unat (ac_cap s)" "bm_mem (ac_occupied s) i"
  shows "ss_put (accept_abs s) i (Some (accept_stream s i)) = accept_abs s"
  using assms ss_put_same [of i "accept_abs s"] by (simp add: accept_slot_def)

text \<open>A completion without the final flag, on a slab that may already carry it.\<close>

lemma accept_push_entry:
  fixes r :: i32
  assumes wf: "accept_wf s" and i: "unat slot < unat (ac_cap s)" "bm_mem (ac_occupied s) (unat slot)"
    and n: "unat (ac_len s ! unat slot) < 64"
  defines "s' \<equiv> s\<lparr>ac_results := (ac_results s)[unat slot := (ac_results s ! unat slot)
        [unat ((ac_head s ! unat slot + ac_len s ! unat slot) mod 64) := r]],
      ac_len := (ac_len s)[unat slot := ac_len s ! unat slot + 1]\<rparr>"
  shows "accept_wf s'" and "accept_abs s' = ss_put (accept_abs s) (unat slot)
      (Some ((accept_stream s (unat slot))\<lparr>st_queue := st_queue (accept_stream s (unat slot)) @ [r]\<rparr>))"
proof -
  note W = accept_wfD [OF wf]
  let ?i = "unat slot"
  have i8: "?i < 8" using i W by simp
  note B = accept_wf_slot [OF wf i8]
  let ?h = "ac_head s ! ?i" and ?n = "ac_len s ! ?i"
  have p: "unat ((?h + ?n) mod 64) = (unat ?h + unat ?n) mod 64" using B n by (simp add: unat_u16_arith)
  have n1: "unat (?n + 1) = Suc (unat ?n)" using n by (simp add: unat_u16_arith)
  show "accept_wf s'" using wf W i8 n n1 unfolding accept_wf_def s'_def by (auto simp: nth_list_update)
  have q: "ring_queue 64 (\<lambda>k. (ac_results s ! ?i)[(unat ?h + unat ?n) mod 64 := r] ! k) (unat ?h) (Suc (unat ?n))
      = ring_queue 64 (\<lambda>k. ac_results s ! ?i ! k) (unat ?h) (unat ?n) @ [r]"
    using n B by (intro ring_queue_push) (auto simp: nth_list_update)
  show "accept_abs s' = ss_put (accept_abs s) ?i
      (Some ((accept_stream s ?i)\<lparr>st_queue := st_queue (accept_stream s ?i) @ [r]\<rparr>))"
    using W i i8 q n1 p by (intro accept_put_stream [OF wf i(1)]) (simp_all add: s'_def accept_slot_def accept_stream_def)
qed

lemma accept_end_stream:
  assumes wf: "accept_wf s" and i: "unat slot < unat (ac_cap s)" "bm_mem (ac_occupied s) (unat slot)"
  defines "s' \<equiv> s\<lparr>ac_terminated := bm_raise (ac_terminated s) (word_bit slot)\<rparr>"
  shows "accept_wf s'" and "accept_stream s' (unat slot) = (accept_stream s (unat slot))\<lparr>st_ended := True\<rparr>"
    and "accept_abs s' = ss_put (accept_abs s) (unat slot) (Some (accept_stream s' (unat slot)))"
proof -
  note W = accept_wfD [OF wf]
  show "accept_wf s'" using wf unfolding accept_wf_def s'_def by simp
  show "accept_stream s' (unat slot) = (accept_stream s (unat slot))\<lparr>st_ended := True\<rparr>"
    using W i by (simp add: s'_def accept_stream_def)
  show "accept_abs s' = ss_put (accept_abs s) (unat slot) (Some (accept_stream s' (unat slot)))"
    using W i by (intro accept_put_stream [OF wf i(1)]) (simp_all add: s'_def accept_slot_def accept_stream_def)
qed

lemma ss_put_put [simp]: "ss_put (ss_put sp i st) i st' = ss_put sp i st'"
  by (cases "i < length (ss_table sp)") (simp_all add: ss_put_def list_update_beyond)

lemma accept_push_refines:
  assumes wf: "accept_wf s"
  shows "\<exists>p s'. accept_push s slot low e is_more = Ret (p, s') \<and> accept_wf s' \<and>
    stream_spec_exec False (accept_abs s) (SPush slot low e is_more) = (SPushed p, accept_abs s')"
proof (cases "accept_is_slot_live s slot low")
  case False
  then show ?thesis using wf by (simp add: accept_push_def held_slot_accept)
next
  case lv: True
  note L = accept_slot_live_slot [OF wf lv]
  let ?i = "unat slot"
  define t where "t = (if is_more then s else s\<lparr>ac_terminated := bm_raise (ac_terminated s) (word_bit slot)\<rparr>)"
  have t: "accept_wf t" "accept_stream t ?i = (if is_more then accept_stream s ?i else (accept_stream s ?i)\<lparr>st_ended := True\<rparr>)"
    "accept_abs t = ss_put (accept_abs s) ?i (Some (accept_stream t ?i))"
    using wf accept_end_stream [OF wf L(1,3)] accept_put_unchanged [OF wf L(1,3)] by (simp_all add: t_def)
  have c: "?i < unat (ac_cap t)" "bm_mem (ac_occupied t) ?i" using L by (simp_all add: t_def)
  have q: "length (st_queue (accept_stream t ?i)) = unat (ac_len t ! ?i)" by (simp add: accept_stream_def)
  have sp: "stream_spec_exec False (accept_abs s) (SPush slot low e is_more)
      = (if 64 \<le> unat (ac_len t ! ?i) then (SPushed Overflowed, accept_abs t)
         else (SPushed Queued, ss_put (accept_abs t) ?i
           (Some ((accept_stream t ?i)\<lparr>st_queue := st_queue (accept_stream t ?i) @ [e]\<rparr>))))"
    using lv wf q t(2) by (simp add: held_slot_accept stream_take_def t(3) Let_def)
  have ex: "accept_push s slot low e is_more
      = (if 64 \<le> ac_len t ! ?i then Ret (Overflowed, t)
         else exec_bind (add_u16 (ac_head t ! ?i) (ac_len t ! ?i)) (\<lambda>sum.
           exec_bind (add_u16 (ac_len t ! ?i) 1) (\<lambda>len'. Ret (Queued,
             t\<lparr>ac_results := (ac_results t)[?i := (ac_results t ! ?i)[unat (sum mod 64) := e]], ac_len := (ac_len t)[?i := len']\<rparr>))))"
    using lv by (simp add: accept_push_def Let_def MULTISHOT_FIFO_DEPTH_def flip: t_def)
  show ?thesis
  proof (cases "unat (ac_len t ! ?i) < 64")
    case True
    then have "\<not> 64 \<le> ac_len t ! ?i" by (simp add: word_le_nat_alt)
    then show ?thesis using True accept_wf_slot [OF t(1) L(2)] accept_push_entry [OF t(1) c True, of e]
      unfolding sp ex by simp
  next
    case False
    then show ?thesis using t(1) unfolding sp ex by (simp add: word_le_nat_alt)
  qed
qed

lemma accept_pop_refines:
  assumes wf: "accept_wf s"
  shows "\<exists>x s'. accept_pop s key = Ret (x, s') \<and> accept_wf s' \<and>
    stream_spec_exec False (accept_abs s) (SPop key) = (SItem x, accept_abs s')"
proof (cases "accept_is_live s key")
  case False
  then show ?thesis using wf by (simp add: accept_pop_def held_key_accept)
next
  case lv: True
  note L = accept_live_slot [OF wf lv] and W = accept_wfD [OF wf]
  note B = accept_wf_slot [OF wf L(2)]
  let ?i = "unat (sk_slot key)"
  let ?h = "ac_head s ! ?i" and ?n = "ac_len s ! ?i" and ?cell = "\<lambda>k. ac_results s ! ?i ! k"
  show ?thesis
  proof (cases "?n = 0")
    case True
    then show ?thesis using lv wf by (simp add: accept_pop_def held_key_accept accept_stream_def)
  next
    case False
    then have n: "0 < unat ?n" by (simp add: unat_gt_0)
    let ?s = "s\<lparr>ac_head := (ac_head s)[?i := (?h + 1) mod 64], ac_len := (ac_len s)[?i := ?n - 1]\<rparr>"
    have q: "st_queue (accept_stream s ?i) = ?cell (unat ?h) # ring_queue 64 ?cell ((unat ?h + 1) mod 64) (unat ?n - 1)"
      using ring_queue_pop [OF n B(2), of ?cell] by (simp add: accept_stream_def)
    have u: "unat ((?h + 1) mod 64) = (unat ?h + 1) mod 64" "unat (?n - 1) = unat ?n - 1"
      using B False by (simp_all add: unat_u16_arith)
    have "accept_pop s key = Ret (Some (?cell (unat ?h)), ?s)"
      using lv False B by (simp add: accept_pop_def get_at_def Let_def MULTISHOT_FIFO_DEPTH_def)
    moreover have "unat ?n - Suc 0 \<le> 64" using B(3) by linarith
    then have "accept_wf ?s" using wf W L u unfolding accept_wf_def by (auto simp: nth_list_update)
    moreover have "accept_abs ?s = ss_put (accept_abs s) ?i
        (Some ((accept_stream s ?i)\<lparr>st_queue := ring_queue 64 ?cell ((unat ?h + 1) mod 64) (unat ?n - 1)\<rparr>))"
      using W L u by (intro accept_put_stream [OF wf L(1)]) (simp_all add: accept_slot_def accept_stream_def)
    ultimately show ?thesis using lv wf q by (simp add: held_key_accept)
  qed
qed

lemma accept_mark_cancel_refines:
  assumes wf: "accept_wf s"
  shows "accept_wf (accept_mark_cancel_pending s key) \<and>
    stream_spec_exec False (accept_abs s) (SMarkCancel key) = (SUnit, accept_abs (accept_mark_cancel_pending s key))"
proof (cases "accept_is_live s key")
  case lv: True
  note L = accept_live_slot [OF wf lv] and W = accept_wfD [OF wf]
  let ?i = "unat (sk_slot key)" and ?s = "accept_mark_cancel_pending s key"
  have s': "?s = s\<lparr>ac_cancel_pending := bm_raise (ac_cancel_pending s) (word_bit (sk_slot key))\<rparr>"
    using lv by (simp add: accept_mark_cancel_pending_def)
  have "accept_wf ?s" using wf unfolding accept_wf_def s' by simp
  moreover have "accept_abs ?s = ss_put (accept_abs s) ?i (Some ((accept_stream s ?i)\<lparr>st_cancel := True\<rparr>))"
    using W L by (intro accept_put_stream [OF wf L(1)]) (simp_all add: s' accept_slot_def accept_stream_def)
  ultimately show ?thesis using lv wf by (simp add: held_key_accept)
qed (use wf in \<open>simp add: accept_mark_cancel_pending_def held_key_accept\<close>)

lemma accept_exec_refines:
  assumes wf: "accept_wf s"
  shows "\<exists>r s'. accept_exec s c = Ret (r, s') \<and> accept_wf s' \<and> stream_spec_exec False (accept_abs s) c = (r, accept_abs s')"
proof (cases c)
  case (SAllocate owner)
  obtain k t where a: "accept_allocate s owner = (k, t)" by fastforce
  show ?thesis using accept_allocate_refines [OF wf a] SAllocate a by simp
next
  case (SPush slot low e is_more)
  show ?thesis using accept_push_refines [OF wf, of slot low e is_more] SPush by auto
next
  case (SPop key)
  show ?thesis using accept_pop_refines [OF wf, of key] SPop by auto
next
  case (STakeTerminal key)
  have "st_stash (accept_stream s i) = None" "(accept_stream s i)\<lparr>st_stash := None\<rparr> = accept_stream s i" for i
    by (simp_all add: accept_stream_def)
  note e = this
  show ?thesis using wf accept_live_slot [OF wf, of key] accept_put_unchanged [OF wf] STakeTerminal
    by (auto simp: held_key_accept e)
next
  case (SOwner slot low)
  then show ?thesis using wf by (simp add: held_slot_accept accept_owner_def accept_stream_def)
next
  case (SIsTerminated key)
  then show ?thesis using wf by (simp add: held_key_accept accept_is_terminated_def accept_stream_def)
next
  case (SMarkCancel key)
  then show ?thesis using accept_mark_cancel_refines [OF wf, of key] by simp
next
  case (SFree key)
  then show ?thesis using wf accept_release_refines [OF wf, of "sk_slot key"] accept_live_slot [OF wf, of key]
    by (auto simp: held_key_accept accept_free_def)
next
  case (SIsCancelPending slot low)
  then show ?thesis using wf by (simp add: held_slot_accept accept_is_cancel_pending_def accept_stream_def)
next
  case (SFreeBySlot slot low)
  then show ?thesis using wf accept_release_refines [OF wf, of slot] accept_slot_live_slot [OF wf, of slot low]
    by (auto simp: held_slot_accept accept_free_by_slot_def)
qed

interpretation accept: call_refinement accept_wf accept_abs accept_exec "stream_spec_exec False"
  by unfold_locales (rule accept_exec_refines)

lemma accept_new_wf:
  "accept_wf (accept_new w cap)" "accept_abs (accept_new w cap) = stream_spec_new w (min (unat cap) 8)"
proof -
  have c: "unat (min cap 8) = min (unat cap) 8" by (simp add: min_def word_le_nat_alt)
  let ?s = "accept_new w cap"
  have n: "MAX_MULTISHOT_SLOTS = 8" "ACCEPT_BITMAP_WORDS = 1"
    by (simp_all add: MAX_MULTISHOT_SLOTS_def ACCEPT_BITMAP_WORDS_def DEFAULT_MULTISHOT_CAP_def)
  show "accept_wf ?s" using c by (simp add: accept_wf_def accept_new_def n MULTISHOT_FIFO_DEPTH_def DEFAULT_MULTISHOT_CAP_def)
  have "accept_slot ?s i = (0, None)" if "i < 8" for i
    using that bm_mem_zero [of i 1] by (simp add: accept_slot_def accept_new_def n)
  then have "map (accept_slot ?s) [0..<min (unat cap) 8] = replicate (min (unat cap) 8) (0, None)"
    by (intro nth_equalityI) simp_all
  moreover have "ac_worker ?s = w" "ac_cap ?s = min cap 8" by (simp_all add: accept_new_def DEFAULT_MULTISHOT_CAP_def)
  ultimately show "accept_abs ?s = stream_spec_new w (min (unat cap) 8)"
    unfolding accept_abs_def stream_spec_new_def by (simp only: c)
qed

text \<open>
  C23. The slab of multishot accepts implements the table of streams: every sequence of calls
  returns and answers as the table does. Each stream is a FIFO of at most 64 results; a final
  completion is queued like the others, ends the stream even when the queue is full, and a stale
  key or generation changes nothing.
\<close>

theorem accept_refines_streams:
  "\<exists>rs s'. run_exec accept_exec (accept_new w cap) cs = Ret (rs, s') \<and>
    run_calls (stream_spec_exec False) (stream_spec_new w (min (unat cap) 8)) cs = (rs, accept_abs s')"
  using accept.run_refines [OF accept_new_wf(1), of w cap cs] accept_new_wf(2) [of w cap] by auto

end
