(* ===== verification/Cancel_Token.thy ===== *)
theory Cancel_Token
  imports Stream_Spec
begin

text \<open>
  The completion tokens with a meaning of their own (\<open>boundary/cancel/token.rs\<close> and the wake
  token of \<open>uring/backend/wake.rs\<close>): a marker in the upper half of the word, and in the lower half
  a slot and the low bits of its generation. The completion drain routes on these markers before
  it treats a token as a task.
\<close>

section \<open>Markers\<close>

definition WAKE_FD_USER_DATA :: u64 where "WAKE_FD_USER_DATA = 0xFFFFFFFFFFFFFFFF"
definition CANCEL_TOKEN_BASE :: u64 where "CANCEL_TOKEN_BASE = 0xFFFFFFFF00000000"
definition CANCEL_TOKEN_HIGH_MASK :: u64 where "CANCEL_TOKEN_HIGH_MASK = 0xFFFFFFFF00000000"
definition MULTISHOT_TOKEN_BASE :: u64 where "MULTISHOT_TOKEN_BASE = 0xFFFFFFFE00000000"
definition RECV_MULTISHOT_TOKEN_BASE :: u64 where "RECV_MULTISHOT_TOKEN_BASE = 0xFFFFFFFD00000000"
definition MSG_RING_WAKE_TOKEN_BASE :: u64 where "MSG_RING_WAKE_TOKEN_BASE = 0xFFFFFFFC00000000"
definition MSG_RING_WAKE_USER_DATA :: u64 where "MSG_RING_WAKE_USER_DATA = MSG_RING_WAKE_TOKEN_BASE"
definition LINK_TIMEOUT_TOKEN_BASE :: u64 where "LINK_TIMEOUT_TOKEN_BASE = 0xFFFFFFFB00000000"
definition LINK_TIMEOUT_DISCARD_USER_DATA :: u64 where "LINK_TIMEOUT_DISCARD_USER_DATA = LINK_TIMEOUT_TOKEN_BASE"

definition encode_cancel_sentinel :: "inflight_key \<Rightarrow> u64" where
  "encode_cancel_sentinel key =
     CANCEL_TOKEN_BASE OR push_bit 16 (ik_generation key AND 0xFFFF) OR ucast (ik_slot key)"

definition is_cancel_sentinel :: "u64 \<Rightarrow> bool" where
  "is_cancel_sentinel user_data \<longleftrightarrow>
     user_data AND CANCEL_TOKEN_HIGH_MASK = CANCEL_TOKEN_BASE \<and> user_data \<noteq> WAKE_FD_USER_DATA"

definition encode_multishot_sentinel :: "stream_key \<Rightarrow> u64" where
  "encode_multishot_sentinel key =
     MULTISHOT_TOKEN_BASE OR push_bit 16 (sk_generation key AND 0xFFFF) OR ucast (sk_slot key)"

definition is_multishot_sentinel :: "u64 \<Rightarrow> bool" where
  "is_multishot_sentinel user_data \<longleftrightarrow> user_data AND CANCEL_TOKEN_HIGH_MASK = MULTISHOT_TOKEN_BASE"

definition multishot_sentinel_slot :: "u64 \<Rightarrow> u16" where
  "multishot_sentinel_slot user_data = ucast (user_data AND 0xFFFF)"

definition multishot_sentinel_generation :: "u64 \<Rightarrow> u16" where
  "multishot_sentinel_generation user_data = ucast (drop_bit 16 user_data AND 0xFFFF)"

definition encode_recv_multishot_sentinel :: "stream_key \<Rightarrow> u64" where
  "encode_recv_multishot_sentinel key =
     RECV_MULTISHOT_TOKEN_BASE OR push_bit 16 (sk_generation key AND 0xFFFF) OR ucast (sk_slot key)"

definition is_recv_multishot_sentinel :: "u64 \<Rightarrow> bool" where
  "is_recv_multishot_sentinel user_data \<longleftrightarrow> user_data AND CANCEL_TOKEN_HIGH_MASK = RECV_MULTISHOT_TOKEN_BASE"

definition is_msg_ring_wake :: "u64 \<Rightarrow> bool" where
  "is_msg_ring_wake user_data \<longleftrightarrow> user_data = MSG_RING_WAKE_USER_DATA"

definition is_link_timeout_discard :: "u64 \<Rightarrow> bool" where
  "is_link_timeout_discard user_data \<longleftrightarrow> user_data = LINK_TIMEOUT_DISCARD_USER_DATA"

section \<open>The two halves of a token\<close>

lemma high_mask: "CANCEL_TOKEN_HIGH_MASK = push_bit 32 (mask 32)"
  by (simp add: CANCEL_TOKEN_HIGH_MASK_def mask_eq_exp_minus_1)

lemma and_high_mask: "x AND CANCEL_TOKEN_HIGH_MASK = push_bit 32 (drop_bit 32 x)"
  unfolding high_mask by (rule bit_word_eqI) (auto simp: bit_simps)

lemma high_part: "push_bit 32 (drop_bit 32 (x :: u64)) = push_bit 32 c \<longleftrightarrow> drop_bit 32 x = take_bit 32 c"
proof
  assume "push_bit 32 (drop_bit 32 x) = push_bit 32 c"
  then have "drop_bit 32 (push_bit 32 (drop_bit 32 x)) = drop_bit 32 (push_bit 32 c)" by simp
  moreover have "drop_bit 32 (push_bit 32 y) = take_bit 32 y" for y :: u64
    by (rule bit_word_eqI) (auto simp: bit_simps)
  moreover have "take_bit 32 (drop_bit 32 x) = drop_bit 32 x"
    by (rule bit_word_eqI) (auto simp: bit_simps dest: bit_imp_le_length)
  ultimately show "drop_bit 32 x = take_bit 32 c" by simp
next
  assume *: "drop_bit 32 x = take_bit 32 c"
  show "push_bit 32 (drop_bit 32 x) = push_bit 32 c" unfolding * by (rule bit_word_eqI) (auto simp: bit_simps)
qed

lemma bases:
  "CANCEL_TOKEN_BASE = push_bit 32 0xFFFFFFFF" "MULTISHOT_TOKEN_BASE = push_bit 32 0xFFFFFFFE"
  "RECV_MULTISHOT_TOKEN_BASE = push_bit 32 0xFFFFFFFD" "MSG_RING_WAKE_USER_DATA = push_bit 32 0xFFFFFFFC"
  "LINK_TIMEOUT_DISCARD_USER_DATA = push_bit 32 0xFFFFFFFB"
  by (simp_all add: CANCEL_TOKEN_BASE_def MULTISHOT_TOKEN_BASE_def RECV_MULTISHOT_TOKEN_BASE_def
      MSG_RING_WAKE_USER_DATA_def MSG_RING_WAKE_TOKEN_BASE_def LINK_TIMEOUT_DISCARD_USER_DATA_def
      LINK_TIMEOUT_TOKEN_BASE_def)

lemma marker_high [simp]:
  "is_cancel_sentinel x \<longleftrightarrow> drop_bit 32 x = 0xFFFFFFFF \<and> x \<noteq> WAKE_FD_USER_DATA"
  "is_multishot_sentinel x \<longleftrightarrow> drop_bit 32 x = 0xFFFFFFFE"
  "is_recv_multishot_sentinel x \<longleftrightarrow> drop_bit 32 x = 0xFFFFFFFD"
  by (simp_all add: is_cancel_sentinel_def is_multishot_sentinel_def is_recv_multishot_sentinel_def
      and_high_mask high_part bases del: push_bit_numeral)

text \<open>The lower half: slot and generation bits.\<close>

definition low_half :: "u64 \<Rightarrow> u16 \<Rightarrow> u64" where
  "low_half generation slot = push_bit 16 (generation AND 0xFFFF) OR ucast slot"

lemma mask16: "(0xFFFF :: u64) = mask 16"
  by (simp add: mask_eq_exp_minus_1)

lemma token_halves:
  "drop_bit 32 (push_bit 32 c OR low_half g slot) = take_bit 32 c"
  "ucast ((push_bit 32 c OR low_half g slot) AND 0xFFFF) = slot"
  "ucast (drop_bit 16 (push_bit 32 c OR low_half g slot) AND 0xFFFF) = (ucast g :: u16)"
  unfolding low_half_def mask16 by (rule bit_word_eqI, auto simp: bit_simps dest: bit_imp_le_length)+

lemma encode_halves:
  "encode_cancel_sentinel ik = push_bit 32 0xFFFFFFFF OR low_half (ik_generation ik) (ik_slot ik)"
  "encode_multishot_sentinel key = push_bit 32 0xFFFFFFFE OR low_half (sk_generation key) (sk_slot key)"
  "encode_recv_multishot_sentinel key = push_bit 32 0xFFFFFFFD OR low_half (sk_generation key) (sk_slot key)"
  by (simp_all add: encode_cancel_sentinel_def encode_multishot_sentinel_def encode_recv_multishot_sentinel_def
      bases low_half_def or.assoc del: push_bit_numeral)

lemma low_half_ones: "low_half g 0xFFFF = 0xFFFFFFFF \<longleftrightarrow> ucast g = (0xFFFF :: u16)"
proof
  assume "low_half g 0xFFFF = 0xFFFFFFFF"
  then show "ucast g = (0xFFFF :: u16)" using token_halves(3) [of 0 g "0xFFFF"] by simp
next
  assume g: "ucast g = (0xFFFF :: u16)"
  have "g AND 0xFFFF = ucast (ucast g :: u16)" unfolding mask16 by (rule bit_word_eqI) (auto simp: bit_simps)
  then show "low_half g 0xFFFF = 0xFFFFFFFF" by (simp add: low_half_def g)
qed

lemma cancel_token_wake:
  "encode_cancel_sentinel key = WAKE_FD_USER_DATA \<longleftrightarrow> ik_slot key = 0xFFFF \<and> ucast (ik_generation key) = (0xFFFF :: u16)"
proof
  assume e: "encode_cancel_sentinel key = WAKE_FD_USER_DATA"
  have "ik_slot key = ucast (WAKE_FD_USER_DATA AND 0xFFFF)"
    "(ucast (ik_generation key) :: u16) = ucast (drop_bit 16 WAKE_FD_USER_DATA AND 0xFFFF)"
    unfolding e [symmetric] encode_halves by (simp_all only: token_halves)
  then show "ik_slot key = 0xFFFF \<and> ucast (ik_generation key) = (0xFFFF :: u16)" by (simp add: WAKE_FD_USER_DATA_def)
next
  assume "ik_slot key = 0xFFFF \<and> ucast (ik_generation key) = (0xFFFF :: u16)"
  then show "encode_cancel_sentinel key = WAKE_FD_USER_DATA"
    using low_half_ones [of "ik_generation key"] by (simp add: encode_halves WAKE_FD_USER_DATA_def)
qed

section \<open>Routing\<close>

text \<open>
  C31. A sentinel decodes to the slot and the low generation bits it was made from, and is
  recognised by its own predicate. The one exception is a cancel sentinel of slot 0xFFFF whose
  generation ends in sixteen ones: it is the wake token, and the cancel predicate excludes it.
\<close>

theorem sentinel_roundtrip:
  "is_multishot_sentinel (encode_multishot_sentinel key)
   \<and> multishot_sentinel_slot (encode_multishot_sentinel key) = sk_slot key
   \<and> multishot_sentinel_generation (encode_multishot_sentinel key) = ucast (sk_generation key)
   \<and> is_recv_multishot_sentinel (encode_recv_multishot_sentinel key)
   \<and> multishot_sentinel_slot (encode_recv_multishot_sentinel key) = sk_slot key
   \<and> multishot_sentinel_generation (encode_recv_multishot_sentinel key) = ucast (sk_generation key)
   \<and> multishot_sentinel_slot (encode_cancel_sentinel ik) = ik_slot ik
   \<and> multishot_sentinel_generation (encode_cancel_sentinel ik) = ucast (ik_generation ik)
   \<and> (is_cancel_sentinel (encode_cancel_sentinel ik)
       \<longleftrightarrow> \<not> (ik_slot ik = 0xFFFF \<and> ucast (ik_generation ik) = (0xFFFF :: u16)))"
proof -
  have "take_bit 32 (0xFFFFFFFF :: u64) = 0xFFFFFFFF" "take_bit 32 (0xFFFFFFFE :: u64) = 0xFFFFFFFE"
    "take_bit 32 (0xFFFFFFFD :: u64) = 0xFFFFFFFD" by simp_all
  then have high: "drop_bit 32 (encode_cancel_sentinel ik) = 0xFFFFFFFF"
    "drop_bit 32 (encode_multishot_sentinel key) = 0xFFFFFFFE"
    "drop_bit 32 (encode_recv_multishot_sentinel key) = 0xFFFFFFFD"
    unfolding encode_halves by (simp_all only: token_halves)
  have low: "multishot_sentinel_slot (push_bit 32 c OR low_half g slot) = slot"
    "multishot_sentinel_generation (push_bit 32 c OR low_half g slot) = ucast g" for c g slot
    unfolding multishot_sentinel_slot_def multishot_sentinel_generation_def by (rule token_halves)+
  show ?thesis using high cancel_token_wake [of ik] unfolding marker_high
    by (simp add: encode_halves low del: push_bit_numeral)
qed

text \<open>
  C32. The markers do not overlap: a token satisfies at most one of the six predicates the
  completion drain tests, and a token with a clear top bit, which every slab task token has,
  satisfies none.
\<close>

theorem sentinels_disjoint:
  "length (filter (\<lambda>p. p x) [\<lambda>x. x = WAKE_FD_USER_DATA, is_cancel_sentinel, is_multishot_sentinel,
      is_recv_multishot_sentinel, is_msg_ring_wake, is_link_timeout_discard]) \<le> 1
   \<and> (bit x 63 \<or> filter (\<lambda>p. p x) [\<lambda>x. x = WAKE_FD_USER_DATA, is_cancel_sentinel, is_multishot_sentinel,
      is_recv_multishot_sentinel, is_msg_ring_wake, is_link_timeout_discard] = [])"
proof -
  have h: "x = WAKE_FD_USER_DATA \<Longrightarrow> drop_bit 32 x = 0xFFFFFFFF"
    "x = MSG_RING_WAKE_USER_DATA \<Longrightarrow> drop_bit 32 x = 0xFFFFFFFC"
    "x = LINK_TIMEOUT_DISCARD_USER_DATA \<Longrightarrow> drop_bit 32 x = 0xFFFFFFFB"
    by (simp_all add: WAKE_FD_USER_DATA_def bases)
  have b: "bit x 63 \<longleftrightarrow> bit (drop_bit 32 x) 31" by (simp add: bit_drop_bit_eq)
  show ?thesis using h unfolding b is_msg_ring_wake_def is_link_timeout_discard_def marker_high
    by (cases "x = WAKE_FD_USER_DATA"; cases "x = MSG_RING_WAKE_USER_DATA"; cases "x = LINK_TIMEOUT_DISCARD_USER_DATA")
      (auto simp: bit_numeral_rec)
qed

end
