(* ===== verification/Cancel_Queue.thy ===== *)
theory Cancel_Queue
  imports Cancel_Token Ring_Inbox "HOL-Library.Multiset"
begin

text \<open>
  Where a dropped future leaves its cancellation until the worker's next pass
  (\<open>boundary/cancel/inbox.rs\<close>): the ring of in-flight cancels, the ring of multishot-receive
  cancels kept as bytes in a memory region, and the sets of cancelled tokens whose completion is
  still to come. All are bounded and drop what does not fit.
\<close>

section \<open>The ring of cancels\<close>

record cancel_inbox =
  ci_slots :: "inflight_key option list"
  ci_head :: nat
  ci_len :: nat

text \<open>The capacity \<open>N\<close>, positive by a compile-time assertion, is the length of the slot array.\<close>

definition cancel_inbox_new :: "nat \<Rightarrow> cancel_inbox" where
  "cancel_inbox_new n = \<lparr>ci_slots = replicate n None, ci_head = 0, ci_len = 0\<rparr>"

definition push_cancel :: "cancel_inbox \<Rightarrow> inflight_key \<Rightarrow> cancel_inbox" where
  "push_cancel b key =
     (let n = length (ci_slots b) in
      if n \<le> ci_len b then b
      else b\<lparr>ci_slots := (ci_slots b)[(ci_head b + ci_len b) mod n := Some key], ci_len := ci_len b + 1\<rparr>)"

definition pop_cancel :: "cancel_inbox \<Rightarrow> inflight_key option \<times> cancel_inbox" where
  "pop_cancel b =
     (if ci_len b = 0 then (None, b)
      else (ci_slots b ! ci_head b,
            b\<lparr>ci_slots := (ci_slots b)[ci_head b := None],
              ci_head := (ci_head b + 1) mod length (ci_slots b), ci_len := ci_len b - 1\<rparr>))"

definition ci_wf :: "cancel_inbox \<Rightarrow> bool" where
  "ci_wf b \<longleftrightarrow> ci_head b < length (ci_slots b) \<and> ci_len b \<le> length (ci_slots b) \<and>
     (\<forall>k < ci_len b. ci_slots b ! ((ci_head b + k) mod length (ci_slots b)) \<noteq> None)"

definition ci_contents :: "cancel_inbox \<Rightarrow> inflight_key list" where
  "ci_contents b = ring_queue (length (ci_slots b)) (\<lambda>k. the (ci_slots b ! k)) (ci_head b) (ci_len b)"

text \<open>Whether a push was kept, which the code does not report.\<close>

definition ci_push :: "cancel_inbox \<Rightarrow> inflight_key \<Rightarrow> bool \<times> cancel_inbox" where
  "ci_push b key = (ci_len b < length (ci_slots b), push_cancel b key)"

lemma ci_push_ok:
  assumes wf: "ci_wf b" and n: "ci_len b < length (ci_slots b)"
  shows "ci_wf (push_cancel b x) \<and> ci_contents (push_cancel b x) = ci_contents b @ [x]
    \<and> length (ci_slots (push_cancel b x)) = length (ci_slots b)"
proof -
  let ?n = "length (ci_slots b)" and ?p = "(ci_head b + ci_len b) mod length (ci_slots b)"
  have b': "push_cancel b x = b\<lparr>ci_slots := (ci_slots b)[?p := Some x], ci_len := ci_len b + 1\<rparr>"
    using n by (simp add: push_cancel_def Let_def)
  have p: "?p < ?n" using n by (intro mod_less_divisor) linarith
  have "(ci_slots b)[?p := Some x] ! ((ci_head b + k) mod ?n) \<noteq> None" if "k < Suc (ci_len b)" for k
    using that wf p by (cases "k = ci_len b") (auto simp: ci_wf_def nth_list_update)
  then have "ci_wf (push_cancel b x)" using wf n unfolding b' by (simp add: ci_wf_def)
  moreover have "ring_queue ?n (\<lambda>k. the ((ci_slots b)[?p := Some x] ! k)) (ci_head b) (Suc (ci_len b))
      = ring_queue ?n (\<lambda>k. the (ci_slots b ! k)) (ci_head b) (ci_len b) @ [x]"
    using n by (intro ring_queue_push) (auto simp: nth_list_update)
  ultimately show ?thesis unfolding b' by (simp add: ci_contents_def)
qed

lemma ci_pop_ok:
  assumes wf: "ci_wf b" and c: "ci_contents b = x # xs"
  shows "\<exists>s'. pop_cancel b = (Some x, s') \<and> ci_wf s' \<and> ci_contents s' = xs \<and> length (ci_slots s') = length (ci_slots b)"
proof -
  let ?n = "length (ci_slots b)" and ?s = "(ci_slots b)[ci_head b := None]"
  have n: "0 < ci_len b" using c by (cases "ci_len b") (simp_all add: ci_contents_def)
  have h: "ci_head b < ?n" "ci_len b \<le> ?n" using wf by (simp_all add: ci_wf_def)
  note q = ring_queue_pop [OF n h(1), of "\<lambda>k. the (ci_slots b ! k)"]
  have shift: "((ci_head b + 1) mod ?n + k) mod ?n = (ci_head b + (k + 1)) mod ?n" for k
    by (simp add: mod_add_left_eq mod_Suc_eq)
  have other: "?s ! (((ci_head b + 1) mod ?n + k) mod ?n) = ci_slots b ! (((ci_head b + 1) mod ?n + k) mod ?n)
      \<and> ci_slots b ! (((ci_head b + 1) mod ?n + k) mod ?n) \<noteq> None" if k: "k < ci_len b - 1" for k
  proof -
    have lt: "k + 1 < ?n" "0 < ?n" using k h by linarith+
    have "(ci_head b + (k + 1)) mod ?n \<noteq> ci_head b"
      using mod_window_inj [OF _ lt, of "ci_head b"] h(1) by auto
    moreover have "ci_slots b ! ((ci_head b + (k + 1)) mod ?n) \<noteq> None"
      using wf k unfolding ci_wf_def by (meson less_diff_conv)
    ultimately show ?thesis unfolding shift by simp
  qed
  have "ci_slots b ! ((ci_head b + 0) mod ?n) \<noteq> None" using wf n unfolding ci_wf_def by blast
  then have "ci_slots b ! ci_head b = Some x" using h c q by (auto simp: ci_contents_def)
  moreover have "ring_queue ?n (\<lambda>k. the (?s ! k)) ((ci_head b + 1) mod ?n) (ci_len b - 1)
      = ring_queue ?n (\<lambda>k. the (ci_slots b ! k)) ((ci_head b + 1) mod ?n) (ci_len b - 1)"
    using other unfolding ring_queue_def by simp
  moreover have "Suc (ci_head b) mod ?n < ?n" using h by (intro mod_less_divisor) linarith
  then have "ci_wf (snd (pop_cancel b))"
    using other n h unfolding pop_cancel_def ci_wf_def by (auto simp: le_diff_conv)
  ultimately show ?thesis using n q c by (auto simp: pop_cancel_def ci_contents_def)
qed

interpretation cancels: bounded_fifo ci_wf ci_contents "\<lambda>b. length (ci_slots b)" ci_push "\<lambda>r. r" pop_cancel
proof
  fix b :: cancel_inbox and x xs
  assume "ci_wf b" "ci_contents b = x # xs"
  then show "\<exists>s'. pop_cancel b = (Some x, s') \<and> ci_wf s' \<and> ci_contents s' = xs \<and> length (ci_slots s') = length (ci_slots b)"
    by (rule ci_pop_ok)
next
  fix b b' :: cancel_inbox and x r
  assume "ci_wf b" "length (ci_contents b) < length (ci_slots b)" "ci_push b x = (r, b')"
  then show "r \<and> ci_wf b' \<and> ci_contents b' = ci_contents b @ [x] \<and> length (ci_slots b') = length (ci_slots b)"
    using ci_push_ok [of b x] by (auto simp: ci_push_def ci_contents_def)
qed (auto simp: ci_wf_def ci_contents_def ci_push_def push_cancel_def pop_cancel_def ring_queue_def Let_def)

section \<open>The ring of multishot-receive cancels\<close>

record recv_cancel_inbox =
  ri_storage :: bytes
  ri_head :: nat
  ri_len :: nat

definition RECV_CANCEL_ENTRY_LEN :: nat where "RECV_CANCEL_ENTRY_LEN = 11"

definition recv_cancel_new :: "(nat \<Rightarrow> mmap_outcome) \<Rightarrow> nat \<Rightarrow> io_error + recv_cancel_inbox" where
  "recv_cancel_new mmap n =
     res_bind (mmap_region_new mmap (n * RECV_CANCEL_ENTRY_LEN)) (\<lambda>storage.
       Inr \<lparr>ri_storage = storage, ri_head = 0, ri_len = 0\<rparr>)"

text \<open>The record of a key: generation, slot, worker, little-endian.\<close>

definition key_record :: "stream_key \<Rightarrow> bytes" where
  "key_record key = le_bytes 8 (sk_generation key) @ le_bytes 2 (sk_slot key) @ [sk_worker key]"

definition push_recv_cancel :: "nat \<Rightarrow> recv_cancel_inbox \<Rightarrow> stream_key \<Rightarrow> recv_cancel_inbox" where
  "push_recv_cancel n b key =
     (if n \<le> ri_len b then b
      else let index = (ri_head b + ri_len b) mod n; offset = index * RECV_CANCEL_ENTRY_LEN in
        (case get_range (ri_storage b) offset (offset + RECV_CANCEL_ENTRY_LEN) of
           None \<Rightarrow> b
         | Some _ \<Rightarrow> b\<lparr>ri_storage := overwrite (ri_storage b) offset (key_record key), ri_len := ri_len b + 1\<rparr>))"

definition record_key :: "bytes \<Rightarrow> stream_key" where
  "record_key r = \<lparr>sk_slot = le_word (take 2 (drop 8 r)), sk_generation = le_word (take 8 r), sk_worker = r ! 10\<rparr>"

definition pop_recv_cancel :: "nat \<Rightarrow> recv_cancel_inbox \<Rightarrow> stream_key option \<times> recv_cancel_inbox" where
  "pop_recv_cancel n b =
     (if ri_len b = 0 then (None, b)
      else let offset = ri_head b * RECV_CANCEL_ENTRY_LEN in
        (case get_range (ri_storage b) offset (offset + RECV_CANCEL_ENTRY_LEN) of
           None \<Rightarrow> (None, b)
         | Some record \<Rightarrow>
             (Some (record_key record), b\<lparr>ri_head := (ri_head b + 1) mod n, ri_len := ri_len b - 1\<rparr>)))"

lemma key_record_roundtrip: "record_key (key_record key) = key" "length (key_record key) = 11"
  by (simp_all add: record_key_def key_record_def nth_append)

definition ri_wf :: "nat \<Rightarrow> recv_cancel_inbox \<Rightarrow> bool" where
  "ri_wf n b \<longleftrightarrow> length (ri_storage b) = n * 11 \<and> ri_head b < n \<and> ri_len b \<le> n"

definition ri_contents :: "nat \<Rightarrow> recv_cancel_inbox \<Rightarrow> stream_key list" where
  "ri_contents n b = ring_queue n (\<lambda>k. record_key (chunk 11 (ri_storage b) k)) (ri_head b) (ri_len b)"

definition ri_push :: "nat \<Rightarrow> recv_cancel_inbox \<Rightarrow> stream_key \<Rightarrow> bool \<times> recv_cancel_inbox" where
  "ri_push n b key = (ri_len b < n, push_recv_cancel n b key)"

lemma ri_push_ok:
  assumes wf: "ri_wf n b" and len: "ri_len b < n"
  shows "ri_wf n (push_recv_cancel n b x) \<and> ri_contents n (push_recv_cancel n b x) = ri_contents n b @ [x]"
proof -
  let ?p = "(ri_head b + ri_len b) mod n" and ?st = "ri_storage b"
  have st: "length ?st = n * 11" and p: "?p < n" using wf len by (simp_all add: ri_wf_def)
  note r = key_record_roundtrip [of x]
  have b': "push_recv_cancel n b x = b\<lparr>ri_storage := overwrite ?st (?p * 11) (key_record x), ri_len := ri_len b + 1\<rparr>"
    using len get_range_chunk [OF p st] by (simp add: push_recv_cancel_def Let_def RECV_CANCEL_ENTRY_LEN_def)
  have c: "chunk 11 (overwrite ?st (?p * 11) (key_record x)) k = (if k = ?p then key_record x else chunk 11 ?st k)" if "k < n" for k
    using chunk_overwrite_in [OF st p, of 0 "key_record x" k] that r length_chunk [OF p st] by (simp add: overwrite_def)
  have "length (overwrite ?st (?p * 11) (key_record x)) = n * 11"
    using stride_le [OF p, of 11] st r by (simp add: overwrite_def)
  moreover have "ring_queue n (\<lambda>k. record_key (chunk 11 (overwrite ?st (?p * 11) (key_record x)) k)) (ri_head b) (Suc (ri_len b))
      = ring_queue n (\<lambda>k. record_key (chunk 11 ?st k)) (ri_head b) (ri_len b) @ [x]"
    using len c r by (intro ring_queue_push) simp_all
  ultimately show ?thesis using wf len unfolding b' by (simp add: ri_wf_def ri_contents_def)
qed

lemma ri_pop_ok:
  assumes wf: "ri_wf n b" and c: "ri_contents n b = x # xs"
  shows "\<exists>s'. pop_recv_cancel n b = (Some x, s') \<and> ri_wf n s' \<and> ri_contents n s' = xs"
proof -
  have st: "length (ri_storage b) = n * 11" "ri_head b < n" "ri_len b \<le> n" using wf by (simp_all add: ri_wf_def)
  have len: "0 < ri_len b" using c by (cases "ri_len b") (simp_all add: ri_contents_def)
  note q = ring_queue_pop [OF len st(2), of "\<lambda>k. record_key (chunk 11 (ri_storage b) k)"]
  show ?thesis using q c len st get_range_chunk [OF st(2,1)]
    by (auto simp: pop_recv_cancel_def ri_wf_def ri_contents_def Let_def RECV_CANCEL_ENTRY_LEN_def)
qed

interpretation recv_cancels: bounded_fifo "ri_wf n" "ri_contents n" "\<lambda>b. n" "ri_push n" "\<lambda>r. r" "pop_recv_cancel n" for n
proof
  fix b :: recv_cancel_inbox and x xs
  assume "ri_wf n b" "ri_contents n b = x # xs"
  then show "\<exists>s'. pop_recv_cancel n b = (Some x, s') \<and> ri_wf n s' \<and> ri_contents n s' = xs \<and> n = n" using ri_pop_ok by simp
next
  fix b b' :: recv_cancel_inbox and x r
  assume "ri_wf n b" "length (ri_contents n b) < n" "ri_push n b x = (r, b')"
  then show "r \<and> ri_wf n b' \<and> ri_contents n b' = ri_contents n b @ [x] \<and> n = n"
    using ri_push_ok [of n b x] by (auto simp: ri_push_def ri_contents_def)
qed (auto simp: ri_wf_def ri_contents_def ri_push_def push_recv_cancel_def pop_recv_cancel_def ring_queue_def)

text \<open>
  C33. The two cancel rings are bounded FIFOs: from \<open>new\<close>, whatever the sequence of pushes and
  pops, the cancels popped followed by the ones still queued are exactly the ones accepted, in
  order; a push is dropped exactly when the ring is full. The receive ring keeps this through its
  byte encoding.
\<close>

theorem cancel_rings_fifo:
  assumes "0 < n" "recv_cancel_new mmap n = Inr b0" "mmap_zeroed mmap"
    and "fifo_run ci_push (\<lambda>r. r) pop_cancel (cancel_inbox_new n) ops = (ins, outs, b)"
    and "fifo_run (ri_push n) (\<lambda>r. r) (pop_recv_cancel n) b0 rops = (rins, routs, rb)"
  shows "ins = outs @ ci_contents b \<and> length (ci_contents b) \<le> n
    \<and> rins = routs @ ri_contents n rb \<and> length (ri_contents n rb) \<le> n"
proof -
  have new: "ci_wf (cancel_inbox_new n)" "ci_contents (cancel_inbox_new n) = []" "length (ci_slots (cancel_inbox_new n)) = n"
    using assms(1) by (simp_all add: cancel_inbox_new_def ci_wf_def ci_contents_def)
  have "mmap (n * 11) = Mapped (ri_storage b0)" "ri_head b0 = 0" "ri_len b0 = 0"
    using assms(2) by (auto simp: recv_cancel_new_def mmap_region_new_def RECV_CANCEL_ENTRY_LEN_def
        split: mmap_outcome.splits if_splits)
  moreover from this(1) have "ri_storage b0 = replicate (n * 11) 0" using assms(3) unfolding mmap_zeroed_def by blast
  ultimately have rnew: "ri_wf n b0" "ri_contents n b0 = []"
    using assms(1) by (simp_all add: ri_wf_def ri_contents_def)
  show ?thesis using cancels.run_fifo [OF new(1) assms(4)] recv_cancels.run_fifo [OF rnew(1) assms(5)] new rnew by simp
qed

theorem cancel_rings_fifo_witness:
  "\<exists>b0 rb. recv_cancel_new zero_map 2 = Inr b0 \<and>
     fifo_run (ri_push 2) (\<lambda>r. r) (pop_recv_cancel 2) b0
       [Some \<lparr>sk_slot = 5, sk_generation = 9, sk_worker = 1\<rparr>] = ([\<lparr>sk_slot = 5, sk_generation = 9, sk_worker = 1\<rparr>], [], rb)
     \<and> ri_contents 2 rb = [\<lparr>sk_slot = 5, sk_generation = 9, sk_worker = 1\<rparr>]"
proof -
  let ?k = "\<lparr>sk_slot = 5, sk_generation = 9, sk_worker = 1\<rparr>"
  obtain b0 where b0: "recv_cancel_new zero_map 2 = Inr b0" "ri_len b0 = 0"
    by (auto simp: recv_cancel_new_def zero_map_def mmap_region_new_def RECV_CANCEL_ENTRY_LEN_def)
  obtain rins routs rb where r: "fifo_run (ri_push 2) (\<lambda>r. r) (pop_recv_cancel 2) b0 [Some ?k] = (rins, routs, rb)"
    by (metis prod_cases3)
  have "rins = [?k]" "routs = []" using r b0(2) by (auto simp: ri_push_def)
  then show ?thesis using b0(1) r cancel_rings_fifo [OF _ b0(1) zero_map_zeroed _ r, of "[]" "[]" "[]" "cancel_inbox_new 2"]
    by (auto simp: ci_contents_def cancel_inbox_new_def)
qed

section \<open>Sets of cancelled tokens\<close>

text \<open>
  \<open>AcceptCancelSet\<close>, \<open>ProvidedRecvCancelSet\<close> and \<open>ConnectCancelSet\<close> are the same code over
  capacities of their own: an array of tokens of which the first \<open>len\<close> are in the set.
\<close>

record token_set =
  ts_tokens :: "u64 list"
  ts_len :: nat

definition ACCEPT_CANCEL_SLOT :: u16 where "ACCEPT_CANCEL_SLOT = 0xFFFF"
definition PROVIDED_RECV_CANCEL_SLOT :: u16 where "PROVIDED_RECV_CANCEL_SLOT = 0xFFFE"
definition CONNECT_CANCEL_SLOT :: u16 where "CONNECT_CANCEL_SLOT = 0xFFFD"

definition token_set_new :: "nat \<Rightarrow> token_set" where
  "token_set_new n = \<lparr>ts_tokens = replicate n 0, ts_len = 0\<rparr>"

definition token_insert :: "token_set \<Rightarrow> u64 \<Rightarrow> token_set" where
  "token_insert ts token =
     (if ts_len ts < length (ts_tokens ts)
      then ts\<lparr>ts_tokens := (ts_tokens ts)[ts_len ts := token], ts_len := ts_len ts + 1\<rparr> else ts)"

text \<open>The loop of \<open>take\<close> from \<open>index\<close>: a match is replaced by the last token.\<close>

function token_take_from :: "token_set \<Rightarrow> u64 \<Rightarrow> nat \<Rightarrow> bool \<times> token_set" where
  "token_take_from ts token index =
     (if index < ts_len ts
      then if ts_tokens ts ! index = token
           then (True, ts\<lparr>ts_tokens := (ts_tokens ts)[index := ts_tokens ts ! (ts_len ts - 1)], ts_len := ts_len ts - 1\<rparr>)
           else token_take_from ts token (index + 1)
      else (False, ts))"
  by auto

termination
  by (relation "measure (\<lambda>(ts, token, index). ts_len ts - index)") auto

declare token_take_from.simps [simp del]

definition token_take :: "token_set \<Rightarrow> u64 \<Rightarrow> bool \<times> token_set" where
  "token_take ts token = token_take_from ts token 0"

definition token_set_is_empty :: "token_set \<Rightarrow> bool" where
  "token_set_is_empty ts \<longleftrightarrow> ts_len ts = 0"

definition ts_wf :: "token_set \<Rightarrow> bool" where
  "ts_wf ts \<longleftrightarrow> ts_len ts \<le> length (ts_tokens ts)"

definition ts_bag :: "token_set \<Rightarrow> u64 multiset" where
  "ts_bag ts = mset (take (ts_len ts) (ts_tokens ts))"

lemma mset_swap_remove:
  assumes "i < n" "n \<le> length xs"
  shows "mset (take (n - 1) (xs[i := xs ! (n - 1)])) = mset (take n xs) - {#xs ! i#}"
proof -
  have ys: "take n xs = take (n - 1) xs @ [xs ! (n - 1)]" using assms by (metis Suc_diff_1 less_imp_Suc_add take_Suc_conv_app_nth Suc_le_lessD zero_less_Suc gr0I not_less_zero)
  show ?thesis
  proof (cases "i = n - 1")
    case True
    then show ?thesis using ys by simp
  next
    case False
    then have i: "i < length (take (n - 1) xs)" "take (n - 1) xs ! i = xs ! i" using assms by auto
    have "mset ((take (n - 1) xs)[i := xs ! (n - 1)]) = add_mset (xs ! (n - 1)) (mset (take (n - 1) xs) - {#xs ! i#})"
      using mset_update [OF i(1)] i(2) by simp
    moreover have "xs ! i \<in># mset (take (n - 1) xs)" using i by (metis nth_mem set_mset_mset)
    ultimately show ?thesis using ys by (simp add: take_update_swap)
  qed
qed

lemma token_take_from_bag:
  assumes "token_take_from ts token i = (r, ts')" "ts_wf ts"
  shows "(r \<longleftrightarrow> token \<in> set (drop i (take (ts_len ts) (ts_tokens ts)))) \<and> ts_wf ts'
    \<and> length (ts_tokens ts') = length (ts_tokens ts) \<and> ts_bag ts' = (if r then ts_bag ts - {#token#} else ts_bag ts)"
  using assms
proof (induction ts token i rule: token_take_from.induct)
  case (1 ts token i)
  let ?xs = "take (ts_len ts) (ts_tokens ts)"
  show ?case
  proof (cases "i < ts_len ts")
    case True
    then have d: "drop i ?xs = ts_tokens ts ! i # drop (Suc i) ?xs"
      using 1(3) by (subst Cons_nth_drop_Suc [symmetric]) (simp_all add: ts_wf_def)
    show ?thesis
    proof (cases "ts_tokens ts ! i = token")
      case hit: True
      then have "r" "ts' = ts\<lparr>ts_tokens := (ts_tokens ts)[i := ts_tokens ts ! (ts_len ts - 1)], ts_len := ts_len ts - 1\<rparr>"
        using 1(2) True by (simp_all add: token_take_from.simps [of ts])
      then show ?thesis using mset_swap_remove [OF True, of "ts_tokens ts"] 1(3) hit d by (simp add: ts_bag_def ts_wf_def)
    next
      case False
      then show ?thesis using 1(1) [OF True False] 1(2,3) True d by (simp add: token_take_from.simps [of ts token i])
    qed
  next
    case False
    then show ?thesis using 1(2,3) by (simp add: token_take_from.simps)
  qed
qed

lemma token_take_bag:
  assumes "token_take ts token = (r, ts')" "ts_wf ts"
  shows "r \<longleftrightarrow> token \<in># ts_bag ts" "ts_wf ts'" "length (ts_tokens ts') = length (ts_tokens ts)"
    "ts_bag ts' = ts_bag ts - {#token#}"
  using token_take_from_bag [of ts token 0 r ts'] assms by (auto simp: token_take_def ts_bag_def)

lemma token_insert_bag:
  assumes "ts_wf ts"
  shows "ts_wf (token_insert ts token)"
    and "ts_bag (token_insert ts token) = (if size (ts_bag ts) < length (ts_tokens ts) then add_mset token (ts_bag ts) else ts_bag ts)"
  using assms by (auto simp: token_insert_def ts_wf_def ts_bag_def take_Suc_conv_app_nth)

lemma token_set_empty_bag: "ts_wf ts \<Longrightarrow> token_set_is_empty ts \<longleftrightarrow> ts_bag ts = {#}"
  by (auto simp: token_set_is_empty_def ts_bag_def ts_wf_def)

lemma token_set_new_bag [simp]: "ts_wf (token_set_new n)" "ts_bag (token_set_new n) = {#}"
  by (simp_all add: token_set_new_def ts_wf_def ts_bag_def)

end
