(* ===== verification/Cancel_Push.thy ===== *)
theory Cancel_Push
  imports Cancel_Queue Recv_Slab
begin

text \<open>
  How a dropped future reaches the cancel inboxes of its worker (\<open>boundary/cancel/guard.rs\<close>,
  \<open>boundary/seam/cancel.rs\<close>): the two static arrays of inbox pointers with the guards that install
  and clear them, and the keys that the kinds of futures queue.
\<close>

section \<open>Installed inboxes\<close>

text \<open>A pointer is an address of the store of inboxes; null is \<open>None\<close>.\<close>

record inbox_statics =
  is_cancel :: "u8 \<Rightarrow> nat option"
  is_recv_cancel :: "u8 \<Rightarrow> nat option"
  is_inboxes :: "nat \<Rightarrow> cancel_inbox"
  is_recv_inboxes :: "nat \<Rightarrow> recv_cancel_inbox"

definition cancel_guard_install :: "inbox_statics \<Rightarrow> u8 \<Rightarrow> nat \<Rightarrow> inbox_statics" where
  "cancel_guard_install st worker_id inbox = st\<lparr>is_cancel := (is_cancel st)(worker_id := Some inbox)\<rparr>"

definition cancel_guard_drop :: "inbox_statics \<Rightarrow> u8 \<Rightarrow> inbox_statics" where
  "cancel_guard_drop st worker_id = st\<lparr>is_cancel := (is_cancel st)(worker_id := None)\<rparr>"

definition recv_cancel_guard_install :: "inbox_statics \<Rightarrow> u8 \<Rightarrow> nat \<Rightarrow> inbox_statics" where
  "recv_cancel_guard_install st worker_id inbox = st\<lparr>is_recv_cancel := (is_recv_cancel st)(worker_id := Some inbox)\<rparr>"

definition recv_cancel_guard_drop :: "inbox_statics \<Rightarrow> u8 \<Rightarrow> inbox_statics" where
  "recv_cancel_guard_drop st worker_id = st\<lparr>is_recv_cancel := (is_recv_cancel st)(worker_id := None)\<rparr>"

section \<open>Pushes of dropped futures\<close>

definition push_cancel_for_worker :: "inbox_statics \<Rightarrow> inflight_key \<Rightarrow> inbox_statics" where
  "push_cancel_for_worker st key =
     (case is_cancel st (ik_worker key) of
        None \<Rightarrow> st
      | Some a \<Rightarrow> st\<lparr>is_inboxes := (is_inboxes st)(a := push_cancel (is_inboxes st a) key)\<rparr>)"

definition accept_cancel_key :: "u8 \<Rightarrow> u64 \<Rightarrow> inflight_key" where
  "accept_cancel_key worker_id token =
     \<lparr>ik_slot = ACCEPT_CANCEL_SLOT, ik_generation = 0, ik_worker = worker_id, ik_token = token\<rparr>"

definition provided_recv_cancel_key :: "u8 \<Rightarrow> u64 \<Rightarrow> inflight_key" where
  "provided_recv_cancel_key worker_id token =
     \<lparr>ik_slot = PROVIDED_RECV_CANCEL_SLOT, ik_generation = 0, ik_worker = worker_id, ik_token = token\<rparr>"

definition connect_cancel_key :: "u8 \<Rightarrow> u64 \<Rightarrow> inflight_key" where
  "connect_cancel_key worker_id token =
     \<lparr>ik_slot = CONNECT_CANCEL_SLOT, ik_generation = 0, ik_worker = worker_id, ik_token = token\<rparr>"

definition multishot_cancel_key :: "stream_key \<Rightarrow> inflight_key" where
  "multishot_cancel_key key =
     \<lparr>ik_slot = sk_slot key, ik_generation = sk_generation key, ik_worker = sk_worker key,
      ik_token = encode_multishot_sentinel key\<rparr>"

definition push_accept_cancel_for_worker :: "inbox_statics \<Rightarrow> u8 \<Rightarrow> u64 \<Rightarrow> inbox_statics" where
  "push_accept_cancel_for_worker st worker_id token = push_cancel_for_worker st (accept_cancel_key worker_id token)"

definition push_provided_recv_cancel_for_worker :: "inbox_statics \<Rightarrow> u8 \<Rightarrow> u64 \<Rightarrow> inbox_statics" where
  "push_provided_recv_cancel_for_worker st worker_id token =
     push_cancel_for_worker st (provided_recv_cancel_key worker_id token)"

definition push_connect_cancel_for_worker :: "inbox_statics \<Rightarrow> u8 \<Rightarrow> u64 \<Rightarrow> inbox_statics" where
  "push_connect_cancel_for_worker st worker_id token = push_cancel_for_worker st (connect_cancel_key worker_id token)"

definition push_multishot_cancel_for_worker :: "inbox_statics \<Rightarrow> stream_key \<Rightarrow> inbox_statics" where
  "push_multishot_cancel_for_worker st key = push_cancel_for_worker st (multishot_cancel_key key)"

definition RECV_CANCEL_INBOX_CAPACITY :: nat where "RECV_CANCEL_INBOX_CAPACITY = unat DEFAULT_RECV_MULTISHOT_CAP"

definition push_recv_multishot_cancel_for_worker :: "inbox_statics \<Rightarrow> stream_key \<Rightarrow> inbox_statics" where
  "push_recv_multishot_cancel_for_worker st key =
     (case is_recv_cancel st (sk_worker key) of
        None \<Rightarrow> st
      | Some a \<Rightarrow> st\<lparr>is_recv_inboxes := (is_recv_inboxes st)
          (a := push_recv_cancel RECV_CANCEL_INBOX_CAPACITY (is_recv_inboxes st a) key)\<rparr>)"

text \<open>A push reaches the inbox its worker installed and no other, and a cleared worker none.\<close>

lemma push_cancel_installed:
  assumes "is_cancel st (ik_worker key) = Some a"
  shows "is_inboxes (push_cancel_for_worker st key) a = push_cancel (is_inboxes st a) key"
    and "b \<noteq> a \<Longrightarrow> is_inboxes (push_cancel_for_worker st key) b = is_inboxes st b"
  using assms by (simp_all add: push_cancel_for_worker_def)

lemma push_cancel_cleared [simp]: "push_cancel_for_worker (cancel_guard_drop st (ik_worker key)) key = cancel_guard_drop st (ik_worker key)"
  by (simp add: push_cancel_for_worker_def cancel_guard_drop_def)

lemma push_recv_cancel_cleared [simp]:
  "push_recv_multishot_cancel_for_worker (recv_cancel_guard_drop st (sk_worker key)) key = recv_cancel_guard_drop st (sk_worker key)"
  by (simp add: push_recv_multishot_cancel_for_worker_def recv_cancel_guard_drop_def)

end
