(* ===== verification/Seam_Drain.thy ===== *)
theory Seam_Drain
  imports Recv_Refine Accept_Slab Inflight_Refine Cancel_Push
begin

text \<open>
  What a worker does with completions and queued cancels (\<open>boundary/seam/drain.rs\<close>): a
  completion of a multishot operation goes to the stream that owns it, a cancel closes or
  recycles what the dropped stream would have taken, and the completion of a cancelled one-shot
  operation is disposed of. The effects on the driver are a log: buffers given back to the
  provided pool, descriptors closed, cancel requests submitted.
\<close>

section \<open>Completions and effects\<close>

type_synonym cqe_flags = u32

definition CQE_MORE :: cqe_flags where "CQE_MORE = push_bit 1 1"

definition flags_contain :: "cqe_flags \<Rightarrow> cqe_flags \<Rightarrow> bool" where
  "flags_contain a b \<longleftrightarrow> a AND b = b"

text \<open>\<open>provided\<close> says whether the driver has a pool of provided buffers.\<close>

record io_log =
  lg_provided :: bool
  lg_recycled :: "u16 list"
  lg_closed :: "i32 list"
  lg_cancels :: "(u64 \<times> u64) list"

record multishot_completion =
  mc_wake :: "u64 option"
  mc_retire :: "u64 option"

text \<open>A cancel request for the operation with the given token, under its own user data; the
  driver's answer is ignored.\<close>

definition submit_cancel_request :: "io_log \<Rightarrow> u64 \<Rightarrow> u64 \<Rightarrow> io_log" where
  "submit_cancel_request lg target user_data = lg\<lparr>lg_cancels := lg_cancels lg @ [(target, user_data)]\<rparr>"

definition adopt_accepted_fd :: "i32 \<Rightarrow> i32 option" where
  "adopt_accepted_fd result = (if sint result < 0 then None else Some result)"

text \<open>Dropping the adopted descriptor closes it.\<close>

definition dispose_accept_result :: "io_log \<Rightarrow> i32 \<Rightarrow> io_log" where
  "dispose_accept_result lg result =
     (case adopt_accepted_fd result of None \<Rightarrow> lg | Some fd \<Rightarrow> lg\<lparr>lg_closed := lg_closed lg @ [fd]\<rparr>)"

definition recycle_provided :: "io_log \<Rightarrow> u16 option \<Rightarrow> io_log" where
  "recycle_provided lg buf_id =
     (case buf_id of
        None \<Rightarrow> lg
      | Some bid \<Rightarrow> if lg_provided lg then lg\<lparr>lg_recycled := lg_recycled lg @ [bid]\<rparr> else lg)"

section \<open>Multishot completions\<close>

definition push_multishot_completion ::
    "accept_slab \<Rightarrow> io_log \<Rightarrow> u64 \<Rightarrow> i32 \<Rightarrow> cqe_flags \<Rightarrow> (multishot_completion \<times> accept_slab \<times> io_log) exec" where
  "push_multishot_completion s lg user_data result flags =
     (let slot = multishot_sentinel_slot user_data;
          generation = multishot_sentinel_generation user_data;
          is_more = flags_contain flags CQE_MORE;
          owner = accept_owner s slot generation;
          retire = (if is_more then None else owner) in
      if accept_is_cancel_pending s slot generation then
        if is_more then Ret (\<lparr>mc_wake = None, mc_retire = retire\<rparr>, s, dispose_accept_result lg result)
        else Ret (\<lparr>mc_wake = None, mc_retire = retire\<rparr>, accept_free_by_slot s slot generation, lg)
      else exec_bind (accept_push s slot generation result is_more) (\<lambda>(pushed, s').
        case pushed of
          Queued \<Rightarrow> Ret (\<lparr>mc_wake = owner, mc_retire = retire\<rparr>, s', lg)
        | _ \<Rightarrow> Ret (\<lparr>mc_wake = None, mc_retire = retire\<rparr>, s',
                  if is_more then dispose_accept_result lg result else lg)))"

definition push_recv_multishot_completion ::
    "recv_slab \<Rightarrow> io_log \<Rightarrow> u64 \<Rightarrow> i32 \<Rightarrow> cqe_flags \<Rightarrow> u16 option \<Rightarrow> (multishot_completion \<times> recv_slab \<times> io_log) exec" where
  "push_recv_multishot_completion s lg user_data result flags buf_id =
     (let slot = multishot_sentinel_slot user_data;
          generation = multishot_sentinel_generation user_data;
          is_more = flags_contain flags CQE_MORE;
          owner = recv_owner s slot generation;
          retire = (if is_more then None else owner) in
      if recv_is_cancel_pending s slot generation then
        let lg' = recycle_provided lg buf_id in
        Ret (\<lparr>mc_wake = None, mc_retire = retire\<rparr>, if is_more then s else recv_free_by_slot s slot generation, lg')
      else exec_bind (recv_push s slot generation result (case buf_id of None \<Rightarrow> NO_BUFFER | Some bid \<Rightarrow> bid) is_more) (\<lambda>(pushed, s').
        if pushed = Queued \<or> pushed = Terminal then Ret (\<lparr>mc_wake = owner, mc_retire = retire\<rparr>, s', lg)
        else Ret (\<lparr>mc_wake = None, mc_retire = retire\<rparr>, s', recycle_provided lg buf_id)))"

section \<open>Cancels\<close>

definition submit_cancel :: "inflight_slab \<Rightarrow> io_log \<Rightarrow> inflight_key \<Rightarrow> inflight_slab \<times> io_log" where
  "submit_cancel s lg key =
     (mark_retire_pending s key, submit_cancel_request lg (ik_token key) (encode_cancel_sentinel key))"

text \<open>\<open>while let Some(result) = slab.pop(slot)\<close>\<close>

partial_function (option) close_queued :: "accept_slab \<Rightarrow> io_log \<Rightarrow> stream_key \<Rightarrow> (accept_slab \<times> io_log) exec option" where
  "close_queued s lg key =
     (case accept_pop s key of
        Ret (None, s') \<Rightarrow> Some (Ret (s', lg))
      | Ret (Some result, s') \<Rightarrow> close_queued s' (dispose_accept_result lg result) key
      | Panic \<Rightarrow> Some Panic
      | Undefined \<Rightarrow> Some Undefined)"

definition submit_multishot_cancel ::
    "accept_slab \<Rightarrow> io_log \<Rightarrow> inflight_key \<Rightarrow> (accept_slab \<times> io_log) exec option" where
  "submit_multishot_cancel s lg key =
     (let slot = \<lparr>sk_slot = ik_slot key, sk_generation = ik_generation key, sk_worker = ik_worker key\<rparr> in
      case close_queued s lg slot of
        None \<Rightarrow> None
      | Some m \<Rightarrow> Some (exec_bind m (\<lambda>(s', lg').
          Ret (accept_mark_cancel_pending s' slot, submit_cancel_request lg' (ik_token key) (ik_token key)))))"

definition recycle_entry :: "io_log \<Rightarrow> i32 \<times> u16 \<Rightarrow> io_log" where
  "recycle_entry lg e = (if snd e \<noteq> NO_BUFFER then recycle_provided lg (Some (snd e)) else lg)"

partial_function (option) recycle_queued :: "recv_slab \<Rightarrow> io_log \<Rightarrow> stream_key \<Rightarrow> (recv_slab \<times> io_log) exec option" where
  "recycle_queued s lg key =
     (case recv_pop s key of
        Ret (None, s') \<Rightarrow> Some (Ret (s', lg))
      | Ret (Some e, s') \<Rightarrow> recycle_queued s' (recycle_entry lg e) key
      | Panic \<Rightarrow> Some Panic
      | Undefined \<Rightarrow> Some Undefined)"

definition submit_recv_multishot_cancel ::
    "recv_slab \<Rightarrow> io_log \<Rightarrow> stream_key \<Rightarrow> (recv_slab \<times> io_log) exec option" where
  "submit_recv_multishot_cancel s lg key =
     (case recycle_queued s lg key of
        None \<Rightarrow> None
      | Some m \<Rightarrow> Some (exec_bind m (\<lambda>(s1, lg1).
          let (terminal, s2) = recv_take_terminal s1 key;
              lg2 = (case terminal of None \<Rightarrow> lg1 | Some e \<Rightarrow> recycle_entry lg1 e) in
          if recv_is_terminated s2 key then Ret (recv_free s2 key, lg2)
          else let sentinel = encode_recv_multishot_sentinel key in
               Ret (recv_mark_cancel_pending s2 key, submit_cancel_request lg2 sentinel sentinel))))"

text \<open>The three slotless cancels remember the token until its completion comes.\<close>

definition submit_token_cancel :: "token_set \<Rightarrow> io_log \<Rightarrow> inflight_key \<Rightarrow> token_set \<times> io_log" where
  "submit_token_cancel ts lg key =
     (token_insert ts (ik_token key), submit_cancel_request lg (ik_token key) (encode_cancel_sentinel key))"

record cancel_state =
  cs_inflight :: inflight_slab
  cs_multishot :: accept_slab
  cs_accepts :: token_set
  cs_provided_recvs :: token_set
  cs_connects :: token_set

definition submit_cancel_for :: "cancel_state \<Rightarrow> io_log \<Rightarrow> inflight_key \<Rightarrow> (cancel_state \<times> io_log) exec option" where
  "submit_cancel_for c lg key =
     (if is_multishot_sentinel (ik_token key) then
        (case submit_multishot_cancel (cs_multishot c) lg key of
           None \<Rightarrow> None
         | Some m \<Rightarrow> Some (exec_bind m (\<lambda>(s, lg'). Ret (c\<lparr>cs_multishot := s\<rparr>, lg'))))
      else if ik_slot key = ACCEPT_CANCEL_SLOT then
        let (ts, lg') = submit_token_cancel (cs_accepts c) lg key in Some (Ret (c\<lparr>cs_accepts := ts\<rparr>, lg'))
      else if ik_slot key = PROVIDED_RECV_CANCEL_SLOT then
        let (ts, lg') = submit_token_cancel (cs_provided_recvs c) lg key in Some (Ret (c\<lparr>cs_provided_recvs := ts\<rparr>, lg'))
      else if ik_slot key = CONNECT_CANCEL_SLOT then
        let (ts, lg') = submit_token_cancel (cs_connects c) lg key in Some (Ret (c\<lparr>cs_connects := ts\<rparr>, lg'))
      else let (s, lg') = submit_cancel (cs_inflight c) lg key in Some (Ret (c\<lparr>cs_inflight := s\<rparr>, lg')))"

section \<open>Completions of cancelled one-shot operations\<close>

text \<open>\<open>!set.is_empty() && set.take(token)\<close>\<close>

definition take_nonempty :: "token_set \<Rightarrow> u64 \<Rightarrow> bool \<times> token_set" where
  "take_nonempty ts token = (if token_set_is_empty ts then (False, ts) else token_take ts token)"

definition dispose_cancelled_accept :: "token_set \<Rightarrow> io_log \<Rightarrow> u64 \<Rightarrow> i32 \<Rightarrow> bool \<times> token_set \<times> io_log" where
  "dispose_cancelled_accept ts lg token result =
     (case take_nonempty ts token of
        (False, ts') \<Rightarrow> (False, ts', lg)
      | (True, ts') \<Rightarrow> (True, ts', dispose_accept_result lg result))"

definition dispose_cancelled_connect :: "token_set \<Rightarrow> u64 \<Rightarrow> bool \<times> token_set" where
  "dispose_cancelled_connect ts token = take_nonempty ts token"

definition dispose_cancelled_op ::
    "cancel_state \<Rightarrow> io_log \<Rightarrow> u64 \<Rightarrow> i32 \<Rightarrow> u16 option \<Rightarrow> bool \<times> cancel_state \<times> io_log" where
  "dispose_cancelled_op c lg token result buf_id =
     (case buf_id of
        Some bid \<Rightarrow>
          (case take_nonempty (cs_provided_recvs c) token of
             (False, ts) \<Rightarrow> (False, c\<lparr>cs_provided_recvs := ts\<rparr>, lg)
           | (True, ts) \<Rightarrow> (True, c\<lparr>cs_provided_recvs := ts\<rparr>, recycle_provided lg (Some bid)))
      | None \<Rightarrow>
          let (hit, ts) = dispose_cancelled_connect (cs_connects c) token; c1 = c\<lparr>cs_connects := ts\<rparr> in
          if hit then (True, c1, lg)
          else let (hit, ts) = (if result = 0 then take_nonempty (cs_provided_recvs c1) token else (False, cs_provided_recvs c1));
                   c2 = c1\<lparr>cs_provided_recvs := ts\<rparr> in
            if hit then (True, c2, lg)
            else let (hit, ts, lg') = dispose_cancelled_accept (cs_accepts c2) lg token result; c3 = c2\<lparr>cs_accepts := ts\<rparr> in
              if hit then (True, c3, lg')
              else let (hit, ts) = take_nonempty (cs_provided_recvs c3) token in
                   (hit, c3\<lparr>cs_provided_recvs := ts\<rparr>, lg'))"

definition reclaim_dropped_slot :: "inflight_slab \<Rightarrow> u64 \<Rightarrow> inflight_slab" where
  "reclaim_dropped_slot s op_token = snd (free_by_op_token s op_token)"

definition reclaim_cancel_completion :: "inflight_slab \<Rightarrow> u64 \<Rightarrow> i32 \<Rightarrow> inflight_slab" where
  "reclaim_cancel_completion s sentinel result =
     (if sint result \<noteq> - 2 then s
      else let slot = ucast (sentinel AND 0xFFFF); generation_low16 = ucast (drop_bit 16 sentinel AND 0xFFFF) in
           snd (free_if_retire_pending s slot generation_low16))"

definition mark_notif_expected :: "inflight_slab \<Rightarrow> u64 \<Rightarrow> inflight_slab" where
  "mark_notif_expected s op_token = mark_notif_expected_by_op_token s op_token"

definition reclaim_notif :: "inflight_slab \<Rightarrow> u64 \<Rightarrow> inflight_slab" where
  "reclaim_notif s op_token =
     (let (rc, s') = free_by_op_token s op_token in
      if \<not> was_freed rc then mark_notif_ready_by_op_token s' op_token else s')"

end
