(* ===== verification/Resource_Account.thy ===== *)
theory Resource_Account
  imports Kwokka_Prelude "HOL-Library.Multiset"
begin

text \<open>
  Sequences of events on a component and its environment, and the contract by which every event
  keeps an account of resources: descriptors, buffers.
\<close>

section \<open>Sequences of events that conserve\<close>

fun run_events :: "('s \<Rightarrow> 'e \<Rightarrow> 's exec option) \<Rightarrow> 's \<Rightarrow> 'e list \<Rightarrow> 's exec option" where
  "run_events ex s [] = Some (Ret s)"
| "run_events ex s (e # es) =
     (case ex s e of
        Some (Ret s') \<Rightarrow> run_events ex s' es
      | r \<Rightarrow> r)"

fun admissible_run :: "('s \<Rightarrow> 'e \<Rightarrow> 's exec option) \<Rightarrow> ('s \<Rightarrow> 'e \<Rightarrow> bool) \<Rightarrow> 's \<Rightarrow> 'e list \<Rightarrow> bool" where
  "admissible_run ex ok s [] \<longleftrightarrow> True"
| "admissible_run ex ok s (e # es) \<longleftrightarrow>
     ok s e \<and> (case ex s e of Some (Ret s') \<Rightarrow> admissible_run ex ok s' es | _ \<Rightarrow> True)"

lemma admissible_always: "(\<And>s e. e \<in> set es \<Longrightarrow> ok s e) \<Longrightarrow> admissible_run ex ok s es"
  by (induction es arbitrary: s) (auto split: option.splits exec.splits)

text \<open>
  An account of resources that every admissible event keeps: the event returns, and what the state
  accounts for grows by what the event brings.
\<close>

locale conserving =
  fixes ex :: "'s \<Rightarrow> 'e \<Rightarrow> 's exec option" and ok :: "'s \<Rightarrow> 'e \<Rightarrow> bool" and inv :: "'s \<Rightarrow> bool"
    and account :: "'s \<Rightarrow> 'm multiset" and gain :: "'e \<Rightarrow> 'm multiset"
  assumes step: "inv s \<Longrightarrow> ok s e \<Longrightarrow> \<exists>s'. ex s e = Some (Ret s') \<and> inv s' \<and> account s' = account s + gain e"
begin

lemma run_conserves:
  "inv s \<Longrightarrow> admissible_run ex ok s es \<Longrightarrow>
     \<exists>s'. run_events ex s es = Some (Ret s') \<and> inv s' \<and> account s' = account s + (\<Sum>e\<leftarrow>es. gain e)"
proof (induction es arbitrary: s)
  case (Cons e es)
  obtain s1 where a: "ex s e = Some (Ret s1)" "inv s1" "account s1 = account s + gain e"
    using step Cons.prems by auto
  then obtain s' where "run_events ex s1 es = Some (Ret s')" "inv s'" "account s' = account s1 + (\<Sum>e\<leftarrow>es. gain e)"
    using Cons.IH [OF a(2)] Cons.prems by auto
  then show ?case using a by (simp add: add.assoc)
qed simp

end

end
