(* ===== verification/Seam_Conserve.thy ===== *)
theory Seam_Conserve
  imports Seam_Drain Resource_Account
begin

text \<open>
  What becomes of what the kernel hands over, through completions, cancels and the end of streams:
  every provided buffer a multishot receive selects is queued for its stream or recycled, and every
  descriptor a multishot accept creates is queued or closed, unless the operation ends with it and
  its stream cannot take it.
\<close>

section \<open>What the streams of a table hold\<close>

definition slot_holds :: "('e stream \<Rightarrow> 'm multiset) \<Rightarrow> 'e sslot \<Rightarrow> 'm multiset" where
  "slot_holds f e = (case snd e of None \<Rightarrow> {#} | Some st \<Rightarrow> f st)"

definition held_sum :: "('e stream \<Rightarrow> 'm multiset) \<Rightarrow> 'e stream_spec \<Rightarrow> 'm multiset" where
  "held_sum f sp = (\<Sum>i<length (ss_table sp). slot_holds f (ss_table sp ! i))"

lemma held_sum_update:
  assumes "i < length (ss_table sp)"
  shows "held_sum f (sp\<lparr>ss_table := (ss_table sp)[i := e]\<rparr>) + slot_holds f (ss_table sp ! i) = held_sum f sp + slot_holds f e"
proof -
  let ?t = "ss_table sp"
  have rest: "(\<Sum>j\<in>{..<length ?t} - {i}. slot_holds f (?t[i := e] ! j)) = (\<Sum>j\<in>{..<length ?t} - {i}. slot_holds f (?t ! j))"
    by (rule sum.cong) auto
  show ?thesis using assms rest
    by (simp add: held_sum_def sum.remove [of "{..<length ?t}" i])
qed

lemma held_sum_put:
  assumes "i < length (ss_table sp)" "snd (ss_table sp ! i) = Some st"
  shows "held_sum f (ss_put sp i (Some st')) + f st = held_sum f sp + f st'"
  using held_sum_update [OF assms(1), of f "(fst (ss_table sp ! i), Some st')"] assms(2)
  by (simp add: ss_put_def slot_holds_def)

lemma held_sum_release:
  assumes "i < length (ss_table sp)" "snd (ss_table sp ! i) = Some st"
  shows "held_sum f (ss_release sp i) + f st = held_sum f sp"
  using held_sum_update [OF assms(1), of f "(fst (ss_table sp ! i) + 1, None)"] assms(2)
  by (simp add: ss_release_def slot_holds_def)

lemma held_slotD2:
  "held_slot sp slot low = Some st \<Longrightarrow> unat slot < length (ss_table sp) \<and> snd (ss_table sp ! unat slot) = Some st"
  by (auto simp: held_slot_def split: if_splits)

lemma held_keyD2:
  "held_key sp key = Some st \<Longrightarrow> unat (sk_slot key) < length (ss_table sp) \<and> snd (ss_table sp ! unat (sk_slot key)) = Some st"
  by (auto simp: held_key_def split: if_splits)

lemma held_sum_slot:
  assumes "held_slot sp slot low = Some st"
  shows "held_sum f (ss_put sp (unat slot) (Some st')) + f st = held_sum f sp + f st'"
    and "held_sum f (ss_release sp (unat slot)) + f st = held_sum f sp"
  using held_slotD2 [OF assms] held_sum_put [of _ sp st f st'] held_sum_release [of _ sp st f] by simp_all

lemma held_sum_key:
  assumes "held_key sp key = Some st"
  shows "held_sum f (ss_put sp (unat (sk_slot key)) (Some st')) + f st = held_sum f sp + f st'"
    and "held_sum f (ss_release sp (unat (sk_slot key))) + f st = held_sum f sp"
  using held_keyD2 [OF assms] held_sum_put [of _ sp st f st'] held_sum_release [of _ sp st f] by simp_all

text \<open>A predicate of all streams, and the updates that keep it.\<close>

definition all_streams :: "('e stream \<Rightarrow> bool) \<Rightarrow> 'e stream_spec \<Rightarrow> bool" where
  "all_streams P sp \<longleftrightarrow> (\<forall>i<length (ss_table sp). \<forall>st. snd (ss_table sp ! i) = Some st \<longrightarrow> P st)"

lemma all_streams_update:
  assumes "all_streams P sp" "\<And>st. snd e = Some st \<Longrightarrow> P st"
  shows "all_streams P (sp\<lparr>ss_table := (ss_table sp)[i := e]\<rparr>)"
  unfolding all_streams_def
proof (intro allI impI)
  fix j st
  assume "j < length (ss_table (sp\<lparr>ss_table := (ss_table sp)[i := e]\<rparr>))"
    "snd (ss_table (sp\<lparr>ss_table := (ss_table sp)[i := e]\<rparr>) ! j) = Some st"
  then show "P st" using assms by (cases "j = i") (simp_all add: all_streams_def)
qed

lemma all_streams_put: "all_streams P sp \<Longrightarrow> P st \<Longrightarrow> all_streams P (ss_put sp i (Some st))"
  unfolding ss_put_def by (rule all_streams_update) simp_all

lemma all_streams_release: "all_streams P sp \<Longrightarrow> all_streams P (ss_release sp i)"
  unfolding ss_release_def by (rule all_streams_update) simp_all

lemma all_streams_slot: "all_streams P sp \<Longrightarrow> held_slot sp slot low = Some st \<Longrightarrow> P st"
  using held_slotD2 by (fastforce simp: all_streams_def)

lemma all_streams_key: "all_streams P sp \<Longrightarrow> held_key sp key = Some st \<Longrightarrow> P st"
  using held_keyD2 by (fastforce simp: all_streams_def)

text \<open>
  A stream being cancelled holds nothing, and only an ended stream has a completion set aside.
\<close>

definition stream_inv :: "'e stream \<Rightarrow> bool" where
  "stream_inv st \<longleftrightarrow> (st_cancel st \<longrightarrow> st_queue st = [] \<and> st_stash st = None) \<and> (st_stash st \<noteq> None \<longrightarrow> st_ended st)"

section \<open>Draining the queue of a stream\<close>

text \<open>
  The cancel of a stream pops its queue until it is empty, handing every element to \<open>handle\<close>.
  Both slabs do it with a loop of this shape.
\<close>

locale stream_drain =
  fixes stash :: bool and wf :: "'s \<Rightarrow> bool" and abs :: "'s \<Rightarrow> 'e stream_spec"
    and pop :: "'s \<Rightarrow> stream_key \<Rightarrow> ('e option \<times> 's) exec" and handle :: "'l \<Rightarrow> 'e \<Rightarrow> 'l"
    and loop :: "'s \<Rightarrow> 'l \<Rightarrow> stream_key \<Rightarrow> ('s \<times> 'l) exec option"
  assumes pop_refines: "wf s \<Longrightarrow> \<exists>x s'. pop s key = Ret (x, s') \<and> wf s'
      \<and> stream_spec_exec stash (abs s) (SPop key) = (SItem x, abs s')"
    and loop_eq: "loop s lg key = (case pop s key of
        Ret (None, s') \<Rightarrow> Some (Ret (s', lg))
      | Ret (Some e, s') \<Rightarrow> loop s' (handle lg e) key
      | Panic \<Rightarrow> Some Panic
      | Undefined \<Rightarrow> Some Undefined)"
begin

lemma drains_held:
  assumes "wf s" "held_key (abs s) key = Some st"
  shows "\<exists>s'. loop s lg key = Some (Ret (s', foldl handle lg (st_queue st))) \<and> wf s'
    \<and> abs s' = ss_put (abs s) (unat (sk_slot key)) (Some (st\<lparr>st_queue := []\<rparr>))"
  using assms
proof (induction "st_queue st" arbitrary: s lg st)
  case Nil
  obtain x s' where p: "pop s key = Ret (x, s')" "wf s'" "stream_spec_exec stash (abs s) (SPop key) = (SItem x, abs s')"
    using pop_refines [OF Nil(2)] by blast
  have "ss_put (abs s) (unat (sk_slot key)) (Some st) = abs s"
    using held_keyD2 [OF Nil(3)] ss_put_same [of "unat (sk_slot key)" "abs s"] by metis
  moreover have e: "st\<lparr>st_queue := []\<rparr> = st" using Nil(1) by simp
  ultimately show ?case using p Nil(1,3) unfolding e by (auto simp: loop_eq [of s])
next
  case (Cons e es)
  obtain x s1 where p: "pop s key = Ret (x, s1)" "wf s1" "stream_spec_exec stash (abs s) (SPop key) = (SItem x, abs s1)"
    using pop_refines [OF Cons(3)] by blast
  let ?st = "st\<lparr>st_queue := es\<rparr>" and ?i = "unat (sk_slot key)"
  have x: "x = Some e" and a1: "abs s1 = ss_put (abs s) ?i (Some ?st)"
    using p(3) Cons(2,4) by (auto split: list.splits)
  have h1: "held_key (abs s1) key = Some ?st"
    using Cons(4) unfolding a1 by (auto simp: held_key_def ss_put_def split: if_splits)
  obtain s' where r: "loop s1 (handle lg e) key = Some (Ret (s', foldl handle (handle lg e) (st_queue ?st)))" "wf s'"
    "abs s' = ss_put (abs s1) ?i (Some (?st\<lparr>st_queue := []\<rparr>))"
    using Cons(1) [of ?st s1 "handle lg e"] p(2) h1 by auto
  have "loop s lg key = Some (Ret (s', foldl handle lg (st_queue st)))"
    using p(1) x r(1) by (simp add: loop_eq [of s] flip: Cons(2))
  moreover have "abs s' = ss_put (abs s) ?i (Some (st\<lparr>st_queue := []\<rparr>))" using r(3) a1 by simp
  ultimately show ?case using r(2) by blast
qed

lemma drains:
  assumes "wf s"
  shows "\<exists>s'. loop s lg key = Some (Ret (s', foldl handle lg (case held_key (abs s) key of None \<Rightarrow> [] | Some st \<Rightarrow> st_queue st))) \<and> wf s'
    \<and> abs s' = (case held_key (abs s) key of None \<Rightarrow> abs s
       | Some st \<Rightarrow> ss_put (abs s) (unat (sk_slot key)) (Some (st\<lparr>st_queue := []\<rparr>)))"
proof (cases "held_key (abs s) key")
  case None
  obtain x s' where "pop s key = Ret (x, s')" "wf s'" "stream_spec_exec stash (abs s) (SPop key) = (SItem x, abs s')"
    using pop_refines [OF assms] by blast
  then show ?thesis using None by (auto simp: loop_eq [of s])
next
  case (Some st)
  then show ?thesis using drains_held [OF assms Some, of lg] by simp
qed

end

section \<open>Provided buffers\<close>

definition entry_buf :: "i32 \<times> u16 \<Rightarrow> u16 multiset" where
  "entry_buf e = (if snd e = NO_BUFFER then {#} else {#snd e#})"

definition stream_bufs :: "(i32 \<times> u16) stream \<Rightarrow> u16 multiset" where
  "stream_bufs st = (\<Sum>e\<leftarrow>st_queue st. entry_buf e) + (case st_stash st of None \<Rightarrow> {#} | Some e \<Rightarrow> entry_buf e)"

definition held_bufs :: "recv_slab \<Rightarrow> u16 multiset" where
  "held_bufs s = held_sum stream_bufs (recv_abs s)"

definition recv_inv :: "recv_slab \<Rightarrow> bool" where
  "recv_inv s \<longleftrightarrow> recv_wf s \<and> all_streams stream_inv (recv_abs s)"

definition cqe_buf :: "u16 option \<Rightarrow> u16 multiset" where
  "cqe_buf buf_id = (case buf_id of None \<Rightarrow> {#} | Some b \<Rightarrow> {#b#})"

text \<open>A second final completion for an operation whose stream was not cancelled, which the kernel
  does not post.\<close>

definition final_again :: "recv_slab \<Rightarrow> u64 \<Rightarrow> cqe_flags \<Rightarrow> bool" where
  "final_again s user_data flags \<longleftrightarrow> \<not> flags_contain flags CQE_MORE \<and>
     (\<exists>st. held_slot (recv_abs s) (multishot_sentinel_slot user_data) (multishot_sentinel_generation user_data) = Some st
        \<and> st_ended st \<and> \<not> st_cancel st)"

lemma recycle_simps [simp]:
  "lg_provided (recycle_provided lg b) = lg_provided lg"
  "lg_provided lg \<Longrightarrow> mset (lg_recycled (recycle_provided lg b)) = mset (lg_recycled lg) + cqe_buf b"
  "lg_closed (recycle_provided lg b) = lg_closed lg" "lg_cancels (recycle_provided lg b) = lg_cancels lg"
  by (auto simp: recycle_provided_def cqe_buf_def split: option.splits)

lemma entry_buf_unwrap:
  "buf_id \<noteq> Some NO_BUFFER \<Longrightarrow> entry_buf (r, case buf_id of None \<Rightarrow> NO_BUFFER | Some b \<Rightarrow> b) = cqe_buf buf_id"
  by (cases buf_id) (simp_all add: entry_buf_def cqe_buf_def)

lemma recv_cancel_pending_spec:
  "recv_wf s \<Longrightarrow> recv_is_cancel_pending s slot low \<longleftrightarrow> (\<exists>st. held_slot (recv_abs s) slot low = Some st \<and> st_cancel st)"
  by (auto simp: held_slot_recv recv_is_cancel_pending_def recv_stream_def Let_def)

lemma recv_free_by_slot_spec:
  assumes "recv_wf s" "held_slot (recv_abs s) slot low = Some st"
  shows "recv_wf (recv_free_by_slot s slot low)" "recv_abs (recv_free_by_slot s slot low) = ss_release (recv_abs s) (unat slot)"
  using recv_exec_refines [OF assms(1), of "SFreeBySlot slot low"] assms(2) by auto

text \<open>How a completion that reaches the slab changes what its stream holds.\<close>

lemma stream_take_bufs:
  assumes "stream_take True st e is_more = (r, st')" "stream_inv st" "\<not> st_cancel st" "is_more \<or> \<not> st_ended st"
  shows "stream_inv st' \<and> (if r = Queued \<or> r = Terminal then stream_bufs st' = stream_bufs st + entry_buf e else st' = st)"
  using assms
  by (auto simp: stream_take_def stream_inv_def stream_bufs_def Let_def split: if_splits option.splits)

lemma recv_completion_conserves:
  assumes inv: "recv_inv s" and pool: "lg_provided lg" and b: "buf_id \<noteq> Some NO_BUFFER"
    and once: "\<not> final_again s user_data flags"
  shows "\<exists>mc s' lg'. push_recv_multishot_completion s lg user_data result flags buf_id = Ret (mc, s', lg') \<and> recv_inv s'
    \<and> lg_provided lg' \<and> held_bufs s' + mset (lg_recycled lg') = held_bufs s + mset (lg_recycled lg) + cqe_buf buf_id"
proof -
  let ?slot = "multishot_sentinel_slot user_data" and ?gen = "multishot_sentinel_generation user_data"
  let ?more = "flags_contain flags CQE_MORE" and ?e = "(result, case buf_id of None \<Rightarrow> NO_BUFFER | Some b \<Rightarrow> b)"
  have wf: "recv_wf s" and all: "all_streams stream_inv (recv_abs s)" using inv by (simp_all add: recv_inv_def)
  show ?thesis
  proof (cases "recv_is_cancel_pending s ?slot ?gen")
    case True
    then obtain st where st: "held_slot (recv_abs s) ?slot ?gen = Some st" "st_cancel st"
      using recv_cancel_pending_spec [OF wf] by auto
    then have e: "stream_bufs st = {#}" using all_streams_slot [OF all st(1)] by (simp add: stream_inv_def stream_bufs_def)
    show ?thesis using True st e inv pool recv_free_by_slot_spec [OF wf st(1)] all_streams_release [OF all]
        held_sum_slot(2) [OF st(1), of stream_bufs]
      by (auto simp: push_recv_multishot_completion_def Let_def recv_inv_def held_bufs_def add.assoc)
  next
    case False
    obtain p s' where push: "recv_push s ?slot ?gen result (snd ?e) ?more = Ret (p, s')" "recv_wf s'"
      and sp: "stream_spec_exec True (recv_abs s) (SPush ?slot ?gen ?e ?more) = (SPushed p, recv_abs s')"
      using recv_push_refines [OF wf, of ?slot ?gen ?e ?more] by auto
    show ?thesis
    proof (cases "held_slot (recv_abs s) ?slot ?gen")
      case None
      then show ?thesis using sp push False inv pool
        by (auto simp: push_recv_multishot_completion_def Let_def recv_inv_def held_bufs_def add.assoc)
    next
      case (Some st)
      obtain st' where t: "stream_take True st ?e ?more = (p, st')" "recv_abs s' = ss_put (recv_abs s) (unat ?slot) (Some st')"
        using sp Some by (auto split: prod.splits)
      have nc: "\<not> st_cancel st" using False Some recv_cancel_pending_spec [OF wf] by auto
      have ne: "?more \<or> \<not> st_ended st" using once Some nc by (auto simp: final_again_def)
      note tk = stream_take_bufs [OF t(1) all_streams_slot [OF all Some] nc ne]
      have inv': "recv_inv s'" using push(2) tk t(2) all_streams_put [OF all] by (simp add: recv_inv_def)
      have sum: "held_bufs s' + stream_bufs st = held_bufs s + stream_bufs st'"
        unfolding held_bufs_def t(2) by (rule held_sum_slot(1) [OF Some])
      show ?thesis
      proof (cases "p = Queued \<or> p = Terminal")
        case True
        then have "held_bufs s' = held_bufs s + cqe_buf buf_id"
          using sum tk entry_buf_unwrap [OF b, of result] by (simp add: ac_simps)
        then have eq: "held_bufs s' + mset (lg_recycled lg) = held_bufs s + mset (lg_recycled lg) + cqe_buf buf_id"
          by (simp add: add.assoc add.commute [of "cqe_buf buf_id"])
        obtain mc where "push_recv_multishot_completion s lg user_data result flags buf_id = Ret (mc, s', lg)"
          using True push(1) False by (auto simp: push_recv_multishot_completion_def Let_def)
        then show ?thesis using inv' pool eq by blast
      next
        case no: False
        then have "held_bufs s' = held_bufs s" using sum tk by simp
        then show ?thesis using no push(1) False inv' pool
          by (auto simp: push_recv_multishot_completion_def Let_def add.assoc)
      qed
    qed
  qed
qed

lemma recycle_entry_simps [simp]:
  "lg_provided (recycle_entry lg e) = lg_provided lg"
  "lg_provided lg \<Longrightarrow> mset (lg_recycled (recycle_entry lg e)) = mset (lg_recycled lg) + entry_buf e"
  by (auto simp: recycle_entry_def entry_buf_def cqe_buf_def)

interpretation recv_drain: stream_drain True recv_wf recv_abs recv_pop recycle_entry recycle_queued
  by unfold_locales (rule recv_pop_refines, assumption, rule recycle_queued.simps)

lemma foldl_recycle:
  "lg_provided lg \<Longrightarrow> lg_provided (foldl recycle_entry lg es)
     \<and> mset (lg_recycled (foldl recycle_entry lg es)) = mset (lg_recycled lg) + (\<Sum>e\<leftarrow>es. entry_buf e)"
  by (induction es arbitrary: lg) (simp_all add: add.assoc)

lemma recycle_queued_spec:
  assumes "recv_wf s" "lg_provided lg"
  shows "\<exists>s' lg'. recycle_queued s lg key = Some (Ret (s', lg')) \<and> recv_wf s' \<and> lg_provided lg' \<and>
    (case held_key (recv_abs s) key of
       None \<Rightarrow> recv_abs s' = recv_abs s \<and> lg_recycled lg' = lg_recycled lg
     | Some st \<Rightarrow> recv_abs s' = ss_put (recv_abs s) (unat (sk_slot key)) (Some (st\<lparr>st_queue := []\<rparr>))
         \<and> mset (lg_recycled lg') = mset (lg_recycled lg) + (\<Sum>e\<leftarrow>st_queue st. entry_buf e))"
  using recv_drain.drains [OF assms(1), of lg key] foldl_recycle [OF assms(2)] assms(2)
  by (cases "held_key (recv_abs s) key") auto

lemma recv_cancel_conserves:
  assumes inv: "recv_inv s" and pool: "lg_provided lg"
  shows "\<exists>s' lg'. submit_recv_multishot_cancel s lg key = Some (Ret (s', lg')) \<and> recv_inv s' \<and> lg_provided lg'
    \<and> held_bufs s' + mset (lg_recycled lg') = held_bufs s + mset (lg_recycled lg)
    \<and> (\<forall>st. held_key (recv_abs s') key = Some st \<longrightarrow> st_cancel st \<and> stream_bufs st = {#})"
proof -
  have wf: "recv_wf s" and all: "all_streams stream_inv (recv_abs s)" using inv by (simp_all add: recv_inv_def)
  obtain s1 lg1 where q: "recycle_queued s lg key = Some (Ret (s1, lg1))" "recv_wf s1" "lg_provided lg1"
    and c: "case held_key (recv_abs s) key of
       None \<Rightarrow> recv_abs s1 = recv_abs s \<and> lg_recycled lg1 = lg_recycled lg
     | Some st \<Rightarrow> recv_abs s1 = ss_put (recv_abs s) (unat (sk_slot key)) (Some (st\<lparr>st_queue := []\<rparr>))
         \<and> mset (lg_recycled lg1) = mset (lg_recycled lg) + (\<Sum>e\<leftarrow>st_queue st. entry_buf e)"
    using recycle_queued_spec [OF wf pool] by blast
  obtain x s2 where tt: "recv_take_terminal s1 key = (x, s2)" by fastforce
  note T = recv_take_terminal_refines [OF q(2) tt]
  have T1: "recv_wf s2" using T by blast
  have ended: "recv_is_terminated s2 key \<longleftrightarrow> (\<exists>st. held_key (recv_abs s2) key = Some st \<and> st_ended st)"
    using T1 by (auto simp: held_key_recv recv_is_terminated_def recv_stream_def Let_def)
  show ?thesis
  proof (cases "held_key (recv_abs s) key")
    case None
    then have a: "recv_abs s1 = recv_abs s" "lg_recycled lg1 = lg_recycled lg" using c by simp_all
    then have a2: "x = None" "recv_abs s2 = recv_abs s" using T None by auto
    then have "\<not> recv_is_terminated s2 key" using ended None by simp
    moreover have "recv_wf (recv_mark_cancel_pending s2 key)" "recv_abs (recv_mark_cancel_pending s2 key) = recv_abs s"
      using recv_mark_cancel_refines [OF T1, of key] None a2 by auto
    ultimately show ?thesis using q tt a a2 all None
      by (simp add: submit_recv_multishot_cancel_def Let_def recv_inv_def held_bufs_def submit_cancel_request_def)
  next
    case (Some st)
    let ?i = "unat (sk_slot key)" and ?st1 = "st\<lparr>st_queue := []\<rparr>" and ?st2 = "st\<lparr>st_queue := [], st_stash := None\<rparr>"
    have a: "recv_abs s1 = ss_put (recv_abs s) ?i (Some ?st1)"
      "mset (lg_recycled lg1) = mset (lg_recycled lg) + (\<Sum>e\<leftarrow>st_queue st. entry_buf e)" using c Some by simp_all
    have h1: "held_key (recv_abs s1) key = Some ?st1" using Some unfolding a(1) by (auto simp: held_key_def ss_put_def split: if_splits)
    have x: "x = st_stash st" and a2: "recv_abs s2 = ss_put (recv_abs s) ?i (Some ?st2)" using T h1 a(1) by auto
    have h2: "held_key (recv_abs s2) key = Some ?st2" using Some unfolding a2 by (auto simp: held_key_def ss_put_def split: if_splits)
    define lg2 where "lg2 = (case x of None \<Rightarrow> lg1 | Some e \<Rightarrow> recycle_entry lg1 e)"
    have L: "lg_provided lg2" "mset (lg_recycled lg2) = mset (lg_recycled lg) + stream_bufs st"
      using q(3) a(2) x by (auto simp: lg2_def stream_bufs_def add.assoc split: option.splits)
    have e2: "stream_bufs ?st2 = {#}" by (simp add: stream_bufs_def)
    have sum2: "held_bufs s2 + stream_bufs st = held_bufs s"
      using held_sum_key(1) [OF Some, of stream_bufs ?st2] a2 e2 by (simp add: held_bufs_def)
    have all2: "all_streams stream_inv (recv_abs s2)"
      unfolding a2 by (rule all_streams_put [OF all]) (simp add: stream_inv_def)
    show ?thesis
    proof (cases "st_ended st")
      case True
      then have t: "recv_is_terminated s2 key" using ended h2 by auto
      have F: "recv_wf (recv_free s2 key)" "recv_abs (recv_free s2 key) = ss_release (recv_abs s2) ?i"
        using recv_exec_refines [OF T1, of "SFree key"] h2 by auto
      have "held_bufs (recv_free s2 key) = held_bufs s2"
        using held_sum_key(2) [OF h2, of stream_bufs] F(2) e2 by (simp add: held_bufs_def)
      moreover have "held_key (ss_release (recv_abs s2) ?i) key = None"
        using held_keyD2 [OF h2] by (auto simp: held_key_def ss_release_def)
      ultimately show ?thesis using q(1) tt t F L sum2 all_streams_release [OF all2]
        by (simp add: submit_recv_multishot_cancel_def Let_def recv_inv_def flip: lg2_def)
    next
      case False
      then have t: "\<not> recv_is_terminated s2 key" using ended h2 by auto
      let ?s3 = "recv_mark_cancel_pending s2 key" and ?st3 = "?st2\<lparr>st_cancel := True\<rparr>"
      have M: "recv_wf ?s3" "recv_abs ?s3 = ss_put (recv_abs s2) ?i (Some ?st3)"
        using recv_mark_cancel_refines [OF T1, of key] h2 by auto
      have h3: "held_key (recv_abs ?s3) key = Some ?st3" using h2 unfolding M(2) by (auto simp: held_key_def ss_put_def split: if_splits)
      have e3: "stream_bufs ?st3 = {#}" by (simp add: stream_bufs_def)
      have "held_bufs ?s3 = held_bufs s2"
        using held_sum_key(1) [OF h2, of stream_bufs ?st3] M(2) e2 e3 by (simp add: held_bufs_def)
      moreover have "all_streams stream_inv (recv_abs ?s3)"
        unfolding M(2) by (rule all_streams_put [OF all2]) (use False all_streams_key [OF all Some] in \<open>auto simp: stream_inv_def\<close>)
      ultimately show ?thesis using q(1) tt t M(1) L sum2 h3 e3
        by (simp add: submit_recv_multishot_cancel_def Let_def recv_inv_def submit_cancel_request_def flip: lg2_def)
    qed
  qed
qed

section \<open>Accepted descriptors\<close>

definition result_fd :: "i32 \<Rightarrow> i32 multiset" where
  "result_fd r = (if sint r < 0 then {#} else {#r#})"

definition stream_fds :: "i32 stream \<Rightarrow> i32 multiset" where
  "stream_fds st = (\<Sum>r\<leftarrow>st_queue st. result_fd r)"

definition held_fds :: "accept_slab \<Rightarrow> i32 multiset" where
  "held_fds s = held_sum stream_fds (accept_abs s)"

definition accept_inv :: "accept_slab \<Rightarrow> bool" where
  "accept_inv s \<longleftrightarrow> accept_wf s \<and> all_streams stream_inv (accept_abs s)"

text \<open>
  A completion of an accept with a nonnegative result brings a descriptor, whatever its flags: the
  kernel can end the operation with one. \<open>lost_fd\<close> is what becomes of it when the completion is final
  and finds no stream to queue it for: the stream is gone, cancelled or full.
\<close>

definition takes_result :: "accept_slab \<Rightarrow> u64 \<Rightarrow> bool" where
  "takes_result s user_data \<longleftrightarrow>
     (case held_slot (accept_abs s) (multishot_sentinel_slot user_data) (multishot_sentinel_generation user_data) of
        None \<Rightarrow> False
      | Some st \<Rightarrow> \<not> st_cancel st \<and> length (st_queue st) < 64)"

definition lost_fd :: "accept_slab \<Rightarrow> u64 \<Rightarrow> i32 \<Rightarrow> cqe_flags \<Rightarrow> i32 multiset" where
  "lost_fd s user_data result flags =
     (if flags_contain flags CQE_MORE \<or> takes_result s user_data then {#} else result_fd result)"

lemma dispose_simps [simp]:
  "mset (lg_closed (dispose_accept_result lg r)) = mset (lg_closed lg) + result_fd r"
  by (simp add: dispose_accept_result_def adopt_accepted_fd_def result_fd_def)

lemma accept_cancel_pending_spec:
  "accept_wf s \<Longrightarrow> accept_is_cancel_pending s slot low \<longleftrightarrow> (\<exists>st. held_slot (accept_abs s) slot low = Some st \<and> st_cancel st)"
  by (auto simp: held_slot_accept accept_is_cancel_pending_def accept_stream_def)

lemma accept_free_by_slot_spec:
  assumes "accept_wf s" "held_slot (accept_abs s) slot low = Some st"
  shows "accept_wf (accept_free_by_slot s slot low)"
    "accept_abs (accept_free_by_slot s slot low) = ss_release (accept_abs s) (unat slot)"
  using accept_exec_refines [OF assms(1), of "SFreeBySlot slot low"] assms(2) by auto

lemma stream_take_fds:
  assumes "stream_take False st r is_more = (p, st')" "stream_inv st" "\<not> st_cancel st"
  shows "stream_inv st' \<and> p = (if length (st_queue st) < 64 then Queued else Overflowed) \<and>
    stream_fds st' = (if p = Queued then stream_fds st + result_fd r else stream_fds st)"
  using assms by (auto simp: stream_take_def stream_inv_def stream_fds_def Let_def split: if_splits)

lemma accept_completion_account:
  assumes inv: "accept_inv s"
  shows "\<exists>mc s' lg'. push_multishot_completion s lg user_data result flags = Ret (mc, s', lg') \<and> accept_inv s'
    \<and> held_fds s' + mset (lg_closed lg') + lost_fd s user_data result flags = held_fds s + mset (lg_closed lg) + result_fd result"
proof -
  let ?slot = "multishot_sentinel_slot user_data" and ?gen = "multishot_sentinel_generation user_data"
  let ?more = "flags_contain flags CQE_MORE" and ?lost = "lost_fd s user_data result flags"
  let ?lg = "if ?more then dispose_accept_result lg result else lg"
  have wf: "accept_wf s" and all: "all_streams stream_inv (accept_abs s)" using inv by (simp_all add: accept_inv_def)
  have drop: "mset (lg_closed ?lg) + ?lost = mset (lg_closed lg) + result_fd result" if "\<not> takes_result s user_data"
    using that by (simp add: lost_fd_def)
  show ?thesis
  proof (cases "accept_is_cancel_pending s ?slot ?gen")
    case True
    then obtain str where str: "held_slot (accept_abs s) ?slot ?gen = Some str" "st_cancel str"
      using accept_cancel_pending_spec [OF wf] by auto
    have e: "stream_fds str = {#}" using all_streams_slot [OF all str(1)] str(2) by (simp add: stream_inv_def stream_fds_def)
    have d: "mset (lg_closed ?lg) + ?lost = mset (lg_closed lg) + result_fd result"
      by (rule drop) (simp add: takes_result_def str)
    let ?s = "if ?more then s else accept_free_by_slot s ?slot ?gen"
    have k: "accept_inv ?s" "held_fds ?s = held_fds s"
      using inv accept_free_by_slot_spec [OF wf str(1)] all_streams_release [OF all] held_sum_slot(2) [OF str(1), of stream_fds] e
      by (simp_all add: accept_inv_def held_fds_def)
    have "\<exists>mc. push_multishot_completion s lg user_data result flags = Ret (mc, ?s, ?lg)"
      using True by (simp add: push_multishot_completion_def Let_def)
    moreover have "held_fds ?s + mset (lg_closed ?lg) + ?lost = held_fds s + mset (lg_closed lg) + result_fd result"
      unfolding k(2) add.assoc d ..
    ultimately show ?thesis using k(1) by blast
  next
    case False
    obtain p s' where push: "accept_push s ?slot ?gen result ?more = Ret (p, s')" "accept_wf s'"
      and sp: "stream_spec_exec False (accept_abs s) (SPush ?slot ?gen result ?more) = (SPushed p, accept_abs s')"
      using accept_push_refines [OF wf, of ?slot ?gen result ?more] by auto
    have ret: "\<exists>mc. push_multishot_completion s lg user_data result flags = Ret (mc, s', if p = Queued then lg else ?lg)"
      using push(1) False by (cases p) (simp_all add: push_multishot_completion_def Let_def)
    show ?thesis
    proof (cases "held_slot (accept_abs s) ?slot ?gen")
      case None
      then have s': "p = Stale" "accept_abs s' = accept_abs s" using sp by auto
      moreover have "mset (lg_closed ?lg) + ?lost = mset (lg_closed lg) + result_fd result"
        by (rule drop) (simp add: takes_result_def None)
      ultimately show ?thesis using ret push(2) inv s' by (auto simp: accept_inv_def held_fds_def add.assoc)
    next
      case (Some str)
      obtain str' where t: "stream_take False str result ?more = (p, str')" "accept_abs s' = ss_put (accept_abs s) (unat ?slot) (Some str')"
        using sp Some by (auto split: prod.splits)
      have nc: "\<not> st_cancel str" using False Some accept_cancel_pending_spec [OF wf] by auto
      note tk = stream_take_fds [OF t(1) all_streams_slot [OF all Some] nc]
      have inv': "accept_inv s'" using push(2) tk t(2) all_streams_put [OF all] by (simp add: accept_inv_def)
      have sum: "held_fds s' + stream_fds str = held_fds s + stream_fds str'"
        unfolding held_fds_def t(2) by (rule held_sum_slot(1) [OF Some])
      show ?thesis
      proof (cases "length (st_queue str) < 64")
        case True
        then have q: "held_fds s' = held_fds s + result_fd result" "?lost = {#}" "p = Queued"
          using sum tk Some nc by (simp_all add: lost_fd_def takes_result_def ac_simps)
        have "held_fds s' + mset (lg_closed lg) + ?lost = held_fds s + mset (lg_closed lg) + result_fd result"
          unfolding q(1,2) by (simp add: add.assoc add.commute)
        then show ?thesis using ret inv' q(3) by auto
      next
        case no: False
        then have q: "held_fds s' = held_fds s" "p \<noteq> Queued" using sum tk by simp_all
        have d: "mset (lg_closed ?lg) + ?lost = mset (lg_closed lg) + result_fd result"
          by (rule drop) (simp add: takes_result_def Some no)
        have "held_fds s' + mset (lg_closed ?lg) + ?lost = held_fds s + mset (lg_closed lg) + result_fd result"
          unfolding q(1) add.assoc d ..
        then show ?thesis using ret inv' q(2) by auto
      qed
    qed
  qed
qed

text \<open>A final descriptor that finds no stream is neither queued nor closed.\<close>

lemma accept_final_fd_lost:
  assumes "accept_inv s" "\<not> flags_contain flags CQE_MORE" "\<not> takes_result s user_data"
  shows "\<exists>mc s' lg'. push_multishot_completion s lg user_data result flags = Ret (mc, s', lg') \<and> accept_inv s'
    \<and> held_fds s' + mset (lg_closed lg') = held_fds s + mset (lg_closed lg)"
  using accept_completion_account [OF assms(1), of lg user_data result flags] assms(2,3) by (auto simp: lost_fd_def)

interpretation accept_drain: stream_drain False accept_wf accept_abs accept_pop dispose_accept_result close_queued
  by unfold_locales (rule accept_pop_refines, assumption, rule close_queued.simps)

lemma foldl_dispose:
  "mset (lg_closed (foldl dispose_accept_result lg rs)) = mset (lg_closed lg) + (\<Sum>r\<leftarrow>rs. result_fd r)"
  by (induction rs arbitrary: lg) (simp_all add: add.assoc)

definition cancel_slot_key :: "inflight_key \<Rightarrow> stream_key" where
  "cancel_slot_key key = \<lparr>sk_slot = ik_slot key, sk_generation = ik_generation key, sk_worker = ik_worker key\<rparr>"

lemma accept_cancel_spec:
  assumes wf: "accept_wf s"
  shows "\<exists>s' lg'. submit_multishot_cancel s lg key = Some (Ret (s', lg')) \<and> accept_wf s' \<and>
    (case held_key (accept_abs s) (cancel_slot_key key) of
       None \<Rightarrow> accept_abs s' = accept_abs s \<and> lg_closed lg' = lg_closed lg
     | Some st \<Rightarrow> accept_abs s' = ss_put (accept_abs s) (unat (ik_slot key)) (Some (st\<lparr>st_queue := [], st_cancel := True\<rparr>))
         \<and> mset (lg_closed lg') = mset (lg_closed lg) + stream_fds st)"
proof -
  let ?k = "cancel_slot_key key" and ?i = "unat (ik_slot key)"
  have ik: "unat (sk_slot ?k) = ?i" by (simp add: cancel_slot_key_def)
  obtain s1 lg1 where q: "close_queued s lg ?k = Some (Ret (s1, lg1))" "accept_wf s1"
    "lg1 = foldl dispose_accept_result lg (case held_key (accept_abs s) ?k of None \<Rightarrow> [] | Some st \<Rightarrow> st_queue st)"
    "accept_abs s1 = (case held_key (accept_abs s) ?k of None \<Rightarrow> accept_abs s
       | Some st \<Rightarrow> ss_put (accept_abs s) ?i (Some (st\<lparr>st_queue := []\<rparr>)))"
    using accept_drain.drains [OF wf, of lg ?k] unfolding ik by blast
  have M: "accept_wf (accept_mark_cancel_pending s1 ?k)"
    "stream_spec_exec False (accept_abs s1) (SMarkCancel ?k) = (SUnit, accept_abs (accept_mark_cancel_pending s1 ?k))"
    using accept_mark_cancel_refines [OF q(2), of ?k] by auto
  have sub: "submit_multishot_cancel s lg key
      = Some (Ret (accept_mark_cancel_pending s1 ?k, submit_cancel_request lg1 (ik_token key) (ik_token key)))"
    using q(1) by (simp add: submit_multishot_cancel_def cancel_slot_key_def)
  show ?thesis
  proof (cases "held_key (accept_abs s) ?k")
    case None
    then show ?thesis using sub M q by (auto simp: submit_cancel_request_def)
  next
    case (Some st)
    then have "held_key (accept_abs s1) ?k = Some (st\<lparr>st_queue := []\<rparr>)"
      using q(4) ik by (auto simp: held_key_def ss_put_def split: if_splits)
    then show ?thesis using sub M q Some ik foldl_dispose [of lg "st_queue st"]
      by (auto simp: submit_cancel_request_def stream_fds_def)
  qed
qed

lemma accept_cancel_conserves:
  assumes inv: "accept_inv s"
  shows "\<exists>s' lg'. submit_multishot_cancel s lg key = Some (Ret (s', lg')) \<and> accept_inv s'
    \<and> held_fds s' + mset (lg_closed lg') = held_fds s + mset (lg_closed lg)
    \<and> (\<forall>st. held_key (accept_abs s') (cancel_slot_key key) = Some st \<longrightarrow> st_cancel st \<and> stream_fds st = {#})"
proof -
  let ?k = "cancel_slot_key key" and ?i = "unat (ik_slot key)"
  have wf: "accept_wf s" and all: "all_streams stream_inv (accept_abs s)" using inv by (simp_all add: accept_inv_def)
  obtain s' lg' where c: "submit_multishot_cancel s lg key = Some (Ret (s', lg'))" "accept_wf s'"
    "case held_key (accept_abs s) ?k of
       None \<Rightarrow> accept_abs s' = accept_abs s \<and> lg_closed lg' = lg_closed lg
     | Some st \<Rightarrow> accept_abs s' = ss_put (accept_abs s) ?i (Some (st\<lparr>st_queue := [], st_cancel := True\<rparr>))
         \<and> mset (lg_closed lg') = mset (lg_closed lg) + stream_fds st"
    using accept_cancel_spec [OF wf, of lg key] by blast
  show ?thesis
  proof (cases "held_key (accept_abs s) ?k")
    case None
    then show ?thesis using c all by (auto simp: accept_inv_def held_fds_def)
  next
    case (Some st)
    let ?st = "st\<lparr>st_queue := [], st_cancel := True\<rparr>"
    have a: "accept_abs s' = ss_put (accept_abs s) ?i (Some ?st)" "mset (lg_closed lg') = mset (lg_closed lg) + stream_fds st"
      using c(3) Some by simp_all
    have ik: "unat (sk_slot ?k) = ?i" by (simp add: cancel_slot_key_def)
    have e: "stream_fds ?st = {#}" by (simp add: stream_fds_def)
    have sum: "held_fds s' + stream_fds st = held_fds s"
      using held_sum_key(1) [OF Some, of stream_fds ?st] a(1) e ik by (simp add: held_fds_def)
    have stash: "st_stash st = None"
      using held_keyD2 [OF Some] held_key_accept [OF wf, of ?k] Some by (auto simp: accept_stream_def split: if_splits)
    have "accept_inv s'" unfolding accept_inv_def a(1)
      using c(2) all_streams_put [OF all, of ?st ?i] stash by (simp add: stream_inv_def)
    moreover have "held_key (accept_abs s') ?k = Some ?st"
      using Some ik unfolding a(1) by (auto simp: held_key_def ss_put_def split: if_splits)
    ultimately show ?thesis using c(1) a(2) sum e by (auto simp: add.assoc add.commute add.left_commute)
  qed
qed

end
