(* ===== verification/Seam_Stream.thy ===== *)
theory Seam_Stream
  imports Seam_Conserve
begin

text \<open>
  The multishot half of the per-worker seam (\<open>boundary/seam/state.rs\<close>): reserving a slot for a
  stream, advancing it by one completion and freeing it, and the life of all streams of a worker
  as a sequence of events, in any order: allocations, advances, completions and cancels.
\<close>

section \<open>Streams as futures see them\<close>

datatype multishot_next = MsItem i32 | MsPending | MsEnded

datatype multishot_alloc = MsAllocated stream_key u64 | MsFull | MsUnsupported

datatype recv_multishot_next = RmItem i32 "u16 option" | RmPending | RmEnded

datatype recv_multishot_alloc = RmAllocated stream_key u64 | RmFull | RmUnsupported

text \<open>The slab is absent in a seam built for tests.\<close>

definition seam_allocate_multishot :: "accept_slab option \<Rightarrow> u64 \<Rightarrow> multishot_alloc \<times> accept_slab option" where
  "seam_allocate_multishot slab owner_token =
     (case slab of
        None \<Rightarrow> (MsUnsupported, None)
      | Some s \<Rightarrow> (case accept_allocate s owner_token of
            (None, s') \<Rightarrow> (MsFull, Some s')
          | (Some key, s') \<Rightarrow> (MsAllocated key (encode_multishot_sentinel key), Some s')))"

definition seam_multishot_next :: "accept_slab option \<Rightarrow> stream_key \<Rightarrow> (multishot_next \<times> accept_slab option) exec" where
  "seam_multishot_next slab key =
     (case slab of
        None \<Rightarrow> Ret (MsEnded, None)
      | Some s \<Rightarrow> exec_bind (accept_pop s key) (\<lambda>(x, s1).
          case x of
            Some result \<Rightarrow> Ret (MsItem result, Some s1)
          | None \<Rightarrow> if accept_is_terminated s1 key then Ret (MsEnded, Some (accept_free s1 key))
                    else Ret (MsPending, Some s1)))"

definition seam_multishot_free :: "accept_slab option \<Rightarrow> stream_key \<Rightarrow> accept_slab option" where
  "seam_multishot_free slab key = (case slab of None \<Rightarrow> None | Some s \<Rightarrow> Some (accept_free s key))"

definition seam_allocate_recv_multishot :: "recv_slab option \<Rightarrow> u64 \<Rightarrow> recv_multishot_alloc \<times> recv_slab option" where
  "seam_allocate_recv_multishot slab owner_token =
     (case slab of
        None \<Rightarrow> (RmUnsupported, None)
      | Some s \<Rightarrow> (case recv_allocate s owner_token of
            (None, s') \<Rightarrow> (RmFull, Some s')
          | (Some key, s') \<Rightarrow> (RmAllocated key (encode_recv_multishot_sentinel key), Some s')))"

text \<open>The buffer of an entry: \<open>NO_BUFFER\<close> reads as none.\<close>

definition item_buf :: "u16 \<Rightarrow> u16 option" where
  "item_buf buf_id = (if buf_id = NO_BUFFER then None else Some buf_id)"

definition seam_recv_multishot_next :: "recv_slab option \<Rightarrow> stream_key \<Rightarrow> (recv_multishot_next \<times> recv_slab option) exec" where
  "seam_recv_multishot_next slab key =
     (case slab of
        None \<Rightarrow> Ret (RmEnded, None)
      | Some s \<Rightarrow> exec_bind (recv_pop s key) (\<lambda>(x, s1).
          case x of
            Some (result, buf_id) \<Rightarrow> Ret (RmItem result (item_buf buf_id), Some s1)
          | None \<Rightarrow> (case recv_take_terminal s1 key of
                (Some (result, buf_id), s2) \<Rightarrow> Ret (RmItem result (item_buf buf_id), Some s2)
              | (None, s2) \<Rightarrow> if recv_is_terminated s2 key then Ret (RmEnded, Some (recv_free s2 key))
                             else Ret (RmPending, Some s2))))"

definition seam_recv_multishot_free :: "recv_slab option \<Rightarrow> stream_key \<Rightarrow> recv_slab option" where
  "seam_recv_multishot_free slab key = (case slab of None \<Rightarrow> None | Some s \<Rightarrow> Some (recv_free s key))"

section \<open>What the operations of streams do to the account\<close>

lemma spec_allocate_account:
  assumes al: "stream_spec_exec stash sp (SAllocate owner) = (r, sp')" and all: "all_streams P sp"
    and fresh: "P \<lparr>st_owner = owner, st_queue = [], st_stash = None, st_ended = False, st_cancel = False\<rparr>"
      "f \<lparr>st_owner = owner, st_queue = [], st_stash = None, st_ended = False, st_cancel = False\<rparr> = {#}"
  shows "all_streams P sp' \<and> held_sum f sp' = held_sum f sp"
proof (cases "find (\<lambda>i. snd (ss_table sp ! i) = None) [0..<length (ss_table sp)]")
  case None
  then show ?thesis using al all by simp
next
  case (Some i)
  then have i: "i < length (ss_table sp)" "snd (ss_table sp ! i) = None"
    by (auto simp: find_Some_iff)
  then show ?thesis using al Some all_streams_put [OF all fresh(1), of i] fresh(2)
      held_sum_update [OF i(1), of f "(fst (ss_table sp ! i), Some \<lparr>st_owner = owner, st_queue = [], st_stash = None, st_ended = False, st_cancel = False\<rparr>)"]
    by (auto simp: ss_put_def slot_holds_def)
qed

lemma spec_free_account:
  assumes "stream_spec_exec stash sp (SFree key) = (r, sp')" "all_streams P sp"
    "case held_key sp key of None \<Rightarrow> True | Some st \<Rightarrow> f st = {#}"
  shows "all_streams P sp' \<and> held_sum f sp' = held_sum f sp"
  using assms all_streams_release [OF assms(2)] held_sum_key(2) [of sp key _ f] by (auto split: option.splits)

lemma spec_pop_account:
  assumes "stream_spec_exec stash sp (SPop key) = (SItem x, sp')" "all_streams stream_inv sp"
    and f: "\<And>st e es. st_queue st = e # es \<Longrightarrow> f st = f (st\<lparr>st_queue := es\<rparr>) + g e"
  shows "all_streams stream_inv sp' \<and> held_sum f sp' + (case x of None \<Rightarrow> {#} | Some e \<Rightarrow> g e) = held_sum f sp"
    and "x = None \<Longrightarrow> sp' = sp \<and> (\<forall>st. held_key sp key = Some st \<longrightarrow> st_queue st = [])"
proof -
  show "all_streams stream_inv sp' \<and> held_sum f sp' + (case x of None \<Rightarrow> {#} | Some e \<Rightarrow> g e) = held_sum f sp"
  proof (cases "\<exists>st e es. held_key sp key = Some st \<and> st_queue st = e # es")
    case True
    then obtain st e es where st: "held_key sp key = Some st" "st_queue st = e # es" by blast
    let ?st = "st\<lparr>st_queue := es\<rparr>"
    have x: "x = Some e" "sp' = ss_put sp (unat (sk_slot key)) (Some ?st)" using assms(1) st by auto
    have "stream_inv ?st" using all_streams_key [OF assms(2) st(1)] st(2) by (auto simp: stream_inv_def)
    then have "all_streams stream_inv sp'" unfolding x(2) by (rule all_streams_put [OF assms(2)])
    moreover have "held_sum f sp' + f st = held_sum f sp + f ?st" unfolding x(2) by (rule held_sum_key(1) [OF st(1)])
    then have "held_sum f sp' + g e + f ?st = held_sum f sp + f ?st" using f [OF st(2)] by (simp add: ac_simps)
    ultimately show ?thesis using x(1) by simp
  next
    case False
    then show ?thesis using assms(1,2) by (auto split: option.splits list.splits)
  qed
  show "x = None \<Longrightarrow> sp' = sp \<and> (\<forall>st. held_key sp key = Some st \<longrightarrow> st_queue st = [])"
    using assms(1) by (auto split: option.splits list.splits)
qed

lemma stream_bufs_pop: "st_queue st = e # es \<Longrightarrow> stream_bufs st = stream_bufs (st\<lparr>st_queue := es\<rparr>) + entry_buf e"
  by (simp add: stream_bufs_def ac_simps)

lemma stream_fds_pop: "st_queue st = r # rs \<Longrightarrow> stream_fds st = stream_fds (st\<lparr>st_queue := rs\<rparr>) + result_fd r"
  by (simp add: stream_fds_def ac_simps)

fun next_buf :: "recv_multishot_next \<Rightarrow> u16 multiset" where
  "next_buf (RmItem result buf_id) = cqe_buf buf_id"
| "next_buf _ = {#}"

fun next_fd :: "multishot_next \<Rightarrow> i32 multiset" where
  "next_fd (MsItem result) = result_fd result"
| "next_fd _ = {#}"

lemma item_buf_entry [simp]: "entry_buf (r, b) = cqe_buf (item_buf b)"
  by (simp add: item_buf_def cqe_buf_def entry_buf_def)

lemma accept_next_account:
  assumes inv: "accept_inv s"
  shows "\<exists>x s'. seam_multishot_next (Some s) key = Ret (x, Some s') \<and> accept_inv s' \<and> held_fds s' + next_fd x = held_fds s"
proof -
  have wf: "accept_wf s" and all: "all_streams stream_inv (accept_abs s)" using inv by (simp_all add: accept_inv_def)
  obtain x s1 where p: "accept_pop s key = Ret (x, s1)" "accept_wf s1"
    "stream_spec_exec False (accept_abs s) (SPop key) = (SItem x, accept_abs s1)"
    using accept_pop_refines [OF wf] by blast
  note A = spec_pop_account [OF p(3) all, of stream_fds result_fd, OF stream_fds_pop]
  show ?thesis
  proof (cases x)
    case (Some r)
    then show ?thesis using p(1,2) A(1) by (simp add: seam_multishot_next_def accept_inv_def held_fds_def)
  next
    case None
    have "\<exists>s2. accept_exec s1 (SFree key) = Ret (SUnit, s2) \<and> accept_wf s2 \<and> stream_spec_exec False (accept_abs s1) (SFree key) = (SUnit, accept_abs s2)"
      using accept_exec_refines [OF p(2), of "SFree key"] by auto
    then have F: "accept_wf (accept_free s1 key)"
      "stream_spec_exec False (accept_abs s1) (SFree key) = (SUnit, accept_abs (accept_free s1 key))" by auto
    have q: "accept_abs s1 = accept_abs s" "case held_key (accept_abs s1) key of None \<Rightarrow> True | Some st \<Rightarrow> stream_fds st = {#}"
      using A(2) None by (auto simp: stream_fds_def split: option.splits)
    show ?thesis using None p(1,2) F(1) q(1) all spec_free_account [OF F(2) _ q(2), of stream_inv]
      by (auto simp: seam_multishot_next_def accept_inv_def held_fds_def)
  qed
qed

lemma recv_take_account:
  assumes inv: "recv_inv s" and q: "\<And>st. held_key (recv_abs s) key = Some st \<Longrightarrow> st_queue st = []"
    and t: "recv_take_terminal s key = (x, s')"
  shows "recv_inv s' \<and> held_bufs s' + (case x of None \<Rightarrow> {#} | Some e \<Rightarrow> entry_buf e) = held_bufs s
    \<and> (\<forall>st. held_key (recv_abs s') key = Some st \<longrightarrow> stream_bufs st = {#})"
proof -
  have wf: "recv_wf s" and all: "all_streams stream_inv (recv_abs s)" using inv by (simp_all add: recv_inv_def)
  note R = recv_take_terminal_refines [OF wf t]
  show ?thesis
  proof (cases "held_key (recv_abs s) key")
    case None
    then show ?thesis using R all by (auto simp: recv_inv_def held_bufs_def)
  next
    case (Some st)
    let ?st = "st\<lparr>st_stash := None\<rparr>"
    have a: "x = st_stash st" "recv_abs s' = ss_put (recv_abs s) (unat (sk_slot key)) (Some ?st)" "recv_wf s'"
      using R Some by auto
    have "stream_inv ?st" using all_streams_key [OF all Some] by (auto simp: stream_inv_def)
    then have 1: "recv_inv s'" using a(3) all_streams_put [OF all] unfolding recv_inv_def a(2) by blast
    have e: "stream_bufs ?st = {#}" using q [OF Some] by (simp add: stream_bufs_def)
    have "stream_bufs st = (case x of None \<Rightarrow> {#} | Some e \<Rightarrow> entry_buf e)" using q [OF Some] a(1) by (simp add: stream_bufs_def)
    then have 2: "held_bufs s' + (case x of None \<Rightarrow> {#} | Some e \<Rightarrow> entry_buf e) = held_bufs s"
      using held_sum_key(1) [OF Some, of stream_bufs ?st] e unfolding held_bufs_def a(2) by simp
    have "held_key (recv_abs s') key = Some ?st"
      using Some unfolding a(2) by (auto simp: held_key_def ss_put_def split: if_splits)
    then show ?thesis using 1 2 e by simp
  qed
qed

lemma recv_next_account:
  assumes inv: "recv_inv s"
  shows "\<exists>x s'. seam_recv_multishot_next (Some s) key = Ret (x, Some s') \<and> recv_inv s' \<and> held_bufs s' + next_buf x = held_bufs s"
proof -
  have wf: "recv_wf s" and all: "all_streams stream_inv (recv_abs s)" using inv by (simp_all add: recv_inv_def)
  obtain x s1 where p: "recv_pop s key = Ret (x, s1)" "recv_wf s1"
    "stream_spec_exec True (recv_abs s) (SPop key) = (SItem x, recv_abs s1)"
    using recv_pop_refines [OF wf] by blast
  note A = spec_pop_account [OF p(3) all, of stream_bufs entry_buf, OF stream_bufs_pop]
  show ?thesis
  proof (cases x)
    case (Some e)
    then show ?thesis using p(1,2) A(1) by (cases e) (simp add: seam_recv_multishot_next_def recv_inv_def held_bufs_def)
  next
    case None
    obtain y s2 where t: "recv_take_terminal s1 key = (y, s2)" by (cases "recv_take_terminal s1 key")
    have q: "recv_inv s1" "held_bufs s1 = held_bufs s" "\<And>st. held_key (recv_abs s1) key = Some st \<Longrightarrow> st_queue st = []"
      using A(2) None p(2) all by (auto simp: recv_inv_def held_bufs_def)
    note T = recv_take_account [OF q(1,3) t]
    have "\<exists>s3. recv_exec s2 (SFree key) = Ret (SUnit, s3) \<and> recv_wf s3 \<and> stream_spec_exec True (recv_abs s2) (SFree key) = (SUnit, recv_abs s3)"
      using recv_exec_refines [of s2 "SFree key"] T by (auto simp: recv_inv_def)
    then have F: "recv_wf (recv_free s2 key)"
      "stream_spec_exec True (recv_abs s2) (SFree key) = (SUnit, recv_abs (recv_free s2 key))" by auto
    have c: "case held_key (recv_abs s2) key of None \<Rightarrow> True | Some st \<Rightarrow> stream_bufs st = {#}"
      using T by (auto split: option.splits)
    have f: "recv_inv (recv_free s2 key)" "held_bufs (recv_free s2 key) = held_bufs s2"
      using F(1) T spec_free_account [OF F(2) _ c, of stream_inv] by (simp_all add: recv_inv_def held_bufs_def)
    show ?thesis using None p(1) t T q(2) f
      by (cases y) (auto simp: seam_recv_multishot_next_def)
  qed
qed

section \<open>The life of the streams of a worker\<close>

text \<open>
  The multishot accepts of a worker: its slab, the effects on the driver, the results its streams
  have taken, and as a ghost the descriptors that came with a final completion no stream could
  take. \<open>AcCompletion\<close> is a completion of an accept operation, \<open>AcStatus\<close> the completion of a cancel
  request, which carries the sentinel of the operation it cancels. \<open>AcFree\<close> is the free after a refused
  submit.
\<close>

record accept_world =
  aw_slab :: accept_slab
  aw_log :: io_log
  aw_taken :: "i32 list"
  aw_lost :: "i32 multiset"

datatype accept_event =
    AcAllocate u64
  | AcNext stream_key
  | AcFree stream_key
  | AcCompletion u64 i32 cqe_flags
  | AcStatus u64 i32
  | AcCancel inflight_key

fun accept_event_exec :: "accept_world \<Rightarrow> accept_event \<Rightarrow> accept_world exec option" where
  "accept_event_exec w (AcAllocate owner) =
     Some (Ret (w\<lparr>aw_slab := the (snd (seam_allocate_multishot (Some (aw_slab w)) owner))\<rparr>))"
| "accept_event_exec w (AcNext key) =
     Some (exec_bind (seam_multishot_next (Some (aw_slab w)) key) (\<lambda>(x, s).
       Ret (w\<lparr>aw_slab := the s, aw_taken := (case x of MsItem r \<Rightarrow> aw_taken w @ [r] | _ \<Rightarrow> aw_taken w)\<rparr>)))"
| "accept_event_exec w (AcFree key) = Some (Ret (w\<lparr>aw_slab := the (seam_multishot_free (Some (aw_slab w)) key)\<rparr>))"
| "accept_event_exec w (AcCompletion user_data result flags) =
     Some (exec_bind (push_multishot_completion (aw_slab w) (aw_log w) user_data result flags) (\<lambda>(mc, s, lg).
       Ret (w\<lparr>aw_slab := s, aw_log := lg, aw_lost := aw_lost w + lost_fd (aw_slab w) user_data result flags\<rparr>)))"
| "accept_event_exec w (AcStatus user_data status) =
     Some (exec_bind (push_multishot_completion (aw_slab w) (aw_log w) user_data status 0) (\<lambda>(mc, s, lg).
       Ret (w\<lparr>aw_slab := s, aw_log := lg\<rparr>)))"
| "accept_event_exec w (AcCancel key) =
     map_option (\<lambda>m. exec_bind m (\<lambda>(s, lg). Ret (w\<lparr>aw_slab := s, aw_log := lg\<rparr>)))
       (submit_multishot_cancel (aw_slab w) (aw_log w) key)"

text \<open>
  What is required of the order of events: the status of a cancel request finds its stream cancelled
  or gone, since the request was submitted after the mark, and a stream is freed by hand only while
  nothing is queued for it, since its submit was refused. The results of completions are free.
\<close>

fun accept_admissible :: "accept_world \<Rightarrow> accept_event \<Rightarrow> bool" where
  "accept_admissible w (AcStatus user_data status) \<longleftrightarrow>
     (case held_slot (accept_abs (aw_slab w)) (multishot_sentinel_slot user_data) (multishot_sentinel_generation user_data) of
        None \<Rightarrow> True
      | Some st \<Rightarrow> st_cancel st)"
| "accept_admissible w (AcFree key) \<longleftrightarrow>
     (case held_key (accept_abs (aw_slab w)) key of None \<Rightarrow> True | Some st \<Rightarrow> stream_fds st = {#})"
| "accept_admissible w _ \<longleftrightarrow> True"

fun event_fd :: "accept_event \<Rightarrow> i32 multiset" where
  "event_fd (AcCompletion user_data result flags) = result_fd result"
| "event_fd _ = {#}"

fun final_fd :: "accept_event \<Rightarrow> i32 multiset" where
  "final_fd (AcCompletion user_data result flags) = (if flags_contain flags CQE_MORE then {#} else result_fd result)"
| "final_fd _ = {#}"

definition accept_account :: "accept_world \<Rightarrow> i32 multiset" where
  "accept_account w = held_fds (aw_slab w) + mset (lg_closed (aw_log w)) + (\<Sum>r\<leftarrow>aw_taken w. result_fd r) + aw_lost w"

lemma no_more [simp]: "\<not> flags_contain 0 CQE_MORE"
  by (simp add: flags_contain_def CQE_MORE_def)

lemma accept_event_lost:
  assumes "accept_event_exec w e = Some (Ret w')"
  shows "aw_lost w' \<subseteq># aw_lost w + final_fd e"
  using assms
  by (cases e) (auto simp: lost_fd_def seam_multishot_free_def split: prod.splits exec.splits option.splits if_splits)

lemma accept_event_conserves:
  assumes inv: "accept_inv (aw_slab w)" and ok: "accept_admissible w e"
  shows "\<exists>w'. accept_event_exec w e = Some (Ret w') \<and> accept_inv (aw_slab w') \<and> accept_account w' = accept_account w + event_fd e"
proof (cases e)
  case (AcAllocate owner)
  obtain k s' where al: "accept_allocate (aw_slab w) owner = (k, s')" by (cases "accept_allocate (aw_slab w) owner")
  have "accept_wf s'" "stream_spec_exec False (accept_abs (aw_slab w)) (SAllocate owner) = (SKey k, accept_abs s')"
    using accept_allocate_refines [OF _ al] inv by (auto simp: accept_inv_def)
  then have "accept_inv s' \<and> held_fds s' = held_fds (aw_slab w)"
    using spec_allocate_account [of False "accept_abs (aw_slab w)" owner _ "accept_abs s'" stream_inv stream_fds] inv
    by (simp add: accept_inv_def held_fds_def stream_inv_def stream_fds_def)
  then show ?thesis using AcAllocate al
    by (cases k) (simp_all add: seam_allocate_multishot_def accept_account_def)
next
  case (AcNext key)
  obtain x s' where x: "seam_multishot_next (Some (aw_slab w)) key = Ret (x, Some s')" "accept_inv s'"
    "held_fds (aw_slab w) = held_fds s' + next_fd x"
    using accept_next_account [OF inv] by metis
  show ?thesis
  proof (cases x)
    case (MsItem r)
    then show ?thesis using AcNext x(1,2) by (simp add: accept_account_def x(3))
  next
    case MsPending
    then show ?thesis using AcNext x(1,2) by (simp add: accept_account_def x(3))
  next
    case MsEnded
    then show ?thesis using AcNext x(1,2) by (simp add: accept_account_def x(3))
  qed
next
  case (AcFree key)
  let ?s = "aw_slab w"
  have F: "accept_wf (accept_free ?s key)" "stream_spec_exec False (accept_abs ?s) (SFree key) = (SUnit, accept_abs (accept_free ?s key))"
    using accept_exec_refines [of ?s "SFree key"] inv by (auto simp: accept_inv_def)
  show ?thesis using AcFree ok inv F(1) spec_free_account [OF F(2), of stream_inv stream_fds]
    by (auto simp: seam_multishot_free_def accept_account_def accept_inv_def held_fds_def)
next
  case (AcCompletion user_data result flags)
  obtain mc s' lg' where c: "push_multishot_completion (aw_slab w) (aw_log w) user_data result flags = Ret (mc, s', lg')"
    "accept_inv s'" "held_fds s' + mset (lg_closed lg') + lost_fd (aw_slab w) user_data result flags
      = held_fds (aw_slab w) + mset (lg_closed (aw_log w)) + result_fd result"
    using accept_completion_account [OF inv] by blast
  then show ?thesis using AcCompletion by (simp add: accept_account_def) (metis (no_types, lifting) add.assoc add.commute)
next
  case (AcStatus user_data status)
  have "\<not> takes_result (aw_slab w) user_data" using ok AcStatus by (auto simp: takes_result_def split: option.splits)
  then obtain mc s' lg' where "push_multishot_completion (aw_slab w) (aw_log w) user_data status 0 = Ret (mc, s', lg')"
    "accept_inv s'" "held_fds s' + mset (lg_closed lg') = held_fds (aw_slab w) + mset (lg_closed (aw_log w))"
    using accept_final_fd_lost [OF inv no_more] by blast
  then show ?thesis using AcStatus by (simp add: accept_account_def)
next
  case (AcCancel key)
  obtain s' lg' where "submit_multishot_cancel (aw_slab w) (aw_log w) key = Some (Ret (s', lg'))" "accept_inv s'"
    "held_fds s' + mset (lg_closed lg') = held_fds (aw_slab w) + mset (lg_closed (aw_log w))"
    using accept_cancel_conserves [OF inv, of "aw_log w" key] by blast
  then show ?thesis using AcCancel by (simp add: accept_account_def)
qed

interpretation accept_life: conserving accept_event_exec accept_admissible "\<lambda>w. accept_inv (aw_slab w)" accept_account event_fd
  by unfold_locales (rule accept_event_conserves)

text \<open>The multishot receives of a worker, and the buffers its streams have taken.\<close>

record recv_world =
  rw_slab :: recv_slab
  rw_log :: io_log
  rw_taken :: "u16 list"

datatype recv_event =
    RvAllocate u64
  | RvNext stream_key
  | RvFree stream_key
  | RvCompletion u64 i32 cqe_flags "u16 option"
  | RvCancel stream_key

fun recv_event_exec :: "recv_world \<Rightarrow> recv_event \<Rightarrow> recv_world exec option" where
  "recv_event_exec w (RvAllocate owner) =
     Some (Ret (w\<lparr>rw_slab := the (snd (seam_allocate_recv_multishot (Some (rw_slab w)) owner))\<rparr>))"
| "recv_event_exec w (RvNext key) =
     Some (exec_bind (seam_recv_multishot_next (Some (rw_slab w)) key) (\<lambda>(x, s).
       Ret (w\<lparr>rw_slab := the s, rw_taken := (case x of RmItem r (Some b) \<Rightarrow> rw_taken w @ [b] | _ \<Rightarrow> rw_taken w)\<rparr>)))"
| "recv_event_exec w (RvFree key) = Some (Ret (w\<lparr>rw_slab := the (seam_recv_multishot_free (Some (rw_slab w)) key)\<rparr>))"
| "recv_event_exec w (RvCompletion user_data result flags buf_id) =
     Some (exec_bind (push_recv_multishot_completion (rw_slab w) (rw_log w) user_data result flags buf_id) (\<lambda>(mc, s, lg).
       Ret (w\<lparr>rw_slab := s, rw_log := lg\<rparr>)))"
| "recv_event_exec w (RvCancel key) =
     map_option (\<lambda>m. exec_bind m (\<lambda>(s, lg). Ret (w\<lparr>rw_slab := s, rw_log := lg\<rparr>)))
       (submit_recv_multishot_cancel (rw_slab w) (rw_log w) key)"

text \<open>The kernel never selects buffer \<open>0xFFFF\<close> and ends an operation once.\<close>

fun recv_admissible :: "recv_world \<Rightarrow> recv_event \<Rightarrow> bool" where
  "recv_admissible w (RvCompletion user_data result flags buf_id) \<longleftrightarrow>
     buf_id \<noteq> Some NO_BUFFER \<and> \<not> final_again (rw_slab w) user_data flags"
| "recv_admissible w (RvFree key) \<longleftrightarrow>
     (case held_key (recv_abs (rw_slab w)) key of None \<Rightarrow> True | Some st \<Rightarrow> stream_bufs st = {#})"
| "recv_admissible w _ \<longleftrightarrow> True"

fun event_buf :: "recv_event \<Rightarrow> u16 multiset" where
  "event_buf (RvCompletion user_data result flags buf_id) = cqe_buf buf_id"
| "event_buf _ = {#}"

definition recv_account :: "recv_world \<Rightarrow> u16 multiset" where
  "recv_account w = held_bufs (rw_slab w) + mset (lg_recycled (rw_log w)) + mset (rw_taken w)"

definition recv_world_inv :: "recv_world \<Rightarrow> bool" where
  "recv_world_inv w \<longleftrightarrow> recv_inv (rw_slab w) \<and> lg_provided (rw_log w)"

lemma recv_event_conserves:
  assumes w: "recv_world_inv w" and ok: "recv_admissible w e"
  shows "\<exists>w'. recv_event_exec w e = Some (Ret w') \<and> recv_world_inv w' \<and> recv_account w' = recv_account w + event_buf e"
proof (cases e)
  case (RvAllocate owner)
  obtain k s' where al: "recv_allocate (rw_slab w) owner = (k, s')" by (cases "recv_allocate (rw_slab w) owner")
  have "recv_wf s'" "stream_spec_exec True (recv_abs (rw_slab w)) (SAllocate owner) = (SKey k, recv_abs s')"
    using recv_allocate_refines [OF _ al] w by (auto simp: recv_inv_def recv_world_inv_def)
  then have "recv_inv s' \<and> held_bufs s' = held_bufs (rw_slab w)"
    using spec_allocate_account [of True "recv_abs (rw_slab w)" owner _ "recv_abs s'" stream_inv stream_bufs] w
    by (simp add: recv_world_inv_def recv_inv_def held_bufs_def stream_inv_def stream_bufs_def)
  then show ?thesis using RvAllocate al w
    by (cases k) (simp_all add: seam_allocate_recv_multishot_def recv_account_def recv_world_inv_def)
next
  case (RvNext key)
  obtain x s' where x: "seam_recv_multishot_next (Some (rw_slab w)) key = Ret (x, Some s')" "recv_inv s'"
    "held_bufs (rw_slab w) = held_bufs s' + next_buf x"
    using recv_next_account [of "rw_slab w" key] w unfolding recv_world_inv_def by metis
  show ?thesis
  proof (cases "\<exists>r b. x = RmItem r (Some b)")
    case True
    then obtain r b where b: "x = RmItem r (Some b)" by blast
    show ?thesis using RvNext x(1,2) w by (simp add: b recv_account_def recv_world_inv_def cqe_buf_def x(3))
  next
    case False
    then have "next_buf x = {#}" by (cases x rule: next_buf.cases) (auto simp: cqe_buf_def split: option.splits)
    moreover have "(case x of RmItem r (Some b) \<Rightarrow> rw_taken w @ [b] | _ \<Rightarrow> rw_taken w) = rw_taken w"
      using False by (cases x) (auto split: option.splits)
    ultimately show ?thesis using RvNext x(1,2) w by (simp add: recv_account_def recv_world_inv_def x(3))
  qed
next
  case (RvFree key)
  let ?s = "rw_slab w"
  have F: "recv_wf (recv_free ?s key)" "stream_spec_exec True (recv_abs ?s) (SFree key) = (SUnit, recv_abs (recv_free ?s key))"
    using recv_exec_refines [of ?s "SFree key"] w by (auto simp: recv_inv_def recv_world_inv_def)
  show ?thesis using RvFree ok w F(1) spec_free_account [OF F(2), of stream_inv stream_bufs]
    by (auto simp: seam_recv_multishot_free_def recv_account_def recv_world_inv_def recv_inv_def held_bufs_def)
next
  case (RvCompletion user_data result flags buf_id)
  obtain mc s' lg' where "push_recv_multishot_completion (rw_slab w) (rw_log w) user_data result flags buf_id = Ret (mc, s', lg')"
    "recv_inv s'" "lg_provided lg'"
    "held_bufs s' + mset (lg_recycled lg') = held_bufs (rw_slab w) + mset (lg_recycled (rw_log w)) + cqe_buf buf_id"
    using recv_completion_conserves [of "rw_slab w" "rw_log w" buf_id user_data flags result] ok w RvCompletion
    by (auto simp: recv_world_inv_def)
  then show ?thesis using RvCompletion by (simp add: recv_account_def recv_world_inv_def add.assoc add.commute add.left_commute)
next
  case (RvCancel key)
  obtain s' lg' where "submit_recv_multishot_cancel (rw_slab w) (rw_log w) key = Some (Ret (s', lg'))" "recv_inv s'" "lg_provided lg'"
    "held_bufs s' + mset (lg_recycled lg') = held_bufs (rw_slab w) + mset (lg_recycled (rw_log w))"
    using recv_cancel_conserves [of "rw_slab w" "rw_log w" key] w by (auto simp: recv_world_inv_def)
  then show ?thesis using RvCancel by (simp add: recv_account_def recv_world_inv_def)
qed

interpretation recv_life: conserving recv_event_exec recv_admissible recv_world_inv recv_account event_buf
  by unfold_locales (rule recv_event_conserves)

section \<open>The account of a worker\<close>

lemma held_sum_new [simp]: "held_sum f (stream_spec_new w n) = {#}"
  by (simp add: held_sum_def stream_spec_new_def slot_holds_def)

lemma all_streams_new [simp]: "all_streams P (stream_spec_new w n)"
  by (simp add: all_streams_def stream_spec_new_def)

definition new_log :: "bool \<Rightarrow> io_log" where
  "new_log provided = \<lparr>lg_provided = provided, lg_recycled = [], lg_closed = [], lg_cancels = []\<rparr>"

definition new_accept_world :: "u8 \<Rightarrow> u16 \<Rightarrow> bool \<Rightarrow> accept_world" where
  "new_accept_world worker_id cap provided = \<lparr>aw_slab = accept_new worker_id cap, aw_log = new_log provided, aw_taken = [], aw_lost = {#}\<rparr>"

lemma new_accept_world_inv:
  "accept_inv (aw_slab (new_accept_world worker_id cap provided))" "accept_account (new_accept_world worker_id cap provided) = {#}"
  by (simp_all add: new_accept_world_def accept_inv_def accept_account_def held_fds_def new_log_def accept_new_wf)

lemma accept_run_lost:
  "run_events accept_event_exec w es = Some (Ret w') \<Longrightarrow> aw_lost w' \<subseteq># aw_lost w + (\<Sum>e\<leftarrow>es. final_fd e)"
proof (induction es arbitrary: w)
  case (Cons e es)
  then obtain w1 where w1: "accept_event_exec w e = Some (Ret w1)" "run_events accept_event_exec w1 es = Some (Ret w')"
    by (auto split: option.splits exec.splits)
  have "aw_lost w' \<subseteq># aw_lost w1 + (\<Sum>e\<leftarrow>es. final_fd e)" using Cons.IH [OF w1(2)] .
  also have "\<dots> \<subseteq># aw_lost w + final_fd e + (\<Sum>e\<leftarrow>es. final_fd e)"
    using accept_event_lost [OF w1(1)] by (rule subset_mset.add_right_mono)
  finally show ?case by (simp add: add.assoc)
qed simp

text \<open>
  C24. What becomes of accepted descriptors. From a fresh worker on, whatever the order in which streams
  are allocated, advanced, freed after a refused submit and dropped and completions and cancel
  statuses arrive, every event returns (no panic, no endless loop), and the descriptors the kernel has
  created are, each exactly once, queued for a live stream, taken by one, closed, or lost; and only
  descriptors of final completions are lost, so none is unless the kernel ends an accept with one.
\<close>

theorem accept_fds_conserved:
  assumes "admissible_run accept_event_exec accept_admissible (new_accept_world worker_id cap provided) es"
  shows "\<exists>w. run_events accept_event_exec (new_accept_world worker_id cap provided) es = Some (Ret w)
    \<and> held_fds (aw_slab w) + mset (lg_closed (aw_log w)) + (\<Sum>r\<leftarrow>aw_taken w. result_fd r) + aw_lost w = (\<Sum>e\<leftarrow>es. event_fd e)
    \<and> aw_lost w \<subseteq># (\<Sum>e\<leftarrow>es. final_fd e)"
proof -
  obtain w where w: "run_events accept_event_exec (new_accept_world worker_id cap provided) es = Some (Ret w)"
    "accept_account w = (\<Sum>e\<leftarrow>es. event_fd e)"
    using accept_life.run_conserves [OF new_accept_world_inv(1) assms] new_accept_world_inv(2) by auto
  then show ?thesis using accept_run_lost [OF w(1)] by (simp add: accept_account_def new_accept_world_def)
qed

theorem accept_fds_conserved_witness:
  "\<exists>w. run_events accept_event_exec (new_accept_world 3 4 True)
       [AcAllocate 9, AcCompletion (encode_multishot_sentinel \<lparr>sk_slot = 0, sk_generation = 0, sk_worker = 3\<rparr>) 7 2,
        AcCompletion (encode_multishot_sentinel \<lparr>sk_slot = 0, sk_generation = 0, sk_worker = 3\<rparr>) 8 0,
        AcNext \<lparr>sk_slot = 0, sk_generation = 0, sk_worker = 3\<rparr>,
        AcCancel \<lparr>ik_slot = 0, ik_generation = 0, ik_worker = 3, ik_token = 0\<rparr>] = Some (Ret w)
     \<and> held_fds (aw_slab w) + mset (lg_closed (aw_log w)) + (\<Sum>r\<leftarrow>aw_taken w. result_fd r) + aw_lost w = {#7, 8#}
     \<and> aw_lost w \<subseteq># {#8#}"
proof -
  let ?k = "encode_multishot_sentinel \<lparr>sk_slot = 0, sk_generation = 0, sk_worker = 3\<rparr>"
  let ?es = "[AcAllocate 9, AcCompletion ?k 7 2, AcCompletion ?k 8 0, AcNext \<lparr>sk_slot = 0, sk_generation = 0, sk_worker = 3\<rparr>,
        AcCancel \<lparr>ik_slot = 0, ik_generation = 0, ik_worker = 3, ik_token = 0\<rparr>]"
  have "admissible_run accept_event_exec accept_admissible (new_accept_world 3 4 True) ?es"
    by (rule admissible_always) auto
  moreover have "(\<Sum>e\<leftarrow>?es. event_fd e) = {#7, 8#}" by (simp add: result_fd_def)
  moreover have "flags_contain 2 CQE_MORE" by (simp add: flags_contain_def CQE_MORE_def)
  then have "(\<Sum>e\<leftarrow>?es. final_fd e) = {#8#}" by (simp add: result_fd_def)
  ultimately show ?thesis using accept_fds_conserved [of 3 4 True ?es] by (simp only:)
qed

text \<open>
  C25. No provided buffer is lost. From a fresh worker with a buffer pool on, whatever the order in which
  streams are allocated, advanced and dropped and completions arrive, every event returns, and the
  buffers the kernel has selected are, each exactly once, queued for a live stream (the final one
  included), taken by one, or back in the pool.
\<close>

theorem recv_bufs_conserved:
  assumes "mmap_zeroed mmap" "recv_new mmap worker_id cap = Inr s"
    and "admissible_run recv_event_exec recv_admissible \<lparr>rw_slab = s, rw_log = new_log True, rw_taken = []\<rparr> es"
  shows "\<exists>w. run_events recv_event_exec \<lparr>rw_slab = s, rw_log = new_log True, rw_taken = []\<rparr> es = Some (Ret w)
    \<and> held_bufs (rw_slab w) + mset (lg_recycled (rw_log w)) + mset (rw_taken w) = (\<Sum>e\<leftarrow>es. event_buf e)"
proof -
  have "recv_world_inv \<lparr>rw_slab = s, rw_log = new_log True, rw_taken = []\<rparr>"
    "recv_account \<lparr>rw_slab = s, rw_log = new_log True, rw_taken = []\<rparr> = {#}"
    using recv_new_wf [OF assms(1,2)]
    by (simp_all add: recv_world_inv_def recv_inv_def recv_account_def held_bufs_def new_log_def)
  then show ?thesis using recv_life.run_conserves [OF _ assms(3)] by (auto simp: recv_account_def)
qed

theorem recv_bufs_conserved_witness:
  "\<exists>s w. recv_new zero_map 3 4 = Inr s \<and> run_events recv_event_exec \<lparr>rw_slab = s, rw_log = new_log True, rw_taken = []\<rparr>
       [RvAllocate 9, RvCompletion (encode_recv_multishot_sentinel \<lparr>sk_slot = 0, sk_generation = 0, sk_worker = 3\<rparr>) 100 2 (Some 7),
        RvCompletion (encode_recv_multishot_sentinel \<lparr>sk_slot = 0, sk_generation = 0, sk_worker = 3\<rparr>) 50 2 (Some 8),
        RvNext \<lparr>sk_slot = 0, sk_generation = 0, sk_worker = 3\<rparr>,
        RvCancel \<lparr>sk_slot = 0, sk_generation = 0, sk_worker = 3\<rparr>] = Some (Ret w)
     \<and> held_bufs (rw_slab w) + mset (lg_recycled (rw_log w)) + mset (rw_taken w) = {#7, 8#}"
proof -
  let ?key = "\<lparr>sk_slot = 0, sk_generation = 0, sk_worker = 3\<rparr>" let ?k = "encode_recv_multishot_sentinel ?key"
  let ?es = "[RvAllocate 9, RvCompletion ?k 100 2 (Some 7), RvCompletion ?k 50 2 (Some 8), RvNext ?key, RvCancel ?key]"
  obtain s where s: "recv_new zero_map 3 4 = Inr s"
    by (auto simp: recv_new_def zero_map_def mmap_region_new_def Let_def recv_consts)
  have more: "flags_contain 2 CQE_MORE" by (simp add: flags_contain_def CQE_MORE_def)
  have "admissible_run recv_event_exec recv_admissible \<lparr>rw_slab = s, rw_log = new_log True, rw_taken = []\<rparr> ?es"
    by (rule admissible_always) (auto simp: final_again_def more NO_BUFFER_def)
  moreover have "(\<Sum>e\<leftarrow>?es. event_buf e) = {#7, 8#}" by (simp add: cqe_buf_def)
  ultimately show ?thesis using s recv_bufs_conserved [OF zero_map_zeroed s, of ?es] by metis
qed

section \<open>Retirement of the owner\<close>

text \<open>
  The owner of an operation counts it as in flight until the operation's final completion retires
  it. The two cancels differ on a stream that has ended.
\<close>

lemma held_slot_of_key:
  "held_key sp key = Some st \<Longrightarrow> held_slot sp (sk_slot key) (ucast (sk_generation key)) = Some st"
  by (auto simp: held_key_def held_slot_def split: if_splits)

lemma held_key_put: "held_key sp key = Some st \<Longrightarrow> held_key (ss_put sp (unat (sk_slot key)) (Some st')) key = Some st'"
  by (auto simp: held_key_def ss_put_def split: if_splits)

lemma accept_owner_spec: "accept_wf s \<Longrightarrow> accept_owner s slot low = map_option st_owner (held_slot (accept_abs s) slot low)"
  using accept_exec_refines [of s "SOwner slot low"] by auto

lemma sentinel_parts:
  "multishot_sentinel_slot (encode_multishot_sentinel key) = sk_slot key"
  "multishot_sentinel_generation (encode_multishot_sentinel key) = ucast (sk_generation key)"
  unfolding multishot_sentinel_slot_def multishot_sentinel_generation_def encode_halves(2) by (rule token_halves)+

lemma accept_final_retires:
  assumes wf: "accept_wf s" and k: "held_key (accept_abs s) key = Some st" and f: "\<not> flags_contain flags CQE_MORE"
  shows "\<exists>mc s' lg'. push_multishot_completion s lg (encode_multishot_sentinel key) result flags = Ret (mc, s', lg')
    \<and> accept_wf s' \<and> mc_retire mc = Some (st_owner st)
    \<and> (\<not> st_cancel st \<longrightarrow> (\<exists>st'. held_key (accept_abs s') key = Some st' \<and> st_ended st' \<and> st_owner st' = st_owner st))"
proof -
  let ?slot = "sk_slot key" and ?gen = "ucast (sk_generation key) :: u16"
  have h: "held_slot (accept_abs s) ?slot ?gen = Some st" using held_slot_of_key [OF k] .
  have o: "accept_owner s ?slot ?gen = Some (st_owner st)" using accept_owner_spec [OF wf] h by simp
  show ?thesis
  proof (cases "st_cancel st")
    case True
    then have "accept_is_cancel_pending s ?slot ?gen" using accept_cancel_pending_spec [OF wf] h by auto
    then show ?thesis using True o f accept_free_by_slot_spec [OF wf h]
      by (simp add: push_multishot_completion_def sentinel_parts Let_def)
  next
    case False
    then have nc: "\<not> accept_is_cancel_pending s ?slot ?gen" using accept_cancel_pending_spec [OF wf] h by auto
    obtain p s' where push: "accept_push s ?slot ?gen result False = Ret (p, s')" "accept_wf s'"
      and sp: "stream_spec_exec False (accept_abs s) (SPush ?slot ?gen result False) = (SPushed p, accept_abs s')"
      using accept_push_refines [OF wf] by blast
    obtain st' where t: "stream_take False st result False = (p, st')" "accept_abs s' = ss_put (accept_abs s) (unat ?slot) (Some st')"
      using sp h by (auto split: prod.splits)
    have "st_ended st' \<and> st_owner st' = st_owner st" using t(1) by (auto simp: stream_take_def Let_def split: if_splits)
    moreover have "held_key (accept_abs s') key = Some st'" unfolding t(2) by (rule held_key_put [OF k])
    moreover have "\<exists>mc lg'. push_multishot_completion s lg (encode_multishot_sentinel key) result flags = Ret (mc, s', lg')
        \<and> mc_retire mc = Some (st_owner st)"
      using push(1) nc o f by (cases p) (simp_all add: push_multishot_completion_def sentinel_parts Let_def)
    ultimately show ?thesis using push(2) by blast
  qed
qed

lemma multishot_cancel_slot:
  "cancel_slot_key (multishot_cancel_key k) = k" "ik_slot (multishot_cancel_key k) = sk_slot k"
  by (simp_all add: cancel_slot_key_def multishot_cancel_key_def)

lemma multishot_cancel_request:
  assumes "submit_multishot_cancel s lg (multishot_cancel_key k) = Some (Ret (s', lg'))"
  shows "lg_cancels lg' \<noteq> [] \<and> last (lg_cancels lg') = (encode_multishot_sentinel k, encode_multishot_sentinel k)"
  using assms by (auto simp: submit_multishot_cancel_def submit_cancel_request_def Let_def multishot_cancel_key_def split: option.splits)

text \<open>
  C27. A multishot accept that has ended is retired a second time. After the final completion of the
  operation retired its owner, a stream dropped before it saw the end still submits a cancel, and the
  cancel's own completion, whatever its status, retires the owner again: the in-flight count of a
  task with another operation in flight drops to one less than it has.
\<close>

theorem accept_retires_twice:
  assumes wf: "accept_wf s" and st: "held_key (accept_abs s) k = Some st" "\<not> st_cancel st"
  shows "\<exists>mc1 s1 lg1 s2 lg2 mc2 s3 lg3.
      push_multishot_completion s lg (encode_multishot_sentinel k) result 0 = Ret (mc1, s1, lg1)
    \<and> mc_retire mc1 = Some (st_owner st)
    \<and> submit_multishot_cancel s1 lg1 (multishot_cancel_key k) = Some (Ret (s2, lg2))
    \<and> lg_cancels lg2 \<noteq> [] \<and> last (lg_cancels lg2) = (encode_multishot_sentinel k, encode_multishot_sentinel k)
    \<and> push_multishot_completion s2 lg2 (encode_multishot_sentinel k) status 0 = Ret (mc2, s3, lg3)
    \<and> mc_retire mc2 = Some (st_owner st)"
proof -
  have f: "\<not> flags_contain 0 CQE_MORE" by (simp add: flags_contain_def CQE_MORE_def)
  obtain mc1 s1 lg1 st1 where 1: "push_multishot_completion s lg (encode_multishot_sentinel k) result 0 = Ret (mc1, s1, lg1)"
    "accept_wf s1" "mc_retire mc1 = Some (st_owner st)" "held_key (accept_abs s1) k = Some st1" "st_owner st1 = st_owner st"
    using accept_final_retires [OF wf st(1) f] st(2) by blast
  obtain s2 lg2 where 2: "submit_multishot_cancel s1 lg1 (multishot_cancel_key k) = Some (Ret (s2, lg2))" "accept_wf s2"
    "accept_abs s2 = ss_put (accept_abs s1) (unat (sk_slot k)) (Some (st1\<lparr>st_queue := [], st_cancel := True\<rparr>))"
    using accept_cancel_spec [OF 1(2), of lg1 "multishot_cancel_key k"] 1(4) by (auto simp: multishot_cancel_slot)
  have h: "held_key (accept_abs s2) k = Some (st1\<lparr>st_queue := [], st_cancel := True\<rparr>)"
    unfolding 2(3) by (rule held_key_put [OF 1(4)])
  obtain mc2 s3 lg3 where "push_multishot_completion s2 lg2 (encode_multishot_sentinel k) status 0 = Ret (mc2, s3, lg3)"
    "mc_retire mc2 = Some (st_owner st)"
    using accept_final_retires [OF 2(2) h f] 1(5) by fastforce
  then show ?thesis using 1(1,3) 2(1) multishot_cancel_request [OF 2(1)] by blast
qed

theorem accept_retires_twice_witness:
  "\<exists>s mc1 s1 lg1 s2 lg2 mc2 s3 lg3. accept_allocate (accept_new 3 4) 9 = (Some \<lparr>sk_slot = 0, sk_generation = 0, sk_worker = 3\<rparr>, s)
    \<and> push_multishot_completion s (new_log True) (encode_multishot_sentinel \<lparr>sk_slot = 0, sk_generation = 0, sk_worker = 3\<rparr>) (- 24) 0
        = Ret (mc1, s1, lg1)
    \<and> mc_retire mc1 = Some 9
    \<and> submit_multishot_cancel s1 lg1 (multishot_cancel_key \<lparr>sk_slot = 0, sk_generation = 0, sk_worker = 3\<rparr>) = Some (Ret (s2, lg2))
    \<and> push_multishot_completion s2 lg2 (encode_multishot_sentinel \<lparr>sk_slot = 0, sk_generation = 0, sk_worker = 3\<rparr>) (- 2) 0
        = Ret (mc2, s3, lg3)
    \<and> mc_retire mc2 = Some 9"
proof -
  let ?k = "\<lparr>sk_slot = 0, sk_generation = 0, sk_worker = 3\<rparr>"
  obtain k s where al: "accept_allocate (accept_new 3 4) 9 = (k, s)" by (cases "accept_allocate (accept_new 3 4) 9")
  note R = accept_allocate_refines [OF accept_new_wf(1) al]
  have n: "accept_abs (accept_new 3 4) = \<lparr>ss_worker = 3, ss_table = [(0, None), (0, None), (0, None), (0, None)]\<rparr>"
    by (simp add: accept_new_wf stream_spec_new_def) (simp add: numeral_eq_Suc)
  let ?st = "\<lparr>st_owner = 9, st_queue = [], st_stash = None, st_ended = False, st_cancel = False\<rparr>"
  have a: "k = Some ?k" "accept_abs s = \<lparr>ss_worker = 3, ss_table = [(0, Some ?st), (0, None), (0, None), (0, None)]\<rparr>"
    using R unfolding n by (auto simp: upt_rec ss_put_def)
  then have k: "k = Some ?k" "held_key (accept_abs s) ?k = Some ?st"
    unfolding a(2) by (simp_all add: held_key_def)
  show ?thesis using al k accept_retires_twice [OF conjunct1 [OF R] k(2), of "new_log True" "- 24" "- 2"] by auto
qed

end
