(* ===== verification/Bump_Arena.thy ===== *)
theory Bump_Arena
  imports Slab_Key Ir_Bytes Call_Refinement
begin

text \<open>
  The bump allocator of \<open>kwokka-core\<close> (\<open>arena/bump.rs\<close>, \<open>builder.rs\<close>, \<open>phase.rs\<close>): allocation
  by moving a cursor through one region, a registry of destructors run in reverse order, and the
  phases in which allocation is allowed. Pointers are addresses; a write through a pointer that is
  misaligned or leaves the region is undefined behaviour.
\<close>

section \<open>Layouts\<close>

definition is_power_of_two :: "nat \<Rightarrow> bool" where
  "is_power_of_two n \<longleftrightarrow> length (filter (\<lambda>i. bit n i) [0..<64]) = 1"

definition isize_max :: nat where "isize_max = 2 ^ 63 - 1"

record layout =
  ly_size :: nat
  ly_align :: nat

definition layout_from_size_align :: "nat \<Rightarrow> nat \<Rightarrow> layout option" where
  "layout_from_size_align bytes align =
     (if is_power_of_two align \<and> bytes \<le> isize_max + 1 - align then Some \<lparr>ly_size = bytes, ly_align = align\<rparr> else None)"

text \<open>The layout of a type, which the compiler provides, is a valid one.\<close>

definition layout_ok :: "layout \<Rightarrow> bool" where
  "layout_ok l \<longleftrightarrow> layout_from_size_align (ly_size l) (ly_align l) = Some l \<and> ly_align l < usize_bound"

section \<open>The allocator\<close>

datatype arena_phase = BuildPhase | FrozenPhase

datatype arena_error =
    ZeroCapacity
  | InvalidAlignment nat
  | Exhausted nat nat
  | DropRegistryFull nat
  | WrongPhase arena_phase

text \<open>\<open>bp_mem\<close> is the region at address \<open>bp_buffer\<close>; a destructor is an element of \<open>'d\<close>.\<close>

record 'd bump =
  bp_buffer :: nat
  bp_mem :: bytes
  bp_capacity :: nat
  bp_alignment :: nat
  bp_cursor :: nat
  bp_drops :: "(nat \<times> 'd) list"
  bp_drop_capacity :: nat
  bp_phase :: arena_phase
  bp_generation :: generation

record bump_builder =
  bb_bytes :: nat
  bb_drop_slots :: nat
  bb_alignment :: nat

definition bump_builder_new :: bump_builder where
  "bump_builder_new = \<lparr>bb_bytes = 64 * 1024, bb_drop_slots = 0, bb_alignment = 4096\<rparr>"

definition bump_bytes :: "bump_builder \<Rightarrow> nat \<Rightarrow> bump_builder" where
  "bump_bytes b bytes = b\<lparr>bb_bytes := bytes\<rparr>"

definition bump_alignment :: "bump_builder \<Rightarrow> nat \<Rightarrow> bump_builder" where
  "bump_alignment b alignment = b\<lparr>bb_alignment := alignment\<rparr>"

definition bump_drop_slots :: "bump_builder \<Rightarrow> nat \<Rightarrow> bump_builder" where
  "bump_drop_slots b drop_slots = b\<lparr>bb_drop_slots := drop_slots\<rparr>"

definition buffer_layout :: "nat \<Rightarrow> nat \<Rightarrow> arena_error + layout" where
  "buffer_layout bytes alignment = ok_or (layout_from_size_align bytes alignment) (Exhausted bytes 0)"

text \<open>\<open>Vec::with_capacity\<close> of 16-byte registry entries: no allocation for none, a panic beyond
  \<open>isize::MAX\<close> bytes, an abort when the allocator fails.\<close>

definition reserve_drops :: "(layout \<Rightarrow> (nat \<times> bytes) option) \<Rightarrow> nat \<Rightarrow> unit exec" where
  "reserve_drops alloc n =
     (if n = 0 then Ret ()
      else if isize_max < 16 * n then Panic
      else case alloc \<lparr>ly_size = 16 * n, ly_align = 8\<rparr> of None \<Rightarrow> Panic | Some _ \<Rightarrow> Ret ())"

definition from_builder ::
    "(layout \<Rightarrow> (nat \<times> bytes) option) \<Rightarrow> nat \<Rightarrow> nat \<Rightarrow> nat \<Rightarrow> (arena_error + 'd bump) exec" where
  "from_builder alloc bytes drop_slots alignment =
     (if bytes = 0 then Ret (Inl ZeroCapacity)
      else if \<not> is_power_of_two alignment then Ret (Inl (InvalidAlignment alignment))
      else case buffer_layout bytes alignment of
          Inl e \<Rightarrow> Ret (Inl e)
        | Inr layout \<Rightarrow> (case alloc layout of
              None \<Rightarrow> Panic
            | Some (buffer, mem) \<Rightarrow> exec_bind (reserve_drops alloc drop_slots) (\<lambda>_.
                Ret (Inr \<lparr>bp_buffer = buffer, bp_mem = mem, bp_capacity = bytes, bp_alignment = alignment, bp_cursor = 0,
                     bp_drops = [], bp_drop_capacity = drop_slots, bp_phase = BuildPhase, bp_generation = 0\<rparr>))))"

definition bump_build :: "(layout \<Rightarrow> (nat \<times> bytes) option) \<Rightarrow> bump_builder \<Rightarrow> (arena_error + 'd bump) exec" where
  "bump_build alloc b = from_builder alloc (bb_bytes b) (bb_drop_slots b) (bb_alignment b)"

text \<open>Checked addition and subtraction on \<open>usize\<close>, which panic out of range.\<close>

definition add_usize :: "nat \<Rightarrow> nat \<Rightarrow> nat exec" where
  "add_usize a b = (if a + b < usize_bound then Ret (a + b) else Panic)"

definition sub_usize :: "nat \<Rightarrow> nat \<Rightarrow> nat exec" where
  "sub_usize a b = (if b \<le> a then Ret (a - b) else Panic)"

definition align_up :: "nat \<Rightarrow> nat \<Rightarrow> nat exec" where
  "align_up addr align =
     exec_bind (add_usize addr align) (\<lambda>s. exec_bind (sub_usize s 1) (\<lambda>t. exec_bind (sub_usize align 1) (\<lambda>m.
       Ret (unat ((of_nat t :: u64) AND NOT (of_nat m))))))"

definition arena_exhausted :: "'d bump \<Rightarrow> nat \<Rightarrow> arena_error exec" where
  "arena_exhausted a requested = exec_bind (sub_usize (bp_capacity a) (bp_cursor a)) (\<lambda>av. Ret (Exhausted requested av))"

definition alloc_raw :: "'d bump \<Rightarrow> layout \<Rightarrow> ((arena_error + nat) \<times> 'd bump) exec" where
  "alloc_raw a layout =
     (if bp_phase a \<noteq> BuildPhase then Ret (Inl (WrongPhase (bp_phase a)), a)
      else if bp_alignment a < ly_align layout then
        exec_bind (add_usize (ly_size layout) (ly_align layout)) (\<lambda>r.
        exec_bind (arena_exhausted a r) (\<lambda>e. Ret (Inl e, a)))
      else exec_bind (align_up (bp_cursor a) (ly_align layout)) (\<lambda>aligned.
        case checked_add aligned (ly_size layout) of
          None \<Rightarrow> exec_bind (arena_exhausted a (ly_size layout)) (\<lambda>e. Ret (Inl e, a))
        | Some new_cursor \<Rightarrow>
            if bp_capacity a < new_cursor then
              exec_bind (sub_usize new_cursor (bp_cursor a)) (\<lambda>r.
              exec_bind (arena_exhausted a r) (\<lambda>e. Ret (Inl e, a)))
            else Ret (Inr (bp_buffer a + aligned), a\<lparr>bp_cursor := new_cursor\<rparr>)))"

text \<open>\<open>ptr.write(value)\<close>: the value's bytes at an aligned address inside the region.\<close>

definition arena_write :: "'d bump \<Rightarrow> layout \<Rightarrow> nat \<Rightarrow> bytes \<Rightarrow> 'd bump exec" where
  "arena_write a layout p value =
     (if p mod ly_align layout = 0 \<and> bp_buffer a \<le> p \<and> p + length value \<le> bp_buffer a + length (bp_mem a)
      then Ret (a\<lparr>bp_mem := overwrite (bp_mem a) (p - bp_buffer a) value\<rparr>) else Undefined)"

definition arena_alloc :: "'d bump \<Rightarrow> layout \<Rightarrow> bytes \<Rightarrow> ((arena_error + nat) \<times> 'd bump) exec" where
  "arena_alloc a layout value =
     exec_bind (alloc_raw a layout) (\<lambda>(r, a').
       case r of
         Inl e \<Rightarrow> Ret (Inl e, a')
       | Inr p \<Rightarrow> exec_bind (arena_write a' layout p value) (\<lambda>a''. Ret (Inr p, a'')))"

definition alloc_with_drop :: "'d bump \<Rightarrow> layout \<Rightarrow> bytes \<Rightarrow> 'd \<Rightarrow> ((arena_error + nat) \<times> 'd bump) exec" where
  "alloc_with_drop a layout value drop_fn =
     (if bp_drop_capacity a \<le> length (bp_drops a) then Ret (Inl (DropRegistryFull (bp_drop_capacity a)), a)
      else exec_bind (alloc_raw a layout) (\<lambda>(r, a').
        case r of
          Inl e \<Rightarrow> Ret (Inl e, a')
        | Inr p \<Rightarrow> exec_bind (arena_write a' layout p value) (\<lambda>a''.
            Ret (Inr p, a''\<lparr>bp_drops := bp_drops a'' @ [(p, drop_fn)]\<rparr>))))"

definition alloc_slice :: "'d bump \<Rightarrow> layout \<Rightarrow> nat \<Rightarrow> ((arena_error + nat \<times> nat) \<times> 'd bump) exec" where
  "alloc_slice a elem count =
     (case checked_mul (ly_size elem) count of
        None \<Rightarrow> exec_bind (arena_exhausted a (usize_bound - 1)) (\<lambda>e. Ret (Inl e, a))
      | Some bytes \<Rightarrow> (case layout_from_size_align bytes (ly_align elem) of
            None \<Rightarrow> exec_bind (arena_exhausted a bytes) (\<lambda>e. Ret (Inl e, a))
          | Some layout \<Rightarrow> exec_bind (alloc_raw a layout) (\<lambda>(r, a').
              Ret (case r of Inl e \<Rightarrow> Inl e | Inr p \<Rightarrow> Inr (p, count), a'))))"

definition freeze :: "'d bump \<Rightarrow> 'd bump" where
  "freeze a = a\<lparr>bp_phase := FrozenPhase\<rparr>"

text \<open>\<open>while let Some(entry) = drops.pop()\<close>: the entries in the order their destructors run.\<close>

function run_drops :: "(nat \<times> 'd) list \<Rightarrow> (nat \<times> 'd) list" where
  "run_drops drops = (if drops = [] then [] else last drops # run_drops (butlast drops))"
  by auto
termination
  by (relation "measure length") simp_all

declare run_drops.simps [simp del]

definition arena_reset :: "'d bump \<Rightarrow> (nat \<times> 'd) list \<times> 'd bump" where
  "arena_reset a =
     (run_drops (bp_drops a),
      a\<lparr>bp_drops := [], bp_cursor := 0, bp_phase := BuildPhase, bp_generation := generation_next (bp_generation a)\<rparr>)"

text \<open>Dropping the allocator runs the registry and then frees the region with the layout it was allocated with.\<close>

definition arena_drop :: "'d bump \<Rightarrow> (nat \<times> 'd) list \<times> layout option" where
  "arena_drop a = (run_drops (bp_drops a), layout_from_size_align (bp_capacity a) (bp_alignment a))"

definition arena_used :: "'d bump \<Rightarrow> nat" where
  "arena_used a = bp_cursor a"

definition arena_available :: "'d bump \<Rightarrow> nat exec" where
  "arena_available a = sub_usize (bp_capacity a) (bp_cursor a)"

section \<open>Alignment\<close>

lemma is_power_of_twoD:
  assumes "is_power_of_two n" "n < usize_bound"
  shows "\<exists>k<64. n = 2 ^ k"
proof -
  obtain k where k: "filter (\<lambda>i. bit n i) [0..<64] = [k]"
    using assms(1) by (auto simp: is_power_of_two_def length_Suc_conv)
  have iff: "(i < 64 \<and> bit n i) \<longleftrightarrow> i = k" for i
    using arg_cong [OF k, of set] by (auto simp: set_eq_iff)
  have hi: "\<not> bit n i" if "64 \<le> i" for i
  proof -
    have "n < 2 ^ i" using assms(2) that power_increasing [of 64 i "2 :: nat"] by (simp add: usize_bound_def)
    then show ?thesis by (simp add: bit_iff_odd)
  qed
  have "n = 2 ^ k"
  proof (rule bit_eqI)
    fix i
    show "bit n i = bit (2 ^ k :: nat) i" using iff [of i] iff [of k] hi [of i] by (cases "i < 64") (auto simp: bit_exp_iff)
  qed
  then show ?thesis using iff [of k] by auto
qed

lemma power_of_two_is: "k < 64 \<Longrightarrow> is_power_of_two (2 ^ k)"
proof -
  assume k: "k < 64"
  have "{i. i < length [0..<64] \<and> bit (2 ^ k :: nat) ([0..<64] ! i)} = {k}" using k by (auto simp: bit_exp_iff)
  then show ?thesis by (simp add: is_power_of_two_def length_filter_conv_card)
qed

lemma unat_and_not_mask: "unat (w AND NOT (mask k) :: u64) = unat w div 2 ^ k * 2 ^ k"
proof -
  have "w AND NOT (mask k) = w - take_bit k w"
  proof -
    have "(w AND NOT (mask k)) + take_bit k w = (w AND NOT (mask k)) OR take_bit k w"
      by (rule disjunctive_add) (auto simp: bit_simps)
    also have "\<dots> = w" by (rule bit_word_eqI) (auto simp: bit_simps)
    finally show ?thesis by (metis add_diff_cancel_right')
  qed
  moreover have "unat (take_bit k w) = unat w mod 2 ^ k"
    using unsigned_take_bit_eq [of k w, where ?'a = nat] by (simp add: take_bit_eq_mod)
  ultimately have "unat (w AND NOT (mask k)) = unat w - unat w mod 2 ^ k"
    by (simp add: unat_sub word_le_nat_alt)
  then show ?thesis by (simp add: minus_mod_eq_div_mult)
qed

definition round_up :: "nat \<Rightarrow> nat \<Rightarrow> nat" where
  "round_up n align = (n + align - 1) div align * align"

lemma round_up_bounds:
  assumes "0 < align"
  shows "n \<le> round_up n align" "round_up n align < n + align" "round_up n align mod align = 0"
proof -
  have "(n + align - 1) div align * align = n + align - 1 - (n + align - 1) mod align" by (simp add: minus_mod_eq_div_mult)
  moreover have "(n + align - 1) mod align < align" using assms by simp
  ultimately show "n \<le> round_up n align" "round_up n align < n + align" using assms unfolding round_up_def by linarith+
qed (simp add: round_up_def)

lemma align_up_spec:
  assumes "is_power_of_two align" "addr + align < usize_bound"
  shows "align_up addr align = Ret (round_up addr align)"
proof -
  obtain k where k: "align = 2 ^ k" using is_power_of_twoD [OF assms(1)] assms(2) by auto
  have m: "of_nat (2 ^ k - 1) = (mask k :: u64)" by (simp add: mask_eq_exp_minus_1 of_nat_diff)
  have t: "unat (of_nat (addr + align - 1) :: u64) = addr + align - 1"
    using assms(2) by (intro unat_of_nat_u64) (simp add: usize_bound_def)
  have "1 \<le> align" using k by simp
  then have "align_up addr align = Ret (unat ((of_nat (addr + align - 1) :: u64) AND NOT (of_nat (align - 1))))"
    using assms(2) by (simp only: align_up_def add_usize_def sub_usize_def exec_bind.simps if_True) simp
  also have "\<dots> = Ret (round_up addr align)" unfolding k m unat_and_not_mask t [unfolded k] by (simp only: round_up_def)
  finally show ?thesis .
qed

section \<open>Allocations\<close>

text \<open>What the system allocator promises.\<close>

definition system_alloc :: "(layout \<Rightarrow> (nat \<times> bytes) option) \<Rightarrow> bool" where
  "system_alloc alloc \<longleftrightarrow> (\<forall>l p mem. alloc l = Some (p, mem) \<longrightarrow>
     p mod ly_align l = 0 \<and> length mem = ly_size l \<and> p + ly_size l < usize_bound)"

definition bump_wf :: "'d bump \<Rightarrow> bool" where
  "bump_wf a \<longleftrightarrow> is_power_of_two (bp_alignment a) \<and> bp_capacity a + bp_alignment a \<le> isize_max + 1 \<and>
     length (bp_mem a) = bp_capacity a \<and> bp_buffer a mod bp_alignment a = 0 \<and> bp_cursor a \<le> bp_capacity a"

lemma layout_okD:
  assumes "layout_ok l"
  shows "is_power_of_two (ly_align l)" "ly_size l + ly_align l \<le> isize_max + 1" "0 < ly_align l"
proof -
  show p: "is_power_of_two (ly_align l)" using assms by (simp add: layout_ok_def layout_from_size_align_def split: if_splits)
  obtain k where k: "ly_align l = 2 ^ k" "k < 64" using is_power_of_twoD [OF p] assms by (auto simp: layout_ok_def)
  then show "0 < ly_align l" by simp
  have s: "ly_size l \<le> isize_max + 1 - ly_align l"
    using assms by (simp add: layout_ok_def layout_from_size_align_def split: if_splits)
  have "k \<le> 63" using k(2) by simp
  then have "ly_align l \<le> 2 ^ 63" unfolding k(1) by (rule power_increasing) simp
  then show "ly_size l + ly_align l \<le> isize_max + 1" using s by (simp add: isize_max_def)
qed

lemma bump_build_wf:
  assumes "system_alloc alloc" "bump_build alloc b = Ret (Inr a)" "bb_alignment b < usize_bound"
  shows "bump_wf a" and "bp_drops a = []" and "bp_cursor a = 0"
proof -
  obtain l mem where l: "layout_from_size_align (bb_bytes b) (bb_alignment b) = Some l" "alloc l = Some (bp_buffer a, mem)"
    and a: "bp_mem a = mem" "bp_capacity a = bb_bytes b" "bp_alignment a = bb_alignment b" "bp_cursor a = 0" "bp_drops a = []"
    using assms(2) by (auto simp: bump_build_def from_builder_def buffer_layout_def ok_or_def split: if_splits option.splits)
  have l': "l = \<lparr>ly_size = bb_bytes b, ly_align = bb_alignment b\<rparr>" using l(1) by (auto simp: layout_from_size_align_def split: if_splits)
  then have ok: "layout_ok l" using l(1) assms(3) by (simp add: layout_ok_def)
  have "bp_buffer a mod ly_align l = 0" "length mem = ly_size l" using assms(1) l(2) by (simp_all add: system_alloc_def)
  then show "bump_wf a" using layout_okD [OF ok] a l' by (simp add: bump_wf_def)
qed (use assms(2) in \<open>auto simp: bump_build_def from_builder_def split: if_splits option.splits sum.splits\<close>)

lemma pow2_dvd_le:
  assumes "is_power_of_two x" "is_power_of_two y" "x \<le> y" "y < usize_bound"
  shows "x dvd y"
proof -
  obtain j k where "x = 2 ^ j" "y = 2 ^ k" using assms is_power_of_twoD [of x] is_power_of_twoD [of y] by auto
  then show ?thesis using assms(3) by (simp add: le_imp_power_dvd)
qed

text \<open>An allocation succeeds exactly when the phase allows it and the rounded value fits.\<close>

lemma alloc_raw_spec:
  assumes wf: "bump_wf a" and l: "layout_ok l"
  defines "start \<equiv> round_up (bp_cursor a) (ly_align l)"
  shows "if bp_phase a = BuildPhase \<and> ly_align l \<le> bp_alignment a \<and> start + ly_size l \<le> bp_capacity a
    then alloc_raw a l = Ret (Inr (bp_buffer a + start), a\<lparr>bp_cursor := start + ly_size l\<rparr>)
      \<and> (bp_buffer a + start) mod ly_align l = 0 \<and> bp_cursor a \<le> start
    else \<exists>e. alloc_raw a l = Ret (Inl e, a)"
proof -
  note L = layout_okD [OF l]
  have W: "is_power_of_two (bp_alignment a)" "bp_capacity a + bp_alignment a \<le> isize_max + 1" "bp_cursor a \<le> bp_capacity a"
    "bp_buffer a mod bp_alignment a = 0"
    using wf by (simp_all add: bump_wf_def)
  have b: "isize_max + 1 < usize_bound" by (simp add: isize_max_def usize_bound_def)
  have R: "bp_cursor a \<le> start" "start < bp_cursor a + ly_align l" "start mod ly_align l = 0"
    using round_up_bounds [OF L(3)] by (simp_all add: start_def)
  have ex: "arena_exhausted a r = Ret (Exhausted r (bp_capacity a - bp_cursor a))" for r
    using W(3) by (simp add: arena_exhausted_def sub_usize_def)
  show ?thesis
  proof (cases "bp_phase a = BuildPhase \<and> ly_align l \<le> bp_alignment a")
    case False
    then show ?thesis using L(2) b by (auto simp: alloc_raw_def add_usize_def ex)
  next
    case True
    have "bp_cursor a + ly_align l < usize_bound" using True W b by simp
    then have up: "align_up (bp_cursor a) (ly_align l) = Ret start" using align_up_spec [OF L(1)] by (simp add: start_def)
    have c: "start + ly_size l < usize_bound" using R(2) L(2) W True b by (simp add: isize_max_def usize_bound_def)
    have "ly_align l dvd bp_alignment a" using pow2_dvd_le [OF L(1) W(1)] True W(2) b by simp
    then have "ly_align l dvd bp_buffer a" using W(4) by (meson dvd_trans mod_0_imp_dvd)
    then have m: "(bp_buffer a + start) mod ly_align l = 0" using R(3) by (simp add: mod_eq_0_iff_dvd)
    show ?thesis using True up c R(1) m by (auto simp: alloc_raw_def sub_usize_def checked_add_def ex)
  qed
qed

section \<open>Sequences of calls\<close>

datatype 'd arena_call =
    AAlloc layout bytes
  | AAllocDrop layout bytes 'd
  | AAllocSlice layout nat
  | AFreeze
  | AReset

datatype 'd arena_reply = APtr nat | AFailed arena_error | ADone | ADropped "(nat \<times> 'd) list"

fun ptr_reply :: "(arena_error + nat) \<times> 'd bump \<Rightarrow> ('d arena_reply \<times> 'd bump) exec" where
  "ptr_reply (Inl e, a) = Ret (AFailed e, a)"
| "ptr_reply (Inr p, a) = Ret (APtr p, a)"

fun arena_exec :: "'d bump \<Rightarrow> 'd arena_call \<Rightarrow> ('d arena_reply \<times> 'd bump) exec" where
  "arena_exec a (AAlloc l v) = exec_bind (arena_alloc a l v) ptr_reply"
| "arena_exec a (AAllocDrop l v d) = exec_bind (alloc_with_drop a l v d) ptr_reply"
| "arena_exec a (AAllocSlice l n) = exec_bind (alloc_slice a l n) (\<lambda>(r, a').
     case r of Inl e \<Rightarrow> Ret (AFailed e, a') | Inr (p, _) \<Rightarrow> Ret (APtr p, a'))"
| "arena_exec a AFreeze = Ret (ADone, freeze a)"
| "arena_exec a AReset = (case arena_reset a of (ds, a') \<Rightarrow> Ret (ADropped ds, a'))"

text \<open>A call comes with the layout of its type and a value of that size.\<close>

fun arena_call_ok :: "'d arena_call \<Rightarrow> bool" where
  "arena_call_ok (AAlloc l v) \<longleftrightarrow> layout_ok l \<and> length v = ly_size l"
| "arena_call_ok (AAllocDrop l v d) \<longleftrightarrow> layout_ok l \<and> length v = ly_size l"
| "arena_call_ok (AAllocSlice l n) \<longleftrightarrow> layout_ok l"
| "arena_call_ok _ \<longleftrightarrow> True"

text \<open>
  The blocks handed out since the last reset, with the value written to each, and the destructors
  registered since then, as the calls and their replies tell them.
\<close>

record block =
  bk_ptr :: nat
  bk_size :: nat
  bk_align :: nat
  bk_value :: "bytes option"

fun track :: "block list \<times> (nat \<times> 'd) list \<Rightarrow> 'd arena_call \<times> 'd arena_reply \<Rightarrow> block list \<times> (nat \<times> 'd) list" where
  "track (bs, ds) (AAlloc l v, APtr p) = (bs @ [\<lparr>bk_ptr = p, bk_size = ly_size l, bk_align = ly_align l, bk_value = Some v\<rparr>], ds)"
| "track (bs, ds) (AAllocDrop l v d, APtr p) =
     (bs @ [\<lparr>bk_ptr = p, bk_size = ly_size l, bk_align = ly_align l, bk_value = Some v\<rparr>], ds @ [(p, d)])"
| "track (bs, ds) (AAllocSlice l n, APtr p) =
     (bs @ [\<lparr>bk_ptr = p, bk_size = ly_size l * n, bk_align = ly_align l, bk_value = None\<rparr>], ds)"
| "track (bs, ds) (AReset, r) = ([], [])"
| "track (bs, ds) _ = (bs, ds)"

text \<open>A block is aligned and inside the region, and keeps the value written to it.\<close>

definition block_ok :: "'d bump \<Rightarrow> block \<Rightarrow> bool" where
  "block_ok a b \<longleftrightarrow> bk_ptr b mod bk_align b = 0 \<and> bp_buffer a \<le> bk_ptr b \<and>
     bk_ptr b + bk_size b \<le> bp_buffer a + bp_capacity a \<and>
     (case bk_value b of None \<Rightarrow> True | Some v \<Rightarrow> take (bk_size b) (drop (bk_ptr b - bp_buffer a) (bp_mem a)) = v)"

text \<open>Every block ends before the later ones start.\<close>

definition blocks_disjoint :: "block list \<Rightarrow> bool" where
  "blocks_disjoint bs \<longleftrightarrow> sorted_wrt (\<lambda>b c. bk_ptr b + bk_size b \<le> bk_ptr c) bs"

definition arena_inv :: "'d bump \<Rightarrow> block list \<times> (nat \<times> 'd) list \<Rightarrow> bool" where
  "arena_inv a g \<longleftrightarrow> bump_wf a \<and> (\<forall>b \<in> set (fst g). block_ok a b \<and> bk_ptr b + bk_size b \<le> bp_buffer a + bp_cursor a)
     \<and> blocks_disjoint (fst g) \<and> bp_drops a = snd g"

lemma run_drops_rev: "run_drops ds = rev ds"
proof (induction ds rule: rev_induct)
  case Nil
  show ?case by (simp add: run_drops.simps)
next
  case (snoc x xs)
  then show ?case by (simp add: run_drops.simps [of "xs @ [x]"])
qed

text \<open>A raw allocation extends the blocks by one, which holds nothing yet.\<close>

lemma alloc_raw_inv:
  assumes inv: "arena_inv a (bs, ds)" and l: "layout_ok l"
  shows "\<exists>r a'. alloc_raw a l = Ret (r, a') \<and> (case r of
      Inl e \<Rightarrow> a' = a
    | Inr p \<Rightarrow> arena_inv a' (bs @ [\<lparr>bk_ptr = p, bk_size = ly_size l, bk_align = ly_align l, bk_value = None\<rparr>], ds)
        \<and> bp_buffer a' = bp_buffer a \<and> bp_mem a' = bp_mem a \<and> bp_capacity a' = bp_capacity a)"
proof -
  let ?s = "round_up (bp_cursor a) (ly_align l)"
  have wf: "bump_wf a" using inv by (simp add: arena_inv_def)
  note S = alloc_raw_spec [OF wf l]
  show ?thesis
  proof (cases "bp_phase a = BuildPhase \<and> ly_align l \<le> bp_alignment a \<and> ?s + ly_size l \<le> bp_capacity a")
    case True
    then have al: "alloc_raw a l = Ret (Inr (bp_buffer a + ?s), a\<lparr>bp_cursor := ?s + ly_size l\<rparr>)"
      and m: "(bp_buffer a + ?s) mod ly_align l = 0" and c: "bp_cursor a \<le> ?s" using S by simp_all
    have "arena_inv (a\<lparr>bp_cursor := ?s + ly_size l\<rparr>)
        (bs @ [\<lparr>bk_ptr = bp_buffer a + ?s, bk_size = ly_size l, bk_align = ly_align l, bk_value = None\<rparr>], ds)"
      using inv True c m by (fastforce simp: arena_inv_def bump_wf_def block_ok_def blocks_disjoint_def sorted_wrt_append split: option.splits)
    then show ?thesis using al by simp
  next
    case False
    then have "\<exists>e. alloc_raw a l = Ret (Inl e, a)" using S by (simp only: if_False)
    then show ?thesis by auto
  qed
qed

text \<open>Writing the value of the last block keeps the others.\<close>

lemma arena_write_inv:
  assumes inv: "arena_inv a (bs @ [b], ds)" and v: "length v = bk_size b" "bk_align b = ly_align l" "bk_value b = None"
  shows "\<exists>a'. arena_write a l (bk_ptr b) v = Ret a' \<and> arena_inv a' (bs @ [b\<lparr>bk_value := Some v\<rparr>], ds)
    \<and> bp_drops a' = bp_drops a"
proof -
  let ?o = "bk_ptr b - bp_buffer a"
  have bo: "block_ok a b" and wf: "bump_wf a" and ls: "length (bp_mem a) = bp_capacity a"
    using inv by (auto simp: arena_inv_def bump_wf_def)
  have in_mem: "?o + length v \<le> length (bp_mem a)" using bo v(1) ls by (auto simp: block_ok_def)
  have w: "arena_write a l (bk_ptr b) v = Ret (a\<lparr>bp_mem := overwrite (bp_mem a) ?o v\<rparr>)"
    using bo v(1,2) ls by (simp add: arena_write_def block_ok_def)
  have keep: "block_ok (a\<lparr>bp_mem := overwrite (bp_mem a) ?o v\<rparr>) c" if "c \<in> set bs" for c
  proof -
    have c: "block_ok a c" "bk_ptr c + bk_size c \<le> bk_ptr b"
      using inv that by (auto simp: arena_inv_def blocks_disjoint_def sorted_wrt_append)
    then have "bk_ptr c - bp_buffer a + bk_size c \<le> ?o" using bo by (auto simp: block_ok_def)
    then show ?thesis using c(1) read_overwrite_other [OF in_mem, of "bk_ptr c - bp_buffer a" "bk_size c"]
      by (auto simp: block_ok_def split: option.splits)
  qed
  have "block_ok (a\<lparr>bp_mem := overwrite (bp_mem a) ?o v\<rparr>) (b\<lparr>bk_value := Some v\<rparr>)"
    using bo v(1) read_overwrite_same [OF in_mem, of "bk_size b"] by (simp add: block_ok_def)
  then have "arena_inv (a\<lparr>bp_mem := overwrite (bp_mem a) ?o v\<rparr>) (bs @ [b\<lparr>bk_value := Some v\<rparr>], ds)"
    using inv keep in_mem wf by (auto simp: arena_inv_def bump_wf_def blocks_disjoint_def sorted_wrt_append)
  then show ?thesis using w by simp
qed

lemma arena_alloc_inv:
  assumes inv: "arena_inv a (bs, ds)" and l: "layout_ok l" "length v = ly_size l"
  shows "\<exists>r a'. arena_alloc a l v = Ret (r, a') \<and> (case r of
      Inl e \<Rightarrow> a' = a
    | Inr p \<Rightarrow> arena_inv a' (bs @ [\<lparr>bk_ptr = p, bk_size = ly_size l, bk_align = ly_align l, bk_value = Some v\<rparr>], ds))"
proof -
  obtain r a1 where r: "alloc_raw a l = Ret (r, a1)"
    "case r of Inl e \<Rightarrow> a1 = a
     | Inr p \<Rightarrow> arena_inv a1 (bs @ [\<lparr>bk_ptr = p, bk_size = ly_size l, bk_align = ly_align l, bk_value = None\<rparr>], ds)"
    using alloc_raw_inv [OF inv l(1)] by (fastforce split: sum.splits)
  show ?thesis
  proof (cases r)
    case (Inl e)
    then show ?thesis using r by (simp add: arena_alloc_def)
  next
    case (Inr p)
    let ?b = "\<lparr>bk_ptr = p, bk_size = ly_size l, bk_align = ly_align l, bk_value = None\<rparr>"
    have "arena_inv a1 (bs @ [?b], ds)" using r(2) Inr by simp
    then obtain a2 where "arena_write a1 l p v = Ret a2"
      "arena_inv a2 (bs @ [\<lparr>bk_ptr = p, bk_size = ly_size l, bk_align = ly_align l, bk_value = Some v\<rparr>], ds)"
      using arena_write_inv [of a1 bs ?b ds v l] l(2) by auto
    then show ?thesis using r(1) Inr by (simp add: arena_alloc_def)
  qed
qed

lemma alloc_with_drop_alt:
  "alloc_with_drop a l v d =
     (if bp_drop_capacity a \<le> length (bp_drops a) then Ret (Inl (DropRegistryFull (bp_drop_capacity a)), a)
      else exec_bind (arena_alloc a l v) (\<lambda>(r, a').
        Ret (r, case r of Inl e \<Rightarrow> a' | Inr p \<Rightarrow> a'\<lparr>bp_drops := bp_drops a' @ [(p, d)]\<rparr>)))"
proof (cases "alloc_raw a l")
  case (Ret x)
  then show ?thesis by (cases x; cases "fst x"; cases "arena_write (snd x) l (projr (fst x)) v")
      (auto simp: alloc_with_drop_def arena_alloc_def)
qed (simp_all add: alloc_with_drop_def arena_alloc_def)

lemma alloc_slice_inv:
  assumes inv: "arena_inv a (bs, ds)" and l: "layout_ok l"
  shows "\<exists>r a'. alloc_slice a l n = Ret (r, a') \<and> (case r of
      Inl e \<Rightarrow> a' = a
    | Inr (p, m) \<Rightarrow> arena_inv a' (bs @ [\<lparr>bk_ptr = p, bk_size = ly_size l * n, bk_align = ly_align l, bk_value = None\<rparr>], ds))"
proof -
  have c: "bp_cursor a \<le> bp_capacity a" using inv by (simp add: arena_inv_def bump_wf_def)
  then have ex: "arena_exhausted a r = Ret (Exhausted r (bp_capacity a - bp_cursor a))" for r
    by (simp add: arena_exhausted_def sub_usize_def)
  show ?thesis
  proof (cases "ly_size l * n < usize_bound \<and> layout_from_size_align (ly_size l * n) (ly_align l) \<noteq> None")
    case False
    then show ?thesis by (auto simp: alloc_slice_def checked_mul_def ex)
  next
    case True
    let ?l = "\<lparr>ly_size = ly_size l * n, ly_align = ly_align l\<rparr>"
    have lf: "layout_from_size_align (ly_size l * n) (ly_align l) = Some ?l"
      using True by (auto simp: layout_from_size_align_def split: if_splits)
    then have "layout_ok ?l" using l by (simp add: layout_ok_def)
    from alloc_raw_inv [OF inv this] obtain r a' where "alloc_raw a ?l = Ret (r, a')" "case r of
      Inl e \<Rightarrow> a' = a
    | Inr p \<Rightarrow> arena_inv a' (bs @ [\<lparr>bk_ptr = p, bk_size = ly_size ?l, bk_align = ly_align ?l, bk_value = None\<rparr>], ds)"
      by (fastforce split: sum.splits)
    then show ?thesis using True lf by (cases r) (simp_all add: alloc_slice_def checked_mul_def)
  qed
qed

lemma block_ok_update [simp]:
  "block_ok (a\<lparr>bp_drops := x\<rparr>) b = block_ok a b" "block_ok (a\<lparr>bp_phase := y\<rparr>) b = block_ok a b"
  by (simp_all add: block_ok_def cong: option.case_cong)

lemma arena_inv_drop:
  "arena_inv a (bs, ds) \<Longrightarrow> arena_inv (a\<lparr>bp_drops := bp_drops a @ [x]\<rparr>) (bs, ds @ [x])"
  by (simp add: arena_inv_def bump_wf_def)

text \<open>The reply of a reset is the registry in reverse order.\<close>

fun reply_lifo :: "block list \<times> (nat \<times> 'd) list \<Rightarrow> 'd arena_call \<times> 'd arena_reply \<Rightarrow> bool" where
  "reply_lifo g (AReset, r) \<longleftrightarrow> r = ADropped (rev (snd g))"
| "reply_lifo g _ \<longleftrightarrow> True"

lemma arena_exec_inv:
  assumes inv: "arena_inv a g" and ok: "arena_call_ok c"
  shows "\<exists>r a'. arena_exec a c = Ret (r, a') \<and> arena_inv a' (track g (c, r)) \<and> reply_lifo g (c, r)"
proof -
  obtain bs ds where g: "g = (bs, ds)" by (cases g)
  show ?thesis
  proof (cases c)
    case (AAlloc l v)
    then obtain r a' where "arena_alloc a l v = Ret (r, a')" "case r of
      Inl e \<Rightarrow> a' = a
    | Inr p \<Rightarrow> arena_inv a' (bs @ [\<lparr>bk_ptr = p, bk_size = ly_size l, bk_align = ly_align l, bk_value = Some v\<rparr>], ds)"
      using arena_alloc_inv [of a bs ds l v] inv ok g by auto
    then show ?thesis using AAlloc inv g by (cases r) simp_all
  next
    case (AAllocDrop l v d)
    then obtain r a' where r: "arena_alloc a l v = Ret (r, a')" "case r of
      Inl e \<Rightarrow> a' = a
    | Inr p \<Rightarrow> arena_inv a' (bs @ [\<lparr>bk_ptr = p, bk_size = ly_size l, bk_align = ly_align l, bk_value = Some v\<rparr>], ds)"
      using arena_alloc_inv [of a bs ds l v] inv ok g by auto
    then show ?thesis using AAllocDrop inv g by (cases r) (auto simp: alloc_with_drop_alt intro: arena_inv_drop)
  next
    case (AAllocSlice l n)
    then obtain r a' where "alloc_slice a l n = Ret (r, a')" "case r of
      Inl e \<Rightarrow> a' = a
    | Inr (p, m) \<Rightarrow> arena_inv a' (bs @ [\<lparr>bk_ptr = p, bk_size = ly_size l * n, bk_align = ly_align l, bk_value = None\<rparr>], ds)"
      using alloc_slice_inv [of a bs ds l n] inv ok g by auto
    then show ?thesis using AAllocSlice inv g by (cases r) (auto split: prod.splits)
  next
    case AFreeze
    then show ?thesis using inv g by (simp add: freeze_def arena_inv_def bump_wf_def)
  next
    case AReset
    then show ?thesis using inv g
      by (simp add: arena_reset_def run_drops_rev arena_inv_def bump_wf_def blocks_disjoint_def)
  qed
qed

fun replies_lifo :: "block list \<times> (nat \<times> 'd) list \<Rightarrow> ('d arena_call \<times> 'd arena_reply) list \<Rightarrow> bool" where
  "replies_lifo g [] \<longleftrightarrow> True"
| "replies_lifo g (x # xs) \<longleftrightarrow> reply_lifo g x \<and> replies_lifo (track g x) xs"

lemma arena_run_inv:
  assumes "arena_inv a g" "list_all arena_call_ok cs"
  shows "\<exists>rs a'. run_exec arena_exec a cs = Ret (rs, a') \<and> length rs = length cs
    \<and> arena_inv a' (foldl track g (zip cs rs)) \<and> replies_lifo g (zip cs rs)"
  using assms
proof (induction cs arbitrary: a g)
  case (Cons c cs)
  obtain r a1 where 1: "arena_exec a c = Ret (r, a1)" "arena_inv a1 (track g (c, r))" "reply_lifo g (c, r)"
    using arena_exec_inv [OF Cons.prems(1), of c] Cons.prems(2) by auto
  obtain rs a' where "run_exec arena_exec a1 cs = Ret (rs, a')" "length rs = length cs"
    "arena_inv a' (foldl track (track g (c, r)) (zip cs rs))" "replies_lifo (track g (c, r)) (zip cs rs)"
    using Cons.IH [OF 1(2)] Cons.prems(2) by auto
  then show ?case using 1 by auto
qed simp

text \<open>
  C19. The arena is safe. From a built arena on, every sequence of calls returns: no arithmetic
  overflows, and no write is misaligned or leaves the region. After it, the blocks handed out since
  the last reset are aligned for their types, lie inside the region, overlap nowhere and still hold
  the values written to them; each reset runs the destructors registered since the one before, once
  each and in reverse order, and dropping the arena does so for the rest.
\<close>

theorem arena_safe:
  assumes "system_alloc alloc" "bump_build alloc b = Ret (Inr a)" "bb_alignment b < usize_bound" "list_all arena_call_ok cs"
  shows "\<exists>rs a' bs ds. run_exec arena_exec a cs = Ret (rs, a') \<and> foldl track ([], []) (zip cs rs) = (bs, ds)
    \<and> (\<forall>k < length bs. block_ok a' (bs ! k)) \<and> blocks_disjoint bs
    \<and> replies_lifo ([], []) (zip cs rs) \<and> fst (arena_drop a') = rev ds"
proof -
  have "arena_inv a ([], [])" using bump_build_wf [OF assms(1-3)] by (simp add: arena_inv_def blocks_disjoint_def)
  from arena_run_inv [OF this assms(4)] obtain rs a' where r: "run_exec arena_exec a cs = Ret (rs, a')"
    "arena_inv a' (foldl track ([], []) (zip cs rs))" "replies_lifo ([], []) (zip cs rs)"
    by blast
  obtain bs ds where g: "foldl track ([], []) (zip cs rs) = (bs, ds)" by (cases "foldl track ([], []) (zip cs rs)")
  show ?thesis using r g by (auto simp: arena_inv_def arena_drop_def run_drops_rev)
qed

definition small_alloc :: "layout \<Rightarrow> (nat \<times> bytes) option" where
  "small_alloc l = (if ly_size l \<le> 64 \<and> 65536 mod ly_align l = 0 then Some (65536, replicate (ly_size l) 0) else None)"

theorem arena_safe_witness:
  "\<exists>a rs a' bs ds. bump_build small_alloc \<lparr>bb_bytes = 64, bb_drop_slots = 2, bb_alignment = 16\<rparr> = Ret (Inr a)
    \<and> run_exec arena_exec a [AAlloc \<lparr>ly_size = 1, ly_align = 1\<rparr> [7], AAllocDrop \<lparr>ly_size = 8, ly_align = 8\<rparr> [1, 2, 3, 4, 5, 6, 7, 8] True,
        AAllocSlice \<lparr>ly_size = 4, ly_align = 4\<rparr> 100, AAllocSlice \<lparr>ly_size = 4, ly_align = 4\<rparr> 2] = Ret (rs, a')
    \<and> foldl track ([], []) (zip [AAlloc \<lparr>ly_size = 1, ly_align = 1\<rparr> [7], AAllocDrop \<lparr>ly_size = 8, ly_align = 8\<rparr> [1, 2, 3, 4, 5, 6, 7, 8] True,
        AAllocSlice \<lparr>ly_size = 4, ly_align = 4\<rparr> 100, AAllocSlice \<lparr>ly_size = 4, ly_align = 4\<rparr> 2] rs) = (bs, ds)
    \<and> blocks_disjoint bs \<and> fst (arena_drop a') = rev ds"
proof -
  let ?b = "\<lparr>bb_bytes = 64, bb_drop_slots = 2, bb_alignment = 16\<rparr>"
  let ?cs = "[AAlloc \<lparr>ly_size = 1, ly_align = 1\<rparr> [7], AAllocDrop \<lparr>ly_size = 8, ly_align = 8\<rparr> [1, 2, 3, 4, 5, 6, 7, 8] True,
        AAllocSlice \<lparr>ly_size = 4, ly_align = 4\<rparr> 100, AAllocSlice \<lparr>ly_size = 4, ly_align = 4\<rparr> 2]"
  have p2: "is_power_of_two 1" "is_power_of_two 4" "is_power_of_two 8" "is_power_of_two 16"
    using power_of_two_is [of 0] power_of_two_is [of 2] power_of_two_is [of 3] power_of_two_is [of 4] by simp_all
  have sys: "system_alloc small_alloc" by (auto simp: system_alloc_def small_alloc_def usize_bound_def split: if_splits)
  obtain a :: "bool bump" where a: "bump_build small_alloc ?b = Ret (Inr a)"
    using p2 by (simp add: bump_build_def from_builder_def buffer_layout_def layout_from_size_align_def
        reserve_drops_def small_alloc_def isize_max_def)
  have "list_all arena_call_ok ?cs"
    using p2 by (simp add: layout_ok_def layout_from_size_align_def isize_max_def usize_bound_def)
  then show ?thesis using a arena_safe [OF sys a, of ?cs] by (simp only: bump_builder.simps usize_bound_def) (auto simp del: run_exec.simps)
qed

end
