(* ===== verification/Buf_Ring.thy ===== *)
theory Buf_Ring
  imports Inflight_Slab Bump_Arena Resource_Account
begin

text \<open>
  The provided-buffer pool of a worker (\<open>buffer/ring/abi.rs\<close>, \<open>memory.rs\<close>, \<open>pool.rs\<close>): a ring of
  16-byte entries shared with the kernel, whose tail counter lives in the reserved field of entry
  0, and the storage its entries point into. The machine is little-endian.
\<close>

section \<open>The ring\<close>

definition TAIL_OFFSET :: nat where "TAIL_OFFSET = 14"

record buf_ring =
  br_mem :: bytes
  br_entries :: u16
  br_mask :: u16

definition buf_ring_from_raw :: "bytes \<Rightarrow> u16 \<Rightarrow> buf_ring exec" where
  "buf_ring_from_raw ring entries =
     (if 0 < entries \<and> is_power_of_two (unat entries)
      then Ret \<lparr>br_mem = ring, br_entries = entries, br_mask = entries - 1\<rparr> else Panic)"

definition br_tail :: "buf_ring \<Rightarrow> u16" where
  "br_tail r = le_word (take 2 (drop TAIL_OFFSET (br_mem r)))"

text \<open>The three field writes of an entry and the store of the tail; an entry outside the region is
  undefined behaviour.\<close>

definition br_push :: "buf_ring \<Rightarrow> u64 \<Rightarrow> u32 \<Rightarrow> u16 \<Rightarrow> buf_ring exec" where
  "br_push r addr len bid =
     (let tail = br_tail r; idx = unat (tail AND br_mask r) in
      if idx * 16 + 16 \<le> length (br_mem r) then
        let m1 = overwrite (br_mem r) (idx * 16) (le_bytes 8 addr);
            m2 = overwrite m1 (idx * 16 + 8) (le_bytes 4 len);
            m3 = overwrite m2 (idx * 16 + 12) (le_bytes 2 bid) in
        Ret (r\<lparr>br_mem := overwrite m3 TAIL_OFFSET (le_bytes 2 (tail + 1))\<rparr>)
      else Undefined)"

section \<open>The pool\<close>

record buf_ring_pool =
  pl_ring :: buf_ring
  pl_base :: u64
  pl_storage :: bytes
  pl_buf_size :: u32
  pl_entries :: u16
  pl_group :: u16

definition check_params :: "u16 \<Rightarrow> u32 \<Rightarrow> io_error + unit" where
  "check_params entries buf_size =
     (if buf_size = 0 then Inl InvalidInput
      else if entries = 0 \<or> \<not> is_power_of_two (unat entries) then Inl InvalidInput
      else if push_bit 15 1 < entries then Inl InvalidInput
      else Inr ())"

text \<open>\<open>base + bid * buf_size\<close> on \<open>u64\<close>, which panics on overflow.\<close>

definition buf_addr :: "u64 \<Rightarrow> u16 \<Rightarrow> u32 \<Rightarrow> u64 exec" where
  "buf_addr base bid buf_size =
     (if unat base + unat bid * unat buf_size < 2 ^ 64 then Ret (base + ucast bid * ucast buf_size) else Panic)"

text \<open>\<open>for bid in 0..entries\<close> from \<open>bid\<close> on.\<close>

function push_from :: "buf_ring \<Rightarrow> u64 \<Rightarrow> u32 \<Rightarrow> u16 \<Rightarrow> u16 \<Rightarrow> buf_ring exec" where
  "push_from r base buf_size entries bid =
     (if bid < entries
      then exec_bind (buf_addr base bid buf_size) (\<lambda>addr.
           exec_bind (br_push r addr buf_size bid) (\<lambda>r'. push_from r' base buf_size entries (bid + 1)))
      else Ret r)"
  by pat_completeness auto
termination
proof (relation "measure (\<lambda>(r, base, sz, entries, bid). unat entries - unat bid)")
  fix r :: buf_ring and base :: u64 and sz :: u32 and entries bid :: u16 and x r'
  assume "bid < entries"
  then have "unat (bid + 1) = unat bid + 1" "unat bid < unat entries"
    by (simp_all add: word_less_nat_alt unat_word_ariths) (use unat_u16_less [of entries] in \<open>simp add: word_less_nat_alt\<close>)
  then show "((r', base, sz, entries, bid + 1), r, base, sz, entries, bid) \<in> measure (\<lambda>(r, base, sz, entries, bid). unat entries - unat bid)"
    by simp
qed simp

declare push_from.simps [simp del]

text \<open>\<open>base\<close> is the address at which the storage was mapped.\<close>

definition pool_new :: "(nat \<Rightarrow> mmap_outcome) \<Rightarrow> u64 \<Rightarrow> u16 \<Rightarrow> u32 \<Rightarrow> u16 \<Rightarrow> (io_error + buf_ring_pool) exec" where
  "pool_new mmap base entries buf_size group_id =
     (case check_params entries buf_size of
        Inl e \<Rightarrow> Ret (Inl e)
      | Inr _ \<Rightarrow> (case mmap_region_new mmap (unat entries * 16) of
            Inl e \<Rightarrow> Ret (Inl e)
          | Inr ring_region \<Rightarrow> exec_bind (buf_ring_from_raw ring_region entries) (\<lambda>ring.
              case mmap_region_new mmap (unat entries * unat buf_size) of
                Inl e \<Rightarrow> Ret (Inl e)
              | Inr storage \<Rightarrow> exec_bind (push_from ring base buf_size entries 0) (\<lambda>ring'.
                  Ret (Inr \<lparr>pl_ring = ring', pl_base = base, pl_storage = storage, pl_buf_size = buf_size,
                       pl_entries = entries, pl_group = group_id\<rparr>)))))"

definition check_bid :: "u16 \<Rightarrow> u16 \<Rightarrow> bool" where
  "check_bid bid entries \<longleftrightarrow> bid < entries"

definition check_len :: "u32 \<Rightarrow> u32 \<Rightarrow> bool" where
  "check_len len buf_size \<longleftrightarrow> len \<le> buf_size"

definition pool_get :: "buf_ring_pool \<Rightarrow> u16 \<Rightarrow> u32 \<Rightarrow> bytes exec" where
  "pool_get p bid len =
     (if \<not> check_bid bid (pl_entries p) then Panic
      else if \<not> check_len len (pl_buf_size p) then Panic
      else let offset = unat bid * unat (pl_buf_size p) in
           case get_range (pl_storage p) offset (offset + unat len) of None \<Rightarrow> Panic | Some bs \<Rightarrow> Ret bs)"

definition pool_recycle :: "buf_ring_pool \<Rightarrow> u16 \<Rightarrow> buf_ring_pool exec" where
  "pool_recycle p bid =
     (if \<not> check_bid bid (pl_entries p) then Panic
      else exec_bind (buf_addr (pl_base p) bid (pl_buf_size p)) (\<lambda>addr.
           exec_bind (br_push (pl_ring p) addr (pl_buf_size p) bid) (\<lambda>r. Ret (p\<lparr>pl_ring := r\<rparr>))))"

section \<open>Fields of the entries\<close>

definition ring_field :: "nat \<Rightarrow> nat \<Rightarrow> bytes \<Rightarrow> nat \<Rightarrow> 'a::len word" where
  "ring_field n f mem i = le_word (take n (drop f (chunk 16 mem i)))"

lemma ring_field_write:
  assumes "length mem = m * 16" "i < m" "j < m" "g + length bs \<le> 16"
  shows "j \<noteq> i \<or> f + n \<le> g \<or> g + length bs \<le> f \<Longrightarrow> ring_field n f (overwrite mem (i * 16 + g) bs) j = ring_field n f mem j"
    and "ring_field (length bs) g (overwrite mem (i * 16 + g) bs) i = le_word bs"
proof -
  have c: "length (chunk 16 mem i) = 16" by (rule length_chunk [OF assms(2,1)])
  show "ring_field n f (overwrite mem (i * 16 + g) bs) j = ring_field n f mem j" if "j \<noteq> i \<or> f + n \<le> g \<or> g + length bs \<le> f"
    using that chunk_overwrite_in [OF assms(1,2,4,3)] read_overwrite_other [of g bs "chunk 16 mem i" f n] assms(4) c
    by (auto simp: ring_field_def)
  show "ring_field (length bs) g (overwrite mem (i * 16 + g) bs) i = le_word bs"
    using chunk_overwrite_in [OF assms(1,2,4,2)] read_overwrite_same [of g bs "chunk 16 mem i"] assms(4) c
    by (simp add: ring_field_def)
qed

text \<open>An entry as the kernel reads it.\<close>

definition ring_entry :: "bytes \<Rightarrow> nat \<Rightarrow> u64 \<times> u32 \<times> u16" where
  "ring_entry mem i = (ring_field 8 0 mem i, ring_field 4 8 mem i, ring_field 2 12 mem i)"

definition br_wf :: "buf_ring \<Rightarrow> bool" where
  "br_wf r \<longleftrightarrow> (\<exists>k \<le> 15. br_entries r = 2 ^ k) \<and> br_mask r = br_entries r - 1 \<and> length (br_mem r) = unat (br_entries r) * 16"

lemma br_tail_field: "br_tail r = ring_field 2 14 (br_mem r) 0"
  by (simp add: br_tail_def ring_field_def chunk_def TAIL_OFFSET_def drop_take)

lemma br_wf_mod:
  assumes "br_wf r"
  shows "unat (t AND br_mask r) = unat t mod unat (br_entries r)" and "0 < unat (br_entries r)" "unat (br_entries r) dvd 65536"
proof -
  obtain k where k: "k \<le> 15" "br_entries r = 2 ^ k" "br_mask r = 2 ^ k - 1" using assms by (auto simp: br_wf_def)
  have "(2 :: nat) ^ k \<le> 2 ^ 15" using k(1) by (intro power_increasing) simp_all
  then have u: "unat (2 ^ k :: u16) = 2 ^ k" using unat_of_nat [of "2 ^ k", where ?'a = 16] by (simp add: take_bit_nat_eq_self)
  have "br_mask r = mask k" using k(3) by (simp add: mask_eq_exp_minus_1)
  then show "unat (t AND br_mask r) = unat t mod unat (br_entries r)" using k(2) u by (simp add: unat_and_mask_eq)
  show "0 < unat (br_entries r)" using k(2) u by simp
  have "(2 :: nat) ^ k dvd 2 ^ 16" using k(1) by (intro le_imp_power_dvd) simp
  then show "unat (br_entries r) dvd 65536" using k(2) u by simp
qed

lemma ring_field_other:
  assumes "length mem = m * 16" "i < m" "j < m" "g + k \<le> 16" "j \<noteq> i \<or> f + n \<le> g \<or> g + k \<le> f"
  shows "ring_field n f (overwrite mem (i * 16 + g) (le_bytes k v)) j = ring_field n f mem j"
  by (rule ring_field_write(1) [OF assms(1-3)]) (use assms(4,5) in simp_all)

lemma ring_field_same:
  assumes "length mem = m * 16" "i < m" "g + k \<le> 16" "8 * k = LENGTH('a)"
  shows "ring_field k g (overwrite mem (i * 16 + g) (le_bytes k w)) i = (w :: 'a::len word)"
proof -
  have "ring_field (length (le_bytes k w)) g (overwrite mem (i * 16 + g) (le_bytes k w)) i = (le_word (le_bytes k w) :: 'a word)"
    by (rule ring_field_write(2) [OF assms(1,2,2)]) (use assms(3) in simp)
  then show ?thesis using assms(4) by simp
qed

lemma ring_field_put:
  assumes "length mem = m * 16" "i < m" "j < m" "g + k \<le> 16" "8 * k = LENGTH('a)"
  shows "ring_field k g (overwrite mem (i * 16 + g) (le_bytes k w)) j = (if j = i then w else ring_field k g mem j :: 'a::len word)"
  using ring_field_same [OF assms(1,2,4,5), of w] ring_field_other [OF assms(1-4), of g k w] by auto

lemma br_push_spec:
  assumes wf: "br_wf r"
  defines "m \<equiv> unat (br_entries r)"
  shows "\<exists>r'. br_push r addr len bid = Ret r' \<and> br_wf r' \<and> br_tail r' = br_tail r + 1 \<and> br_entries r' = br_entries r \<and>
    (\<forall>i<m. ring_entry (br_mem r') i = (if i = unat (br_tail r) mod m then (addr, len, bid) else ring_entry (br_mem r) i))"
proof -
  let ?i = "unat (br_tail r) mod m"
  have m: "length (br_mem r) = m * 16" "0 < m" "?i < m" using wf br_wf_mod [OF wf] by (simp_all add: br_wf_def m_def)
  define m1 where "m1 = overwrite (br_mem r) (?i * 16 + 0) (le_bytes 8 addr)"
  define m2 where "m2 = overwrite m1 (?i * 16 + 8) (le_bytes 4 len)"
  define m3 where "m3 = overwrite m2 (?i * 16 + 12) (le_bytes 2 bid)"
  define m4 where "m4 = overwrite m3 (0 * 16 + 14) (le_bytes 2 (br_tail r + 1))"
  have b: "?i * 16 + 16 \<le> m * 16" using stride_le [OF m(3), of 16] .
  have l1: "length m1 = m * 16" unfolding m1_def using m(1) b by simp
  have l2: "length m2 = m * 16" unfolding m2_def using l1 b by simp
  have l3: "length m3 = m * 16" unfolding m3_def using l2 b by simp
  have l4: "length m4 = m * 16" unfolding m4_def using l3 m(2) by simp
  have p: "br_push r addr len bid = Ret (r\<lparr>br_mem := m4\<rparr>)"
    using b m(1) br_wf_mod(1) [OF wf] by (simp add: br_push_def m1_def m2_def m3_def m4_def TAIL_OFFSET_def Let_def m_def)
  have t4: "ring_field 2 14 m4 0 = br_tail r + 1" unfolding m4_def by (rule ring_field_same [OF l3 m(2)]) simp_all
  have e: "ring_entry m4 j = (if j = ?i then (addr, len, bid) else ring_entry (br_mem r) j)" if j: "j < m" for j
  proof -
    have 4: "ring_field 8 0 m4 j = (ring_field 8 0 m3 j :: u64)" "ring_field 4 8 m4 j = (ring_field 4 8 m3 j :: u32)"
        "ring_field 2 12 m4 j = (ring_field 2 12 m3 j :: u16)"
      unfolding m4_def by (rule ring_field_other [OF l3 m(2) j]; simp)+
    have 3: "ring_field 8 0 m3 j = (ring_field 8 0 m2 j :: u64)" "ring_field 4 8 m3 j = (ring_field 4 8 m2 j :: u32)"
        "ring_field 2 12 m3 j = (if j = ?i then bid else ring_field 2 12 m2 j)"
      unfolding m3_def by (rule ring_field_other [OF l2 m(3) j] ring_field_put [OF l2 m(3) j]; simp)+
    have 2: "ring_field 8 0 m2 j = (ring_field 8 0 m1 j :: u64)" "ring_field 4 8 m2 j = (if j = ?i then len else ring_field 4 8 m1 j)"
        "ring_field 2 12 m2 j = (ring_field 2 12 m1 j :: u16)"
      unfolding m2_def by (rule ring_field_other [OF l1 m(3) j] ring_field_put [OF l1 m(3) j]; simp)+
    have 1: "ring_field 8 0 m1 j = (if j = ?i then addr else ring_field 8 0 (br_mem r) j)"
        "ring_field 4 8 m1 j = (ring_field 4 8 (br_mem r) j :: u32)" "ring_field 2 12 m1 j = (ring_field 2 12 (br_mem r) j :: u16)"
      unfolding m1_def by (rule ring_field_other [OF m(1,3) j] ring_field_put [OF m(1,3) j]; simp)+
    show ?thesis unfolding ring_entry_def 4 3 2 1 by simp
  qed
  have "br_wf (r\<lparr>br_mem := m4\<rparr>)" using wf l4 by (simp add: br_wf_def m_def)
  then show ?thesis using p t4 e by (simp add: br_tail_field)
qed

section \<open>What the kernel may select\<close>

text \<open>
  The ring with the kernel's side: its head counter, and the buffers it has selected that were not
  recycled. The kernel takes the entry at its head when the head differs from the tail.
\<close>

record ring_world =
  rg_pool :: buf_ring_pool
  rg_head :: u16
  rg_held :: "(u64 \<times> u32 \<times> u16) list"

datatype ring_event = RSelect | RRecycle "u64 \<times> u32 \<times> u16"

fun ring_event_exec :: "ring_world \<Rightarrow> ring_event \<Rightarrow> ring_world exec option" where
  "ring_event_exec w RSelect =
     (let r = pl_ring (rg_pool w) in
      if rg_head w = br_tail r then Some (Ret w)
      else Some (Ret (w\<lparr>rg_head := rg_head w + 1,
        rg_held := rg_held w @ [ring_entry (br_mem r) (unat (rg_head w AND br_mask r))]\<rparr>)))"
| "ring_event_exec w (RRecycle e) =
     Some (exec_bind (pool_recycle (rg_pool w) (snd (snd e))) (\<lambda>p. Ret (w\<lparr>rg_pool := p, rg_held := remove1 e (rg_held w)\<rparr>)))"

text \<open>Only a buffer the kernel selected is recycled.\<close>

fun ring_admissible :: "ring_world \<Rightarrow> ring_event \<Rightarrow> bool" where
  "ring_admissible w RSelect \<longleftrightarrow> True"
| "ring_admissible w (RRecycle e) \<longleftrightarrow> e \<in> set (rg_held w)"

definition pool_entry :: "buf_ring_pool \<Rightarrow> u16 \<Rightarrow> u64 \<times> u32 \<times> u16" where
  "pool_entry p bid = (pl_base p + ucast bid * ucast (pl_buf_size p), pl_buf_size p, bid)"

definition available :: "buf_ring_pool \<Rightarrow> u16 \<Rightarrow> (u64 \<times> u32 \<times> u16) list" where
  "available p head = ring_queue (unat (pl_entries p)) (ring_entry (br_mem (pl_ring p))) (unat head mod unat (pl_entries p))
     (unat (br_tail (pl_ring p) - head))"

definition pool_wf :: "buf_ring_pool \<Rightarrow> bool" where
  "pool_wf p \<longleftrightarrow> br_wf (pl_ring p) \<and> br_entries (pl_ring p) = pl_entries p \<and> pl_buf_size p \<noteq> 0 \<and>
     unat (pl_base p) + unat (pl_entries p) * unat (pl_buf_size p) \<le> 2 ^ 64 \<and>
     length (pl_storage p) = unat (pl_entries p) * unat (pl_buf_size p)"

lemma buf_addr_ok:
  assumes "pool_wf p" "bid < pl_entries p"
  shows "buf_addr (pl_base p) bid (pl_buf_size p) = Ret (pl_base p + ucast bid * ucast (pl_buf_size p))"
proof -
  have "unat bid * unat (pl_buf_size p) + unat (pl_buf_size p) \<le> unat (pl_entries p) * unat (pl_buf_size p)"
    by (rule stride_le) (use assms(2) in \<open>simp add: word_less_nat_alt\<close>)
  moreover have "0 < unat (pl_buf_size p)" using assms(1) by (simp add: pool_wf_def unat_gt_0)
  ultimately show ?thesis using assms(1) by (simp add: buf_addr_def pool_wf_def)
qed

lemma unat_sub_u16: "unat (a - b :: u16) = (unat a + 65536 - unat b) mod 65536"
  using unat_u16_less [of b] by (simp add: unat_sub_if_size word_size) (use unat_u16_less [of a] in \<open>auto simp: mod_if\<close>)

lemma br_push_available:
  assumes wf: "br_wf r" and n: "unat (br_tail r - head) < unat (br_entries r)"
  shows "\<exists>r'. br_push r addr len bid = Ret r' \<and> br_wf r' \<and> br_entries r' = br_entries r
    \<and> ring_queue (unat (br_entries r)) (ring_entry (br_mem r')) (unat head mod unat (br_entries r)) (unat (br_tail r' - head))
      = ring_queue (unat (br_entries r)) (ring_entry (br_mem r)) (unat head mod unat (br_entries r)) (unat (br_tail r - head))
        @ [(addr, len, bid)]"
proof -
  let ?m = "unat (br_entries r)" and ?n = "unat (br_tail r - head)"
  note M = br_wf_mod [OF wf]
  obtain r' where r: "br_push r addr len bid = Ret r'" "br_wf r'" "br_tail r' = br_tail r + 1" "br_entries r' = br_entries r"
    "\<And>i. i < ?m \<Longrightarrow> ring_entry (br_mem r') i = (if i = unat (br_tail r) mod ?m then (addr, len, bid) else ring_entry (br_mem r) i)"
    using br_push_spec [OF wf] by blast
  have "unat ((br_tail r - head) + head) = (?n + unat head) mod 2 ^ 16"
    using unat_word_ariths(1) [of "br_tail r - head" head] by (simp only: len_num0 len_num1 len_bit0) simp
  then have "unat (br_tail r) = (?n + unat head) mod 65536" by simp
  then have "unat (br_tail r) mod ?m = (?n + unat head) mod ?m" using M(3) by (simp add: mod_mod_cancel)
  then have t: "unat (br_tail r) mod ?m = (unat head mod ?m + ?n) mod ?m" by (metis add.commute mod_add_left_eq)
  have "unat (br_entries r) < 65536" using unat_u16_less [of "br_entries r"] by simp
  then have "?n < 65535" using n by linarith
  moreover have "br_tail r' - head = (br_tail r - head) + 1" using r(3) by simp
  ultimately have s: "unat (br_tail r' - head) = Suc ?n" using unat_word_ariths(1) [of "br_tail r - head" 1]
    by (simp only: unat_1 len_num0 len_num1 len_bit0) simp
  have Q: "ring_queue ?m (ring_entry (br_mem r')) (unat head mod ?m) (Suc ?n)
      = ring_queue ?m (ring_entry (br_mem r)) (unat head mod ?m) ?n @ [(addr, len, bid)]"
    by (rule ring_queue_push [OF n]) (simp add: r(5) t)
  show ?thesis by (rule exI [of _ r']) (simp only: r(1,2,4) s Q simp_thms)
qed

definition pool_bids :: "buf_ring_pool \<Rightarrow> u16 list" where
  "pool_bids p = map of_nat [0..<unat (pl_entries p)]"

definition ring_account :: "ring_world \<Rightarrow> (u64 \<times> u32 \<times> u16) multiset" where
  "ring_account w = mset (available (rg_pool w) (rg_head w)) + mset (rg_held w)"

definition ring_world_inv :: "ring_world \<Rightarrow> bool" where
  "ring_world_inv w \<longleftrightarrow> pool_wf (rg_pool w) \<and> ring_account w = mset (map (pool_entry (rg_pool w)) (pool_bids (rg_pool w)))"

lemma set_pool_bids: "set (pool_bids p) = {bid. bid < pl_entries p}"
proof -
  have "bid \<in> of_nat ` {0..<unat (pl_entries p)}" if "bid < pl_entries p" for bid
    using that by (intro image_eqI [of _ _ "unat bid"]) (simp_all add: word_less_nat_alt)
  moreover have "(of_nat i :: u16) < pl_entries p" if "i < unat (pl_entries p)" for i
    using that unat_u16_less [of "pl_entries p"] by (simp add: word_less_nat_alt)
  ultimately show ?thesis by (auto simp: pool_bids_def)
qed

lemma ring_count:
  assumes "ring_world_inv w"
  shows "unat (br_tail (pl_ring (rg_pool w)) - rg_head w) + length (rg_held w) = unat (pl_entries (rg_pool w))"
  using arg_cong [OF conjunct2 [OF iffD1 [OF ring_world_inv_def assms]], of size]
  by (simp add: ring_account_def available_def pool_bids_def)

lemma ring_select_step:
  assumes inv: "ring_world_inv w" and ne: "rg_head w \<noteq> br_tail (pl_ring (rg_pool w))"
  shows "\<exists>w'. ring_event_exec w RSelect = Some (Ret w') \<and> ring_world_inv w' \<and> ring_account w' = ring_account w"
proof -
  let ?p = "rg_pool w" let ?r = "pl_ring ?p" let ?m = "unat (pl_entries ?p)" let ?n = "unat (br_tail ?r - rg_head w)"
  have wf: "br_wf ?r" "br_entries ?r = pl_entries ?p" using inv by (simp_all add: ring_world_inv_def pool_wf_def)
  have M: "unat (rg_head w AND br_mask ?r) = unat (rg_head w) mod ?m" "0 < ?m" "?m dvd 65536"
    using br_wf_mod [OF wf(1)] wf(2) by simp_all
  have n: "0 < ?n" using ne by (simp add: unat_gt_0)
  have h: "unat (rg_head w + 1) mod ?m = (unat (rg_head w) mod ?m + 1) mod ?m"
  proof -
    have "unat (rg_head w + 1) = (unat (rg_head w) + 1) mod 65536" by (simp add: unat_word_ariths)
    then show ?thesis using M(3) by (simp add: mod_mod_cancel mod_Suc_eq)
  qed
  have k: "unat (br_tail ?r - (rg_head w + 1)) = ?n - 1"
    using ne unat_minus_one [of "br_tail ?r - rg_head w"] by (simp add: algebra_simps)
  have "available ?p (rg_head w) = ring_entry (br_mem ?r) (unat (rg_head w) mod ?m) # available ?p (rg_head w + 1)"
    using ring_queue_pop [OF n, of "unat (rg_head w) mod ?m" ?m] M(2) by (simp add: available_def h k)
  then have a: "ring_account (w\<lparr>rg_head := rg_head w + 1,
        rg_held := rg_held w @ [ring_entry (br_mem ?r) (unat (rg_head w AND br_mask ?r))]\<rparr>) = ring_account w"
    by (simp add: ring_account_def M(1))
  show ?thesis using inv ne a by (simp add: ring_world_inv_def Let_def)
qed

lemma ring_recycle_step:
  assumes inv: "ring_world_inv w" and e: "e \<in> set (rg_held w)"
  shows "\<exists>w'. ring_event_exec w (RRecycle e) = Some (Ret w') \<and> ring_world_inv w' \<and> ring_account w' = ring_account w"
proof -
  let ?p = "rg_pool w" let ?r = "pl_ring ?p"
  have pw: "pool_wf ?p" and acc: "ring_account w = mset (map (pool_entry ?p) (pool_bids ?p))"
    using inv by (simp_all add: ring_world_inv_def)
  have wf: "br_wf ?r" "br_entries ?r = pl_entries ?p" using pw by (simp_all add: pool_wf_def)
  have "e \<in># ring_account w" using e by (simp add: ring_account_def)
  then obtain bid where b: "bid < pl_entries ?p" "e = pool_entry ?p bid" unfolding acc by (auto simp: set_pool_bids)
  have "0 < length (rg_held w)" using e by (cases "rg_held w") auto
  then have n: "unat (br_tail ?r - rg_head w) < unat (br_entries ?r)" using ring_count [OF inv] unfolding wf(2) by linarith
  obtain r' where r: "br_push ?r (pl_base ?p + ucast bid * ucast (pl_buf_size ?p)) (pl_buf_size ?p) bid = Ret r'" "br_wf r'"
    "br_entries r' = br_entries ?r"
    "ring_queue (unat (br_entries ?r)) (ring_entry (br_mem r')) (unat (rg_head w) mod unat (br_entries ?r)) (unat (br_tail r' - rg_head w))
      = ring_queue (unat (br_entries ?r)) (ring_entry (br_mem ?r)) (unat (rg_head w) mod unat (br_entries ?r)) (unat (br_tail ?r - rg_head w))
        @ [e]"
    using br_push_available [OF wf(1) n] b(2) unfolding pool_entry_def by blast
  let ?w = "w\<lparr>rg_pool := ?p\<lparr>pl_ring := r'\<rparr>, rg_held := remove1 e (rg_held w)\<rparr>"
  have x: "ring_event_exec w (RRecycle e) = Some (Ret ?w)"
    using b r(1) buf_addr_ok [OF pw b(1)] by (simp add: pool_recycle_def check_bid_def pool_entry_def)
  have av: "available (?p\<lparr>pl_ring := r'\<rparr>) (rg_head w) = available ?p (rg_head w) @ [e]"
    using r(4) wf(2) by (simp add: available_def)
  then have a: "ring_account ?w = ring_account w" using e by (simp add: ring_account_def)
  moreover have "pool_wf (?p\<lparr>pl_ring := r'\<rparr>)" using pw r(2,3) by (simp add: pool_wf_def)
  moreover have "map (pool_entry (?p\<lparr>pl_ring := r'\<rparr>)) (pool_bids (?p\<lparr>pl_ring := r'\<rparr>)) = map (pool_entry ?p) (pool_bids ?p)"
    by (simp add: pool_entry_def pool_bids_def)
  ultimately have "ring_world_inv ?w" unfolding ring_world_inv_def using acc by simp
  then show ?thesis using x a by blast
qed

lemma ring_event_step:
  assumes "ring_world_inv w" "ring_admissible w e"
  shows "\<exists>w'. ring_event_exec w e = Some (Ret w') \<and> ring_world_inv w' \<and> ring_account w' = ring_account w + {#}"
  using assms ring_select_step [OF assms(1)] ring_recycle_step [OF assms(1)]
  by (cases e; cases "rg_head w = br_tail (pl_ring (rg_pool w))") (auto simp: Let_def)

interpretation buf_ring_life: conserving ring_event_exec ring_admissible ring_world_inv ring_account "\<lambda>_. {#}"
  by unfold_locales (rule ring_event_step)

section \<open>A new pool\<close>

lemma push_from_spec:
  assumes "br_wf r" "unat base + unat (br_entries r) * unat buf_size \<le> 2 ^ 64" "buf_size \<noteq> 0" "entries = br_entries r"
    "bid \<le> entries" "br_tail r = bid"
    "ring_queue (unat entries) (ring_entry (br_mem r)) 0 (unat bid) = map (\<lambda>b. (base + ucast b * ucast buf_size, buf_size, b)) (map of_nat [0..<unat bid])"
  shows "\<exists>r'. push_from r base buf_size entries bid = Ret r' \<and> br_wf r' \<and> br_entries r' = entries \<and> br_tail r' = entries \<and>
    ring_queue (unat entries) (ring_entry (br_mem r')) 0 (unat entries) = map (\<lambda>b. (base + ucast b * ucast buf_size, buf_size, b)) (map of_nat [0..<unat entries])"
  using assms
proof (induction r base buf_size entries bid rule: push_from.induct)
  case (1 r base buf_size entries bid)
  show ?case
  proof (cases "bid < entries")
    case False
    then have "bid = entries" using 1(6) by simp
    then show ?thesis using 1(2-) by (simp add: push_from.simps [of r])
  next
    case True
    let ?a = "base + ucast bid * ucast buf_size"
    have n: "unat (br_tail r - 0) < unat (br_entries r)" using True 1(5,7) by (simp add: word_less_nat_alt)
    have s: "unat (bid + 1) = Suc (unat bid)" using True unat_u16_less [of entries]
      by (simp add: unat_word_ariths word_less_nat_alt)
    have "unat bid * unat buf_size + unat buf_size \<le> unat entries * unat buf_size"
      by (rule stride_le) (use True in \<open>simp add: word_less_nat_alt\<close>)
    moreover have "0 < unat buf_size" using 1(4) by (simp add: unat_gt_0)
    ultimately have ad: "buf_addr base bid buf_size = Ret ?a" using 1(3,5) by (simp add: buf_addr_def)
    obtain r' where r: "br_push r ?a buf_size bid = Ret r'" "br_wf r'" "br_entries r' = br_entries r"
      "ring_queue (unat (br_entries r)) (ring_entry (br_mem r')) (unat (0 :: u16) mod unat (br_entries r)) (unat (br_tail r' - 0))
       = ring_queue (unat (br_entries r)) (ring_entry (br_mem r)) (unat (0 :: u16) mod unat (br_entries r)) (unat (br_tail r - 0)) @ [(?a, buf_size, bid)]"
      using br_push_available [OF 1(2) n] by blast
    have tl: "br_tail r' = bid + 1" using br_push_spec [OF 1(2), of ?a buf_size bid] r(1) 1(7) by auto
    have q: "ring_queue (unat entries) (ring_entry (br_mem r')) 0 (unat (bid + 1))
        = map (\<lambda>b. (base + ucast b * ucast buf_size, buf_size, b)) (map of_nat [0..<unat (bid + 1)])"
      using r(4) tl 1(5,7,8) s by simp
    have le: "bid + 1 \<le> entries" using True s by (simp add: word_le_nat_alt word_less_nat_alt)
    have "push_from r base buf_size entries bid = push_from r' base buf_size entries (bid + 1)"
      using True ad r(1) by (simp add: push_from.simps [of r])
    then show ?thesis using 1(1) [OF True ad r(1)] r(2,3) 1(3-5) le tl q by simp
  qed
qed

lemma zeroed_ring:
  assumes "br_entries r = entries" "br_mem r = replicate (unat entries * 16) 0" "0 < entries"
  shows "br_tail r = 0"
proof -
  have "0 < unat entries" using assms(3) by (simp add: word_less_nat_alt)
  then have "chunk 16 (br_mem r) 0 = replicate 16 0" unfolding assms(2) by (rule chunk_replicate)
  then show ?thesis by (simp add: br_tail_field ring_field_def numeral_eq_Suc)
qed

lemma pool_new_spec:
  assumes "mmap_zeroed mmap" "check_params entries buf_size = Inr ()" "mmap (unat entries * 16) = Mapped ring_region"
    "mmap (unat entries * unat buf_size) = Mapped storage" "unat base + unat entries * unat buf_size \<le> 2 ^ 64"
  shows "\<exists>p. pool_new mmap base entries buf_size group_id = Ret (Inr p)
    \<and> ring_world_inv \<lparr>rg_pool = p, rg_head = 0, rg_held = []\<rparr> \<and> pl_entries p = entries"
proof -
  have c: "buf_size \<noteq> 0" "entries \<noteq> 0" "is_power_of_two (unat entries)" "\<not> push_bit 15 1 < entries"
    using assms(2) by (auto simp: check_params_def split: if_splits)
  have z: "ring_region = replicate (unat entries * 16) 0" "storage = replicate (unat entries * unat buf_size) 0"
    using assms(1,3,4) by (auto simp: mmap_zeroed_def)
  have "unat entries < usize_bound" using unat_u16_less [of entries] by (simp add: usize_bound_def)
  then obtain k where k: "unat entries = 2 ^ k" using is_power_of_twoD [OF c(3)] by auto
  have "(2 :: nat) ^ k \<le> 2 ^ 15" using c(4) unfolding k [symmetric] by (simp add: word_less_nat_alt not_less)
  then have k15: "k \<le> 15" by (rule power_le_imp_le_exp [rotated]) simp
  have "entries = of_nat (unat entries)" by simp
  then have e: "entries = 2 ^ k" unfolding k by simp
  let ?r = "\<lparr>br_mem = ring_region, br_entries = entries, br_mask = entries - 1\<rparr>"
  have wf: "br_wf ?r" using e k15 z(1) by (auto simp: br_wf_def)
  have z0: "0 < entries" using c(2) by (simp add: word_neq_0_conv)
  have "br_tail ?r = 0" by (rule zeroed_ring [of _ entries]) (use z0 z(1) in simp_all)
  then obtain r' where r: "push_from ?r base buf_size entries 0 = Ret r'" "br_wf r'" "br_entries r' = entries" "br_tail r' = entries"
    "ring_queue (unat entries) (ring_entry (br_mem r')) 0 (unat entries) = map (\<lambda>b. (base + ucast b * ucast buf_size, buf_size, b)) (map of_nat [0..<unat entries])"
    using push_from_spec [OF wf _ c(1), of base entries 0] assms(5) by auto
  let ?p = "\<lparr>pl_ring = r', pl_base = base, pl_storage = storage, pl_buf_size = buf_size, pl_entries = entries, pl_group = group_id\<rparr>"
  have nz: "unat entries * 16 \<noteq> 0" "unat entries * unat buf_size \<noteq> 0" using c(1,2) by (simp_all add: unat_eq_zero)
  have "pool_new mmap base entries buf_size group_id = Ret (Inr ?p)"
    using assms(2-4) c z0 r(1) nz by (simp add: pool_new_def mmap_region_new_def buf_ring_from_raw_def)
  moreover have "pool_wf ?p" using r(2,3) c(1) assms(5) z(2) by (simp add: pool_wf_def)
  moreover have "available ?p 0 = map (pool_entry ?p) (pool_bids ?p)"
    using r(4,5) by (simp add: available_def pool_entry_def pool_bids_def)
  ultimately show ?thesis by (auto simp: ring_world_inv_def ring_account_def simp flip: mset_map)
qed

lemma pool_new_inv:
  assumes "mmap_zeroed mmap" "pool_new mmap base entries buf_size group_id = Ret (Inr p)"
    "unat base + unat entries * unat buf_size \<le> 2 ^ 64"
  shows "ring_world_inv \<lparr>rg_pool = p, rg_head = 0, rg_held = []\<rparr> \<and> pl_entries p = entries"
proof -
  have c: "check_params entries buf_size = Inr ()"
    using assms(2) by (cases "check_params entries buf_size") (simp_all add: pool_new_def)
  obtain ring_region where r: "mmap_region_new mmap (unat entries * 16) = Inr ring_region"
    using assms(2) c by (cases "mmap_region_new mmap (unat entries * 16)") (simp_all add: pool_new_def)
  obtain storage where s: "mmap_region_new mmap (unat entries * unat buf_size) = Inr storage"
    using assms(2) c r by (cases "mmap_region_new mmap (unat entries * unat buf_size)")
      (simp_all add: pool_new_def buf_ring_from_raw_def split: if_splits)
  have m: "mmap (unat entries * 16) = Mapped ring_region" "mmap (unat entries * unat buf_size) = Mapped storage"
    using r s by (simp_all add: mmap_region_new_def split: if_splits mmap_outcome.splits)
  obtain p' where p': "pool_new mmap base entries buf_size group_id = Ret (Inr p')"
    "ring_world_inv \<lparr>rg_pool = p', rg_head = 0, rg_held = []\<rparr>" "pl_entries p' = entries"
    using pool_new_spec [OF assms(1) c m assms(3), of group_id] by blast
  have "p' = p" using p'(1) assms(2) by simp
  then show ?thesis using p'(2,3) by simp
qed

text \<open>
  C26. The pool neither loses nor duplicates a buffer. From a new pool on, whatever the order in which
  the kernel selects buffers and selected buffers are recycled, every step returns; the entries the
  kernel can still select and those it has selected are together exactly one entry per buffer id,
  each with the address and length of its own part of the storage, across wrap-around of the 16-bit
  tail that is kept inside entry 0; and the kernel finds an entry as long as one is not selected.
\<close>

theorem pool_buffers_exact:
  assumes "mmap_zeroed mmap" "pool_new mmap base entries buf_size group_id = Ret (Inr p)"
    and "unat base + unat entries * unat buf_size \<le> 2 ^ 64"
    and "admissible_run ring_event_exec ring_admissible \<lparr>rg_pool = p, rg_head = 0, rg_held = []\<rparr> es"
  shows "\<exists>w. run_events ring_event_exec \<lparr>rg_pool = p, rg_head = 0, rg_held = []\<rparr> es = Some (Ret w)
    \<and> mset (available (rg_pool w) (rg_head w)) + mset (rg_held w) = mset (map (pool_entry p) (map of_nat [0..<unat entries]))
    \<and> (rg_head w = br_tail (pl_ring (rg_pool w)) \<longleftrightarrow> length (rg_held w) = unat entries)"
proof -
  let ?w = "\<lparr>rg_pool = p, rg_head = 0, rg_held = []\<rparr>"
  have inv: "ring_world_inv ?w" "pl_entries p = entries" using pool_new_inv [OF assms(1-3)] by auto
  obtain w where w: "run_events ring_event_exec ?w es = Some (Ret w)" "ring_world_inv w" "ring_account w = ring_account ?w"
    using buf_ring_life.run_conserves [OF inv(1) assms(4)] by auto
  have acc: "ring_account w = mset (map (pool_entry p) (map of_nat [0..<unat entries]))"
    using w(3) inv by (simp add: ring_world_inv_def pool_bids_def)
  have "size (ring_account w) = unat entries" unfolding acc by simp
  then have "unat (br_tail (pl_ring (rg_pool w)) - rg_head w) + length (rg_held w) = unat entries"
    by (simp add: ring_account_def available_def)
  moreover have "rg_head w = br_tail (pl_ring (rg_pool w)) \<longleftrightarrow> unat (br_tail (pl_ring (rg_pool w)) - rg_head w) = 0"
    by (auto simp: unat_eq_zero)
  ultimately show ?thesis using w(1) acc by (auto simp: ring_account_def)
qed

theorem pool_buffers_exact_witness:
  "\<exists>p w. pool_new zero_map 4096 2 64 0 = Ret (Inr p)
    \<and> run_events ring_event_exec \<lparr>rg_pool = p, rg_head = 0, rg_held = []\<rparr> [RSelect, RSelect, RSelect] = Some (Ret w)
    \<and> mset (available (rg_pool w) (rg_head w)) + mset (rg_held w) = mset (map (pool_entry p) (map of_nat [0..<2]))"
proof -
  have ok: "check_params 2 64 = Inr ()" using power_of_two_is [of 1] by (simp add: check_params_def)
  obtain p where p: "pool_new zero_map 4096 2 64 0 = Ret (Inr p)"
    using pool_new_spec [OF zero_map_zeroed ok, of _ _ 4096 0] by (auto simp: zero_map_def)
  have "admissible_run ring_event_exec ring_admissible \<lparr>rg_pool = p, rg_head = 0, rg_held = []\<rparr> [RSelect, RSelect, RSelect]"
    by (rule admissible_always) auto
  then show ?thesis using p pool_buffers_exact [OF zero_map_zeroed p, of "[RSelect, RSelect, RSelect]"] by (auto simp del: run_events.simps)
qed

end
