(* ===== verification/Provided_Buf.thy ===== *)
theory Provided_Buf
  imports Buf_Ring
begin

text \<open>
  The views over kernel-selected buffers (\<open>operation/core/provided.rs\<close>) and the registry of pools
  they read and recycle through (\<open>boundary/seam/pool.rs\<close>): a pool pointer and a registration epoch
  per worker. A view remembers the epoch at which it was made.
\<close>

section \<open>The registry of pools\<close>

record pool_statics =
  ps_pools :: "u8 \<Rightarrow> nat option"
  ps_epochs :: "u8 \<Rightarrow> u64"
  ps_store :: "nat \<Rightarrow> buf_ring_pool"

definition install_pool :: "pool_statics \<Rightarrow> u8 \<Rightarrow> nat option \<Rightarrow> pool_statics" where
  "install_pool st worker_id pool =
     (case pool of
        None \<Rightarrow> st
      | Some a \<Rightarrow> st\<lparr>ps_epochs := (ps_epochs st)(worker_id := ps_epochs st worker_id + 1),
                     ps_pools := (ps_pools st)(worker_id := Some a)\<rparr>)"

definition pool_guard_drop :: "pool_statics \<Rightarrow> u8 \<Rightarrow> pool_statics" where
  "pool_guard_drop st worker_id = st\<lparr>ps_pools := (ps_pools st)(worker_id := None)\<rparr>"

definition provided_pool :: "pool_statics \<Rightarrow> u8 \<Rightarrow> u64 \<Rightarrow> nat option" where
  "provided_pool st worker_id epoch =
     (case ps_pools st worker_id of
        None \<Rightarrow> None
      | Some a \<Rightarrow> if ps_epochs st worker_id \<noteq> epoch then None else Some a)"

definition provided_pool_epoch :: "pool_statics \<Rightarrow> u8 \<Rightarrow> u64" where
  "provided_pool_epoch st worker_id = ps_epochs st worker_id"

section \<open>Views\<close>

record provided_buf =
  pb_buf_id :: "u16 option"
  pb_len :: u32
  pb_worker :: u8
  pb_epoch :: u64

definition provided_buf_new :: "u8 \<Rightarrow> u64 \<Rightarrow> u16 \<Rightarrow> u32 \<Rightarrow> provided_buf" where
  "provided_buf_new worker_id epoch buf_id len =
     \<lparr>pb_buf_id = Some buf_id, pb_len = len, pb_worker = worker_id, pb_epoch = epoch\<rparr>"

definition provided_buf_empty :: provided_buf where
  "provided_buf_empty = \<lparr>pb_buf_id = None, pb_len = 0, pb_worker = 0, pb_epoch = 0\<rparr>"

datatype recv_error = RecvErrno i32 | RecvInvalidData

definition resolve_selected :: "pool_statics \<Rightarrow> u8 \<Rightarrow> i32 \<Rightarrow> u16 \<Rightarrow> recv_error + provided_buf" where
  "resolve_selected st worker_id result buf_id =
     (if sint result < 0 then Inl RecvInvalidData
      else Inr (provided_buf_new worker_id (provided_pool_epoch st worker_id) buf_id result))"

text \<open>\<open>-result\<close> panics for \<open>i32::MIN\<close>.\<close>

definition resolve_provided_recv :: "pool_statics \<Rightarrow> u8 \<Rightarrow> i32 \<Rightarrow> u16 option \<Rightarrow> (recv_error + provided_buf) exec" where
  "resolve_provided_recv st worker_id result buf_id =
     (if sint result < 0 then (if sint result = - (2 ^ 31) then Panic else Ret (Inl (RecvErrno (- result))))
      else Ret (case buf_id of
          Some buf_id \<Rightarrow> resolve_selected st worker_id result buf_id
        | None \<Rightarrow> if result = 0 then Inr provided_buf_empty else Inl RecvInvalidData))"

definition provided_bytes :: "pool_statics \<Rightarrow> provided_buf \<Rightarrow> bytes exec" where
  "provided_bytes st b =
     (case pb_buf_id b of
        None \<Rightarrow> Ret []
      | Some buf_id \<Rightarrow> (case provided_pool st (pb_worker b) (pb_epoch b) of
            None \<Rightarrow> Panic
          | Some a \<Rightarrow> pool_get (ps_store st a) buf_id (pb_len b)))"

definition provided_drop :: "pool_statics \<Rightarrow> provided_buf \<Rightarrow> pool_statics exec" where
  "provided_drop st b =
     (case pb_buf_id b of
        None \<Rightarrow> Ret st
      | Some buf_id \<Rightarrow> (case provided_pool st (pb_worker b) (pb_epoch b) of
            None \<Rightarrow> Ret st
          | Some a \<Rightarrow>
              if \<not> check_bid buf_id (pl_entries (ps_store st a)) then Ret st
              else exec_bind (pool_recycle (ps_store st a) buf_id) (\<lambda>p. Ret (st\<lparr>ps_store := (ps_store st)(a := p)\<rparr>))))"

section \<open>A view never reaches another session's pool\<close>

datatype pool_event = PInstall u8 "nat option" | PGuardDrop u8

fun pool_event_exec :: "pool_statics \<Rightarrow> pool_event \<Rightarrow> pool_statics" where
  "pool_event_exec st (PInstall w a) = install_pool st w a"
| "pool_event_exec st (PGuardDrop w) = pool_guard_drop st w"

fun installs :: "u8 \<Rightarrow> pool_event \<Rightarrow> bool" where
  "installs w (PInstall v (Some a)) \<longleftrightarrow> v = w"
| "installs w _ \<longleftrightarrow> False"

lemma epoch_run:
  "ps_epochs (foldl pool_event_exec st es) w = ps_epochs st w + of_nat (length (filter (installs w) es))"
proof (induction es arbitrary: st)
  case (Cons e es)
  then show ?case by (cases "(w, e)" rule: installs.cases) (auto simp: install_pool_def pool_guard_drop_def)
qed simp

lemma of_nat_u64_nonzero: "0 < n \<Longrightarrow> n < 2 ^ 64 \<Longrightarrow> (of_nat n :: u64) \<noteq> 0"
  by (metis less_numeral_extra(3) unat_0 unat_of_nat_u64)

text \<open>
  After its run loop has ended or another pool was installed, a view finds no pool: reading it panics
  instead of reading foreign bytes, and dropping it recycles nothing.
\<close>

lemma stale_view_refused:
  assumes "pb_buf_id b = Some bid" "pb_epoch b = ps_epochs st (pb_worker b)"
    and es: "length (filter (installs (pb_worker b)) es) < 2 ^ 64"
    and stale: "filter (installs (pb_worker b)) es \<noteq> [] \<or> ps_pools (foldl pool_event_exec st es) (pb_worker b) = None"
  shows "provided_bytes (foldl pool_event_exec st es) b = Panic \<and> provided_drop (foldl pool_event_exec st es) b = Ret (foldl pool_event_exec st es)"
proof -
  have "provided_pool (foldl pool_event_exec st es) (pb_worker b) (pb_epoch b) = None"
    using stale of_nat_u64_nonzero [OF _ es] assms(2) by (auto simp: provided_pool_def epoch_run split: option.splits)
  then show ?thesis using assms(1) by (simp add: provided_bytes_def provided_drop_def)
qed

text \<open>A view of the current session reads the part of the storage its entry names, and its drop
  recycles its buffer.\<close>

lemma live_view_reads:
  assumes "ps_pools st w = Some a" "pool_wf (ps_store st a)" "bid < pl_entries (ps_store st a)" "len \<le> pl_buf_size (ps_store st a)"
  defines "off \<equiv> unat bid * unat (pl_buf_size (ps_store st a))"
  shows "provided_bytes st (provided_buf_new w (provided_pool_epoch st w) bid len)
    = Ret (take (unat len) (drop off (pl_storage (ps_store st a))))"
proof -
  have "off + unat (pl_buf_size (ps_store st a)) \<le> length (pl_storage (ps_store st a))"
    using assms(2,3) stride_le [of "unat bid" "unat (pl_entries (ps_store st a))" "unat (pl_buf_size (ps_store st a))"]
    by (simp add: pool_wf_def word_less_nat_alt off_def)
  then show ?thesis using assms(1,3,4)
    by (simp add: provided_bytes_def provided_buf_new_def provided_pool_def provided_pool_epoch_def pool_get_def check_bid_def
        check_len_def Let_def get_range_def word_le_nat_alt off_def)
qed

end
