(* ===== verification/Slot_Registry.thy ===== *)
theory Slot_Registry
  imports Slot_Bitmap Call_Refinement
begin

text \<open>
  The registries of kernel-registered buffers and descriptors
  (\<open>buffer/registration/buffers.rs\<close>, \<open>fds.rs\<close>): bitmaps of allocated slots with a runtime
  capacity. Both run the same code on slot numbers of different widths.
\<close>

section \<open>The registries\<close>

datatype register_error = RegUnsupported | SlotExhausted | RegInvalidArgument

definition MAX_REGISTERED_BUFFERS :: nat where "MAX_REGISTERED_BUFFERS = 32768"
definition MAX_REGISTERED_FDS :: nat where "MAX_REGISTERED_FDS = 65536"

record 'n slot_registry =
  sr_used :: bitmap
  sr_capacity :: 'n

text \<open>The loop of \<open>allocate\<close> over the words, which sets the bit it finds.\<close>

fun registry_take :: "nat \<Rightarrow> nat \<Rightarrow> bitmap \<Rightarrow> (nat \<times> bitmap) option" where
  "registry_take limit word_idx [] = None"
| "registry_take limit word_idx (word # words) =
     (let last_word = limit div 64; last_bit = limit mod 64 in
      if word_idx < last_word \<or> (word_idx = last_word \<and> last_bit > 0) then
        let mask = (if word_idx < last_word then - 1 else push_bit last_bit 1 - 1);
            available = NOT word AND mask in
        if available \<noteq> 0
        then let b = trailing_zeros available in Some (word_idx * 64 + b, (word OR push_bit b 1) # words)
        else map_option (\<lambda>(slot, ws). (slot, word # ws)) (registry_take limit (Suc word_idx) words)
      else None)"

definition registry_allocate :: "('n \<Rightarrow> nat) \<Rightarrow> (nat \<Rightarrow> 'n) \<Rightarrow> 'n slot_registry \<Rightarrow> (register_error + 'n) \<times> 'n slot_registry" where
  "registry_allocate to_nat from_nat r =
     (case registry_take (to_nat (sr_capacity r)) 0 (sr_used r) of
        None \<Rightarrow> (Inl SlotExhausted, r)
      | Some (slot, used) \<Rightarrow> (Inr (from_nat slot), r\<lparr>sr_used := used\<rparr>))"

definition registry_release :: "('n \<Rightarrow> nat) \<Rightarrow> 'n slot_registry \<Rightarrow> 'n \<Rightarrow> (register_error + unit) \<times> 'n slot_registry" where
  "registry_release to_nat r slot =
     (let idx = to_nat slot in
      if to_nat (sr_capacity r) \<le> idx then (Inl RegInvalidArgument, r)
      else if \<not> bm_test (sr_used r) (idx div 64, idx mod 64) then (Inl RegInvalidArgument, r)
      else (Inr (), r\<lparr>sr_used := bm_drop (sr_used r) (idx div 64, idx mod 64)\<rparr>))"

definition registry_is_allocated :: "('n \<Rightarrow> nat) \<Rightarrow> 'n slot_registry \<Rightarrow> 'n \<Rightarrow> bool" where
  "registry_is_allocated to_nat r slot \<longleftrightarrow>
     to_nat slot < to_nat (sr_capacity r) \<and> bm_test (sr_used r) (to_nat slot div 64, to_nat slot mod 64)"

definition registered_buffers_new :: "u16 \<Rightarrow> u16 slot_registry" where
  "registered_buffers_new capacity =
     \<lparr>sr_used = replicate (MAX_REGISTERED_BUFFERS div 64) 0, sr_capacity = of_nat (min (unat capacity) MAX_REGISTERED_BUFFERS)\<rparr>"

definition registered_fds_new :: "u32 \<Rightarrow> u32 slot_registry" where
  "registered_fds_new capacity =
     \<lparr>sr_used = replicate (MAX_REGISTERED_FDS div 64) 0, sr_capacity = of_nat (min (unat capacity) MAX_REGISTERED_FDS)\<rparr>"

definition buffers_allocate :: "u16 slot_registry \<Rightarrow> (register_error + u16) \<times> u16 slot_registry" where
  "buffers_allocate = registry_allocate unat of_nat"
definition buffers_release :: "u16 slot_registry \<Rightarrow> u16 \<Rightarrow> (register_error + unit) \<times> u16 slot_registry" where
  "buffers_release = registry_release unat"
definition buffers_is_allocated :: "u16 slot_registry \<Rightarrow> u16 \<Rightarrow> bool" where
  "buffers_is_allocated = registry_is_allocated unat"
definition fds_allocate :: "u32 slot_registry \<Rightarrow> (register_error + u32) \<times> u32 slot_registry" where
  "fds_allocate = registry_allocate unat of_nat"
definition fds_release :: "u32 slot_registry \<Rightarrow> u32 \<Rightarrow> (register_error + unit) \<times> u32 slot_registry" where
  "fds_release = registry_release unat"
definition fds_is_allocated :: "u32 slot_registry \<Rightarrow> u32 \<Rightarrow> bool" where
  "fds_is_allocated = registry_is_allocated unat"

section \<open>The search\<close>

lemma bm_mem_set_first: "b < 64 \<Longrightarrow> bm_mem ((w OR push_bit b 1) # ws) i \<longleftrightarrow> i = b \<or> bm_mem (w # ws) i"
  by (cases "i < 64") (simp_all add: bm_mem_Cons bit_set_mask)

lemma stride_64: "i < q \<Longrightarrow> i * 64 + 64 \<le> q * (64 :: nat)"
  by simp

lemma word_in_range:
  fixes idx limit :: nat
  shows "(idx < limit div 64 \<or> idx = limit div 64 \<and> limit mod 64 > 0) \<longleftrightarrow> idx * 64 < limit"
proof -
  have *: "(idx < q \<or> idx = q \<and> r > 0) \<longleftrightarrow> idx * 64 < q * 64 + r" if "r < 64" for q r :: nat
    using that stride_64 [of idx q] stride_64 [of q idx] by (cases idx q rule: linorder_cases) auto
  show ?thesis using * [of "limit mod 64" "limit div 64"] by simp
qed

text \<open>The mask of a word: its bits below the limit.\<close>

definition word_mask :: "nat \<Rightarrow> nat \<Rightarrow> u64" where
  "word_mask limit idx = (if limit - idx * 64 < 64 then 2 ^ (limit - idx * 64) - 1 else - 1)"

lemma word_mask_eq:
  assumes "idx * 64 < limit"
  shows "(if idx < limit div 64 then - 1 else push_bit (limit mod 64) 1 - 1) = word_mask limit idx"
proof (cases "idx < limit div 64")
  case False
  then have "idx = limit div 64" using assms word_in_range [of idx limit] by auto
  then have "limit - idx * 64 = limit mod 64" by (simp add: minus_div_mult_eq_mod)
  then show ?thesis using False by (simp add: word_mask_def)
next
  case True
  then have "idx * 64 + 64 \<le> limit div 64 * 64" by (rule stride_64)
  also have "\<dots> \<le> limit" by (rule div_times_less_eq_dividend)
  finally show ?thesis using True by (simp add: word_mask_def)
qed

lemma registry_take_Cons:
  "registry_take limit idx (w # ws) =
     (if idx * 64 < limit then
        if NOT w AND word_mask limit idx \<noteq> 0
        then Some (idx * 64 + trailing_zeros (NOT w AND word_mask limit idx), (w OR push_bit (trailing_zeros (NOT w AND word_mask limit idx)) 1) # ws)
        else map_option (\<lambda>(slot, ws). (slot, w # ws)) (registry_take limit (Suc idx) ws)
      else None)"
proof (cases "idx * 64 < limit")
  case True
  show ?thesis unfolding registry_take.simps Let_def word_in_range word_mask_eq [OF True] using True by (simp only: if_True)
next
  case False
  show ?thesis unfolding registry_take.simps Let_def word_in_range using False by (simp only: if_False)
qed

declare registry_take.simps(2) [simp del]

lemma find_word:
  "find (\<lambda>s. \<not> bm_mem (w # ws) s) [0..<limit - idx * 64] =
     (if NOT w AND word_mask limit idx = 0 then map_option (\<lambda>x. 64 + x) (find (\<lambda>s. \<not> bm_mem ws s) [0..<limit - Suc idx * 64])
      else Some (trailing_zeros (NOT w AND word_mask limit idx)))"
proof -
  let ?n = "min 64 (limit - idx * 64)" and ?m = "limit - Suc idx * 64" and ?P = "\<lambda>s. \<not> bm_mem (w # ws) s"
  have split: "[0..<limit - idx * 64] = [0..<?n] @ map (\<lambda>x. 64 + x) [0..<?m]"
    using upt_split [of 0 64 "limit - idx * 64"] upt_shift [of 64 ?m] by (auto simp: min_def)
  have m: "word_mask limit idx = (if ?n = 64 then - 1 else 2 ^ ?n - 1)" by (auto simp: word_mask_def min_def)
  have "find ?P [0..<?n] = find (\<lambda>s. \<not> bit w s) [0..<?n]" by (rule find_cong) (auto simp: bm_mem_Cons)
  also have "\<dots> = (if NOT w AND word_mask limit idx = 0 then None else Some (trailing_zeros (NOT w AND word_mask limit idx)))"
    by (rule find_masked [OF min.cobounded1 m])
  finally have A: "find ?P [0..<?n] = (if NOT w AND word_mask limit idx = 0 then None else Some (trailing_zeros (NOT w AND word_mask limit idx)))" .
  have B: "find ?P (map (\<lambda>x. 64 + x) [0..<?m]) = map_option (\<lambda>x. 64 + x) (find (\<lambda>s. \<not> bm_mem ws s) [0..<?m])"
    by (simp add: find_map bm_mem_Cons)
  show ?thesis unfolding split find_append A B by simp
qed

lemma registry_take_find:
  assumes "limit \<le> 64 * (idx + length bm)"
  shows "case find (\<lambda>s. \<not> bm_mem bm s) [0..<limit - idx * 64] of
      None \<Rightarrow> registry_take limit idx bm = None
    | Some s \<Rightarrow> \<exists>bm'. registry_take limit idx bm = Some (idx * 64 + s, bm') \<and> length bm' = length bm
        \<and> (\<forall>i. bm_mem bm' i \<longleftrightarrow> i = s \<or> bm_mem bm i)"
  using assms
proof (induction bm arbitrary: idx)
  case (Cons w ws)
  let ?v = "NOT w AND word_mask limit idx"
  show ?case
  proof (cases "idx * 64 < limit")
    case False
    then show ?thesis by (simp add: registry_take_Cons)
  next
    case in_range: True
    show ?thesis
    proof (cases "?v = 0")
      case False
      then show ?thesis unfolding find_word registry_take_Cons using in_range
          trailing_zeros_bit(1) [OF False] bm_mem_set_first [of "trailing_zeros ?v" w ws] by simp
    next
      case z: True
      show ?thesis
      proof (cases "find (\<lambda>s. \<not> bm_mem ws s) [0..<limit - Suc idx * 64]")
        case None
        then show ?thesis using z in_range Cons.IH [of "Suc idx"] Cons.prems unfolding find_word registry_take_Cons by simp
      next
        case (Some s)
        then obtain bm' where b: "registry_take limit (Suc idx) ws = Some (Suc idx * 64 + s, bm')" "length bm' = length ws"
          "\<And>i. bm_mem bm' i \<longleftrightarrow> i = s \<or> bm_mem ws i"
          using Cons.IH [of "Suc idx"] Cons.prems by auto
        have "bm_mem (w # bm') i \<longleftrightarrow> i = 64 + s \<or> bm_mem (w # ws) i" for i
        proof (cases "i < 64")
          case False
          then have "i - 64 = s \<longleftrightarrow> i = 64 + s" by linarith
          then show ?thesis using False by (simp only: bm_mem_Cons if_False b(3))
        qed (simp add: bm_mem_Cons)
        moreover have "registry_take limit idx (w # ws) = Some (idx * 64 + (64 + s), w # bm')"
          using z in_range b(1) by (simp add: registry_take_Cons)
        ultimately show ?thesis using z Some b(2) unfolding find_word by simp
      qed
    qed
  qed
qed simp

section \<open>The registries implement a set of slots\<close>

text \<open>What a registry promises: the set of allocated slots below a capacity, the lowest free one
  allocated first.\<close>

datatype registry_call = RgAllocate | RgRelease nat | RgIsAllocated nat

datatype registry_reply = RgSlot "register_error + nat" | RgDone "register_error + unit" | RgBool bool

fun registry_spec :: "nat \<times> nat set \<Rightarrow> registry_call \<Rightarrow> registry_reply \<times> nat \<times> nat set" where
  "registry_spec (cap, A) RgAllocate =
     (case find (\<lambda>s. s \<notin> A) [0..<cap] of
        None \<Rightarrow> (RgSlot (Inl SlotExhausted), cap, A)
      | Some s \<Rightarrow> (RgSlot (Inr s), cap, insert s A))"
| "registry_spec (cap, A) (RgRelease s) =
     (if s \<in> A then (RgDone (Inr ()), cap, A - {s}) else (RgDone (Inl RegInvalidArgument), cap, A))"
| "registry_spec (cap, A) (RgIsAllocated s) = (RgBool (s \<in> A), cap, A)"

text \<open>Slot numbers of width \<open>'a\<close> are given by naturals that fit.\<close>

fun registry_exec :: "'a::len word slot_registry \<Rightarrow> registry_call \<Rightarrow> (registry_reply \<times> 'a word slot_registry) exec" where
  "registry_exec r RgAllocate = (case registry_allocate unat of_nat r of (x, r') \<Rightarrow> Ret (RgSlot (map_sum id unat x), r'))"
| "registry_exec r (RgRelease s) =
     (if s < 2 ^ LENGTH('a) then case registry_release unat r (of_nat s) of (x, r') \<Rightarrow> Ret (RgDone x, r')
      else Ret (RgDone (Inl RegInvalidArgument), r))"
| "registry_exec r (RgIsAllocated s) =
     (if s < 2 ^ LENGTH('a) then Ret (RgBool (registry_is_allocated unat r (of_nat s)), r) else Ret (RgBool False, r))"

definition registry_wf :: "'a::len word slot_registry \<Rightarrow> bool" where
  "registry_wf r \<longleftrightarrow> unat (sr_capacity r) \<le> 64 * length (sr_used r)
     \<and> (\<forall>i < 64 * length (sr_used r). bm_mem (sr_used r) i \<longrightarrow> i < unat (sr_capacity r))"

definition registry_abs :: "'a::len word slot_registry \<Rightarrow> nat \<times> nat set" where
  "registry_abs r = (unat (sr_capacity r), {i. i < unat (sr_capacity r) \<and> bm_mem (sr_used r) i})"

lemma registry_exec_refines:
  fixes r :: "'a::len word slot_registry"
  assumes wf: "registry_wf r"
  shows "\<exists>x r'. registry_exec r c = Ret (x, r') \<and> registry_wf r' \<and> registry_spec (registry_abs r) c = (x, registry_abs r')"
proof (cases c)
  case RgAllocate
  let ?cap = "unat (sr_capacity r)"
  have f: "find (\<lambda>s. s \<notin> {i. i < ?cap \<and> bm_mem (sr_used r) i}) [0..<?cap] = find (\<lambda>s. \<not> bm_mem (sr_used r) s) [0..<?cap]"
    by (rule find_cong) auto
  have cap: "?cap \<le> 64 * length (sr_used r)" using wf by (simp add: registry_wf_def)
  note T = registry_take_find [of ?cap 0 "sr_used r"]
  show ?thesis
  proof (cases "find (\<lambda>s. \<not> bm_mem (sr_used r) s) [0..<?cap]")
    case None
    then show ?thesis using T cap f wf RgAllocate by (simp add: registry_allocate_def registry_abs_def)
  next
    case (Some s)
    then obtain bm' where b: "registry_take ?cap 0 (sr_used r) = Some (s, bm')" "length bm' = length (sr_used r)"
      "\<forall>i. bm_mem bm' i \<longleftrightarrow> i = s \<or> bm_mem (sr_used r) i" using T cap by auto
    have s: "s < ?cap" using Some by (auto simp: find_Some_iff)
    also have "?cap < 2 ^ LENGTH('a)" by (rule unsigned_less)
    finally have u: "unat (of_nat s :: 'a word) = s" by (simp add: unat_of_nat take_bit_nat_eq_self)
    have "{i. i < ?cap \<and> bm_mem bm' i} = insert s {i. i < ?cap \<and> bm_mem (sr_used r) i}" using b(3) s by auto
    then show ?thesis using Some f RgAllocate b wf s u by (auto simp: registry_allocate_def registry_abs_def registry_wf_def)
  qed
next
  case (RgRelease s)
  show ?thesis
  proof (cases "s < unat (sr_capacity r) \<and> bm_mem (sr_used r) s")
    case False
    then show ?thesis using RgRelease wf
      by (auto simp: registry_abs_def registry_release_def bm_test_at Let_def unat_of_nat take_bit_nat_eq_self)
  next
    case True
    have l: "s < 64 * length (sr_used r)" "s < 2 ^ LENGTH('a)"
      using True wf less_trans [OF conjunct1 [OF True] unsigned_less] by (auto simp: registry_wf_def)
    then have u: "unat (of_nat s :: 'a word) = s" by (simp add: unat_of_nat take_bit_nat_eq_self)
    have "{i. i < unat (sr_capacity r) \<and> bm_mem (bm_drop (sr_used r) (s div 64, s mod 64)) i}
        = {i. i < unat (sr_capacity r) \<and> bm_mem (sr_used r) i} - {s}" using bm_drop_at [OF l(1)] by auto
    then show ?thesis using RgRelease True wf l u bm_drop_at [OF l(1)]
      by (auto simp: registry_abs_def registry_release_def registry_wf_def bm_test_at Let_def)
  qed
next
  case (RgIsAllocated s)
  have "s < 2 ^ LENGTH('a)" if "s < unat (sr_capacity r)" using less_trans [OF that unsigned_less] .
  then show ?thesis using RgIsAllocated wf
    by (auto simp: registry_abs_def registry_is_allocated_def bm_test_at unat_of_nat take_bit_nat_eq_self)
qed

interpretation registered: call_refinement registry_wf registry_abs registry_exec registry_spec
  by unfold_locales (rule registry_exec_refines)

lemma registered_new_wf:
  "registry_wf (registered_buffers_new c)" "registry_abs (registered_buffers_new c) = (min (unat c) 32768, {})"
  "registry_wf (registered_fds_new n)" "registry_abs (registered_fds_new n) = (min (unat n) 65536, {})"
proof -
  have c: "unat (of_nat (min (unat c) 32768) :: u16) = min (unat c) 32768" by (simp add: min_def)
  have n: "unat (of_nat (min (unat n) 65536) :: u32) = min (unat n) 65536" by (rule unat_of_nat_u32) (simp add: min_def)
  have z: "\<not> bm_mem (replicate k 0) i" if "i < 64 * k" for i k using that by simp
  show "registry_wf (registered_buffers_new c)" "registry_abs (registered_buffers_new c) = (min (unat c) 32768, {})"
    using c z [of _ 512] by (auto simp: registry_wf_def registry_abs_def registered_buffers_new_def MAX_REGISTERED_BUFFERS_def)
  show "registry_wf (registered_fds_new n)" "registry_abs (registered_fds_new n) = (min (unat n) 65536, {})"
    using n z [of _ 1024] by (auto simp: registry_wf_def registry_abs_def registered_fds_new_def MAX_REGISTERED_FDS_def)
qed

end
