(* ===== verification/Spec2Isabelle.thy ===== *)
theory Spec2Isabelle
  imports Slab Ir_Roundtrip Ring_Inbox Run_Queue Children Timer_Ops Mpsc_Ring
    Inflight_Refine Recv_Refine Accept_Slab Seam_Stream Bump_Arena Provided_Buf Slot_Registry
begin

text \<open>
  A verification development of kwokka, a thread-per-core asynchronous runtime in Rust.

  The program. A worker owns a slab of task cells (\<open>kwokka-core/src/slab\<close>,
  \<open>kwokka-runtime/src/task\<close>), a run queue threaded through the task headers, inboxes for spawned
  tasks, timer requests and wakes from other workers, a hierarchical timer wheel, and an I/O
  driver. Futures submit operations through the seam of \<open>kwokka-io\<close>, whose slabs keep what the
  kernel may still write to; completions come back under 64-bit tokens and are routed to tasks or
  to multishot streams; a dropped future leaves a cancel in an inbox of its worker.
  \<open>kwokka-ir\<close> is a separate codec for the description of a conductor, a graph of stages.
  Paths below are relative to \<open>src/crates/\<close>.

  Conventions (\<open>Kwokka_Prelude\<close>). Machine integers are words, or naturals with checked arithmetic
  where the source indexes with \<open>usize\<close>. A Rust function that can fail to return has a result in
  \<open>exec\<close>: \<open>Ret\<close>, \<open>Panic\<close> (also an arithmetic overflow, as in a build with overflow checks)
  or \<open>Undefined\<close> (a read of uninitialised or foreign memory). \<open>Result\<close> is a sum with the error on
  the left. A loop whose end is not structural is a \<open>partial_function\<close> with values in \<open>option\<close>,
  so a loop that does not end is \<open>None\<close>; the properties state that \<open>Some\<close> is returned. No
  definition uses fuel. Effects on the kernel are appended to a log, and what the kernel does is
  an event of a sequence that the properties quantify over.

  \<^item> Slab: \<open>Slab_Key\<close> (generations, packed keys and task references), \<open>Slab\<close>
    (\<open>kwokka-core/src/slab/slab.rs\<close>). The free list with its generations implements a finite map
    under issued keys; stale keys stay dead until the 24-bit generation wraps; reservations, the
    iterator and the drop are exact; a forged key with an even generation is not safe.
  \<^item> Arena: \<open>Bump_Arena\<close> (\<open>kwokka-core/src/arena\<close>). Blocks are aligned, disjoint and inside the
    region, and destructors run once, in reverse order. The system allocator is a parameter.
  \<^item> Identifiers: \<open>Pip_Id\<close> (\<open>kwokka-core/src/id\<close>). Ids are unique per counter, and the ancestry filters
    are right for ids of the process-wide counter.
  \<^item> Codec: \<open>Ir_Bytes\<close>, \<open>Ir_Reader\<close>, \<open>Ir_Check\<close>, \<open>Ir_Writer\<close> follow the files of \<open>kwokka-ir/src\<close>;
    \<open>Ir_Sound\<close> shows what an accepted blob guarantees; \<open>Ir_Encoding\<close> gives a reference encoding
    that the passes of the writer produce; \<open>Ir_Roundtrip\<close> is the round trip, and a blob whose sorted
    index leaves a stage out.
  \<^item> Tasks: \<open>Task_State\<close> (the atomic lifecycle word, with one compare-exchange per step of any
    number of threads, spurious failures included, on the operations of \<open>state.rs\<close> themselves),
    \<open>Task_Cell\<close> (the union of future and output), \<open>Task_Store\<close> (the contract
    \<open>task_storage\<close> of the trait \<open>TaskStorage\<close>), \<open>Link_Chain\<close> (intrusive lists), \<open>Run_Queue\<close> and
    \<open>Children\<close>, which implement a queue and a list.
  \<^item> Inboxes: \<open>Ring_Inbox\<close> (\<open>kwokka-runtime/src/worker/queue\<close>) with the contract \<open>bounded_fifo\<close>.
  \<^item> Timers: \<open>Timer_Wheel\<close> (\<open>kwokka-runtime/src/timer/wheel\<close>), \<open>Timer_Slots\<close>, \<open>Timer_Rep\<close>,
    \<open>Timer_Place\<close>, \<open>Timer_Advance\<close> and \<open>Timer_Ops\<close>: slots are lists in the slab, every entry sits
    where its deadline belongs, and a pass fires exactly the due timers in deadline order.
  \<^item> Wakes: \<open>Mpsc_Ring\<close> (\<open>kwokka-runtime/src/sync/mpsc.rs\<close>), one atomic access per step, under every
    interleaving of the producers with the consumer.
  \<^item> I/O slabs: \<open>Slot_Bitmap\<close>; \<open>Inflight_Slab\<close>, \<open>Inflight_Spec\<close>, \<open>Inflight_Refine\<close>
    (\<open>kwokka-io/src/buffer/oneshot\<close>); \<open>Stream_Spec\<close>, \<open>Recv_Slab\<close>, \<open>Recv_Refine\<close>, \<open>Accept_Slab\<close>
    (\<open>buffer/multishot\<close>); \<open>Slot_Registry\<close> (\<open>buffer/registration\<close>). Each implements a table of slots,
    call by call, through the contract \<open>call_refinement\<close> of \<open>Call_Refinement\<close>.
  \<^item> Provided buffers: \<open>Buf_Ring\<close> (\<open>kwokka-io/src/buffer/ring\<close>, the ring shared with the kernel as
    bytes) and \<open>Provided_Buf\<close> (the registry of pools with its epochs, and the views).
  \<^item> Cancellation: \<open>Cancel_Token\<close>, \<open>Cancel_Queue\<close>, \<open>Cancel_Push\<close> (\<open>kwokka-io/src/boundary/cancel\<close>,
    \<open>seam/cancel.rs\<close>).
  \<^item> Seam: \<open>Seam_Drain\<close> (\<open>kwokka-io/src/boundary/seam/drain.rs\<close>), \<open>Seam_Stream\<close> (the multishot part of
    \<open>seam/state.rs\<close>). \<open>Seam_Conserve\<close> and \<open>Resource_Account\<close> hold the contracts \<open>stream_drain\<close> and
    \<open>conserving\<close>: no provided buffer is lost or handed out twice, and of the accepted descriptors only
    one that comes with a final completion its stream cannot take, which the code does not close.

  Bounds. Where a claim has a bound it is the width of a counter: 24 bits of a slab generation,
  64 bits of the counters of the I/O slabs, 48 bits of an issued sequence number; the statement
  gives it. The step bounds of the claims about a thread that runs alone count atomic
  accesses of the model, and say what a spurious failure of a weak exchange adds.

  Memory model. The interleaved models (\<open>Task_State\<close>, \<open>Mpsc_Ring\<close>) have sequentially consistent
  memory; the acquire and release orderings of the source are not distinguished.

  Not modelled.
  \<^item> The drivers (\<open>kwokka-io/src/driver\<close>, \<open>uring\<close>, \<open>capability\<close>): system calls and the io-uring crate,
    which is not part of the sources. Of the wake descriptor and of mapped regions only the token
    and the zeroed memory appear.
  \<^item> The one-shot half of the seam (slot allocation for a poll, copies into slots, message headers),
    address packing and the operation futures of \<open>kwokka-io/src/operation\<close>. The in-flight slab they
    use is modelled; their raw pointers into the driver are not.
  \<^item> The worker cycle, run loops, parking, work stealing, join handles, scopes and sleep futures
    of \<open>kwokka-runtime\<close>: they compose the modelled parts with the polling of user futures through
    erased vtables, and a faithful account needs a model of those polls and of moved frames.
  \<^item> Runtime builders and crews (threads, configuration), the network and file crates (wrappers of
    futures and system calls), the macros, the facade, formatting of values, and the variants of
    functions compiled for systems other than Linux.
\<close>

end
